(* ===== verification/Prelude.thy ===== *)
theory Prelude
  imports Main "HOL-Library.Word" "HOL-Library.Monad_Syntax" "HOL-Library.Multiset"
begin

text \<open>
  Shared vocabulary of the development: the machine integer types of the C sources, the
  reading of the C run-time failures as the value \<^const>\<open>None\<close>, C strings, and the container
  that stands for the kernel's red-black trees.

  A function of the model whose result type is an \<open>option\<close> returns \<^const>\<open>None\<close> exactly where
  the C function does not return normally: a failed \<open>BUG_ON\<close> or \<open>assert\<close>, an \<open>abort\<close>, a read
  or write outside an array, a division by zero, or a spin lock taken while it is held.
\<close>

unbundle bit_operations_syntax

section \<open>Machine integers\<close>

type_synonym u8 = "8 word"
type_synonym u16 = "16 word"
type_synonym u32 = "32 word"
type_synonym u64 = "64 word"

named_theorems crash_simps \<open>equations for the operations that may crash\<close>
named_theorems wf_intros \<open>preservation of the well-formedness invariants\<close>

text \<open>Division of unsigned integers traps on a zero divisor.\<close>

definition udiv :: "'a::len word \<Rightarrow> 'a word \<Rightarrow> 'a word option" where
  "udiv a b = (if b = 0 then None else Some (a div b))"

lemma udiv_eq_Some [crash_simps]: "udiv a b = Some c \<longleftrightarrow> b \<noteq> 0 \<and> c = a div b"
  by (auto simp: udiv_def)

lemma udiv_nonzero [simp]: "b \<noteq> 0 \<Longrightarrow> udiv a b = Some (a div b)"
  by (simp add: udiv_def)

text \<open>Division of signed integers rounds towards zero.\<close>

definition cdiv :: "int \<Rightarrow> int \<Rightarrow> int" where
  "cdiv a b = sgn a * sgn b * (\<bar>a\<bar> div \<bar>b\<bar>)"

lemma cdiv_nonneg [simp]: "0 \<le> a \<Longrightarrow> 0 < b \<Longrightarrow> cdiv a b = a div b"
  by (cases "a = 0") (simp_all add: cdiv_def)

text \<open>Widening a 32-bit value and cutting it again.\<close>

lemma ucast_ucast_32 [simp]: "ucast (ucast (w :: u32) :: u64) = w"
  by (rule bit_word_eqI) (simp add: bit_ucast_iff)

text \<open>\<open>BUG_ON\<close> and \<open>assert\<close>.\<close>

definition ensure :: "bool \<Rightarrow> unit option" where
  "ensure b = (if b then Some () else None)"

lemma ensure_eq_Some [crash_simps]: "ensure b = Some u \<longleftrightarrow> b"
  by (simp add: ensure_def)

lemma ensure_simps [simp]: "ensure True = Some ()" "ensure False = None"
  by (simp_all add: ensure_def)

text \<open>Array accesses, with the bounds the C code does not check.\<close>

definition aget :: "'a list \<Rightarrow> nat \<Rightarrow> 'a option" where
  "aget xs i = (if i < length xs then Some (xs ! i) else None)"

definition aset :: "'a list \<Rightarrow> nat \<Rightarrow> 'a \<Rightarrow> 'a list option" where
  "aset xs i v = (if i < length xs then Some (xs[i := v]) else None)"

lemma aget_eq_Some [crash_simps]: "aget xs i = Some v \<longleftrightarrow> i < length xs \<and> v = xs ! i"
  by (auto simp: aget_def)

lemma aset_eq_Some [crash_simps]: "aset xs i v = Some ys \<longleftrightarrow> i < length xs \<and> ys = xs[i := v]"
  by (auto simp: aset_def)

lemma aget_in [simp]: "i < length xs \<Longrightarrow> aget xs i = Some (xs ! i)"
  by (simp add: aget_def)

lemma aset_in [simp]: "i < length xs \<Longrightarrow> aset xs i v = Some (xs[i := v])"
  by (simp add: aset_def)

text \<open>Removal from a tail queue of QEMU, whose elements are numbered; the element must be in the queue.\<close>

definition qtailq_remove :: "nat \<Rightarrow> nat list \<Rightarrow> nat list option" where
  "qtailq_remove x xs = (if x \<in> set xs then Some (remove1 x xs) else None)"

lemma qtailq_remove_in [simp]: "x \<in> set xs \<Longrightarrow> qtailq_remove x xs = Some (remove1 x xs)"
  by (simp add: qtailq_remove_def)

text \<open>A loop whose body may crash.\<close>

fun ofold :: "('a \<Rightarrow> 's \<Rightarrow> 's option) \<Rightarrow> 'a list \<Rightarrow> 's \<Rightarrow> 's option" where
  "ofold f [] s = Some s"
| "ofold f (x # xs) s = do { t \<leftarrow> f x s; ofold f xs t }"

lemma ofold_append: "ofold f (xs @ ys) s = do { t \<leftarrow> ofold f xs s; ofold f ys t }"
  by (induction xs arbitrary: s) (auto split: Option.bind_splits)

text \<open>The total-correctness rule for such a loop: an invariant that every iteration keeps
  while returning is kept by the loop, which returns.\<close>

lemma ofold_invariant:
  assumes "I s"
    and "\<And>x s. x \<in> set xs \<Longrightarrow> I s \<Longrightarrow> \<exists>t. f x s = Some t \<and> I t"
  shows "\<exists>t. ofold f xs s = Some t \<and> I t"
  using assms
proof (induction xs arbitrary: s)
  case Nil
  then show ?case by simp
next
  case (Cons x xs)
  from Cons.prems(1) Cons.prems(2) [of x s] obtain t where t: "f x s = Some t" "I t" by auto
  have "\<exists>t'. ofold f xs t = Some t' \<and> I t'"
    using t(2) Cons.prems(2) by (intro Cons.IH) auto
  with t(1) show ?case by simp
qed

lemma find_append: "find P (xs @ ys) = (case find P xs of None \<Rightarrow> find P ys | Some x \<Rightarrow> Some x)"
  by (induction xs) simp_all

section \<open>C strings\<close>

text \<open>A C string is the list of its characters before the terminating NUL.  \<open>snprintf\<close> into a
  buffer of \<open>n\<close> bytes keeps the first \<open>n - 1\<close> of them.\<close>

definition snprintf :: "nat \<Rightarrow> string \<Rightarrow> string" where
  "snprintf n s = take (n - 1) s"

lemma length_snprintf [simp]: "length (snprintf n s) \<le> n - 1"
  by (simp add: snprintf_def)

fun strstr :: "string \<Rightarrow> string \<Rightarrow> bool" where
  "strstr [] w = (w = [])"
| "strstr (c # s) w = (take (length w) (c # s) = w \<or> strstr s w)"

lemma strstr_iff: "strstr s w \<longleftrightarrow> (\<exists>p q. s = p @ w @ q)"
proof (induction s w rule: strstr.induct)
  case (1 w)
  show ?case by simp
next
  case (2 c s w)
  have "(\<exists>p q. c # s = p @ w @ q) \<longleftrightarrow> (\<exists>q. c # s = w @ q) \<or> (\<exists>p q. s = p @ w @ q)"
    by (auto simp: Cons_eq_append_conv)
  moreover have "take (length w) (c # s) = w \<longleftrightarrow> (\<exists>q. c # s = w @ q)"
    by (metis append_eq_conv_conj append_take_drop_id)
  ultimately show ?case using 2 by simp
qed

text \<open>Decimal printing of a non-negative \<open>int\<close> (the \<open>%d\<close> conversion).\<close>

fun dec :: "nat \<Rightarrow> string" where
  "dec n = (if n < 10 then [char_of (48 + n)] else dec (n div 10) @ [char_of (48 + n mod 10)])"

declare dec.simps [simp del]

end
