(* ===== verification/Rbtree.thy ===== *)
theory Rbtree
  imports Prelude
begin

text \<open>
  The kernel's red-black trees (\<open>struct rb_root\<close>), as the f2fs sources use them: a tree is
  represented by the sequence of its nodes in \<open>rb_first\<close>/\<open>rb_next\<close> order.  The descent loops
  of the sources compare one integer key per node, so on an ordered tree a search finds the
  node with that key if there is one (\<open>rb_search\<close>), and \<open>rb_link_node\<close> with
  \<open>rb_insert_color\<close> puts a node before the first node with a larger key (\<open>rb_link\<close>).

  The interface the clients rely on is the locale \<open>keyed_store\<close>: the laws of a finite map that
  is kept ordered.  \<open>rbtree_keyed_store\<close> proves them for the four operations once, for every
  key function.
\<close>

definition rb_search :: "('e \<Rightarrow> 'k) \<Rightarrow> 'k \<Rightarrow> 'e list \<Rightarrow> 'e option" where
  "rb_search key k t = find (\<lambda>e. key e = k) t"

definition rb_link :: "('e \<Rightarrow> 'k::linorder) \<Rightarrow> 'k \<Rightarrow> 'e \<Rightarrow> 'e list \<Rightarrow> 'e list" where
  "rb_link key k e t = takeWhile (\<lambda>x. key x < k) t @ e # dropWhile (\<lambda>x. key x < k) t"

definition rb_modify :: "('e \<Rightarrow> 'k) \<Rightarrow> 'k \<Rightarrow> ('e \<Rightarrow> 'e) \<Rightarrow> 'e list \<Rightarrow> 'e list" where
  "rb_modify key k f t = map (\<lambda>e. if key e = k then f e else e) t"

definition rb_erase :: "('e \<Rightarrow> 'k) \<Rightarrow> 'k \<Rightarrow> 'e list \<Rightarrow> 'e list" where
  "rb_erase key k t = filter (\<lambda>e. key e \<noteq> k) t"

definition rb_ordered :: "('e \<Rightarrow> 'k::linorder) \<Rightarrow> 'e list \<Rightarrow> bool" where
  "rb_ordered key t = sorted_wrt (<) (map key t)"

locale keyed_store =
  fixes key :: "'e \<Rightarrow> 'k::linorder"
    and search :: "'k \<Rightarrow> 't \<Rightarrow> 'e option"
    and link :: "'k \<Rightarrow> 'e \<Rightarrow> 't \<Rightarrow> 't"
    and modify :: "'k \<Rightarrow> ('e \<Rightarrow> 'e) \<Rightarrow> 't \<Rightarrow> 't"
    and erase :: "'k \<Rightarrow> 't \<Rightarrow> 't"
    and nodes :: "'t \<Rightarrow> 'e set"
    and inv :: "'t \<Rightarrow> bool"
  assumes search_nodes: "inv t \<Longrightarrow> search k t = Some e \<longleftrightarrow> e \<in> nodes t \<and> key e = k"
    and nodes_link: "nodes (link k e t) = insert e (nodes t)"
    and nodes_modify: "nodes (modify k f t) = (\<lambda>e. if key e = k then f e else e) ` nodes t"
    and nodes_erase: "nodes (erase k t) = {e \<in> nodes t. key e \<noteq> k}"
    and inv_link: "inv t \<Longrightarrow> search k t = None \<Longrightarrow> key e = k \<Longrightarrow> inv (link k e t)"
    and inv_modify: "inv t \<Longrightarrow> (\<And>e. key e = k \<Longrightarrow> key (f e) = k) \<Longrightarrow> inv (modify k f t)"
    and inv_erase: "inv t \<Longrightarrow> inv (erase k t)"
begin

lemma search_None: "inv t \<Longrightarrow> search k t = None \<longleftrightarrow> (\<forall>e\<in>nodes t. key e \<noteq> k)"
  using search_nodes [of t k] by (metis not_Some_eq)

lemma search_eqI: "inv t \<Longrightarrow> inv t' \<Longrightarrow>
    (\<And>e. e \<in> nodes t \<and> key e = k \<longleftrightarrow> e \<in> nodes t' \<and> key e = k) \<Longrightarrow> search k t = search k t'"
  using search_nodes [of t k] search_nodes [of t' k] by (metis not_Some_eq)

lemma search_link:
  assumes "inv t" "search k t = None" "key e = k"
  shows "search k' (link k e t) = (if k' = k then Some e else search k' t)"
proof (cases "k' = k")
  case True
  have "search k (link k e t) = Some e"
    using assms by (simp add: search_nodes inv_link nodes_link)
  with True show ?thesis by simp
next
  case False
  have "search k' (link k e t) = search k' t"
    using assms False by (intro search_eqI) (auto simp: inv_link nodes_link)
  with False show ?thesis by simp
qed

lemma search_modify:
  assumes "inv t" "\<And>e. key e = k \<Longrightarrow> key (f e) = k"
  shows "search k' (modify k f t) = (if k' = k then map_option f (search k' t) else search k' t)"
proof (cases "k' = k")
  case True
  show ?thesis
  proof (cases "search k t")
    case None
    then have "search k (modify k f t) = None"
      using assms by (auto simp: search_None inv_modify nodes_modify)
    with True None show ?thesis by simp
  next
    case (Some e)
    with assms(1) have e: "e \<in> nodes t" "key e = k" by (simp_all add: search_nodes)
    have "search k (modify k f t) = Some (f e)"
      using assms e by (auto simp: search_nodes inv_modify nodes_modify image_iff)
    with True Some show ?thesis by simp
  qed
next
  case False
  have "search k' (modify k f t) = search k' t"
    using assms False by (intro search_eqI) (auto simp: inv_modify nodes_modify image_iff)
  with False show ?thesis by simp
qed

lemma search_erase:
  assumes "inv t"
  shows "search k' (erase k t) = (if k' = k then None else search k' t)"
proof (cases "k' = k")
  case True
  have "search k (erase k t) = None"
    using assms by (simp add: search_None inv_erase nodes_erase)
  with True show ?thesis by simp
next
  case False
  have "search k' (erase k t) = search k' t"
    using assms False by (intro search_eqI) (auto simp: inv_erase nodes_erase)
  with False show ?thesis by simp
qed

text \<open>A property of all nodes survives every operation that establishes it for the node it
  touches.\<close>

lemma all_link: "(\<forall>e\<in>nodes t. P e) \<Longrightarrow> P e' \<Longrightarrow> \<forall>e\<in>nodes (link k e' t). P e"
  by (simp add: nodes_link)

lemma all_modify:
  "(\<forall>e\<in>nodes t. P e) \<Longrightarrow> (\<And>e. e \<in> nodes t \<Longrightarrow> key e = k \<Longrightarrow> P e \<Longrightarrow> P (f e)) \<Longrightarrow>
   \<forall>e\<in>nodes (modify k f t). P e"
  by (auto simp: nodes_modify)

lemma all_erase: "(\<forall>e\<in>nodes t. P e) \<Longrightarrow> \<forall>e\<in>nodes (erase k t). P e"
  by (simp add: nodes_erase)

end

lemma rb_ordered_distinct: "rb_ordered key t \<Longrightarrow> distinct (map key t)"
  by (simp add: rb_ordered_def strict_sorted_iff)

lemma rb_search_Some:
  assumes "rb_ordered key t"
  shows "rb_search key k t = Some e \<longleftrightarrow> e \<in> set t \<and> key e = k"
proof
  assume "rb_search key k t = Some e"
  then show "e \<in> set t \<and> key e = k"
    by (auto simp: rb_search_def find_Some_iff)
next
  assume e: "e \<in> set t \<and> key e = k"
  then obtain e' where e': "rb_search key k t = Some e'"
    by (cases "rb_search key k t") (auto simp: rb_search_def find_None_iff)
  then have "e' \<in> set t \<and> key e' = k"
    by (auto simp: rb_search_def find_Some_iff)
  with e rb_ordered_distinct [OF assms] have "e' = e"
    by (simp add: distinct_map inj_on_def)
  with e' show "rb_search key k t = Some e" by simp
qed

lemma rb_ordered_link:
  assumes "rb_ordered key t" "rb_search key k t = None" "key e = k"
  shows "rb_ordered key (rb_link key k e t)"
proof -
  let ?l = "takeWhile (\<lambda>x. key x < k) t" and ?r = "dropWhile (\<lambda>x. key x < k) t"
  have t: "t = ?l @ ?r" by simp
  from assms(1) have ord: "sorted_wrt (<) (map key ?l @ map key ?r)"
    by (simp add: rb_ordered_def flip: map_append)
  have l: "\<forall>x\<in>set ?l. key x < k" by (auto dest: set_takeWhileD)
  have ne: "\<forall>x\<in>set t. key x \<noteq> k"
    using assms(2) by (auto simp: rb_search_def find_None_iff)
  have r: "\<forall>x\<in>set ?r. k < key x"
  proof (cases ?r)
    case Nil
    then show ?thesis by (simp only: list.set ball_empty)
  next
    case (Cons y ys)
    then have "\<not> key y < k" by (metis hd_dropWhile list.distinct(1) list.sel(1))
    moreover have "y \<in> set t" using Cons by (metis list.set_intros(1) set_dropWhileD)
    ultimately have "k < key y" using ne by force
    moreover have "\<forall>x\<in>set ys. key y < key x"
      using ord Cons by (simp add: sorted_wrt_append)
    ultimately show ?thesis using Cons by force
  qed
  from ord l r assms(3) show ?thesis
    by (auto simp: rb_ordered_def rb_link_def sorted_wrt_append)
qed

lemma rb_ordered_modify:
  assumes "rb_ordered key t" "\<And>e. key e = k \<Longrightarrow> key (f e) = k"
  shows "rb_ordered key (rb_modify key k f t)"
proof -
  have "map key (rb_modify key k f t) = map key t"
    using assms(2) by (simp add: rb_modify_def)
  with assms(1) show ?thesis by (simp add: rb_ordered_def)
qed

lemma rb_ordered_erase: "rb_ordered key t \<Longrightarrow> rb_ordered key (rb_erase key k t)"
  by (simp add: rb_ordered_def rb_erase_def sorted_wrt_map sorted_wrt_filter)

lemma rbtree_keyed_store:
  "keyed_store key (rb_search key) (rb_link key) (rb_modify key) (rb_erase key) set (rb_ordered key)"
proof
  show "set (rb_link key k e t) = insert e (set t)" for k e t
  proof -
    have "set t = set (takeWhile (\<lambda>x. key x < k) t) \<union> set (dropWhile (\<lambda>x. key x < k) t)"
      by (subst takeWhile_dropWhile_id [of "\<lambda>x. key x < k" t, symmetric]) (rule set_append)
    then show ?thesis by (simp add: rb_link_def)
  qed
  show "set (rb_modify key k f t) = (\<lambda>e. if key e = k then f e else e) ` set t" for k f t
    by (simp add: rb_modify_def)
  show "set (rb_erase key k t) = {e \<in> set t. key e \<noteq> k}" for k t
    by (simp add: rb_erase_def)
qed (simp_all add: rb_search_Some rb_ordered_link rb_ordered_modify rb_ordered_erase)

section \<open>Trees whose nodes satisfy an invariant\<close>

definition rb_wf :: "('e \<Rightarrow> 'k::linorder) \<Rightarrow> ('e \<Rightarrow> bool) \<Rightarrow> 'e list \<Rightarrow> bool" where
  "rb_wf key ok t \<longleftrightarrow> rb_ordered key t \<and> (\<forall>e\<in>set t. ok e)"

lemma rb_wf_Nil [simp]: "rb_wf key ok []"
  by (simp add: rb_wf_def rb_ordered_def)

lemma rb_wf_search: "rb_wf key ok t \<Longrightarrow> rb_search key k t = Some e \<Longrightarrow> ok e \<and> key e = k \<and> e \<in> set t"
  by (simp add: rb_wf_def rb_search_Some)

lemma rb_wf_link [wf_intros]:
  "rb_wf key ok t \<Longrightarrow> rb_search key k t = None \<Longrightarrow> key e = k \<Longrightarrow> ok e \<Longrightarrow> rb_wf key ok (rb_link key k e t)"
  unfolding rb_wf_def
  by (intro conjI rb_ordered_link keyed_store.all_link [OF rbtree_keyed_store]) auto

lemma rb_wf_modify [wf_intros]:
  "rb_wf key ok t \<Longrightarrow> (\<And>e. key e = k \<Longrightarrow> key (f e) = k) \<Longrightarrow> (\<And>e. ok e \<Longrightarrow> key e = k \<Longrightarrow> ok (f e)) \<Longrightarrow>
   rb_wf key ok (rb_modify key k f t)"
  unfolding rb_wf_def
  by (intro conjI rb_ordered_modify keyed_store.all_modify [OF rbtree_keyed_store]) auto

lemma rb_wf_erase [wf_intros]: "rb_wf key ok t \<Longrightarrow> rb_wf key ok (rb_erase key k t)"
  unfolding rb_wf_def
  by (intro conjI rb_ordered_erase keyed_store.all_erase [OF rbtree_keyed_store]) auto

end
