(* ===== verification/F2fs_Types.thy ===== *)
theory F2fs_Types
  imports Rbtree
begin

text \<open>
  The data of the stream component of f2fs (\<open>f2fs.h\<close>): the per-file and per-file-group
  entries, the two histories, the fields of the super block information the component reads
  and writes, and the inode fields it uses.  The build is the one the header configures:
  \<open>F2FS_FGROUP\<close> and \<open>F2FS_TRACE_ENABLE\<close> defined, \<open>MSTREAM_EXT\<close>, \<open>MSTREAM_DBDIR\<close>,
  \<open>MSTREAM_APP\<close>, \<open>CLUSTER_TIME\<close> and \<open>EXT4_MSTREAM\<close> not, \<open>NR_DATABASE\<close> zero.

  Unsigned C integers are words of their width.  A signed \<open>int\<close> or \<open>long\<close> is an \<open>int\<close>.
\<close>

section \<open>Constants\<close>

definition NR_CLUSTER :: nat where "NR_CLUSTER = 4"
definition EMA_W_NUM :: u64 where "EMA_W_NUM = 7"
definition EMA_W_DIV :: u64 where "EMA_W_DIV = 10"
definition CLUSTER_T :: u64 where "CLUSTER_T = 256 * 512 * 8"
definition PROFILE_T :: u64 where "PROFILE_T = 1024 * 512 * 8"
definition MAX_HISTORY :: nat where "MAX_HISTORY = 2048"
definition MAX_SAMPLE :: nat where "MAX_SAMPLE = 32"
definition SAMPLE_RATE :: u32 where "SAMPLE_RATE = 2"
definition COLD_RATE :: u64 where "COLD_RATE = 40"
definition STREAM_LIFE_RANGE :: int where "STREAM_LIFE_RANGE = 90"
definition VALID_FGROUP_RATE :: nat where "VALID_FGROUP_RATE = 95"

text \<open>The bound \<open>4294967295\<close> that stands for infinity in the searches of \<open>kmeans.c\<close>.\<close>

definition NO_DIST :: u64 where "NO_DIST = 4294967295"

text \<open>\<open>NR_CURSEG_DATA_TYPE\<close> is \<open>NR_CLUSTER + NR_DATABASE + NR_COLD\<close> with the last two zero, and
  there are three node logs.\<close>

definition NR_CURSEG_DATA_TYPE :: nat where "NR_CURSEG_DATA_TYPE = NR_CLUSTER"
definition NR_CURSEG_TYPE :: nat where "NR_CURSEG_TYPE = NR_CURSEG_DATA_TYPE + 3"
definition CURSEG_HOT_DATA :: int where "CURSEG_HOT_DATA = 0"
definition CURSEG_COLD_DATA :: int where "CURSEG_COLD_DATA = int NR_CURSEG_DATA_TYPE - 1"
definition CLUSTER_START_TYPE :: int where "CLUSTER_START_TYPE = CURSEG_HOT_DATA"

text \<open>\<open>enum FGROUP_FILE_TYPE\<close>.\<close>

definition FGROUP_INIT :: nat where "FGROUP_INIT = 0"
definition FGROUP_CACHE :: nat where "FGROUP_CACHE = 1"
definition FGROUP_FILES :: nat where "FGROUP_FILES = 2"
definition FGROUP_APPSPECIAL :: nat where "FGROUP_APPSPECIAL = 3"
definition FGROUP_EXEC :: nat where "FGROUP_EXEC = 4"
definition FGROUP_LIBMAIN :: nat where "FGROUP_LIBMAIN = 5"
definition FGROUP_EXT_JOURNAL :: nat where "FGROUP_EXT_JOURNAL = 6"
definition FGROUP_EXT_SPECIAL_JOURNAL :: nat where "FGROUP_EXT_SPECIAL_JOURNAL = 7"
definition FGROUP_EXT_BAK :: nat where "FGROUP_EXT_BAK = 8"
definition FGROUP_EXT_TMP :: nat where "FGROUP_EXT_TMP = 9"
definition FGROUP_EXT_WAL :: nat where "FGROUP_EXT_WAL = 10"
definition FGROUP_EXT_DBETC :: nat where "FGROUP_EXT_DBETC = 11"
definition FGROUP_APPWEBVIEW :: nat where "FGROUP_APPWEBVIEW = 12"
definition FGROUP_APPOTHERS :: nat where "FGROUP_APPOTHERS = 13"
definition FGROUP_CACHE_INDEX :: nat where "FGROUP_CACHE_INDEX = 14"
definition FGROUP_DATABASES :: nat where "FGROUP_DATABASES = 15"
definition FGROUP_DCIM :: nat where "FGROUP_DCIM = 16"
definition FGROUP_MOVIE :: nat where "FGROUP_MOVIE = 17"
definition FGROUP_MUSIC :: nat where "FGROUP_MUSIC = 18"
definition FGROUP_LOCAL :: nat where "FGROUP_LOCAL = 19"
definition FGROUP_SYSTEM :: nat where "FGROUP_SYSTEM = 20"
definition FGROUP_ETC :: nat where "FGROUP_ETC = 21"

lemmas fgroup_type_defs =
  FGROUP_INIT_def FGROUP_CACHE_def FGROUP_FILES_def FGROUP_APPSPECIAL_def FGROUP_EXEC_def
  FGROUP_LIBMAIN_def FGROUP_EXT_JOURNAL_def FGROUP_EXT_SPECIAL_JOURNAL_def FGROUP_EXT_BAK_def
  FGROUP_EXT_TMP_def FGROUP_EXT_WAL_def FGROUP_EXT_DBETC_def FGROUP_APPWEBVIEW_def
  FGROUP_APPOTHERS_def FGROUP_CACHE_INDEX_def FGROUP_DATABASES_def FGROUP_DCIM_def
  FGROUP_MOVIE_def FGROUP_MUSIC_def FGROUP_LOCAL_def FGROUP_SYSTEM_def FGROUP_ETC_def

lemmas stream_const_defs =
  NR_CLUSTER_def EMA_W_NUM_def EMA_W_DIV_def CLUSTER_T_def PROFILE_T_def MAX_HISTORY_def
  MAX_SAMPLE_def SAMPLE_RATE_def COLD_RATE_def STREAM_LIFE_RANGE_def VALID_FGROUP_RATE_def
  NR_CURSEG_DATA_TYPE_def NR_CURSEG_TYPE_def CURSEG_HOT_DATA_def CURSEG_COLD_DATA_def
  CLUSTER_START_TYPE_def

section \<open>Entries\<close>

record file_entry =
  f_ino :: u32
  f_last_0_update :: u64
  f_last_offset :: u64
  f_lifetime :: u64
  f_sample_avglifetime :: u64
  f_sample_invalid :: "u64 list"
  f_sample_lifetime :: "u64 list"
  f_sample_lastupdate :: "u64 list"
  f_sample_index :: "int list"
  f_last_kmeans :: u32
  f_sample_rate :: u32
  f_max_range :: u32
  f_filetype :: int
  f_valid :: int
  f_cold :: int

record fgroup_entry =
  g_fgroup :: u32
  g_cluster :: u32
  g_cold :: u64
  g_count :: u64
  g_ema :: u64
  g_latest_lifetime :: u64
  g_latest_count :: u64
  g_create_time :: u64
  g_update_ema :: int
  g_valid :: int
  g_keyword :: string

record fgroup_history =
  h_keyword :: string
  h_vtype :: nat
  h_ema :: u64
  h_count :: u64
  h_latest_lifetime :: u64
  h_latest_count :: u64
  h_update_ema :: int

record kmeans_history =
  kh_q1 :: "u32 list"
  kh_q3 :: "u32 list"
  kh_seq :: u32

section \<open>The super block information\<close>

text \<open>The two spin locks are modelled by whether they are held.  \<open>hist\<close> holds the first
  \<open>history_count\<close> slots of the array \<open>fgroup_history\<close> of \<open>MAX_HISTORY\<close> slots, so
  \<open>history_count\<close> is its length.\<close>

record f2fs_sb_info =
  type_block0 :: "u32 list"
  type_block1 :: "u32 list"
  type_gc :: "u32 list"
  lifetime_tree :: "file_entry list"
  ltree_lock :: bool
  fgroup_tree :: "fgroup_entry list"
  ftree_lock :: bool
  kmeans_max :: "u64 list"
  kmeans_center :: "u64 list"
  kmeans_count :: u32
  kmeans_hist :: "nat \<Rightarrow> kmeans_history"
  hist :: "fgroup_history list"
  last_cluster :: u64

text \<open>A logical clock: the blocks the user has written, all logs, less the ones garbage
  collection wrote.  The sum is an \<open>unsigned int\<close> and wraps.\<close>

definition user_data_blocks :: "f2fs_sb_info \<Rightarrow> u32" where
  "user_data_blocks sbi =
     fold (\<lambda>i n. n + (type_block0 sbi ! i + type_block1 sbi ! i) - type_gc sbi ! i)
       [0..<NR_CURSEG_TYPE] 0"

definition cur_seq :: "f2fs_sb_info \<Rightarrow> u64" where
  "cur_seq sbi = ucast (user_data_blocks sbi)"

definition lock_ltree :: "f2fs_sb_info \<Rightarrow> f2fs_sb_info option" where
  "lock_ltree sbi = (if ltree_lock sbi then None else Some (sbi\<lparr>ltree_lock := True\<rparr>))"

definition unlock_ltree :: "f2fs_sb_info \<Rightarrow> f2fs_sb_info" where
  "unlock_ltree sbi = sbi\<lparr>ltree_lock := False\<rparr>"

definition lock_ftree :: "f2fs_sb_info \<Rightarrow> f2fs_sb_info option" where
  "lock_ftree sbi = (if ftree_lock sbi then None else Some (sbi\<lparr>ftree_lock := True\<rparr>))"

definition unlock_ftree :: "f2fs_sb_info \<Rightarrow> f2fs_sb_info" where
  "unlock_ftree sbi = sbi\<lparr>ftree_lock := False\<rparr>"

lemma lock_ltree_free [simp]: "\<not> ltree_lock s \<Longrightarrow> lock_ltree s = Some (s\<lparr>ltree_lock := True\<rparr>)"
  by (simp add: lock_ltree_def)

lemma lock_ftree_free [simp]: "\<not> ftree_lock s \<Longrightarrow> lock_ftree s = Some (s\<lparr>ftree_lock := True\<rparr>)"
  by (simp add: lock_ftree_def)

section \<open>Inodes and dentries\<close>

text \<open>\<open>i_path\<close> is the chain of dentries from the first alias of the inode up to the root,
  whose name is a slash and whose parent is itself; an inode with no alias has the empty
  chain.\<close>

record dentry =
  d_name :: string
  d_ino :: u64

record inode =
  i_ino :: u64
  i_path :: "dentry list"
  i_size :: int
  i_isdir :: bool
  i_filetype :: u32
  i_fgroup :: u32
  i_name :: string
  i_keyword :: string

end
