(* ===== verification/Fgroup_Path.thy ===== *)
theory Fgroup_Path
  imports F2fs_Types
begin

text \<open>
  File groups from path names (\<open>stream.c\<close>: \<open>get_dentry\<close>, \<open>get_parent_dentry\<close>,
  \<open>get_parent_inode\<close>, \<open>get_full_path_dentry\<close>, \<open>check_hot_stream\<close>, \<open>get_fgroup\<close>; \<open>namei.c\<close>:
  \<open>get_full_path\<close>).  A file group is one 64-bit number: the inode number that identifies the
  application in the upper bits, the file type in the lower five.

  The loops over \<open>d_parent\<close> visit at most \<open>MAX_PARENT_DENTRY\<close> dentries; they are searches over
  the positions of the dentry chain, whose last element, the root, is its own parent.
\<close>

definition MAX_PARENT_DENTRY :: nat where "MAX_PARENT_DENTRY = 20"

definition de_at :: "dentry list \<Rightarrow> nat \<Rightarrow> dentry" where
  "de_at ch i = (if i < length ch then ch ! i else last ch)"

text \<open>The dentry whose name selects the application directory.\<close>

definition key_match :: "string \<Rightarrow> string \<Rightarrow> bool" where
  "key_match name keyword \<longleftrightarrow>
     strstr name keyword \<and> take 1 name = take 1 keyword \<and> length name < length keyword + 3"

definition get_dentry :: "inode \<Rightarrow> dentry list option" where
  "get_dentry inode = (if i_path inode = [] then None else Some (i_path inode))"

text \<open>\<open>get_parent_dentry\<close> returns the child of the first matching ancestor; the result here
  is its position in the chain.\<close>

fun parent_dentry_loop :: "nat \<Rightarrow> nat \<Rightarrow> dentry list \<Rightarrow> string \<Rightarrow> nat option" where
  "parent_dentry_loop 0 c ch keyword = None"
| "parent_dentry_loop (Suc n) c ch keyword =
     (if key_match (d_name (de_at ch c)) keyword then Some (c - 1)
      else if d_name (de_at ch (c - 1)) = ''/'' then None
      else parent_dentry_loop n (c + 1) ch keyword)"

definition get_parent_dentry :: "dentry list option \<Rightarrow> string \<Rightarrow> dentry option" where
  "get_parent_dentry de keyword =
     (case de of None \<Rightarrow> None
      | Some ch \<Rightarrow>
          map_option (de_at ch) (parent_dentry_loop (MAX_PARENT_DENTRY - 1) 1 ch keyword))"

text \<open>\<open>get_parent_inode\<close>: the inode number of the directory \<open>depth\<close> levels below the matching
  ancestor, zero if there is none; the keyword of the inode is set on the way.\<close>

definition fmt_key :: "nat \<Rightarrow> string \<Rightarrow> string" where
  "fmt_key ft rest = ''KEY-'' @ dec ft @ '':'' @ rest"

definition fmt_key_slash :: "nat \<Rightarrow> string \<Rightarrow> string" where
  "fmt_key_slash ft rest = ''KEY-'' @ dec ft @ ''/'' @ rest"

definition parent_inode_hit ::
    "nat \<Rightarrow> dentry list \<Rightarrow> nat \<Rightarrow> inode \<Rightarrow> u32 \<times> inode" where
  "parent_inode_hit c ch depth inode =
     (let ft = unat (i_filetype inode);
          up = d_name (de_at ch (c + 1));
          below = d_name (de_at ch (c - 1))
      in if c > depth then
           (ucast (d_ino (de_at ch (c - depth))),
            if depth = 1 then
              inode\<lparr>i_keyword := snprintf 50 (fmt_key ft (up @ ''/'' @ d_name (de_at ch (c - depth))))\<rparr>
            else if depth = 2 \<or> depth = 3 then
              inode\<lparr>i_keyword := snprintf 50 (fmt_key ft (below @ ''/'' @ d_name (de_at ch (c - depth))))\<rparr>
            else inode)
         else if c > depth - 1 then
           (ucast (d_ino (de_at ch (c - depth + 1))),
            if depth = 1 then
              inode\<lparr>i_keyword := snprintf 50 (fmt_key_slash ft (up @ ''/'' @ d_name (de_at ch (c - depth + 1))))\<rparr>
            else if depth = 2 \<or> depth = 3 then
              inode\<lparr>i_keyword := snprintf 50 (fmt_key_slash ft (below @ ''/'' @ d_name (de_at ch (c - depth + 1))))\<rparr>
            else inode)
         else (0, inode))"

fun parent_inode_loop ::
    "nat \<Rightarrow> nat \<Rightarrow> dentry list \<Rightarrow> string \<Rightarrow> nat \<Rightarrow> inode \<Rightarrow> u32 \<times> inode" where
  "parent_inode_loop 0 c ch keyword depth inode = (0, inode)"
| "parent_inode_loop (Suc n) c ch keyword depth inode =
     (if key_match (d_name (de_at ch c)) keyword then parent_inode_hit c ch depth inode
      else if d_name (de_at ch (c - 1)) = ''/'' then (0, inode)
      else parent_inode_loop n (c + 1) ch keyword depth inode)"

definition get_parent_inode :: "inode \<Rightarrow> string \<Rightarrow> nat \<Rightarrow> u32 \<times> inode" where
  "get_parent_inode inode keyword depth =
     (if i_path inode = [] then (0, inode)
      else parent_inode_loop (MAX_PARENT_DENTRY - 1) 1 (i_path inode) keyword depth inode)"

text \<open>The full path.  \<open>path_count\<close> is the value of \<open>count\<close> after the loop: one more than the
  position of the first dentry named by a slash, at most \<open>MAX_PARENT_DENTRY\<close>.  The names below that
  dentry are then appended with \<open>strncat\<close>, whose bound is the size of the whole buffer: the
  path is cut nowhere, and a path that does not fit writes past the buffer.\<close>

fun path_count_loop :: "nat \<Rightarrow> nat \<Rightarrow> dentry list \<Rightarrow> nat" where
  "path_count_loop 0 c ch = c"
| "path_count_loop (Suc n) c ch =
     (if d_name (de_at ch (c - 1)) = ''/'' then c else path_count_loop n (c + 1) ch)"

definition path_count :: "dentry list \<Rightarrow> nat" where
  "path_count ch = path_count_loop (MAX_PARENT_DENTRY - 1) 1 ch"

fun join_names :: "dentry list \<Rightarrow> nat \<Rightarrow> string" where
  "join_names ch 0 = []"
| "join_names ch (Suc i) = d_name (de_at ch i) @ (if i \<noteq> 0 then ''/'' else []) @ join_names ch i"

datatype path_result = Path_error | Path string | Path_overflow

definition get_full_path_dentry :: "dentry list \<Rightarrow> nat \<Rightarrow> path_result" where
  "get_full_path_dentry ch name_size =
     (let full_name = ''/'' @ join_names ch (path_count ch - 1)
      in if length full_name < name_size then Path full_name else Path_overflow)"

definition get_full_path :: "inode \<Rightarrow> nat \<Rightarrow> path_result" where
  "get_full_path inode name_size =
     (if i_path inode = [] then Path_error else get_full_path_dentry (i_path inode) name_size)"

definition check_hot_stream :: "u64 \<Rightarrow> bool" where
  "check_hot_stream fgroup \<longleftrightarrow> unat (fgroup AND 31) = FGROUP_EXT_JOURNAL"

section \<open>Classification by path\<close>

text \<open>The keyword of a database file or its log: the application directory and the file name,
  or the whole path where either is missing.\<close>

definition db_keyword :: "nat \<Rightarrow> inode \<Rightarrow> string \<Rightarrow> string" where
  "db_keyword ft inode name =
     (case (get_dentry inode, get_parent_dentry (get_dentry inode) ''data'') of
        (Some ch, Some p) \<Rightarrow> fmt_key ft (d_name p @ ''/'' @ d_name (de_at ch 0))
      | _ \<Rightarrow> fmt_key ft name)"

text \<open>The file type of a file under a cache, files or data directory.\<close>

definition cache_type :: "string \<Rightarrow> nat \<Rightarrow> nat" where
  "cache_type name other =
     (if strstr name ''index'' then FGROUP_CACHE_INDEX
      else if strstr name ''journal'' then FGROUP_CACHE_INDEX
      else other)"

text \<open>The common part of those branches: record the type in the inode, look for the directory
  and take its inode number, read as an \<open>int\<close>, as the application; \<open>None\<close> where it is zero.\<close>

definition app_by_dir :: "nat \<Rightarrow> inode \<Rightarrow> string \<Rightarrow> nat \<Rightarrow> int option \<times> inode" where
  "app_by_dir ft inode keyword depth =
     (let (ret, inode') = get_parent_inode (inode\<lparr>i_filetype := of_nat ft\<rparr>) keyword depth
      in (if ret \<noteq> 0 then Some (sint ret) else None, inode'))"

definition app_or_unset :: "int option \<Rightarrow> int" where
  "app_or_unset app = (case app of None \<Rightarrow> - 1 | Some a \<Rightarrow> a)"

text \<open>The chain of tests of \<open>get_fgroup\<close>: file type and application, both \<open>-1\<close> where the chain
  leaves them unset, and the inode with its keyword.\<close>

definition classify :: "string \<Rightarrow> inode \<Rightarrow> int \<times> int \<times> inode" where
  "classify name inode =
     (if strstr name ''data/media/0/'' \<and> \<not> strstr name ''/Android/'' then
        (if strstr name ''/0/DCIM/'' then (int FGROUP_DCIM, 0, inode)
         else if strstr name ''/0/movie/'' then (int FGROUP_MOVIE, 0, inode)
         else if strstr name ''/0/music'' then (int FGROUP_MUSIC, 0, inode)
         else (- 1, - 1, inode))
      else if strstr name ''data/local'' then (int FGROUP_LOCAL, 0, inode)
      else if strstr name ''data/system/'' then (int FGROUP_SYSTEM, 0, inode)
      else if strstr name ''/data/app/'' then (int FGROUP_EXEC, - 1, inode)
      else if strstr name ''lib-main'' then (int FGROUP_LIBMAIN, - 1, inode)
      else if strstr name ''-journal'' then
        (int FGROUP_EXT_JOURNAL, sint (i_ino inode),
         inode\<lparr>i_keyword := snprintf 50 (fmt_key FGROUP_EXT_JOURNAL
           (case get_dentry inode of None \<Rightarrow> name | Some ch \<Rightarrow> d_name (de_at ch 0)))\<rparr>)
      else if strstr name ''.bak'' then (int FGROUP_EXT_BAK, - 1, inode)
      else if strstr name ''-wal'' then
        (int FGROUP_EXT_WAL, sint (i_ino inode),
         inode\<lparr>i_keyword := snprintf 50 (db_keyword FGROUP_EXT_WAL inode name)\<rparr>)
      else if strstr name ''db-'' then (int FGROUP_EXT_DBETC, - 1, inode)
      else if strstr name ''dbtmp'' then (int FGROUP_EXT_DBETC, - 1, inode)
      else if strstr name ''-shm'' then (int FGROUP_EXT_DBETC, - 1, inode)
      else if strstr name ''/app_webview/'' then (int FGROUP_APPWEBVIEW, - 1, inode)
      else if strstr name ''/code_cache/'' then (int FGROUP_APPOTHERS, - 1, inode)
      else if strstr name ''/shared_prefs/'' then (int FGROUP_APPOTHERS, - 1, inode)
      else if strstr name ''/databases/'' then
        (int FGROUP_DATABASES, sint (i_ino inode),
         inode\<lparr>i_keyword := snprintf 50 (db_keyword FGROUP_DATABASES inode name)\<rparr>)
      else if strstr name ''.db'' then
        (int FGROUP_DATABASES, sint (i_ino inode),
         inode\<lparr>i_keyword := snprintf 50 (db_keyword FGROUP_DATABASES inode name)\<rparr>)
      else if strstr name ''/cache/'' then
        (let ft = cache_type name FGROUP_CACHE; (app, inode') = app_by_dir ft inode ''cache'' 1
         in (int ft, app_or_unset app, inode'))
      else if strstr name ''/files/'' then
        (let ft = cache_type name FGROUP_FILES; (app, inode') = app_by_dir ft inode ''files'' 1
         in (int ft, app_or_unset app, inode'))
      else if strstr name ''data/data/'' then
        (let ft = cache_type name FGROUP_APPSPECIAL; (app, inode') = app_by_dir ft inode ''data'' 3
         in case app of Some a \<Rightarrow> (int ft, a, inode')
            | None \<Rightarrow> (let (app2, inode'') = app_by_dir ft inode' ''data'' 2
                in (int ft, app_or_unset app2, inode'')))
      else (- 1, - 1, inode))"

text \<open>\<open>get_fgroup\<close>: the default type, the default application, and the composition.\<close>

definition default_app :: "int \<Rightarrow> int \<Rightarrow> inode \<Rightarrow> int \<times> inode" where
  "default_app ft app inode =
     (if app = - 1 then
        (let (r, inode') = get_parent_inode inode (if ft = int FGROUP_EXEC then ''app'' else ''data'') 1
         in (uint r, inode'))
      else (app, inode))"

definition finish_fgroup :: "int \<times> int \<times> inode \<Rightarrow> u64 \<times> inode" where
  "finish_fgroup = (\<lambda>(ft0, app0, inode0).
     let ft = (if ft0 = - 1 then int FGROUP_ETC else ft0);
         (app, inode1) = default_app ft app0 (inode0\<lparr>i_filetype := word_of_int ft\<rparr>);
         inode2 = (if app = 0 then inode1\<lparr>i_keyword := snprintf 50 (fmt_key (nat ft) ''NoApp'')\<rparr>
                   else inode1)
     in (push_bit 5 (word_of_int app) + word_of_int ft, inode2))"

definition get_fgroup :: "inode \<Rightarrow> dentry list option \<Rightarrow> (u64 \<times> inode) option" where
  "get_fgroup inode dentry =
     (case (case dentry of None \<Rightarrow> get_full_path inode 500 | Some ch \<Rightarrow> get_full_path_dentry ch 500) of
        Path_error \<Rightarrow> Some (of_nat FGROUP_ETC, inode)
      | Path_overflow \<Rightarrow> None
      | Path name \<Rightarrow> Some (finish_fgroup (classify name (inode\<lparr>i_name := snprintf 200 name\<rparr>))))"

section \<open>What the classification keeps and what it sets\<close>

text \<open>Classifying changes only the cached type, keyword and name of an inode.\<close>

definition same_file :: "inode \<Rightarrow> inode \<Rightarrow> bool" where
  "same_file a b \<longleftrightarrow> i_path a = i_path b \<and> i_ino a = i_ino b \<and> i_size a = i_size b \<and>
     i_isdir a = i_isdir b"

lemma same_file_refl [simp]: "same_file a a"
  by (simp add: same_file_def)

lemma same_file_trans: "same_file a b \<Longrightarrow> same_file b c \<Longrightarrow> same_file a c"
  by (simp add: same_file_def)

lemma same_file_upd [simp]:
  "same_file a (b\<lparr>i_filetype := t\<rparr>) = same_file a b" "same_file a (b\<lparr>i_keyword := k\<rparr>) = same_file a b"
  "same_file a (b\<lparr>i_name := n\<rparr>) = same_file a b" "same_file a (b\<lparr>i_fgroup := g\<rparr>) = same_file a b"
  "same_file (a\<lparr>i_filetype := t\<rparr>) b = same_file a b" "same_file (a\<lparr>i_name := n\<rparr>) b = same_file a b"
  by (simp_all add: same_file_def)

lemma parent_inode_loop_same:
  "same_file inode (snd (parent_inode_loop n c ch kw depth inode)) \<and>
   i_filetype (snd (parent_inode_loop n c ch kw depth inode)) = i_filetype inode"
  by (induction n arbitrary: c) (simp_all add: parent_inode_hit_def Let_def)

lemma get_parent_inode_same:
  "get_parent_inode inode kw depth = (r, inode') \<Longrightarrow>
   same_file inode inode' \<and> i_filetype inode' = i_filetype inode"
  using parent_inode_loop_same [of inode "MAX_PARENT_DENTRY - 1" 1 "i_path inode" kw depth]
  by (auto simp: get_parent_inode_def split: if_splits)

lemma app_by_dir_same: "same_file inode (snd (app_by_dir ft inode kw depth))"
  by (cases "get_parent_inode (inode\<lparr>i_filetype := of_nat ft\<rparr>) kw depth")
    (auto simp: app_by_dir_def dest: get_parent_inode_same)

text \<open>A property of all leaves of the chain of tests holds of its result.\<close>

lemma if_leaves: "P x \<Longrightarrow> P y \<Longrightarrow> P (if b then x else y)"
  by simp

text \<open>The types of the classification are those of the enumeration other than \<open>FGROUP_INIT\<close>, or
  unset.  A database, its write-ahead log and its journal are their own application.\<close>

definition own_group :: "nat \<Rightarrow> bool" where
  "own_group ft \<longleftrightarrow> ft = FGROUP_DATABASES \<or> ft = FGROUP_EXT_WAL \<or> ft = FGROUP_EXT_JOURNAL"

definition class_ok :: "inode \<Rightarrow> int \<times> int \<times> inode \<Rightarrow> bool" where
  "class_ok inode r \<longleftrightarrow> same_file inode (snd (snd r)) \<and>
     (fst r = - 1 \<or> (\<exists>ft \<in> {1..FGROUP_ETC}. fst r = int ft \<and>
        (own_group ft \<longrightarrow> fst (snd r) = sint (i_ino inode))))"

lemma class_ok_leaf:
  "ft \<in> {1..FGROUP_ETC} \<Longrightarrow> \<not> own_group ft \<Longrightarrow> same_file inode i \<Longrightarrow> class_ok inode (int ft, a, i)"
  "class_ok inode (- 1, - 1, inode)"
  by (auto simp: class_ok_def)

lemma class_ok_own:
  "ft \<in> {1..FGROUP_ETC} \<Longrightarrow> class_ok inode (int ft, sint (i_ino inode), inode\<lparr>i_keyword := k\<rparr>)"
  by (auto simp: class_ok_def)

lemma cache_type_cases:
  assumes "ft \<in> {1..FGROUP_ETC} \<and> \<not> own_group ft"
  shows "cache_type name ft \<in> {1..FGROUP_ETC} \<and> \<not> own_group (cache_type name ft)"
  using assms by (simp add: cache_type_def own_group_def fgroup_type_defs)

lemma class_ok_dir:
  assumes "ft \<in> {1..FGROUP_ETC} \<and> \<not> own_group ft"
  shows "class_ok inode (let (app, i) = app_by_dir ft inode kw d in (int ft, app_or_unset app, i))"
  using assms app_by_dir_same [of inode ft kw d] by (auto simp: case_prod_beta intro: class_ok_leaf)

lemma class_ok_dir2:
  assumes "ft \<in> {1..FGROUP_ETC} \<and> \<not> own_group ft"
  shows "class_ok inode (let (app, i) = app_by_dir ft inode kw d in
     case app of Some a \<Rightarrow> (int ft, a, i)
     | None \<Rightarrow> (let (app2, i2) = app_by_dir ft i kw' d' in (int ft, app_or_unset app2, i2)))"
  using assms app_by_dir_same [of inode ft kw d]
    same_file_trans [OF app_by_dir_same [of inode ft kw d] app_by_dir_same [of _ ft kw' d']]
  by (auto simp: case_prod_beta intro: class_ok_leaf split: option.split)

lemma classify_ok: "class_ok inode (classify name inode)"
  unfolding classify_def Let_def [of "cache_type _ _"]
  by (intro if_leaves [where P = "class_ok inode"] class_ok_leaf class_ok_own class_ok_dir
      class_ok_dir2 cache_type_cases) (simp_all add: own_group_def fgroup_type_defs)

text \<open>The composition of a group from an application and a type below 32 can be undone.\<close>

lemma and_31: "unat (x AND 31 :: u64) = unat x mod 32"
proof -
  have "x AND 31 = take_bit 5 x" by (simp add: take_bit_eq_mask mask_eq_exp_minus_1)
  then show ?thesis by (simp add: take_bit_eq_mod unat_mod)
qed

lemma compose_low: "ft < 32 \<Longrightarrow> unat ((push_bit 5 a + of_nat ft :: u64) AND 31) = ft"
proof -
  assume ft: "ft < 32"
  have "unat (push_bit 5 a :: u64) mod 32 = 0"
    by (simp add: push_bit_eq_mult unat_word_ariths mod_mod_cancel)
  then show ?thesis
    using ft by (simp add: and_31 unat_word_ariths unat_of_nat mod_mod_cancel mod_add_eq)
      (metis mod_add_left_eq add_0 mod_less)
qed

lemma default_app_same:
  "default_app ft app inode = (app', inode') \<Longrightarrow>
   same_file inode inode' \<and> i_filetype inode' = i_filetype inode"
  by (auto simp: default_app_def split: if_splits prod.splits dest: get_parent_inode_same)

text \<open>What every result of the classification becomes.\<close>

lemma finish_fgroup_ok:
  assumes ok: "class_ok inode r" and f: "finish_fgroup r = (g, inode')"
  shows "\<exists>ft\<in>{1..FGROUP_ETC}. same_file inode inode' \<and> i_filetype inode' = of_nat ft \<and>
     unat (g AND 31) = ft \<and>
     (own_group ft \<longrightarrow> i_ino inode \<noteq> - 1 \<longrightarrow> g = push_bit 5 (i_ino inode) + of_nat ft)"
proof -
  obtain ft0 app0 i0 where r: "r = (ft0, app0, i0)" by (cases r)
  define ft where "ft = (if ft0 = - 1 then FGROUP_ETC else nat ft0)"
  have ft: "ft \<in> {1..FGROUP_ETC}" "ft < 32" "(if ft0 = - 1 then int FGROUP_ETC else ft0) = int ft"
    using ok by (auto simp: class_ok_def r ft_def fgroup_type_defs)
  have own: "own_group ft \<Longrightarrow> app0 = sint (i_ino inode)"
    using ok by (auto simp: class_ok_def r ft_def own_group_def fgroup_type_defs)
  obtain app i1 where d: "default_app (int ft) app0 (i0\<lparr>i_filetype := of_nat ft\<rparr>) = (app, i1)"
    by fastforce
  from default_app_same [OF d] ok have i1: "same_file inode i1" "i_filetype i1 = of_nat ft"
    by (auto simp: class_ok_def r intro: same_file_trans)
  have eq: "g = push_bit 5 (word_of_int app) + of_nat ft"
      "inode' = i1 \<or> inode' = i1\<lparr>i_keyword := snprintf 50 (fmt_key ft ''NoApp'')\<rparr>"
    using f d ft(3) by (auto simp: finish_fgroup_def r split: if_splits)
  have "g = push_bit 5 (i_ino inode) + of_nat ft" if "own_group ft" "i_ino inode \<noteq> - 1"
  proof -
    have "sint (i_ino inode) \<noteq> - 1" using that(2) by (metis sint_n1 signed_word_eqI)
    with own [OF that(1)] d have "app = sint (i_ino inode)" by (simp add: default_app_def)
    with eq show ?thesis by simp
  qed
  with ft i1 eq compose_low [OF ft(2)] show ?thesis by auto
qed

lemma get_fgroup_same: "get_fgroup inode d = Some (g, inode') \<Longrightarrow> same_file inode inode'"
proof -
  assume a: "get_fgroup inode d = Some (g, inode')"
  have "finish_fgroup (classify name (inode\<lparr>i_name := n\<rparr>)) = (g, inode') \<Longrightarrow> same_file inode inode'" for name n
    using finish_fgroup_ok [OF classify_ok] by fastforce
  with a show ?thesis
    by (auto simp: get_fgroup_def split: option.splits path_result.splits)
qed

text \<open>The path of a file, as a file system prints it: the names from the root down, each after
  a slash.\<close>

fun join_path :: "string list \<Rightarrow> string" where
  "join_path [] = []"
| "join_path [n] = n"
| "join_path (n # m # ns) = n @ ''/'' @ join_path (m # ns)"

definition spec_path :: "dentry list \<Rightarrow> string" where
  "spec_path below = ''/'' @ join_path (rev (map d_name below))"

lemma join_path_Cons: "join_path (n # ns) = n @ (if ns \<noteq> [] then ''/'' else []) @ join_path ns"
  by (cases ns) simp_all

lemma join_names_take:
  "i \<le> length ch \<Longrightarrow> join_names ch i = join_path (rev (map d_name (take i ch)))"
proof (induction i)
  case (Suc i)
  then have "take (Suc i) ch = take i ch @ [ch ! i]" by (simp add: take_Suc_conv_app_nth)
  with Suc show ?case
    by (auto simp: join_path_Cons de_at_def)
qed simp

text \<open>A chain of dentries as the kernel builds it: the root, and only the root, is named by a
  slash.\<close>

definition rooted :: "dentry list \<Rightarrow> dentry \<Rightarrow> bool" where
  "rooted below root \<longleftrightarrow> d_name root = ''/'' \<and> (\<forall>d\<in>set below. d_name d \<noteq> ''/'')"

lemma path_count_loop_rooted:
  assumes "rooted below root" "1 \<le> c" "c \<le> length below + 1" "length below + 1 \<le> c + n"
  shows "path_count_loop n c (below @ [root]) = length below + 1"
  using assms(2-4)
proof (induction n arbitrary: c)
  case (Suc n)
  have "c - 1 < length below \<Longrightarrow> d_name (de_at (below @ [root]) (c - 1)) \<noteq> ''/''"
    using assms(1) by (simp add: de_at_def nth_append rooted_def)
  moreover have "c = length below + 1 \<Longrightarrow> d_name (de_at (below @ [root]) (c - 1)) = ''/''"
    using assms(1) by (simp add: de_at_def nth_append rooted_def)
  moreover have "path_count_loop n (c + 1) (below @ [root]) = length below + 1" if "c < length below + 1"
    using that Suc.prems by (intro Suc.IH) auto
  ultimately show ?case using Suc.prems by (cases "c = length below + 1") auto
qed simp

lemma get_full_path_rooted:
  assumes "rooted below root" "length below < MAX_PARENT_DENTRY"
  shows "get_full_path_dentry (below @ [root]) n =
    (if length (spec_path below) < n then Path (spec_path below) else Path_overflow)"
proof -
  have "path_count (below @ [root]) = length below + 1"
    unfolding path_count_def using assms
    by (intro path_count_loop_rooted) (auto simp: MAX_PARENT_DENTRY_def)
  then show ?thesis
    by (simp add: get_full_path_dentry_def join_names_take spec_path_def)
qed

section \<open>Properties\<close>


definition demo_chain :: "dentry list" where
  "demo_chain = [\<lparr>d_name = ''sms.db'', d_ino = 70\<rparr>, \<lparr>d_name = ''databases'', d_ino = 60\<rparr>,
     \<lparr>d_name = ''com.app'', d_ino = 50\<rparr>, \<lparr>d_name = ''data'', d_ino = 40\<rparr>,
     \<lparr>d_name = ''data'', d_ino = 30\<rparr>]"

definition demo_root :: dentry where
  "demo_root = \<lparr>d_name = ''/'', d_ino = 3\<rparr>"

definition demo_inode :: inode where
  "demo_inode = \<lparr>i_ino = 70, i_path = demo_chain @ [demo_root], i_size = 8192, i_isdir = False,
     i_filetype = 0, i_fgroup = 0, i_name = [], i_keyword = ''KEY-INIT''\<rparr>"

lemma demo_get_fgroup:
  "get_fgroup demo_inode None = Some (2255, demo_inode\<lparr>i_filetype := 15,
     i_name := ''/data/data/com.app/databases/sms.db'', i_keyword := ''KEY-15:com.app/sms.db''\<rparr>)"
  by code_simp


text \<open>C22. The path a group is chosen by is the path of the file: on a chain of at most twenty
  dentries up to the root, \<open>get_full_path\<close> returns the names from the root down, each after a
  slash, if that fits the buffer with its terminating NUL; if it does not, the bound passed to
  \<open>strncat\<close> does not stop the write, and this is the only way \<open>get_fgroup\<close> fails.\<close>

theorem get_full_path_correct:
  assumes "rooted below root" "length below < MAX_PARENT_DENTRY" "i_path inode = below @ [root]"
  shows "get_full_path inode n =
      (if length (spec_path below) < n then Path (spec_path below) else Path_overflow) \<and>
    (get_fgroup inode None = None \<longleftrightarrow> length (spec_path below) \<ge> 500)"
  using assms get_full_path_rooted [OF assms(1,2)]
  by (simp_all add: get_full_path_def get_fgroup_def)

theorem get_full_path_correct_witness:
  "rooted demo_chain demo_root \<and> get_full_path demo_inode 500 = Path ''/data/data/com.app/databases/sms.db'' \<and>
   get_full_path demo_inode 10 = Path_overflow \<and> get_fgroup demo_inode None \<noteq> None"
proof -
  have r: "rooted demo_chain demo_root" by code_simp
  have n: "length demo_chain < MAX_PARENT_DENTRY" by code_simp
  have s: "spec_path demo_chain = ''/data/data/com.app/databases/sms.db''" by code_simp
  have i: "i_path demo_inode = demo_chain @ [demo_root]" by (simp add: demo_inode_def)
  from r s get_full_path_correct [OF r n i, of 500] get_full_path_correct [OF r n i, of 10]
  show ?thesis by simp
qed

end
