(* ===== verification/Lifetime.thy ===== *)
theory Lifetime
  imports Fgroup_Path
begin

text \<open>
  Lifetimes of files and file groups (\<open>stream.c\<close>): the tree of files with their last updates
  and their sampled page lifetimes, the tree of file groups with their lifetime averages and
  their cluster, the history of deleted groups, and the choice of the log (the physical
  stream) a group is written to.

  An entry is found by its key and modified in place in the C code; here the tree is modified
  at that key.  The functions that take a lock return the state with the lock released.
\<close>

section \<open>The tree of files\<close>

abbreviation "ltree_search \<equiv> rb_search f_ino"
abbreviation "ltree_link \<equiv> rb_link f_ino"
abbreviation "ltree_modify \<equiv> rb_modify f_ino"
abbreviation "ltree_erase \<equiv> rb_erase f_ino"

definition lookup_file_entry :: "file_entry list \<Rightarrow> u32 \<Rightarrow> file_entry option" where
  "lookup_file_entry t ino = ltree_search ino t"

definition new_file_entry :: "f2fs_sb_info \<Rightarrow> u32 \<Rightarrow> file_entry" where
  "new_file_entry sbi ino = \<lparr>f_ino = ino, f_last_0_update = 0, f_last_offset = 0, f_lifetime = 0,
     f_sample_avglifetime = 0, f_sample_invalid = replicate MAX_SAMPLE 0,
     f_sample_lifetime = replicate MAX_SAMPLE 0, f_sample_lastupdate = replicate MAX_SAMPLE 0,
     f_sample_index = replicate MAX_SAMPLE (- 1), f_last_kmeans = kmeans_count sbi,
     f_sample_rate = 0, f_max_range = 0, f_filetype = 0, f_valid = 0, f_cold = 1\<rparr>"

definition insert_file_entry :: "f2fs_sb_info \<Rightarrow> u32 \<Rightarrow> (file_entry \<times> f2fs_sb_info) option" where
  "insert_file_entry sbi ino = do {
     ensure (lookup_file_entry (lifetime_tree sbi) ino = None);
     Some (new_file_entry sbi ino,
           sbi\<lparr>lifetime_tree := ltree_link ino (new_file_entry sbi ino) (lifetime_tree sbi)\<rparr>) }"

definition put_file_entry :: "file_entry \<Rightarrow> f2fs_sb_info \<Rightarrow> f2fs_sb_info" where
  "put_file_entry re sbi =
     sbi\<lparr>lifetime_tree := ltree_modify (f_ino re) (\<lambda>_. re) (lifetime_tree sbi)\<rparr>"

definition update_file_type :: "f2fs_sb_info \<Rightarrow> u32 \<Rightarrow> int \<Rightarrow> f2fs_sb_info option" where
  "update_file_type sbi ino filetype = do {
     s \<leftarrow> lock_ltree sbi;
     Some (unlock_ltree
       (case lookup_file_entry (lifetime_tree s) ino of
          None \<Rightarrow> s
        | Some re \<Rightarrow> put_file_entry (re\<lparr>f_filetype := filetype\<rparr>) s)) }"

definition get_file_type :: "f2fs_sb_info \<Rightarrow> u32 \<Rightarrow> (int \<times> f2fs_sb_info) option" where
  "get_file_type sbi ino = do {
     s \<leftarrow> lock_ltree sbi;
     Some (case lookup_file_entry (lifetime_tree s) ino of None \<Rightarrow> 0 | Some re \<Rightarrow> f_filetype re,
           unlock_ltree s) }"

definition delete_file_entry :: "f2fs_sb_info \<Rightarrow> u32 \<Rightarrow> f2fs_sb_info option" where
  "delete_file_entry sbi ino = do {
     s \<leftarrow> lock_ltree sbi;
     Some (unlock_ltree
       (case lookup_file_entry (lifetime_tree s) ino of
          None \<Rightarrow> s
        | Some re \<Rightarrow> s\<lparr>lifetime_tree := ltree_erase ino (lifetime_tree s)\<rparr>)) }"

section \<open>Names\<close>

text \<open>\<open>cmp_name\<close> compares byte by byte up to the first NUL of both names or 50 bytes.  The
  third parameter is not used.\<close>

definition c_char :: "string \<Rightarrow> nat \<Rightarrow> int" where
  "c_char s i = (if i < length s then sint (of_nat (of_char (s ! i)) :: 8 word) else 0)"

fun cmp_name_loop :: "nat \<Rightarrow> nat \<Rightarrow> string \<Rightarrow> string \<Rightarrow> int" where
  "cmp_name_loop 0 i n1 n2 = 0"
| "cmp_name_loop (Suc n) i n1 n2 =
     (if c_char n1 i \<noteq> 0 \<or> c_char n2 i \<noteq> 0 then
        (if c_char n1 i \<noteq> c_char n2 i then c_char n1 i - c_char n2 i
         else cmp_name_loop n (i + 1) n1 n2)
      else 0)"

definition cmp_name :: "string \<Rightarrow> string \<Rightarrow> int" where
  "cmp_name n1 n2 = cmp_name_loop 50 0 n1 n2"

section \<open>Clusters and lifetimes\<close>

fun lifetime_loop :: "u64 list \<Rightarrow> nat \<Rightarrow> nat \<Rightarrow> u64 \<Rightarrow> nat" where
  "lifetime_loop maxes 0 i lifetime = NR_CLUSTER - 2"
| "lifetime_loop maxes (Suc n) i lifetime =
     (if lifetime < maxes ! i * 512 then i else lifetime_loop maxes n (i + 1) lifetime)"

definition f2fs_lifetime_to_cluster :: "f2fs_sb_info \<Rightarrow> u64 \<Rightarrow> nat" where
  "f2fs_lifetime_to_cluster sbi lifetime =
     (if kmeans_max sbi ! 0 = 0 then 0
      else lifetime_loop (kmeans_max sbi) (NR_CLUSTER - 1) 0 lifetime)"

definition lookup_fgroup_history :: "f2fs_sb_info \<Rightarrow> string \<Rightarrow> nat \<Rightarrow> nat option" where
  "lookup_fgroup_history sbi keyword vtype =
     find (\<lambda>i. cmp_name (h_keyword (hist sbi ! i)) keyword = 0 \<and> h_vtype (hist sbi ! i) = vtype)
       [0..<length (hist sbi)]"

definition vtype_of :: "u64 \<Rightarrow> nat" where
  "vtype_of fgroup = unat (fgroup AND 31)"

definition media_type :: "nat \<Rightarrow> bool" where
  "media_type vtype \<longleftrightarrow> vtype = FGROUP_LIBMAIN \<or> vtype = FGROUP_EXEC \<or> vtype = FGROUP_DCIM \<or>
     vtype = FGROUP_MOVIE \<or> vtype = FGROUP_MUSIC"

definition raise_cluster :: "f2fs_sb_info \<Rightarrow> u64 \<Rightarrow> fgroup_entry \<Rightarrow> fgroup_entry" where
  "raise_cluster sbi age re =
     (let new_cluster = of_nat (f2fs_lifetime_to_cluster sbi age)
      in if new_cluster > g_cluster re then re\<lparr>g_cluster := new_cluster\<rparr> else re)"

text \<open>\<open>update_new_ema\<close>: the expected lifetime of a group and the group with its moving
  average updated.  Zero means that no lifetime is known yet.\<close>

definition update_new_ema :: "f2fs_sb_info \<Rightarrow> fgroup_entry \<Rightarrow> (u64 \<times> fgroup_entry) option" where
  "update_new_ema sbi re =
     (let vtype = vtype_of (ucast (g_fgroup re));
          fgroup_age = cur_seq sbi - g_create_time re;
          active = word_of_int (g_valid re)
      in
      if media_type vtype then Some (0, re\<lparr>g_cluster := of_nat (NR_CLUSTER - 1)\<rparr>)
      else if g_update_ema re = 0 then
        (if fgroup_age < PROFILE_T then Some (0, re)
         else if g_cold re > (g_cold re + g_count re) * COLD_RATE div 100 then
           Some (0, raise_cluster sbi fgroup_age re)
         else if g_latest_count re = 0 then Some (0, raise_cluster sbi fgroup_age re)
         else do {
           lifetime_value \<leftarrow> udiv (g_latest_lifetime re) (g_latest_count re);
           Some (lifetime_value, re\<lparr>g_update_ema := 1, g_ema := lifetime_value,
             g_latest_count := 0, g_latest_lifetime := 0\<rparr>) })
      else if g_latest_count re + active > 0 then do {
        lifetime_value \<leftarrow>
          udiv (active * g_ema re + g_latest_lifetime re) (active + g_latest_count re);
        (let ema = g_ema re * (EMA_W_DIV - EMA_W_NUM) div EMA_W_DIV
                   + lifetime_value * EMA_W_NUM div EMA_W_DIV
         in Some (ema, re\<lparr>g_ema := ema, g_latest_count := 0, g_latest_lifetime := 0\<rparr>)) }
      else Some (g_ema re, re))"

section \<open>The history of deleted groups\<close>

definition hist_of_entry :: "fgroup_history \<Rightarrow> fgroup_entry \<Rightarrow> fgroup_history" where
  "hist_of_entry fe re = fe\<lparr>h_count := g_count re, h_ema := g_ema re,
     h_update_ema := g_update_ema re, h_latest_count := g_latest_count re,
     h_latest_lifetime := g_latest_lifetime re\<rparr>"

text \<open>A group that was never overwritten is given its age as its one lifetime.\<close>

definition count_once :: "f2fs_sb_info \<Rightarrow> fgroup_entry \<Rightarrow> fgroup_entry" where
  "count_once sbi re =
     (if g_count re = 0 then re\<lparr>g_count := g_count re + 1, g_latest_count := g_latest_count re + 1,
        g_latest_lifetime := g_latest_lifetime re + (cur_seq sbi - g_create_time re)\<rparr>
      else re)"

definition insert_fgroup_history :: "f2fs_sb_info \<Rightarrow> fgroup_entry \<Rightarrow> f2fs_sb_info" where
  "insert_fgroup_history sbi re =
     (let vtype = vtype_of (ucast (g_fgroup re)) in
      case lookup_fgroup_history sbi (g_keyword re) vtype of
        Some i \<Rightarrow> sbi\<lparr>hist := (hist sbi)[i := hist_of_entry (hist sbi ! i) (count_once sbi re)]\<rparr>
      | None \<Rightarrow>
          (if length (hist sbi) \<ge> MAX_HISTORY then sbi
           else sbi\<lparr>hist := hist sbi @ [hist_of_entry
             \<lparr>h_keyword = snprintf 50 (g_keyword re), h_vtype = vtype, h_ema = 0, h_count = 0,
              h_latest_lifetime = 0, h_latest_count = 0, h_update_ema = 0\<rparr> (count_once sbi re)]\<rparr>))"

section \<open>The tree of file groups\<close>

text \<open>The stored key is an \<open>unsigned int\<close>, the key searched for an \<open>unsigned long long\<close>; the
  comparison widens the stored one.\<close>

definition fkey :: "fgroup_entry \<Rightarrow> u64" where
  "fkey e = ucast (g_fgroup e)"

abbreviation "ftree_search \<equiv> rb_search fkey"
abbreviation "ftree_link \<equiv> rb_link fkey"
abbreviation "ftree_modify \<equiv> rb_modify fkey"
abbreviation "ftree_erase \<equiv> rb_erase fkey"

definition lookup_fgroup_entry :: "fgroup_entry list \<Rightarrow> u64 \<Rightarrow> fgroup_entry option" where
  "lookup_fgroup_entry t fgroup = ftree_search fgroup t"

definition initial_cluster :: "nat \<Rightarrow> nat" where
  "initial_cluster vtype =
     (if vtype \<in> {FGROUP_CACHE, FGROUP_FILES, FGROUP_APPSPECIAL} then 1
      else if media_type vtype then NR_CLUSTER - 1
      else if vtype \<in> {FGROUP_EXT_JOURNAL, FGROUP_EXT_SPECIAL_JOURNAL, FGROUP_EXT_BAK,
          FGROUP_EXT_TMP, FGROUP_EXT_WAL, FGROUP_EXT_DBETC, FGROUP_APPWEBVIEW, FGROUP_APPOTHERS,
          FGROUP_CACHE_INDEX, FGROUP_DATABASES, FGROUP_LOCAL, FGROUP_SYSTEM} then 0
      else 1)"

definition blank_fgroup_entry :: "f2fs_sb_info \<Rightarrow> u64 \<Rightarrow> string \<Rightarrow> fgroup_entry" where
  "blank_fgroup_entry sbi fgroup name = \<lparr>g_fgroup = ucast fgroup,
     g_cluster = of_nat (NR_CLUSTER - 1), g_cold = 0, g_count = 0, g_ema = 0,
     g_latest_lifetime = 0, g_latest_count = 0, g_create_time = cur_seq sbi, g_update_ema = 0,
     g_valid = 0, g_keyword = snprintf 50 name\<rparr>"

text \<open>The values a group takes over from the history, and the cluster that follows from them.\<close>

definition restore_fgroup :: "f2fs_sb_info \<Rightarrow> fgroup_history \<Rightarrow> fgroup_entry \<Rightarrow> fgroup_entry option" where
  "restore_fgroup sbi fe re =
     (let re1 = re\<lparr>g_count := h_count fe, g_ema := h_ema fe, g_latest_count := h_latest_count fe,
        g_latest_lifetime := h_latest_lifetime fe, g_update_ema := h_update_ema fe\<rparr>
      in if g_count re1 > 0 then
           (if g_update_ema re1 = 1 then
              Some (re1\<lparr>g_cluster := of_nat (f2fs_lifetime_to_cluster sbi (g_ema re1))\<rparr>)
            else if g_latest_count re1 > 0 then do {
              lifetime_value \<leftarrow> udiv (g_latest_lifetime re1) (g_latest_count re1);
              Some (re1\<lparr>g_cluster := of_nat (f2fs_lifetime_to_cluster sbi lifetime_value)\<rparr>) }
            else Some (re1\<lparr>g_cluster := of_nat (NR_CLUSTER - 2)\<rparr>))
         else Some re1)"

definition new_fgroup_entry :: "f2fs_sb_info \<Rightarrow> u64 \<Rightarrow> string \<Rightarrow> fgroup_entry option" where
  "new_fgroup_entry sbi fgroup name =
     (let vtype = vtype_of fgroup; re = blank_fgroup_entry sbi fgroup name;
          found = (if media_type vtype then None else lookup_fgroup_history sbi name vtype)
      in case found of
           Some i \<Rightarrow> restore_fgroup sbi (hist sbi ! i) re
         | None \<Rightarrow> Some (re\<lparr>g_cluster := of_nat (initial_cluster vtype)\<rparr>))"

text \<open>The descent and \<open>rb_link_node\<close>: a node with the key is a \<open>BUG_ON\<close>.  The result is the
  key of the new entry.\<close>

definition link_fgroup_entry :: "f2fs_sb_info \<Rightarrow> u64 \<Rightarrow> string \<Rightarrow> (u64 \<times> f2fs_sb_info) option" where
  "link_fgroup_entry sbi fgroup name = do {
     ensure (lookup_fgroup_entry (fgroup_tree sbi) fgroup = None);
     re \<leftarrow> new_fgroup_entry sbi fgroup name;
     Some (fkey re, sbi\<lparr>fgroup_tree := ftree_link fgroup re (fgroup_tree sbi)\<rparr>) }"

definition SPECIAL_JOURNAL_NAME :: string where
  "SPECIAL_JOURNAL_NAME = ''KEY-7:JOURNAL''"

text \<open>A journal whose name is in the history joins the group of special journals, which is
  created at first use; the recursive call of the C code is this one, since the type of that
  group is not the journal type.\<close>

definition insert_fgroup_entry :: "f2fs_sb_info \<Rightarrow> u64 \<Rightarrow> string \<Rightarrow> (u64 \<times> f2fs_sb_info) option" where
  "insert_fgroup_entry sbi fgroup name =
     (if vtype_of fgroup = FGROUP_EXT_JOURNAL \<and>
         lookup_fgroup_history sbi name (vtype_of fgroup) \<noteq> None then
        (case lookup_fgroup_entry (fgroup_tree sbi) (of_nat FGROUP_EXT_SPECIAL_JOURNAL) of
           Some re \<Rightarrow> Some (fkey re, sbi)
         | None \<Rightarrow> link_fgroup_entry sbi (of_nat FGROUP_EXT_SPECIAL_JOURNAL) SPECIAL_JOURNAL_NAME)
      else link_fgroup_entry sbi fgroup name)"

definition lookup_or_insert_fgroup ::
    "f2fs_sb_info \<Rightarrow> u64 \<Rightarrow> string \<Rightarrow> (u64 \<times> f2fs_sb_info) option" where
  "lookup_or_insert_fgroup sbi fgroup name =
     (case lookup_fgroup_entry (fgroup_tree sbi) fgroup of
        Some re \<Rightarrow> Some (fkey re, sbi)
      | None \<Rightarrow> insert_fgroup_entry sbi fgroup name)"

definition modify_fgroup :: "u64 \<Rightarrow> (fgroup_entry \<Rightarrow> fgroup_entry) \<Rightarrow> f2fs_sb_info \<Rightarrow> f2fs_sb_info" where
  "modify_fgroup k f sbi = sbi\<lparr>fgroup_tree := ftree_modify k f (fgroup_tree sbi)\<rparr>"

definition update_fgroup_entry_valid ::
    "f2fs_sb_info \<Rightarrow> u64 \<Rightarrow> int \<Rightarrow> string \<Rightarrow> int \<Rightarrow> f2fs_sb_info option" where
  "update_fgroup_entry_valid sbi fgroup valid name cold = do {
     (k, s) \<leftarrow> lookup_or_insert_fgroup sbi fgroup name;
     Some (modify_fgroup k (\<lambda>e.
       if valid < 0 \<and> - valid > g_valid e then e\<lparr>g_valid := 0\<rparr>
       else (if cold = 1 then e\<lparr>g_cold := g_cold e + word_of_int valid, g_valid := g_valid e + valid\<rparr>
             else e\<lparr>g_valid := g_valid e + valid\<rparr>)) s) }"

definition clear_fgroup_cold :: "f2fs_sb_info \<Rightarrow> u64 \<Rightarrow> int \<Rightarrow> f2fs_sb_info" where
  "clear_fgroup_cold sbi fgroup cold =
     modify_fgroup fgroup (\<lambda>e.
       if g_cold e < word_of_int cold then e\<lparr>g_cold := 0\<rparr>
       else e\<lparr>g_cold := g_cold e - word_of_int cold\<rparr>) sbi"

definition update_fgroup_entry ::
    "f2fs_sb_info \<Rightarrow> u64 \<Rightarrow> u64 \<Rightarrow> u32 \<Rightarrow> string \<Rightarrow> f2fs_sb_info option" where
  "update_fgroup_entry sbi fgroup lifetime cnt name = do {
     (k, s) \<leftarrow> lookup_or_insert_fgroup sbi fgroup name;
     Some (modify_fgroup k (\<lambda>e. e\<lparr>g_count := g_count e + ucast cnt,
       g_latest_count := g_latest_count e + ucast cnt,
       g_latest_lifetime := g_latest_lifetime e + lifetime * ucast cnt\<rparr>) s) }"

definition merge_fgroup :: "fgroup_entry \<Rightarrow> fgroup_entry \<Rightarrow> fgroup_entry" where
  "merge_fgroup fe e = e\<lparr>g_cold := g_cold e + g_cold fe, g_count := g_count e + g_count fe,
     g_latest_lifetime := g_latest_lifetime e + g_latest_lifetime fe,
     g_latest_count := g_latest_count e + g_latest_count fe, g_valid := g_valid e + g_valid fe\<rparr>"

text \<open>The caller holds \<open>ftree_lock\<close>; \<open>ltree_lock\<close> is taken inside.\<close>

definition convert_fgroup_to_special_journal ::
    "f2fs_sb_info \<Rightarrow> inode \<Rightarrow> (inode \<times> f2fs_sb_info) option" where
  "convert_fgroup_to_special_journal sbi inode =
     (case lookup_fgroup_entry (fgroup_tree sbi) (ucast (i_fgroup inode)) of
        None \<Rightarrow> Some (inode, sbi)
      | Some fe \<Rightarrow> do {
          s1 \<leftarrow> lock_ltree sbi;
          (let s2 = (case lookup_file_entry (lifetime_tree s1) (ucast (i_ino inode)) of
                       None \<Rightarrow> s1
                     | Some re \<Rightarrow>
                         put_file_entry (re\<lparr>f_filetype := int FGROUP_EXT_SPECIAL_JOURNAL\<rparr>) s1);
               inode' = inode\<lparr>i_filetype := of_nat FGROUP_EXT_SPECIAL_JOURNAL,
                 i_fgroup := of_nat FGROUP_EXT_SPECIAL_JOURNAL\<rparr>
           in do {
             (j, s3) \<leftarrow> lookup_or_insert_fgroup (unlock_ltree s2)
                (of_nat FGROUP_EXT_SPECIAL_JOURNAL) SPECIAL_JOURNAL_NAME;
             (let s4 = modify_fgroup j (merge_fgroup fe) s3
              in Some (inode', s4\<lparr>fgroup_tree := ftree_erase (fkey fe) (fgroup_tree s4)\<rparr>)) }) })"

text \<open>The group of a deleted application or database: each of its types is saved in the
  history and removed.\<close>

definition fgroup_key :: "u32 \<Rightarrow> nat \<Rightarrow> u64" where
  "fgroup_key ino vtype = push_bit 5 (ucast ino) + of_nat vtype"

definition retire_fgroup :: "u32 \<Rightarrow> nat \<Rightarrow> f2fs_sb_info \<Rightarrow> f2fs_sb_info" where
  "retire_fgroup ino vtype sbi =
     (case lookup_fgroup_entry (fgroup_tree sbi) (fgroup_key ino vtype) of
        None \<Rightarrow> sbi
      | Some re \<Rightarrow> (let s = insert_fgroup_history sbi re
                   in s\<lparr>fgroup_tree := ftree_erase (fgroup_key ino vtype) (fgroup_tree s)\<rparr>))"

definition delete_fgroup_entry :: "f2fs_sb_info \<Rightarrow> u32 \<Rightarrow> f2fs_sb_info option" where
  "delete_fgroup_entry sbi ino = do {
     s \<leftarrow> lock_ftree sbi;
     Some (unlock_ftree (fold (retire_fgroup ino) [0..<FGROUP_ETC + 1] s)) }"

section \<open>Streams\<close>

definition get_cluster :: "f2fs_sb_info \<Rightarrow> u64 \<Rightarrow> int" where
  "get_cluster sbi fgroup =
     (case lookup_fgroup_entry (fgroup_tree sbi) fgroup of
        None \<Rightarrow> - 1
      | Some e \<Rightarrow> sint (g_cluster e))"

definition update_cluster :: "f2fs_sb_info \<Rightarrow> u64 \<Rightarrow> int \<Rightarrow> f2fs_sb_info" where
  "update_cluster sbi fgroup cluster =
     modify_fgroup fgroup (\<lambda>e. e\<lparr>g_cluster := word_of_int cluster\<rparr>) sbi"

definition get_pstream :: "f2fs_sb_info \<Rightarrow> u64 \<Rightarrow> int" where
  "get_pstream sbi fgroup =
     (let c = get_cluster sbi fgroup;
          pstream = (if c = - 1 then int (NR_CLUSTER - 1) else c) + CLUSTER_START_TYPE
      in if pstream = int (NR_CLUSTER - 1) then CURSEG_COLD_DATA else pstream)"

section \<open>Sampled pages of a database\<close>

definition set_sample :: "nat \<Rightarrow> u64 \<Rightarrow> u64 \<Rightarrow> u64 \<Rightarrow> file_entry \<Rightarrow> file_entry" where
  "set_sample i upd life inval re = re\<lparr>
     f_sample_lastupdate := (f_sample_lastupdate re)[i := upd],
     f_sample_lifetime := (f_sample_lifetime re)[i := life],
     f_sample_invalid := (f_sample_invalid re)[i := inval]\<rparr>"

definition set_sample_index :: "nat \<Rightarrow> int \<Rightarrow> file_entry \<Rightarrow> file_entry" where
  "set_sample_index i v re = re\<lparr>f_sample_index := (f_sample_index re)[i := v]\<rparr>"

definition free_sample :: "nat \<Rightarrow> file_entry \<Rightarrow> file_entry" where
  "free_sample i re = set_sample_index i (- 1) (set_sample i 0 0 0 re)"

definition RESET_RATE :: nat where "RESET_RATE = 2"

text \<open>One iteration of the loop of \<open>reset_sample_lifetime\<close>; the first component is
  \<open>delete_idx\<close>.\<close>

definition reset_step :: "nat \<Rightarrow> nat \<times> file_entry \<Rightarrow> nat \<times> file_entry" where
  "reset_step i = (\<lambda>(delete_idx, re).
     if i \<noteq> delete_idx then (delete_idx, re)
     else (delete_idx + RESET_RATE,
       if f_sample_index re ! i < 0 then re
       else if f_sample_lifetime re ! i > 0 then free_sample i re else re))"

definition reset_sample_lifetime :: "file_entry \<Rightarrow> file_entry" where
  "reset_sample_lifetime re =
     (if f_max_range re < of_nat MAX_SAMPLE then re
      else snd (fold reset_step [0..<MAX_SAMPLE] (unat (f_last_kmeans re) mod RESET_RATE, re)))"

definition find_sample :: "file_entry \<Rightarrow> int \<Rightarrow> nat option" where
  "find_sample re index = find (\<lambda>i. f_sample_index re ! i = index) [0..<MAX_SAMPLE]"

text \<open>The mean over the sampled pages of the mean lifetime of each.\<close>

definition sample_sums :: "file_entry \<Rightarrow> u64 \<times> nat" where
  "sample_sums re = fold (\<lambda>i (lifetime_sum, lifetime_count).
       if f_sample_index re ! i \<ge> 0 \<and> f_sample_invalid re ! i > 0 then
         (lifetime_sum + f_sample_lifetime re ! i div f_sample_invalid re ! i, lifetime_count + 1)
       else (lifetime_sum, lifetime_count)) [0..<MAX_SAMPLE] (0, 0)"

definition average_samples :: "file_entry \<Rightarrow> file_entry" where
  "average_samples re = (let (lifetime_sum, lifetime_count) = sample_sums re
     in re\<lparr>f_sample_avglifetime :=
       (if lifetime_count > 0 then lifetime_sum div of_nat lifetime_count else 0)\<rparr>)"

text \<open>The page has a sample slot.\<close>

definition touch_sample :: "f2fs_sb_info \<Rightarrow> int \<Rightarrow> nat \<Rightarrow> file_entry \<Rightarrow> u64 \<times> file_entry" where
  "touch_sample sbi unlink i re =
     (if unlink = - 1 then (0, set_sample i (cur_seq sbi) 0 0 re)
      else
        (let upd = f_sample_lastupdate re ! i;
             lifetime = (if upd > 0 then cur_seq sbi - upd else 0);
             re1 = (if upd > 0 then
                 set_sample i upd (f_sample_lifetime re ! i + lifetime) (f_sample_invalid re ! i + 1) re
               else re);
             re2 = (if unlink = 1 then free_sample i re1
               else re1\<lparr>f_sample_lastupdate := (f_sample_lastupdate re1)[i := cur_seq sbi]\<rparr>)
         in if lifetime = 0 then (0, re2) else (lifetime, average_samples re2)))"

text \<open>It has none: a slot is taken for it, in a file larger than the sample only every
  \<open>SAMPLE_RATE\<close>-th time.\<close>

definition new_sample :: "f2fs_sb_info \<Rightarrow> int \<Rightarrow> int \<Rightarrow> file_entry \<Rightarrow> u64 \<times> file_entry" where
  "new_sample sbi index unlink re =
     (let sampling = (unlink \<noteq> 1 \<and>
            (f_max_range re < of_nat MAX_SAMPLE \<or> f_sample_rate re \<ge> SAMPLE_RATE));
          re1 = (if sampling then
              (case find_sample re (- 1) of
                 None \<Rightarrow> re
               | Some i \<Rightarrow> set_sample_index i index (set_sample i (cur_seq sbi) 0 0 re))
                 \<lparr>f_sample_rate := 0\<rparr>
            else re)
      in (if unlink = - 1 then 0 else f_sample_avglifetime re1, re1))"

text \<open>The start of the function: samples are reset after a clustering, the call and the largest
  page are counted.\<close>

definition prepare_sample :: "f2fs_sb_info \<Rightarrow> int \<Rightarrow> file_entry \<Rightarrow> file_entry" where
  "prepare_sample sbi index re =
     (let re1 = (if kmeans_count sbi > f_last_kmeans re then
              (reset_sample_lifetime re)\<lparr>f_last_kmeans := kmeans_count sbi\<rparr> else re);
          re2 = re1\<lparr>f_sample_rate := f_sample_rate re1 + 1\<rparr>
      in if f_max_range re2 < word_of_int index then re2\<lparr>f_max_range := word_of_int index\<rparr>
         else re2)"

definition update_sample_lifetime ::
    "f2fs_sb_info \<Rightarrow> file_entry \<Rightarrow> int \<Rightarrow> int \<Rightarrow> u64 \<times> file_entry" where
  "update_sample_lifetime sbi re index unlink =
     (let re' = prepare_sample sbi index re
      in case find_sample re' index of
           Some i \<Rightarrow> touch_sample sbi unlink i re'
         | None \<Rightarrow> new_sample sbi index unlink re')"

section \<open>The entry points of the file system\<close>

text \<open>The group of the inode is computed at first use, and again while its keyword is the
  initial one.\<close>

definition ensure_fgroup :: "inode \<Rightarrow> inode option" where
  "ensure_fgroup inode =
     (if unat (i_filetype inode) = FGROUP_INIT \<or> strstr (i_keyword inode) ''KEY-INIT'' then do {
        (fg, inode') \<leftarrow> get_fgroup inode None;
        Some (inode'\<lparr>i_fgroup := ucast fg\<rparr>) }
      else Some inode)"

text \<open>\<open>update_file_lifetime\<close>, the part under \<open>ltree_lock\<close>; \<open>page0_update\<close> handles a write of page zero
  (\<open>False\<close> is the early return), and no lifetime in \<open>file_lifetime\<close> is that return.\<close>

definition page0_update :: "f2fs_sb_info \<Rightarrow> int \<Rightarrow> file_entry \<Rightarrow> bool \<times> file_entry" where
  "page0_update sbi unlink re =
     (if unlink = - 1 then (True, re\<lparr>f_lifetime := 0, f_last_0_update := cur_seq sbi\<rparr>)
      else if f_last_0_update re > 0 then
        (True, re\<lparr>f_lifetime := cur_seq sbi - f_last_0_update re, f_last_0_update := cur_seq sbi\<rparr>)
      else if unlink = 1 then (False, re\<lparr>f_lifetime := 0, f_last_0_update := 0\<rparr>)
      else (True, re\<lparr>f_last_0_update := cur_seq sbi\<rparr>))"

definition file_lifetime ::
    "f2fs_sb_info \<Rightarrow> inode \<Rightarrow> int \<Rightarrow> int \<Rightarrow> file_entry \<Rightarrow> u64 option \<times> file_entry" where
  "file_lifetime sbi inode range_start unlink re =
     (let (go, re1) = (if range_start = 0 then page0_update sbi unlink re else (True, re))
      in if \<not> go then (None, re1)
         else if unat (i_filetype inode) = FGROUP_DATABASES \<and> range_start > 0 then
           (let (lifetime, re2) =
              update_sample_lifetime sbi re1 (sint (word_of_int range_start :: u32)) unlink
            in (Some lifetime, re2))
         else (Some (f_lifetime re1), re1))"

text \<open>The part under \<open>ftree_lock\<close>.\<close>

definition charge_lifetime ::
    "f2fs_sb_info \<Rightarrow> inode \<Rightarrow> file_entry \<Rightarrow> u64 \<Rightarrow> int \<Rightarrow> int \<Rightarrow> int \<Rightarrow> (inode \<times> f2fs_sb_info) option" where
  "charge_lifetime sbi inode re lifetime range_start page_written unlink = do {
     s1 \<leftarrow> lock_ftree sbi;
     s2 \<leftarrow> update_fgroup_entry s1 (ucast (i_fgroup inode)) lifetime (word_of_int page_written)
             (i_keyword inode);
     (let s3 = (if f_cold re = 1 then
                  put_file_entry (re\<lparr>f_cold := 0\<rparr>)
                    (clear_fgroup_cold s2 (ucast (i_fgroup inode)) (f_valid re))
                else s2)
      in do {
        (inode', s4) \<leftarrow>
          (if unat (i_filetype inode) = FGROUP_EXT_JOURNAL \<and> unlink = 1 \<and> range_start = 0
           then convert_fgroup_to_special_journal s3 inode else Some (inode, s3));
        Some (inode', unlock_ftree s4) }) }"

definition find_or_insert_file :: "f2fs_sb_info \<Rightarrow> u32 \<Rightarrow> (file_entry \<times> f2fs_sb_info) option" where
  "find_or_insert_file sbi ino =
     (case lookup_file_entry (lifetime_tree sbi) ino of
        Some re \<Rightarrow> Some (re, sbi)
      | None \<Rightarrow> insert_file_entry sbi ino)"

definition update_file_lifetime ::
    "f2fs_sb_info \<Rightarrow> inode \<Rightarrow> int \<Rightarrow> int \<Rightarrow> int \<Rightarrow> (inode \<times> f2fs_sb_info) option" where
  "update_file_lifetime sbi inode range_start page_written unlink =
     (if page_written = 0 then Some (inode, sbi)
      else do {
        s1 \<leftarrow> lock_ltree sbi;
        (if lookup_file_entry (lifetime_tree s1) (ucast (i_ino inode)) = None \<and> unlink = 1 then
           Some (inode, unlock_ltree s1)
         else do {
           (re, s2) \<leftarrow> find_or_insert_file s1 (ucast (i_ino inode));
           (case file_lifetime s2 inode range_start unlink re of
              (None, re') \<Rightarrow> Some (inode, unlock_ltree (put_file_entry re' s2))
            | (Some lifetime, re') \<Rightarrow>
                (let s3 = unlock_ltree (put_file_entry re' s2)
                 in if lifetime > 0 then do {
                      inode' \<leftarrow> ensure_fgroup inode;
                      charge_lifetime s3 inode' re' lifetime range_start page_written unlink }
                    else Some (inode, s3))) }) })"

text \<open>\<open>update_file_valid\<close>: zero takes all the valid blocks of the file back.\<close>

definition valid_delta :: "int \<Rightarrow> file_entry \<Rightarrow> int" where
  "valid_delta valid re =
     (if valid = 0 then - f_valid re
      else if valid < 0 \<and> - valid > f_valid re then - f_valid re
      else valid)"

definition update_file_valid ::
    "f2fs_sb_info \<Rightarrow> inode \<Rightarrow> int \<Rightarrow> (inode \<times> f2fs_sb_info) option" where
  "update_file_valid sbi inode valid = do {
     s1 \<leftarrow> lock_ltree sbi;
     (if lookup_file_entry (lifetime_tree s1) (ucast (i_ino inode)) = None \<and> valid < 0 then
        Some (inode, unlock_ltree s1)
      else do {
        (re, s2) \<leftarrow> find_or_insert_file s1 (ucast (i_ino inode));
        (let update_valid = valid_delta valid re;
             s3 = unlock_ltree (put_file_entry (re\<lparr>f_valid := f_valid re + update_valid\<rparr>) s2)
         in do {
           inode' \<leftarrow> ensure_fgroup inode;
           s4 \<leftarrow> lock_ftree s3;
           s5 \<leftarrow> update_fgroup_entry_valid s4 (ucast (i_fgroup inode')) update_valid
                   (i_keyword inode') (f_cold re);
           Some (inode', unlock_ftree s5) }) }) }"

text \<open>What \<open>f2fs_evict_inode\<close> does for a deleted inode (\<open>inode.c\<close>).\<close>

definition evict_streams :: "f2fs_sb_info \<Rightarrow> inode \<Rightarrow> (inode \<times> f2fs_sb_info) option" where
  "evict_streams sbi inode = do {
     (inode1, s1) \<leftarrow> update_file_lifetime sbi inode 0 ((i_size inode + 4095) div 4096) 1;
     (inode2, s2) \<leftarrow> update_file_valid s1 inode1 0;
     s3 \<leftarrow> delete_file_entry s2 (ucast (i_ino inode2));
     (if i_isdir inode2 \<or> unat (i_filetype inode2) = FGROUP_DATABASES \<or>
         unat (i_filetype inode2) = FGROUP_EXT_WAL \<or> unat (i_filetype inode2) = FGROUP_EXT_JOURNAL
      then do { s4 \<leftarrow> delete_fgroup_entry s3 (ucast (i_ino inode2)); Some (inode2, s4) }
      else Some (inode2, s3)) }"

section \<open>Well-formed states\<close>

interpretation lt: keyed_store f_ino ltree_search ltree_link ltree_modify ltree_erase set "rb_ordered f_ino"
  by (rule rbtree_keyed_store)

interpretation ft: keyed_store fkey ftree_search ftree_link ftree_modify ftree_erase set "rb_ordered fkey"
  by (rule rbtree_keyed_store)

definition wf_file_entry :: "file_entry \<Rightarrow> bool" where
  "wf_file_entry e \<longleftrightarrow> length (f_sample_index e) = MAX_SAMPLE \<and>
     length (f_sample_lifetime e) = MAX_SAMPLE \<and> length (f_sample_lastupdate e) = MAX_SAMPLE \<and>
     length (f_sample_invalid e) = MAX_SAMPLE \<and> f_valid e \<ge> 0"

definition wf_fgroup_entry :: "fgroup_entry \<Rightarrow> bool" where
  "wf_fgroup_entry e \<longleftrightarrow> g_cluster e < of_nat NR_CLUSTER \<and> length (g_keyword e) < 50 \<and> g_valid e \<ge> 0"

definition wf_history :: "fgroup_history list \<Rightarrow> bool" where
  "wf_history hs \<longleftrightarrow> length hs \<le> MAX_HISTORY \<and> (\<forall>h\<in>set hs. length (h_keyword h) < 50)"

text \<open>The centres of the last clustering, which the next one starts from.\<close>

definition centers_ok :: "f2fs_sb_info \<Rightarrow> bool" where
  "centers_ok s \<longleftrightarrow> length (kmeans_center s) = NR_CLUSTER \<and> (\<forall>c\<in>set (kmeans_center s). c < NO_DIST)"

definition wf_sbi :: "f2fs_sb_info \<Rightarrow> bool" where
  "wf_sbi s \<longleftrightarrow> rb_wf f_ino wf_file_entry (lifetime_tree s) \<and>
     rb_wf fkey wf_fgroup_entry (fgroup_tree s) \<and> wf_history (hist s) \<and> centers_ok s"

lemma centers_ok_upd [simp]:
  "centers_ok (s\<lparr>lifetime_tree := a\<rparr>) = centers_ok s" "centers_ok (s\<lparr>fgroup_tree := b\<rparr>) = centers_ok s"
  "centers_ok (s\<lparr>hist := h\<rparr>) = centers_ok s" "centers_ok (s\<lparr>ltree_lock := l\<rparr>) = centers_ok s"
  "centers_ok (s\<lparr>ftree_lock := l\<rparr>) = centers_ok s" "centers_ok (s\<lparr>last_cluster := w\<rparr>) = centers_ok s"
  "centers_ok (s\<lparr>kmeans_count := n\<rparr>) = centers_ok s" "centers_ok (s\<lparr>kmeans_hist := f\<rparr>) = centers_ok s"
  "centers_ok (s\<lparr>kmeans_max := m\<rparr>) = centers_ok s" "centers_ok (s\<lparr>type_block0 := t\<rparr>) = centers_ok s"
  "centers_ok (s\<lparr>type_block1 := t\<rparr>) = centers_ok s" "centers_ok (s\<lparr>type_gc := t\<rparr>) = centers_ok s"
  by (simp_all add: centers_ok_def)

definition unlocked :: "f2fs_sb_info \<Rightarrow> bool" where
  "unlocked s \<longleftrightarrow> \<not> ltree_lock s \<and> \<not> ftree_lock s"

lemma wf_sbi_locks [simp]:
  "wf_sbi (s\<lparr>ltree_lock := b\<rparr>) = wf_sbi s" "wf_sbi (s\<lparr>ftree_lock := b\<rparr>) = wf_sbi s"
  "wf_sbi (unlock_ltree s) = wf_sbi s" "wf_sbi (unlock_ftree s) = wf_sbi s"
  by (simp_all add: wf_sbi_def unlock_ltree_def unlock_ftree_def)

lemma lifetime_loop_range: "lifetime_loop m n i l \<le> max (i + n - 1) (NR_CLUSTER - 2)"
proof (induction n arbitrary: i)
  case (Suc n)
  from Suc [of "i + 1"] show ?case by (auto simp: le_max_iff_disj)
qed simp

lemma lifetime_to_cluster_range: "f2fs_lifetime_to_cluster s l \<le> NR_CLUSTER - 2"
  using lifetime_loop_range [of "kmeans_max s" 3 0 l]
  by (simp add: f2fs_lifetime_to_cluster_def NR_CLUSTER_def)

lemma cluster_word: "c < NR_CLUSTER \<Longrightarrow> (of_nat c :: u32) < of_nat NR_CLUSTER"
  by (simp add: NR_CLUSTER_def word_less_nat_alt unat_of_nat)

lemma initial_cluster_range: "initial_cluster vtype < NR_CLUSTER"
  by (simp add: initial_cluster_def NR_CLUSTER_def)

lemma lifetime_to_cluster_word [simp]:
  "(of_nat (f2fs_lifetime_to_cluster s l) :: u32) < of_nat NR_CLUSTER"
  using lifetime_to_cluster_range [of s l] by (intro cluster_word) (simp add: NR_CLUSTER_def)

lemma wf_blank:
  "c < NR_CLUSTER \<Longrightarrow> wf_fgroup_entry (blank_fgroup_entry s fg name\<lparr>g_cluster := of_nat c\<rparr>)"
  using cluster_word [of c]
  by (simp add: wf_fgroup_entry_def blank_fgroup_entry_def snprintf_def)

lemma wf_restore:
  assumes "wf_fgroup_entry re"
  shows "\<exists>re'. restore_fgroup s fe re = Some re' \<and> wf_fgroup_entry re' \<and> g_fgroup re' = g_fgroup re"
proof -
  have "(of_nat (NR_CLUSTER - 2) :: u32) < of_nat NR_CLUSTER"
    by (rule cluster_word) (simp add: NR_CLUSTER_def)
  with assms show ?thesis
    by (auto simp: restore_fgroup_def Let_def wf_fgroup_entry_def word_neq_0_conv simp del: of_nat_diff)
qed

lemma wf_new_fgroup:
  "\<exists>re. new_fgroup_entry s fg name = Some re \<and> wf_fgroup_entry re \<and> g_fgroup re = ucast fg"
proof (cases "if media_type (vtype_of fg) then None else lookup_fgroup_history s name (vtype_of fg)")
  case None
  then show ?thesis
    using wf_blank [OF initial_cluster_range [of "vtype_of fg"], of s fg name]
    by (simp add: new_fgroup_entry_def blank_fgroup_entry_def)
next
  case (Some i)
  have "wf_fgroup_entry (blank_fgroup_entry s fg name)"
    using wf_blank [of "NR_CLUSTER - 1" s fg name]
    by (simp add: blank_fgroup_entry_def NR_CLUSTER_def)
  from wf_restore [OF this, of s "hist s ! i"] Some show ?thesis
    by (simp add: new_fgroup_entry_def blank_fgroup_entry_def)
qed

text \<open>The callers pass 32-bit groups; for those the stored key is the one searched for.\<close>

lemma fkey_ucast: "g_fgroup e = ucast (ucast fg :: u64) \<Longrightarrow> fkey e = ucast (fg :: u32)"
  by (simp add: fkey_def ucast_ucast_32)

definition same_but_ftree :: "f2fs_sb_info \<Rightarrow> f2fs_sb_info \<Rightarrow> bool" where
  "same_but_ftree s s' \<longleftrightarrow> (\<exists>t. s' = s\<lparr>fgroup_tree := t\<rparr>)"

lemma same_but_ftreeD:
  assumes "same_but_ftree s s'"
  shows "lifetime_tree s' = lifetime_tree s" "hist s' = hist s" "ltree_lock s' = ltree_lock s"
    "ftree_lock s' = ftree_lock s" "kmeans_max s' = kmeans_max s" "cur_seq s' = cur_seq s"
  using assms by (auto simp: same_but_ftree_def cur_seq_def user_data_blocks_def)

lemma same_but_ftree_refl [simp]: "same_but_ftree s s"
  by (auto simp: same_but_ftree_def intro: exI [of _ "fgroup_tree s"])

lemma same_but_ftree_trans: "same_but_ftree s s' \<Longrightarrow> same_but_ftree s' s'' \<Longrightarrow> same_but_ftree s s''"
  by (auto simp: same_but_ftree_def)

lemma wf_sbi_ftree:
  "same_but_ftree s s' \<Longrightarrow> wf_sbi s \<Longrightarrow> rb_wf fkey wf_fgroup_entry (fgroup_tree s') \<Longrightarrow> wf_sbi s'"
  by (auto simp: wf_sbi_def same_but_ftree_def)

lemma link_fgroup_ok:
  assumes "wf_sbi s" "lookup_fgroup_entry (fgroup_tree s) (ucast (fg :: u32)) = None"
  shows "\<exists>s' re. link_fgroup_entry s (ucast fg) name = Some (ucast fg, s') \<and> wf_sbi s' \<and>
           same_but_ftree s s' \<and> new_fgroup_entry s (ucast fg) name = Some re \<and>
           fgroup_tree s' = ftree_link (ucast fg) re (fgroup_tree s)"
proof -
  obtain re where re: "new_fgroup_entry s (ucast fg) name = Some re" "wf_fgroup_entry re"
      "fkey re = ucast fg"
    using wf_new_fgroup [of s "ucast fg" name] fkey_ucast by metis
  let ?s = "s\<lparr>fgroup_tree := ftree_link (ucast fg) re (fgroup_tree s)\<rparr>"
  have "wf_sbi ?s"
    using assms re by (auto simp: wf_sbi_def lookup_fgroup_entry_def intro!: wf_intros)
  with assms re show ?thesis
    by (auto simp: link_fgroup_entry_def same_but_ftree_def)
qed

lemma special_key: "(of_nat FGROUP_EXT_SPECIAL_JOURNAL :: u64) = ucast (of_nat FGROUP_EXT_SPECIAL_JOURNAL :: u32)"
  by (simp add: FGROUP_EXT_SPECIAL_JOURNAL_def)

text \<open>The groups of an insertion: either the one asked for or the special journals.\<close>

lemma lookup_or_insert_ok:
  assumes "wf_sbi s"
  shows "\<exists>k s'. lookup_or_insert_fgroup s (ucast (fg :: u32)) name = Some (k, s') \<and> wf_sbi s' \<and>
           same_but_ftree s s' \<and> lookup_fgroup_entry (fgroup_tree s') k \<noteq> None"
proof -
  define good where "good r \<longleftrightarrow> (\<exists>k s'. r = Some (k, s') \<and> wf_sbi s' \<and> same_but_ftree s s' \<and>
      lookup_fgroup_entry (fgroup_tree s') k \<noteq> None)" for r
  have hit: "lookup_fgroup_entry (fgroup_tree s) k = Some re \<Longrightarrow> good (Some (fkey re, s))" for k re
    using assms rb_wf_search [of fkey wf_fgroup_entry "fgroup_tree s" k re]
    by (auto simp: wf_sbi_def lookup_fgroup_entry_def good_def)
  have new: "good (link_fgroup_entry s (ucast f) n)"
    if none: "lookup_fgroup_entry (fgroup_tree s) (ucast (f :: u32)) = None" for f n
  proof -
    from link_fgroup_ok [OF assms none, of n] obtain s' re where
      *: "link_fgroup_entry s (ucast f) n = Some (ucast f, s')" "wf_sbi s'" "same_but_ftree s s'"
        "new_fgroup_entry s (ucast f) n = Some re"
        "fgroup_tree s' = ftree_link (ucast f) re (fgroup_tree s)" by blast
    have "fkey re = ucast f"
      using wf_new_fgroup [of s "ucast f" n] *(4) by (auto intro: fkey_ucast)
    then have "lookup_fgroup_entry (fgroup_tree s') (ucast f) = Some re"
      using assms none *(5)
      by (simp add: lookup_fgroup_entry_def ft.search_link wf_sbi_def rb_wf_def)
    with * show ?thesis by (auto simp: good_def)
  qed
  have "good (lookup_or_insert_fgroup s (ucast fg) name)"
    by (auto simp: lookup_or_insert_fgroup_def insert_fgroup_entry_def special_key hit new
        split: option.split)
  then show ?thesis by (simp add: good_def)
qed

lemma modify_fgroup_wf [wf_intros]:
  "wf_sbi s \<Longrightarrow> (\<And>e. g_fgroup (f e) = g_fgroup e) \<Longrightarrow> (\<And>e. wf_fgroup_entry e \<Longrightarrow> wf_fgroup_entry (f e)) \<Longrightarrow>
   wf_sbi (modify_fgroup k f s)"
  by (auto simp: wf_sbi_def modify_fgroup_def fkey_def intro!: wf_intros)

lemma modify_fgroup_same [simp]: "same_but_ftree s (modify_fgroup k f s)"
  by (auto simp: modify_fgroup_def same_but_ftree_def)

lemma update_fgroup_entry_ok:
  assumes "wf_sbi s"
  shows "\<exists>s'. update_fgroup_entry s (ucast (fg :: u32)) l n name = Some s' \<and> wf_sbi s' \<and> same_but_ftree s s'"
proof -
  from lookup_or_insert_ok [OF assms, of fg name] obtain k s1 where
    *: "lookup_or_insert_fgroup s (ucast fg) name = Some (k, s1)" "wf_sbi s1" "same_but_ftree s s1" by blast
  have "wf_sbi (modify_fgroup k (\<lambda>e. e\<lparr>g_count := g_count e + ucast n,
       g_latest_count := g_latest_count e + ucast n,
       g_latest_lifetime := g_latest_lifetime e + l * ucast n\<rparr>) s1)"
    using *(2) by (intro wf_intros) (simp_all add: wf_fgroup_entry_def)
  with * show ?thesis
    by (auto simp: update_fgroup_entry_def intro: same_but_ftree_trans)
qed

lemma update_fgroup_entry_valid_ok:
  assumes "wf_sbi s"
  shows "\<exists>s'. update_fgroup_entry_valid s (ucast (fg :: u32)) v name c = Some s' \<and> wf_sbi s' \<and> same_but_ftree s s'"
proof -
  from lookup_or_insert_ok [OF assms, of fg name] obtain k s1 where
    *: "lookup_or_insert_fgroup s (ucast fg) name = Some (k, s1)" "wf_sbi s1" "same_but_ftree s s1" by blast
  have "wf_sbi (modify_fgroup k (\<lambda>e.
       if v < 0 \<and> - v > g_valid e then e\<lparr>g_valid := 0\<rparr>
       else (if c = 1 then e\<lparr>g_cold := g_cold e + word_of_int v, g_valid := g_valid e + v\<rparr>
             else e\<lparr>g_valid := g_valid e + v\<rparr>)) s1)"
    using *(2) by (intro wf_intros) (auto simp: wf_fgroup_entry_def)
  with * show ?thesis
    by (auto simp: update_fgroup_entry_valid_def intro: same_but_ftree_trans)
qed

lemma clear_fgroup_cold_wf [wf_intros]: "wf_sbi s \<Longrightarrow> wf_sbi (clear_fgroup_cold s fg c)"
  unfolding clear_fgroup_cold_def by (intro wf_intros) (auto simp: wf_fgroup_entry_def)

lemma update_cluster_wf [wf_intros]:
  "wf_sbi s \<Longrightarrow> word_of_int c < (of_nat NR_CLUSTER :: u32) \<Longrightarrow> wf_sbi (update_cluster s fg c)"
  unfolding update_cluster_def by (intro wf_intros) (auto simp: wf_fgroup_entry_def)

lemma put_file_entry_wf [wf_intros]:
  "wf_sbi s \<Longrightarrow> wf_file_entry re \<Longrightarrow> wf_sbi (put_file_entry re s)"
  by (auto simp: wf_sbi_def put_file_entry_def intro!: wf_intros)

section \<open>The operations on files keep the state well formed\<close>

lemma new_file_entry_wf: "wf_file_entry (new_file_entry s ino)"
  by (simp add: wf_file_entry_def new_file_entry_def)

lemma find_or_insert_file_ok:
  assumes "wf_sbi s"
  shows "\<exists>re s'. find_or_insert_file s ino = Some (re, s') \<and> wf_file_entry re \<and> f_ino re = ino \<and>
    wf_sbi s' \<and> (\<exists>t. s' = s\<lparr>lifetime_tree := t\<rparr>)"
proof (cases "lookup_file_entry (lifetime_tree s) ino")
  case (Some re)
  then show ?thesis
    using assms rb_wf_search [of f_ino wf_file_entry "lifetime_tree s" ino re]
    by (auto simp: find_or_insert_file_def wf_sbi_def lookup_file_entry_def
        intro: exI [of _ "lifetime_tree s"])
next
  case None
  let ?t = "ltree_link ino (new_file_entry s ino) (lifetime_tree s)"
  have "f_ino (new_file_entry s ino) = ino" by (simp add: new_file_entry_def)
  moreover from this have "wf_sbi (s\<lparr>lifetime_tree := ?t\<rparr>)"
    using assms None by (auto simp: wf_sbi_def lookup_file_entry_def new_file_entry_wf intro!: wf_intros)
  ultimately show ?thesis
    using None by (auto simp: find_or_insert_file_def insert_file_entry_def new_file_entry_wf)
qed

lemma wf_samples [simp]:
  "wf_file_entry (set_sample i a b c re) = wf_file_entry re"
  "wf_file_entry (set_sample_index i v re) = wf_file_entry re"
  "wf_file_entry (free_sample i re) = wf_file_entry re"
  "wf_file_entry (average_samples re) = wf_file_entry re"
  "f_ino (set_sample i a b c re) = f_ino re" "f_ino (set_sample_index i v re) = f_ino re"
  "f_ino (free_sample i re) = f_ino re" "f_ino (average_samples re) = f_ino re"
  "f_valid (set_sample i a b c re) = f_valid re" "f_valid (set_sample_index i v re) = f_valid re"
  "f_valid (free_sample i re) = f_valid re" "f_valid (average_samples re) = f_valid re"
  by (simp_all add: wf_file_entry_def set_sample_def set_sample_index_def free_sample_def
      average_samples_def case_prod_beta)

lemma fold_preserves: "(\<And>x s. x \<in> set xs \<Longrightarrow> P s \<Longrightarrow> P (f x s)) \<Longrightarrow> P s \<Longrightarrow> P (fold f xs s)"
  by (induction xs arbitrary: s) auto

definition like_entry :: "file_entry \<Rightarrow> file_entry \<Rightarrow> bool" where
  "like_entry a b \<longleftrightarrow> wf_file_entry b \<and> f_ino b = f_ino a"

lemma reset_sample_like:
  assumes "wf_file_entry re"
  shows "like_entry re (reset_sample_lifetime re)"
proof -
  have "like_entry re (snd (fold reset_step [0..<MAX_SAMPLE] (d, re)))" for d
    by (rule fold_preserves [where P = "\<lambda>p. like_entry re (snd p)"])
      (auto simp: reset_step_def like_entry_def assms split: if_splits)
  with assms show ?thesis by (simp add: reset_sample_lifetime_def like_entry_def)
qed

lemma touch_sample_like: "wf_file_entry re \<Longrightarrow> like_entry re (snd (touch_sample s u i re))"
  by (simp add: touch_sample_def Let_def like_entry_def) (simp add: wf_file_entry_def set_sample_def)

lemma new_sample_like: "wf_file_entry re \<Longrightarrow> like_entry re (snd (new_sample s x u re))"
  by (auto simp: new_sample_def Let_def like_entry_def split: option.split) (simp_all add: wf_file_entry_def set_sample_def set_sample_index_def)

lemma like_entry_trans: "like_entry a b \<Longrightarrow> like_entry b c \<Longrightarrow> like_entry a c"
  by (simp add: like_entry_def)

lemma wf_counters [simp]:
  "wf_file_entry (re\<lparr>f_sample_rate := r\<rparr>) = wf_file_entry re"
  "wf_file_entry (re\<lparr>f_max_range := m\<rparr>) = wf_file_entry re"
  "wf_file_entry (re\<lparr>f_last_kmeans := k\<rparr>) = wf_file_entry re"
  "wf_file_entry (re\<lparr>f_lifetime := l\<rparr>) = wf_file_entry re"
  "wf_file_entry (re\<lparr>f_last_0_update := l\<rparr>) = wf_file_entry re"
  "wf_file_entry (re\<lparr>f_cold := c\<rparr>) = wf_file_entry re"
  "wf_file_entry (re\<lparr>f_filetype := t\<rparr>) = wf_file_entry re"
  by (simp_all add: wf_file_entry_def)

lemma prepare_sample_like: "wf_file_entry re \<Longrightarrow> like_entry re (prepare_sample s x re)"
  using reset_sample_like [of re] by (simp add: prepare_sample_def Let_def like_entry_def)

lemma update_sample_like:
  assumes "wf_file_entry re"
  shows "like_entry re (snd (update_sample_lifetime s re x u))"
proof -
  let ?re = "prepare_sample s x re"
  have p: "like_entry re ?re" by (rule prepare_sample_like [OF assms])
  then have "like_entry ?re (snd (touch_sample s u i ?re))" "like_entry ?re (snd (new_sample s x u ?re))" for i
    by (simp_all add: touch_sample_like new_sample_like like_entry_def [of re])
  with p show ?thesis
    by (auto simp: update_sample_lifetime_def Let_def split: option.split intro: like_entry_trans)
qed

lemma page0_like: "wf_file_entry re \<Longrightarrow> like_entry re (snd (page0_update s u re))"
  by (simp add: page0_update_def like_entry_def)

lemma file_lifetime_like:
  assumes "wf_file_entry re" "file_lifetime s inode r u re = (l, re')"
  shows "like_entry re re'"
proof -
  define p where "p = (if r = 0 then page0_update s u re else (True, re))"
  have "like_entry re (snd p)" using assms(1) by (simp add: p_def page0_like) (simp add: like_entry_def)
  with assms(2) show ?thesis
    using update_sample_like [of "snd p" s "sint (word_of_int r :: u32)" u]
    by (auto simp: file_lifetime_def p_def [symmetric] like_entry_def split: if_splits prod.splits)
qed

section \<open>The history and the deletion of groups\<close>

lemma insert_fgroup_history_wf [wf_intros]:
  assumes "wf_sbi s"
  shows "wf_sbi (insert_fgroup_history s re)"
proof -
  have "length (hist s) \<ge> MAX_HISTORY \<or>
    wf_history (hist s @ [hist_of_entry \<lparr>h_keyword = snprintf 50 k, h_vtype = v, h_ema = 0, h_count = 0,
       h_latest_lifetime = 0, h_latest_count = 0, h_update_ema = 0\<rparr> e])" for k v e
    using assms by (auto simp: wf_sbi_def wf_history_def hist_of_entry_def snprintf_def)
  moreover have "wf_history ((hist s)[i := hist_of_entry (hist s ! i) e])"
    if "i < length (hist s)" for i e
    using assms that
    by (auto simp: wf_sbi_def wf_history_def hist_of_entry_def dest!: set_update_subset_insert [THEN subsetD])
  moreover have "lookup_fgroup_history s k v = Some i \<Longrightarrow> i < length (hist s)" for k v i
    by (auto simp: lookup_fgroup_history_def find_Some_iff)
  ultimately show ?thesis
    using assms by (auto simp: insert_fgroup_history_def Let_def wf_sbi_def split: option.split)
qed

lemma insert_fgroup_history_same [simp]:
  "fgroup_tree (insert_fgroup_history s re) = fgroup_tree s"
  "lifetime_tree (insert_fgroup_history s re) = lifetime_tree s"
  "ltree_lock (insert_fgroup_history s re) = ltree_lock s"
  "ftree_lock (insert_fgroup_history s re) = ftree_lock s"
  by (simp_all add: insert_fgroup_history_def Let_def split: option.split)

lemma erase_fgroup_wf [wf_intros]:
  "wf_sbi s \<Longrightarrow> wf_sbi (s\<lparr>fgroup_tree := ftree_erase k (fgroup_tree s)\<rparr>)"
  by (auto simp: wf_sbi_def intro: wf_intros)

lemma retire_fgroup_ok:
  "wf_sbi s \<Longrightarrow> wf_sbi (retire_fgroup ino v s) \<and> ltree_lock (retire_fgroup ino v s) = ltree_lock s \<and>
     lifetime_tree (retire_fgroup ino v s) = lifetime_tree s"
  using erase_fgroup_wf [OF insert_fgroup_history_wf, of s]
  by (auto simp: retire_fgroup_def Let_def split: option.split)

lemma delete_fgroup_entry_ok:
  assumes "wf_sbi s" "unlocked s"
  shows "\<exists>s'. delete_fgroup_entry s ino = Some s' \<and> wf_sbi s' \<and> unlocked s'"
proof -
  let ?s = "s\<lparr>ftree_lock := True\<rparr>"
  let ?t = "fold (retire_fgroup ino) [0..<FGROUP_ETC + 1] ?s"
  have "wf_sbi ?t \<and> \<not> ltree_lock ?t"
    by (rule fold_preserves [where P = "\<lambda>t. wf_sbi t \<and> \<not> ltree_lock t"])
      (use assms in \<open>auto simp: unlocked_def retire_fgroup_ok\<close>)
  with assms show ?thesis
    by (simp add: delete_fgroup_entry_def unlocked_def unlock_ftree_def)
qed

section \<open>The entry points return and keep the state well formed\<close>

text \<open>The path of the file, with its NUL, fits the buffer of \<open>get_fgroup\<close>.\<close>

definition path_fits :: "inode \<Rightarrow> bool" where
  "path_fits inode \<longleftrightarrow> get_full_path inode 500 \<noteq> Path_overflow"

lemma path_fits_same: "same_file a b \<Longrightarrow> path_fits b = path_fits a"
  by (simp add: path_fits_def get_full_path_def same_file_def)

lemma ensure_fgroup_ok:
  assumes "path_fits inode"
  shows "\<exists>inode'. ensure_fgroup inode = Some inode' \<and> same_file inode inode'"
proof -
  from assms obtain g inode' where g: "get_fgroup inode None = Some (g, inode')"
    by (fastforce simp: path_fits_def get_fgroup_def split: path_result.splits)
  with get_fgroup_same [OF g] show ?thesis by (simp add: ensure_fgroup_def)
qed

text \<open>A step of the file system: the state is well formed again and both locks are free.\<close>

definition settled :: "f2fs_sb_info \<Rightarrow> bool" where
  "settled s \<longleftrightarrow> wf_sbi s \<and> unlocked s"

lemma put_file_entry_same [simp]:
  "fgroup_tree (put_file_entry re s) = fgroup_tree s" "hist (put_file_entry re s) = hist s"
  "ltree_lock (put_file_entry re s) = ltree_lock s" "ftree_lock (put_file_entry re s) = ftree_lock s"
  by (simp_all add: put_file_entry_def)

lemma clear_fgroup_cold_same [simp]:
  "ltree_lock (clear_fgroup_cold s fg c) = ltree_lock s" "ftree_lock (clear_fgroup_cold s fg c) = ftree_lock s"
  by (simp_all add: clear_fgroup_cold_def modify_fgroup_def)

lemma merge_fgroup_wf: "wf_fgroup_entry fe \<Longrightarrow> wf_fgroup_entry e \<Longrightarrow> wf_fgroup_entry (merge_fgroup fe e)"
  by (simp add: wf_fgroup_entry_def merge_fgroup_def)

lemma convert_ok:
  assumes wf: "wf_sbi s" and l: "\<not> ltree_lock s"
  shows "\<exists>inode' s'. convert_fgroup_to_special_journal s inode = Some (inode', s') \<and>
    wf_sbi s' \<and> \<not> ltree_lock s' \<and> same_file inode inode'"
proof (cases "lookup_fgroup_entry (fgroup_tree s) (ucast (i_fgroup inode))")
  case None
  with assms show ?thesis by (simp add: convert_fgroup_to_special_journal_def)
next
  case (Some fe)
  define s1 where "s1 = s\<lparr>ltree_lock := True\<rparr>"
  define s2 where "s2 = (case lookup_file_entry (lifetime_tree s1) (ucast (i_ino inode)) of
       None \<Rightarrow> s1
     | Some re \<Rightarrow> put_file_entry (re\<lparr>f_filetype := int FGROUP_EXT_SPECIAL_JOURNAL\<rparr>) s1)"
  have fe: "wf_fgroup_entry fe"
    using wf Some rb_wf_search by (fastforce simp: wf_sbi_def lookup_fgroup_entry_def)
  have s2: "wf_sbi (unlock_ltree s2)" "\<not> ltree_lock (unlock_ltree s2)"
    using wf rb_wf_search [of f_ino wf_file_entry "lifetime_tree s"]
    by (auto simp: s2_def s1_def unlock_ltree_def wf_sbi_def lookup_file_entry_def
        put_file_entry_def intro!: wf_intros split: option.splits)
  from lookup_or_insert_ok [OF s2(1), of "of_nat FGROUP_EXT_SPECIAL_JOURNAL" SPECIAL_JOURNAL_NAME]
  obtain j s3 where s3: "lookup_or_insert_fgroup (unlock_ltree s2)
      (of_nat FGROUP_EXT_SPECIAL_JOURNAL) SPECIAL_JOURNAL_NAME = Some (j, s3)"
    "wf_sbi s3" "same_but_ftree (unlock_ltree s2) s3"
    unfolding special_key by blast
  have "wf_sbi (modify_fgroup j (merge_fgroup fe) s3)"
    using s3(2) fe by (intro wf_intros merge_fgroup_wf) (simp_all add: merge_fgroup_def)
  from erase_fgroup_wf [OF this] l s2 s3 Some show ?thesis
    by (simp add: convert_fgroup_to_special_journal_def s1_def [symmetric] s2_def [symmetric]
        modify_fgroup_def same_but_ftreeD)
qed

lemma charge_lifetime_ok:
  assumes "settled s" "wf_file_entry re"
  shows "\<exists>inode' s'. charge_lifetime s inode re l r p u = Some (inode', s') \<and> settled s' \<and>
    same_file inode inode'"
proof -
  let ?s1 = "s\<lparr>ftree_lock := True\<rparr>" and ?fg = "ucast (i_fgroup inode) :: u64"
  have s1: "wf_sbi ?s1" "lock_ftree s = Some ?s1" "\<not> ltree_lock ?s1"
    using assms by (auto simp: settled_def unlocked_def)
  from update_fgroup_entry_ok [OF s1(1), of "i_fgroup inode" l "word_of_int p" "i_keyword inode"]
  obtain s2 where s2: "update_fgroup_entry ?s1 ?fg l (word_of_int p) (i_keyword inode) = Some s2"
    "wf_sbi s2" "\<not> ltree_lock s2"
    using s1(3) by (auto dest: same_but_ftreeD)
  define s3 where "s3 = (if f_cold re = 1 then
     put_file_entry (re\<lparr>f_cold := 0\<rparr>) (clear_fgroup_cold s2 ?fg (f_valid re)) else s2)"
  have s3: "wf_sbi s3" "\<not> ltree_lock s3"
    using s2 assms(2) by (auto simp: s3_def intro!: wf_intros)
  from convert_ok [OF this, of inode] obtain i4 s4 where
    "convert_fgroup_to_special_journal s3 inode = Some (i4, s4)" "wf_sbi s4" "\<not> ltree_lock s4"
    "same_file inode i4" by blast
  with s1 s2 s3 show ?thesis
    by (simp add: charge_lifetime_def s3_def [symmetric] settled_def unlocked_def)
      (simp add: unlock_ftree_def)
qed

lemma lock_file_ok:
  assumes "settled s"
  shows "lock_ltree s = Some (s\<lparr>ltree_lock := True\<rparr>)"
    "\<exists>re s'. find_or_insert_file (s\<lparr>ltree_lock := True\<rparr>) ino = Some (re, s') \<and> wf_file_entry re \<and>
       f_ino re = ino \<and> settled (unlock_ltree s')"
  using assms find_or_insert_file_ok [of "s\<lparr>ltree_lock := True\<rparr>" ino]
  by (auto simp: settled_def unlocked_def unlock_ltree_def)

lemma settled_put:
  "settled (unlock_ltree s) \<Longrightarrow> wf_file_entry re \<Longrightarrow> settled (unlock_ltree (put_file_entry re s))"
  by (auto simp: settled_def unlocked_def unlock_ltree_def put_file_entry_wf)

lemma settled_lock_unlock: "settled s \<Longrightarrow> settled (unlock_ltree (s\<lparr>ltree_lock := True\<rparr>))"
  by (simp add: settled_def unlocked_def unlock_ltree_def)

lemma update_file_lifetime_ok:
  assumes "settled s" "path_fits inode"
  shows "\<exists>inode' s'. update_file_lifetime s inode r p u = Some (inode', s') \<and> settled s' \<and>
    same_file inode inode'"
proof -
  let ?s1 = "s\<lparr>ltree_lock := True\<rparr>" and ?ino = "ucast (i_ino inode) :: u32"
  from lock_file_ok(1) [OF assms(1)] lock_file_ok(2) [OF assms(1), of ?ino] obtain re s2 where
    l: "lock_ltree s = Some ?s1" and f: "find_or_insert_file ?s1 ?ino = Some (re, s2)"
      "wf_file_entry re" "settled (unlock_ltree s2)" by blast
  obtain l re' where fl: "file_lifetime s2 inode r u re = (l, re')" by fastforce
  then have re': "wf_file_entry re'"
    using file_lifetime_like [OF f(2)] by (simp add: like_entry_def)
  let ?s3 = "unlock_ltree (put_file_entry re' s2)"
  have s3: "settled ?s3" by (rule settled_put [OF f(3) re'])
  from ensure_fgroup_ok [OF assms(2)] obtain i1 where
    i1: "ensure_fgroup inode = Some i1" "same_file inode i1" by blast
  have c: "\<exists>i2 s4. charge_lifetime ?s3 i1 re' lt r p u = Some (i2, s4) \<and> settled s4 \<and> same_file inode i2" for lt
    using charge_lifetime_ok [OF s3 re', of i1 lt r p u] i1(2) by (blast intro: same_file_trans)
  have "settled (unlock_ltree ?s1)" by (rule settled_lock_unlock [OF assms(1)])
  with l f fl s3 i1 c assms(1) show ?thesis
    by (auto simp: update_file_lifetime_def Let_def split: option.split)
qed

lemma valid_delta_nonneg: "f_valid re \<ge> 0 \<Longrightarrow> f_valid re + valid_delta v re \<ge> 0"
  by (auto simp: valid_delta_def)

lemma update_file_valid_ok:
  assumes "settled s" "path_fits inode"
  shows "\<exists>inode' s'. update_file_valid s inode v = Some (inode', s') \<and> settled s' \<and> same_file inode inode'"
proof -
  let ?s1 = "s\<lparr>ltree_lock := True\<rparr>" and ?ino = "ucast (i_ino inode) :: u32"
  from lock_file_ok(1) [OF assms(1)] lock_file_ok(2) [OF assms(1), of ?ino] obtain re s2 where
    l: "lock_ltree s = Some ?s1" and f: "find_or_insert_file ?s1 ?ino = Some (re, s2)"
      "wf_file_entry re" "settled (unlock_ltree s2)" by blast
  let ?re = "re\<lparr>f_valid := f_valid re + valid_delta v re\<rparr>"
  let ?s3 = "unlock_ltree (put_file_entry ?re s2)"
  have "wf_file_entry ?re"
    using f(2) valid_delta_nonneg [of re v] by (simp add: wf_file_entry_def)
  then have s3: "settled ?s3" by (rule settled_put [OF f(3)])
  let ?s4 = "?s3\<lparr>ftree_lock := True\<rparr>"
  have s4: "lock_ftree ?s3 = Some ?s4" "wf_sbi ?s4" "\<not> ltree_lock ?s4"
    using s3 by (auto simp: settled_def unlocked_def)
  from ensure_fgroup_ok [OF assms(2)] obtain i1 where
    i1: "ensure_fgroup inode = Some i1" "same_file inode i1" by blast
  from update_fgroup_entry_valid_ok [OF s4(2), of "i_fgroup i1" "valid_delta v re" "i_keyword i1" "f_cold re"]
  obtain s5 where s5: "update_fgroup_entry_valid ?s4 (ucast (i_fgroup i1)) (valid_delta v re)
      (i_keyword i1) (f_cold re) = Some s5" "wf_sbi s5" "same_but_ftree ?s4 s5" by blast
  then have "settled (unlock_ftree s5)"
    using s4(3) by (simp add: settled_def unlocked_def unlock_ftree_def same_but_ftreeD)
  moreover have "settled (unlock_ltree ?s1)" by (rule settled_lock_unlock [OF assms(1)])
  ultimately show ?thesis
    using l f s4(1) i1 s5(1) by (simp add: update_file_valid_def Let_def)
qed

lemma delete_file_entry_ok:
  assumes "settled s"
  shows "\<exists>s'. delete_file_entry s ino = Some s' \<and> settled s' \<and>
    lookup_file_entry (lifetime_tree s') ino = None \<and> fgroup_tree s' = fgroup_tree s"
proof -
  have "rb_ordered f_ino (lifetime_tree s)" using assms by (simp add: settled_def wf_sbi_def rb_wf_def)
  with assms show ?thesis
    by (auto simp: delete_file_entry_def settled_def unlocked_def unlock_ltree_def wf_sbi_def
        lookup_file_entry_def lt.search_erase intro: wf_intros split: option.split)
qed

lemma update_file_type_ok:
  assumes "settled s"
  shows "\<exists>s'. update_file_type s ino ft = Some s' \<and> settled s'"
proof -
  have "lookup_file_entry (lifetime_tree s) ino = Some re \<Longrightarrow> wf_file_entry re" for re
    using assms rb_wf_search by (fastforce simp: settled_def wf_sbi_def lookup_file_entry_def)
  with assms show ?thesis
    by (auto simp: update_file_type_def settled_lock_unlock settled_def unlocked_def
        unlock_ltree_def intro: put_file_entry_wf split: option.split)
qed

section \<open>What a deletion leaves behind\<close>

lemma lookup_retire:
  assumes "wf_sbi s"
  shows "lookup_fgroup_entry (fgroup_tree (retire_fgroup ino v s)) k =
    (if k = fgroup_key ino v then None else lookup_fgroup_entry (fgroup_tree s) k)"
proof -
  have o: "rb_ordered fkey (fgroup_tree s)" using assms by (simp add: wf_sbi_def rb_wf_def)
  show ?thesis
    using ft.search_erase [OF o]
    by (auto simp: retire_fgroup_def lookup_fgroup_entry_def Let_def split: option.split)
qed

lemma lookup_retire_all:
  assumes "wf_sbi s"
  shows "lookup_fgroup_entry (fgroup_tree (fold (retire_fgroup ino) vs s)) k =
    (if k \<in> fgroup_key ino ` set vs then None else lookup_fgroup_entry (fgroup_tree s) k)"
  using assms
proof (induction vs arbitrary: s)
  case (Cons v vs)
  then have "wf_sbi (retire_fgroup ino v s)" by (simp add: retire_fgroup_ok)
  from Cons.IH [OF this] show ?case by (auto simp: lookup_retire [OF Cons.prems])
qed simp

lemma delete_fgroup_lookup:
  assumes "settled s" "delete_fgroup_entry s ino = Some s'"
  shows "lookup_fgroup_entry (fgroup_tree s') k =
    (if k \<in> fgroup_key ino ` {0..FGROUP_ETC} then None else lookup_fgroup_entry (fgroup_tree s) k)"
proof -
  define vs where "vs = [0..<FGROUP_ETC + 1]"
  have "s' = unlock_ftree (fold (retire_fgroup ino) vs (s\<lparr>ftree_lock := True\<rparr>))"
    using assms by (simp add: delete_fgroup_entry_def settled_def unlocked_def vs_def)
  moreover have "set vs = {0..FGROUP_ETC}" by (auto simp: vs_def)
  ultimately show ?thesis
    using lookup_retire_all [of "s\<lparr>ftree_lock := True\<rparr>" ino vs k] assms(1)
    by (simp add: unlock_ftree_def settled_def)
qed

lemma cmp_name_refl [simp]: "cmp_name n n = 0"
proof -
  have "cmp_name_loop k i n n = 0" for k i by (induction k arbitrary: i) simp_all
  then show ?thesis by (simp add: cmp_name_def)
qed

text \<open>A group just saved is found again, and saving a group of another type does not disturb
  it.\<close>

definition saved_as :: "f2fs_sb_info \<Rightarrow> string \<Rightarrow> nat \<Rightarrow> fgroup_entry \<Rightarrow> bool" where
  "saved_as s k v re \<longleftrightarrow> (\<exists>i. lookup_fgroup_history s k v = Some i \<and>
     (\<exists>fe. hist s ! i = hist_of_entry fe re))"

lemma find_upt_append:
  assumes "find P [0..<n] = Some i" "\<And>j. j < n \<Longrightarrow> Q j = P j" "n \<le> m"
  shows "find Q [0..<m] = Some i"
proof -
  from assms(3) have "[0..<m] = [0..<n] @ [n..<m]" by (metis le_add_diff_inverse upt_add_eq_append zero_le)
  moreover have "find Q [0..<n] = find P [0..<n]" by (rule find_cong) (simp_all add: assms(2))
  ultimately show ?thesis
    using assms(1) by (auto simp: find_Some_iff nth_append)
qed

lemma insert_fgroup_history_saves:
  assumes "length (g_keyword re) < 50"
    "lookup_fgroup_history s (g_keyword re) (vtype_of (fkey re)) \<noteq> None \<or> length (hist s) < MAX_HISTORY"
  shows "saved_as (insert_fgroup_history s re) (g_keyword re) (vtype_of (fkey re)) (count_once s re)"
proof (cases "lookup_fgroup_history s (g_keyword re) (vtype_of (fkey re))")
  case (Some i)
  then have i: "i < length (hist s)" by (auto simp: lookup_fgroup_history_def find_Some_iff)
  let ?h = "(hist s)[i := hist_of_entry (hist s ! i) (count_once s re)]"
  have "h_keyword (?h ! j) = h_keyword (hist s ! j) \<and> h_vtype (?h ! j) = h_vtype (hist s ! j)"
    if "j < length (hist s)" for j
    using that i by (cases "j = i") (simp_all add: hist_of_entry_def)
  then have "lookup_fgroup_history (insert_fgroup_history s re) (g_keyword re) (vtype_of (fkey re)) = Some i"
    using Some unfolding lookup_fgroup_history_def
    by (auto simp: insert_fgroup_history_def lookup_fgroup_history_def fkey_def Let_def
        intro!: find_upt_append [OF Some [unfolded lookup_fgroup_history_def]])
  with Some i show ?thesis
    by (auto simp: saved_as_def insert_fgroup_history_def fkey_def Let_def)
next
  case None
  let ?n = "length (hist s)"
  define h where "h = hist_of_entry \<lparr>h_keyword = snprintf 50 (g_keyword re), h_vtype = vtype_of (fkey re),
      h_ema = 0, h_count = 0, h_latest_lifetime = 0, h_latest_count = 0, h_update_ema = 0\<rparr> (count_once s re)"
  have hk: "h_keyword h = g_keyword re" "h_vtype h = vtype_of (fkey re)"
    using assms(1) by (simp_all add: h_def hist_of_entry_def snprintf_def)
  have h: "hist (insert_fgroup_history s re) = hist s @ [h]"
    using None assms(2) by (simp add: insert_fgroup_history_def Let_def h_def fkey_def)
  have "find (\<lambda>i. cmp_name (h_keyword ((hist s @ [h]) ! i)) (g_keyword re) = 0 \<and>
      h_vtype ((hist s @ [h]) ! i) = vtype_of (fkey re)) [0..<?n] = None"
    using None by (auto simp: lookup_fgroup_history_def find_None_iff nth_append)
  then have "lookup_fgroup_history (insert_fgroup_history s re) (g_keyword re) (vtype_of (fkey re)) = Some ?n"
    by (simp add: lookup_fgroup_history_def h find_append hk)
  with h show ?thesis by (auto simp: saved_as_def h_def)
qed

lemma insert_fgroup_history_keeps:
  assumes "saved_as s k v re" "vtype_of (fkey e) \<noteq> v"
  shows "saved_as (insert_fgroup_history s e) k v re"
proof -
  from assms(1) obtain i fe where i: "lookup_fgroup_history s k v = Some i" "hist s ! i = hist_of_entry fe re"
    by (auto simp: saved_as_def)
  then have il: "i < length (hist s)" "h_vtype (hist s ! i) = v"
    by (auto simp: lookup_fgroup_history_def find_Some_iff)
  let ?h = "hist (insert_fgroup_history s e)"
  have same: "?h ! j = hist s ! j \<or>
      h_vtype (hist s ! j) = vtype_of (fkey e) \<and> h_vtype (?h ! j) = vtype_of (fkey e)"
    if "j < length (hist s)" for j
  proof (cases "lookup_fgroup_history s (g_keyword e) (vtype_of (fkey e))")
    case (Some m)
    then have "m < length (hist s)" "h_vtype (hist s ! m) = vtype_of (fkey e)"
      by (auto simp: lookup_fgroup_history_def find_Some_iff)
    with Some that show ?thesis
      by (cases "m = j") (simp_all add: insert_fgroup_history_def fkey_def hist_of_entry_def)
  qed (use that in \<open>simp add: insert_fgroup_history_def Let_def fkey_def nth_append\<close>)
  have "length (hist s) \<le> length ?h"
    by (auto simp: insert_fgroup_history_def Let_def split: option.split)
  moreover have "(cmp_name (h_keyword (?h ! j)) k = 0 \<and> h_vtype (?h ! j) = v) =
      (cmp_name (h_keyword (hist s ! j)) k = 0 \<and> h_vtype (hist s ! j) = v)"
    if "j < length (hist s)" for j
    using same [OF that] assms(2) by auto
  ultimately have "lookup_fgroup_history (insert_fgroup_history s e) k v = Some i"
    unfolding lookup_fgroup_history_def
    by (intro find_upt_append [OF i(1) [unfolded lookup_fgroup_history_def]])
  moreover have "?h ! i = hist s ! i" using same [OF il(1)] il(2) assms(2) by auto
  ultimately show ?thesis using i(2) by (auto simp: saved_as_def)
qed

lemma vtype_of_key [simp]: "v < 32 \<Longrightarrow> vtype_of (fgroup_key ino v) = v"
  by (simp add: vtype_of_def fgroup_key_def compose_low)

lemma fgroup_key_inj: "v < 32 \<Longrightarrow> w < 32 \<Longrightarrow> fgroup_key ino v = fgroup_key ino w \<longleftrightarrow> v = w"
  using vtype_of_key by metis

lemma saved_as_ftree [simp]: "saved_as (s\<lparr>fgroup_tree := t\<rparr>) k v re = saved_as s k v re"
  by (simp add: saved_as_def lookup_fgroup_history_def)

lemma saved_as_unlock [simp]: "saved_as (unlock_ftree s) k v re = saved_as s k v re"
  by (simp add: saved_as_def lookup_fgroup_history_def unlock_ftree_def)

lemma lookup_fgroup_Some:
  "wf_sbi s \<Longrightarrow> lookup_fgroup_entry (fgroup_tree s) k = Some e \<Longrightarrow> wf_fgroup_entry e \<and> fkey e = k"
  using rb_wf_search by (fastforce simp: wf_sbi_def lookup_fgroup_entry_def)

lemma retire_saves:
  assumes "wf_sbi s" "lookup_fgroup_entry (fgroup_tree s) (fgroup_key ino v) = Some e" "v < 32"
    "length (hist s) < MAX_HISTORY"
  shows "saved_as (retire_fgroup ino v s) (g_keyword e) v (count_once s e)"
  using insert_fgroup_history_saves [of e s] lookup_fgroup_Some [OF assms(1,2)] assms
  by (simp add: retire_fgroup_def Let_def wf_fgroup_entry_def)

lemma retire_keeps:
  assumes "wf_sbi s" "saved_as s k v re" "w \<noteq> v" "w < 32"
  shows "saved_as (retire_fgroup ino w s) k v re"
  using assms insert_fgroup_history_keeps [OF assms(2)] lookup_fgroup_Some [OF assms(1)]
  by (auto simp: retire_fgroup_def Let_def split: option.split)

lemma retire_frame:
  "length (hist (retire_fgroup ino v s)) \<le> Suc (length (hist s))"
  "cur_seq (retire_fgroup ino v s) = cur_seq s" "kmeans_max (retire_fgroup ino v s) = kmeans_max s"
  by (auto simp: retire_fgroup_def insert_fgroup_history_def Let_def cur_seq_def user_data_blocks_def
      split: option.split)

lemma retire_all_frame:
  "wf_sbi s \<Longrightarrow> wf_sbi (fold (retire_fgroup ino) vs s) \<and>
     length (hist (fold (retire_fgroup ino) vs s)) \<le> length (hist s) + length vs \<and>
     cur_seq (fold (retire_fgroup ino) vs s) = cur_seq s"
proof (induction vs arbitrary: s)
  case (Cons v vs)
  then have "wf_sbi (retire_fgroup ino v s)" by (simp add: retire_fgroup_ok)
  from Cons.IH [OF this] retire_frame [of ino v s] show ?case by simp
qed simp

lemma retire_all_keeps:
  "wf_sbi s \<Longrightarrow> saved_as s k v re \<Longrightarrow> v \<notin> set vs \<Longrightarrow> \<forall>w\<in>set vs. w < 32 \<Longrightarrow>
   saved_as (fold (retire_fgroup ino) vs s) k v re"
  by (induction vs arbitrary: s) (auto simp: retire_keeps retire_fgroup_ok)

lemma delete_fgroup_saves:
  assumes "settled s" "delete_fgroup_entry s ino = Some s'" "v \<le> FGROUP_ETC"
    and e: "lookup_fgroup_entry (fgroup_tree s) (fgroup_key ino v) = Some e"
    and room: "length (hist s) + FGROUP_ETC < MAX_HISTORY"
  shows "saved_as s' (g_keyword e) v (count_once s e)"
proof -
  let ?s = "s\<lparr>ftree_lock := True\<rparr>" and ?f = "retire_fgroup ino"
  define s1 where "s1 = fold ?f [0..<v] ?s"
  have v: "v < 32" using assms(3) by (simp add: FGROUP_ETC_def)
  have wf: "wf_sbi ?s" using assms(1) by (simp add: settled_def)
  note s1 = retire_all_frame [OF wf, of ino "[0..<v]", folded s1_def]
  have "fgroup_key ino v \<notin> fgroup_key ino ` {0..<v}" using v by (auto simp: fgroup_key_inj)
  then have "lookup_fgroup_entry (fgroup_tree s1) (fgroup_key ino v) = Some e"
    using lookup_retire_all [OF wf, of ino "[0..<v]" "fgroup_key ino v"] e by (simp add: s1_def)
  moreover have "length (hist s1) < MAX_HISTORY" using s1 assms(3) room by simp
  moreover have "count_once s1 e = count_once s e"
    using s1 by (simp add: count_once_def cur_seq_def user_data_blocks_def)
  ultimately have "saved_as (?f v s1) (g_keyword e) v (count_once s e)"
    using retire_saves [of s1 ino v e] s1 v by simp
  then have "saved_as (fold ?f [Suc v..<FGROUP_ETC + 1] (?f v s1)) (g_keyword e) v (count_once s e)"
    by (rule retire_all_keeps [rotated]) (use s1 in \<open>auto simp: retire_fgroup_ok FGROUP_ETC_def\<close>)
  moreover have "[0..<FGROUP_ETC + 1] = [0..<v] @ v # [Suc v..<FGROUP_ETC + 1]"
    using assms(3) by (metis Suc_eq_plus1 le_imp_less_Suc le_add_diff_inverse less_imp_le upt_add_eq_append upt_conv_Cons zero_le)
  moreover have "s' = unlock_ftree (fold ?f [0..<FGROUP_ETC + 1] ?s)"
    using assms(1,2) by (simp add: delete_fgroup_entry_def settled_def unlocked_def)
  ultimately show ?thesis by (simp only: fold_append fold.simps comp_apply s1_def saved_as_unlock)
qed

lemma delete_fgroup_files:
  assumes "settled s" "delete_fgroup_entry s ino = Some s'"
  shows "lifetime_tree s' = lifetime_tree s"
proof -
  have "wf_sbi (fold (retire_fgroup ino) vs t) \<and> lifetime_tree (fold (retire_fgroup ino) vs t) = lifetime_tree t"
    if "wf_sbi t" for vs t
    using that by (induction vs arbitrary: t) (simp_all add: retire_fgroup_ok)
  from this [of "s\<lparr>ftree_lock := True\<rparr>" "[0..<FGROUP_ETC + 1]"] assms show ?thesis
    by (auto simp: delete_fgroup_entry_def settled_def unlocked_def unlock_ftree_def)
qed

lemma evict_streams_ok:
  assumes "settled s" "path_fits inode"
  shows "\<exists>inode' s'. evict_streams s inode = Some (inode', s') \<and> settled s' \<and>
    lookup_file_entry (lifetime_tree s') (ucast (i_ino inode)) = None"
proof -
  from update_file_lifetime_ok [OF assms] obtain i1 s1 where
    1: "update_file_lifetime s inode 0 ((i_size inode + 4095) div 4096) 1 = Some (i1, s1)"
      "settled s1" "same_file inode i1" by blast
  from 1 assms(2) have "path_fits i1" by (simp add: path_fits_same)
  from update_file_valid_ok [OF 1(2) this] obtain i2 s2 where
    2: "update_file_valid s1 i1 0 = Some (i2, s2)" "settled s2" "same_file i1 i2" by blast
  have ino: "i_ino i2 = i_ino inode" using 1(3) 2(3) by (simp add: same_file_def)
  from delete_file_entry_ok [OF 2(2)] obtain s3 where
    3: "delete_file_entry s2 (ucast (i_ino inode)) = Some s3" "settled s3"
      "lookup_file_entry (lifetime_tree s3) (ucast (i_ino inode)) = None" by blast
  then obtain s4 where
    4: "delete_fgroup_entry s3 (ucast (i_ino inode)) = Some s4" "settled s4"
    using delete_fgroup_entry_ok [of s3] by (auto simp: settled_def)
  with 3 have "lookup_file_entry (lifetime_tree s4) (ucast (i_ino inode)) = None"
    using delete_fgroup_files by metis
  with 1(1) 2(1) 3 4 show ?thesis by (simp add: evict_streams_def ino)
qed

section \<open>Properties\<close>

definition demo_sbi :: f2fs_sb_info where
  "demo_sbi = \<lparr>type_block0 = [100, 0, 0, 0, 0, 0, 0], type_block1 = replicate 7 0,
     type_gc = replicate 7 0, lifetime_tree = [], ltree_lock = False, fgroup_tree = [],
     ftree_lock = False, kmeans_max = [0, 0, 0, 0], kmeans_center = [0, 0, 0, 0],
     kmeans_count = 0, kmeans_hist = (\<lambda>_. \<lparr>kh_q1 = [0, 0, 0, 0], kh_q3 = [0, 0, 0, 0], kh_seq = 0\<rparr>), hist = [], last_cluster = 0\<rparr>"

lemma demo_settled: "settled demo_sbi"
  by (simp add: settled_def wf_sbi_def demo_sbi_def unlocked_def wf_history_def centers_ok_def
      NR_CLUSTER_def NO_DIST_def)

lemma demo_path_fits: "path_fits demo_inode"
  by code_simp




definition demo_group :: fgroup_entry where
  "demo_group = \<lparr>g_fgroup = 2255, g_cluster = 1, g_cold = 0, g_count = 9, g_ema = 640,
     g_latest_lifetime = 900, g_latest_count = 3, g_create_time = 20, g_update_ema = 1,
     g_valid = 2, g_keyword = ''KEY-15:com.app/sms.db''\<rparr>"

lemma demo_group_settled: "settled (demo_sbi\<lparr>fgroup_tree := [demo_group]\<rparr>)"
  by (simp add: settled_def wf_sbi_def demo_sbi_def unlocked_def wf_history_def rb_wf_def
      rb_ordered_def wf_fgroup_entry_def demo_group_def NR_CLUSTER_def centers_ok_def NO_DIST_def)


lemma fkey_bound: "unat (fkey e) < 2 ^ 32"
  using unsigned_less [of "g_fgroup e", where ?'a = nat]
  by (simp add: fkey_def unsigned_ucast_eq take_bit_nat_eq_self)

lemma fgroup_key_unat: "v < 32 \<Longrightarrow> unat (fgroup_key ino v) = unat ino * 32 + v"
proof -
  assume v: "v < 32"
  have "unat ino < 2 ^ 32" using unsigned_less [of ino, where ?'a = nat] by simp
  with v show ?thesis
    by (simp add: fgroup_key_def push_bit_eq_mult unat_word_ariths unat_of_nat unsigned_ucast_eq
        take_bit_nat_eq_self)
qed

text \<open>C29. Group numbers are kept in 32 bits but deleted by 64-bit keys: for an inode number of
  \<open>2^27\<close> or more, \<open>delete_fgroup_entry\<close> removes no group at all and saves none in the history,
  so the groups such a file was given stay in the tree.\<close>

theorem delete_fgroup_misses:
  assumes "settled s" "unat ino \<ge> 2 ^ 27" "delete_fgroup_entry s ino = Some s'"
  shows "fgroup_tree s' = fgroup_tree s \<and> hist s' = hist s"
proof -
  have "lookup_fgroup_entry t (fgroup_key ino v) = None" if "v < 32" for t v
  proof -
    have "fkey e \<noteq> fgroup_key ino v" for e
      using fgroup_key_unat [OF that, of ino] assms(2) fkey_bound [of e] by auto
    then show ?thesis by (simp add: lookup_fgroup_entry_def rb_search_def find_None_iff)
  qed
  then have id: "\<forall>v\<in>set vs. v < 32 \<Longrightarrow> fold (retire_fgroup ino) vs t = t" for vs t
    by (induction vs arbitrary: t) (simp_all add: retire_fgroup_def)
  have "s' = unlock_ftree (fold (retire_fgroup ino) [0..<FGROUP_ETC + 1] (s\<lparr>ftree_lock := True\<rparr>))"
    using assms by (simp add: delete_fgroup_entry_def settled_def unlocked_def)
  also have "\<dots> = unlock_ftree (s\<lparr>ftree_lock := True\<rparr>)"
    by (subst id) (auto simp: FGROUP_ETC_def)
  finally show ?thesis by (simp add: unlock_ftree_def)
qed

theorem delete_fgroup_misses_witness:
  "\<exists>s'. delete_fgroup_entry (demo_sbi\<lparr>fgroup_tree := [demo_group]\<rparr>) (2 ^ 27 + 70) = Some s' \<and>
     lookup_fgroup_entry (fgroup_tree s')
       (ucast (ucast (push_bit 5 (2 ^ 27 + 70) + 15 :: u64) :: u32)) = Some demo_group"
proof -
  let ?s = "demo_sbi\<lparr>fgroup_tree := [demo_group]\<rparr>"
  obtain s' where d: "delete_fgroup_entry ?s (2 ^ 27 + 70) = Some s'"
    using delete_fgroup_entry_ok [of ?s "2 ^ 27 + 70"] demo_group_settled by (auto simp: settled_def)
  have "fgroup_tree s' = [demo_group]"
    using delete_fgroup_misses [OF demo_group_settled _ d] by simp
  with d show ?thesis
    by (simp add: lookup_fgroup_entry_def rb_search_def fkey_def demo_group_def push_bit_eq_mult)
qed

text \<open>Sums and products that do not overflow.\<close>

lemma unat_add_small: "unat a + unat b < 2 ^ 64 \<Longrightarrow> unat (a + b :: u64) = unat a + unat b"
  by (simp add: unat_word_ariths)

lemma unat_mult_small: "unat a * unat b < 2 ^ 64 \<Longrightarrow> unat (a * b :: u64) = unat a * unat b"
  by (simp add: unat_word_ariths)

lemma weighted_mean_bounds:
  fixes n c E L m M :: nat
  assumes "0 < n + c" "m \<le> E" "E \<le> M" "m * c \<le> L" "L \<le> M * c"
  shows "m \<le> (n * E + L) div (n + c)" "(n * E + L) div (n + c) \<le> M"
proof -
  have *: "m * (n + c) \<le> n * E + L" "n * E + L \<le> M * (n + c)"
    using mult_le_mono1 [OF assms(2), of n] mult_le_mono1 [OF assms(3), of n] assms(4,5)
    unfolding distrib_left mult.commute [of n E] by linarith+
  show "m \<le> (n * E + L) div (n + c)"
    using div_le_mono [OF *(1), of "n + c"] assms(1) by auto
  show "(n * E + L) div (n + c) \<le> M"
    using div_le_mono [OF *(2), of "n + c"] assms(1) by auto
qed

text \<open>The moving average of a group stays within its lifetimes.  Where the arithmetic does not
  overflow, \<open>update_new_ema\<close> on a group with an average and with pages that are valid or were
  overwritten returns the new average, which is at most the largest of the old average and the
  recent lifetimes and at least the smallest less one (the two divisions round down), and the
  recent counters are reset.\<close>

theorem update_new_ema_bounds:
  assumes "\<not> media_type (vtype_of (fkey re))" "g_update_ema re \<noteq> 0" "g_valid re \<ge> 0"
    and "m \<le> unat (g_ema re)" "unat (g_ema re) \<le> M" "1 \<le> M"
    and "m * unat (g_latest_count re) \<le> unat (g_latest_lifetime re)"
    and "unat (g_latest_lifetime re) \<le> M * unat (g_latest_count re)"
    and pos: "nat (g_valid re) + unat (g_latest_count re) > 0"
    and small: "M * (nat (g_valid re) + unat (g_latest_count re)) < 2 ^ 64" "10 * M < 2 ^ 64"
  shows "\<exists>ema. update_new_ema s re = Some (ema, re\<lparr>g_ema := ema, g_latest_count := 0,
       g_latest_lifetime := 0\<rparr>) \<and> unat ema \<le> M \<and> m \<le> unat ema + 1"
proof -
  let ?n = "nat (g_valid re)" and ?c = "unat (g_latest_count re)" and ?E = "unat (g_ema re)"
    and ?L = "unat (g_latest_lifetime re)"
  define a where "a = (word_of_int (g_valid re) :: u64)"
  define q where "q = (?n * ?E + ?L) div (?n + ?c)"
  have q: "m \<le> q" "q \<le> M"
    using weighted_mean_bounds [OF pos assms(4,5,7,8)] by (simp_all add: q_def)
  have nc: "?n + ?c < 2 ^ 64"
    using le_less_trans [OF mult_le_mono1 [OF assms(6)] small(1)] by (simp only: mult_1)
  have "?n * ?E + ?L \<le> M * (?n + ?c)"
    using mult_le_mono1 [OF assms(5), of ?n] assms(8)
    unfolding distrib_left mult.commute [of ?n ?E] by linarith
  then have tot: "?n * ?E + ?L < 2 ^ 64" by (rule le_less_trans [OF _ small(1)])
  have a: "unat a = ?n"
  proof -
    have "a = of_nat ?n" using assms(3) by (simp add: a_def)
    then show ?thesis using nc by (simp add: unat_of_nat)
  qed
  have sum: "unat (a + g_latest_count re) = ?n + ?c"
    using unat_add_small [of a "g_latest_count re"] nc a by simp
  have prod: "unat (a * g_ema re) = ?n * ?E"
    using unat_mult_small [of a "g_ema re"] tot a by simp
  have num: "unat (a * g_ema re + g_latest_lifetime re) = ?n * ?E + ?L"
    using unat_add_small [of "a * g_ema re" "g_latest_lifetime re"] tot prod by simp
  define lv where "lv = (a * g_ema re + g_latest_lifetime re) div (a + g_latest_count re)"
  have lv: "unat lv = q" by (simp add: lv_def unat_div num sum q_def)
  define ema where "ema = g_ema re * (EMA_W_DIV - EMA_W_NUM) div EMA_W_DIV + lv * EMA_W_NUM div EMA_W_DIV"
  have "unat (g_ema re * 3) = ?E * 3" "unat (lv * 7) = q * 7"
    using unat_mult_small [of "g_ema re" 3] unat_mult_small [of lv 7] assms(5) q small(2) lv by simp_all
  moreover have "?E * 3 div 10 + q * 7 div 10 < 2 ^ 64" using assms(5) q(2) small(2) by linarith
  ultimately have e: "unat ema = ?E * 3 div 10 + q * 7 div 10"
    using unat_add_small [of "g_ema re * 3 div 10" "lv * 7 div 10"]
    by (simp add: ema_def stream_const_defs unat_div)
  have "unat ema \<le> M" "m \<le> unat ema + 1"
    unfolding e using assms(4,5) q by linarith+
  moreover have nz: "a + g_latest_count re \<noteq> 0" using sum pos by (metis neq0_conv unat_0)
  then have "update_new_ema s re = Some (ema, re\<lparr>g_ema := ema, g_latest_count := 0, g_latest_lifetime := 0\<rparr>)"
    using assms(1,2) by (simp add: update_new_ema_def Let_def fkey_def a_def [symmetric] word_neq_0_conv
        add.commute [of "g_latest_count re"] lv_def [symmetric] ema_def [symmetric])
  ultimately show ?thesis by blast
qed

theorem update_new_ema_bounds_witness:
  "\<exists>ema. update_new_ema demo_sbi demo_group = Some (ema, demo_group\<lparr>g_ema := ema,
     g_latest_count := 0, g_latest_lifetime := 0\<rparr>) \<and> unat ema \<le> 640 \<and> 300 \<le> unat ema + 1"
  by (rule update_new_ema_bounds)
    (simp_all add: demo_group_def fkey_def vtype_of_def media_type_def fgroup_type_defs)

lemma lifetime_loop_spec:
  assumes "lifetime_loop ms n i l = c" "n \<noteq> 0" "i + n = NR_CLUSTER - 1"
  shows "(\<forall>j. i \<le> j \<and> j < c \<longrightarrow> ms ! j * 512 \<le> l) \<and> i \<le> c \<and> c \<le> NR_CLUSTER - 2 \<and>
    (c < NR_CLUSTER - 2 \<longrightarrow> l < ms ! c * 512)"
  using assms
proof (induction n arbitrary: i)
  case (Suc n)
  show ?case
  proof (cases "l < ms ! i * 512 \<or> n = 0")
    case True
    then show ?thesis using Suc.prems by (auto simp: not_less split: if_splits)
  next
    case False
    with Suc.prems have "(\<forall>j. Suc i \<le> j \<and> j < c \<longrightarrow> ms ! j * 512 \<le> l) \<and> Suc i \<le> c \<and>
        c \<le> NR_CLUSTER - 2 \<and> (c < NR_CLUSTER - 2 \<longrightarrow> l < ms ! c * 512)"
      by (intro Suc.IH) auto
    moreover have "j = i \<or> Suc i \<le> j" if "i \<le> j" for j using that by auto
    ultimately show ?thesis using False by (auto simp: not_less)
  qed
qed simp

lemma lifetime_to_cluster_spec:
  assumes "kmeans_max s ! 0 \<noteq> 0"
  shows "(\<forall>j < f2fs_lifetime_to_cluster s l. kmeans_max s ! j * 512 \<le> l) \<and>
    (f2fs_lifetime_to_cluster s l < NR_CLUSTER - 2 \<longrightarrow>
       l < kmeans_max s ! f2fs_lifetime_to_cluster s l * 512)"
  using assms lifetime_loop_spec [of "kmeans_max s" "NR_CLUSTER - 1" 0 l]
  by (simp add: f2fs_lifetime_to_cluster_def NR_CLUSTER_def)

text \<open>Longer lifetimes never get a lower cluster, and the cluster of a lifetime is one of the
  first three: the last one is left to the media types.\<close>

theorem lifetime_to_cluster_mono:
  assumes "l \<le> l'"
  shows "f2fs_lifetime_to_cluster s l \<le> f2fs_lifetime_to_cluster s l' \<and>
    f2fs_lifetime_to_cluster s l' \<le> NR_CLUSTER - 2"
proof (cases "kmeans_max s ! 0 = 0")
  case False
  let ?c = "f2fs_lifetime_to_cluster s l" and ?d = "f2fs_lifetime_to_cluster s l'"
  have "?c \<le> ?d"
  proof (rule ccontr)
    assume "\<not> ?c \<le> ?d"
    then have "kmeans_max s ! ?d * 512 \<le> l" "?d < NR_CLUSTER - 2"
      using lifetime_to_cluster_spec [OF False, of l] lifetime_to_cluster_range [of s l] by auto
    then show False using lifetime_to_cluster_spec [OF False, of l'] assms by (metis leD order_trans)
  qed
  then show ?thesis using lifetime_to_cluster_range by simp
qed (simp add: f2fs_lifetime_to_cluster_def)

theorem lifetime_to_cluster_mono_witness:
  "f2fs_lifetime_to_cluster (demo_sbi\<lparr>kmeans_max := [10, 20, 30, 0]\<rparr>) 6000
     \<le> f2fs_lifetime_to_cluster (demo_sbi\<lparr>kmeans_max := [10, 20, 30, 0]\<rparr>) 60000 \<and>
   f2fs_lifetime_to_cluster (demo_sbi\<lparr>kmeans_max := [10, 20, 30, 0]\<rparr>) 6000 = 1"
proof -
  have "f2fs_lifetime_to_cluster (demo_sbi\<lparr>kmeans_max := [10, 20, 30, 0]\<rparr>) 6000 = 1" by code_simp
  then show ?thesis
    using lifetime_to_cluster_mono [of 6000 60000 "demo_sbi\<lparr>kmeans_max := [10, 20, 30, 0]\<rparr>"] by simp
qed

lemma find_sample_unique:
  assumes "find_sample p x = None" "i < MAX_SAMPLE" "wf_file_entry p" "f_sample_index q = f_sample_index p"
  shows "find_sample (set_sample_index i x q) x = Some i"
  using assms
  by (auto simp: find_sample_def find_None_iff find_Some_iff set_sample_index_def wf_file_entry_def
      nth_list_update intro!: exI [of _ i]) (metis less_trans)

lemma prepare_sample_kmeans: "\<not> kmeans_count s > f_last_kmeans (prepare_sample s x re)"
  by (simp add: prepare_sample_def Let_def)

text \<open>Without a clustering in between, the preparation of a call only counts.\<close>

lemma prepare_sample_again:
  assumes "\<not> kmeans_count s > f_last_kmeans re"
  shows "find_sample (prepare_sample s x re) y = find_sample re y"
    "f_sample_lastupdate (prepare_sample s x re) = f_sample_lastupdate re"
  using assms by (simp_all add: prepare_sample_def Let_def find_sample_def)

text \<open>A sampled database page is timed exactly: if a page with no sample slot is written and
  one is free (and it is the page's turn to be sampled), then the next write of that page, with
  no clustering in between, reports as its lifetime the number of blocks written in the
  meantime.\<close>

theorem sampled_page_lifetime:
  assumes "wf_file_entry re" "find_sample (prepare_sample s x re) x = None"
    and "find_sample (prepare_sample s x re) (- 1) = Some i"
    and "f_max_range (prepare_sample s x re) < of_nat MAX_SAMPLE \<or>
         f_sample_rate (prepare_sample s x re) \<ge> SAMPLE_RATE"
    and "kmeans_count s' = kmeans_count s" "cur_seq s > 0" "cur_seq s' \<noteq> cur_seq s"
  shows "fst (update_sample_lifetime s' (snd (update_sample_lifetime s re x 0)) x 0) =
    cur_seq s' - cur_seq s"
proof -
  let ?p = "prepare_sample s x re"
  let ?q = "set_sample_index i x (set_sample i (cur_seq s) 0 0 ?p)\<lparr>f_sample_rate := 0\<rparr>"
  have wf: "wf_file_entry ?p" using prepare_sample_like [OF assms(1)] by (simp add: like_entry_def)
  have i: "i < MAX_SAMPLE" using assms(3) by (auto simp: find_sample_def find_Some_iff)
  have q: "snd (update_sample_lifetime s re x 0) = ?q"
    using assms by (simp add: update_sample_lifetime_def new_sample_def Let_def)
  have "find_sample (set_sample_index i x (set_sample i (cur_seq s) 0 0 ?p)) x = Some i"
    by (rule find_sample_unique [OF assms(2) i wf]) (simp add: set_sample_def)
  then have f: "find_sample ?q x = Some i" by (simp add: find_sample_def)
  have k: "\<not> kmeans_count s' > f_last_kmeans ?q"
    using prepare_sample_kmeans [of s x re] assms(5) by (simp add: set_sample_index_def set_sample_def)
  have u: "f_sample_lastupdate ?q ! i = cur_seq s"
    using wf i by (simp add: set_sample_index_def set_sample_def wf_file_entry_def)
  have "fst (touch_sample s' 0 i (prepare_sample s' x ?q)) = cur_seq s' - cur_seq s"
    using prepare_sample_again(2) [OF k, of x] u assms(6,7) by (simp add: touch_sample_def Let_def)
  then show ?thesis
    unfolding q using prepare_sample_again(1) [OF k, of x x] f
    by (simp add: update_sample_lifetime_def Let_def)
qed

definition demo_sbi_later :: f2fs_sb_info where
  "demo_sbi_later = demo_sbi\<lparr>type_block0 := [160, 0, 0, 0, 0, 0, 0]\<rparr>"

theorem sampled_page_lifetime_witness:
  "fst (update_sample_lifetime demo_sbi_later
     (snd (update_sample_lifetime demo_sbi (new_file_entry demo_sbi 70) 5 0)) 5 0) = 60"
proof -
  have seq: "cur_seq demo_sbi = 100" "cur_seq demo_sbi_later = 160" by code_simp+
  have "fst (update_sample_lifetime demo_sbi_later
     (snd (update_sample_lifetime demo_sbi (new_file_entry demo_sbi 70) 5 0)) 5 0) =
    cur_seq demo_sbi_later - cur_seq demo_sbi"
  proof (rule sampled_page_lifetime [where i = 0])
    show "find_sample (prepare_sample demo_sbi 5 (new_file_entry demo_sbi 70)) (- 1) = Some 0"
      "find_sample (prepare_sample demo_sbi 5 (new_file_entry demo_sbi 70)) 5 = None"
      "f_max_range (prepare_sample demo_sbi 5 (new_file_entry demo_sbi 70)) < of_nat MAX_SAMPLE \<or>
       f_sample_rate (prepare_sample demo_sbi 5 (new_file_entry demo_sbi 70)) \<ge> SAMPLE_RATE"
      by code_simp+
    show "kmeans_count demo_sbi_later = kmeans_count demo_sbi" by (simp add: demo_sbi_later_def)
  qed (simp_all add: new_file_entry_wf seq)
  then show ?thesis by (simp add: seq)
qed

lemma new_fgroup_entry_cong:
  assumes "hist s = hist t" "kmeans_max s = kmeans_max t" "cur_seq s = cur_seq t"
  shows "new_fgroup_entry s fg name = new_fgroup_entry t fg name"
proof -
  have "lookup_fgroup_history s = lookup_fgroup_history t"
    using assms by (intro ext) (simp add: lookup_fgroup_history_def)
  moreover have "f2fs_lifetime_to_cluster s = f2fs_lifetime_to_cluster t"
    using assms by (intro ext) (simp add: f2fs_lifetime_to_cluster_def)
  moreover from this have "restore_fgroup s = restore_fgroup t"
    by (intro ext) (simp add: restore_fgroup_def Let_def)
  moreover have "blank_fgroup_entry s fg name = blank_fgroup_entry t fg name"
    using assms by (simp add: blank_fgroup_entry_def)
  ultimately show ?thesis
    using assms(1) by (simp add: new_fgroup_entry_def Let_def split: option.split)
qed

text \<open>The entry \<open>lookup_or_insert_fgroup\<close> gives for the special journals.\<close>

lemma special_journal_entry:
  assumes "wf_sbi s"
  shows "\<exists>s' j. lookup_or_insert_fgroup s (of_nat FGROUP_EXT_SPECIAL_JOURNAL) SPECIAL_JOURNAL_NAME
       = Some (of_nat FGROUP_EXT_SPECIAL_JOURNAL, s') \<and> wf_sbi s' \<and>
     lookup_fgroup_entry (fgroup_tree s') (of_nat FGROUP_EXT_SPECIAL_JOURNAL) = Some j \<and>
     (\<forall>k. k \<noteq> of_nat FGROUP_EXT_SPECIAL_JOURNAL \<longrightarrow>
        lookup_fgroup_entry (fgroup_tree s') k = lookup_fgroup_entry (fgroup_tree s) k) \<and>
     (lookup_fgroup_entry (fgroup_tree s) (of_nat FGROUP_EXT_SPECIAL_JOURNAL) = Some j \<or>
      lookup_fgroup_entry (fgroup_tree s) (of_nat FGROUP_EXT_SPECIAL_JOURNAL) = None \<and>
      new_fgroup_entry s (of_nat FGROUP_EXT_SPECIAL_JOURNAL) SPECIAL_JOURNAL_NAME = Some j)"
proof (cases "lookup_fgroup_entry (fgroup_tree s) (of_nat FGROUP_EXT_SPECIAL_JOURNAL)")
  case (Some j)
  with assms lookup_fgroup_Some [OF assms Some] show ?thesis
    by (simp add: lookup_or_insert_fgroup_def)
next
  case None
  let ?k = "of_nat FGROUP_EXT_SPECIAL_JOURNAL :: u64"
  have v: "vtype_of ?k \<noteq> FGROUP_EXT_JOURNAL" by (simp add: vtype_of_def fgroup_type_defs)
  obtain s' re where l: "link_fgroup_entry s ?k SPECIAL_JOURNAL_NAME = Some (?k, s')" "wf_sbi s'"
      "new_fgroup_entry s ?k SPECIAL_JOURNAL_NAME = Some re"
      "fgroup_tree s' = ftree_link ?k re (fgroup_tree s)"
    using link_fgroup_ok [OF assms, of "of_nat FGROUP_EXT_SPECIAL_JOURNAL" SPECIAL_JOURNAL_NAME] None
    unfolding special_key by blast
  have "fkey re = ?k"
    using wf_new_fgroup [of s ?k SPECIAL_JOURNAL_NAME] l(3) fkey_ucast unfolding special_key by auto
  then have "lookup_fgroup_entry (fgroup_tree s') k =
      (if k = ?k then Some re else lookup_fgroup_entry (fgroup_tree s) k)" for k
    using None assms by (simp add: l(4) lookup_fgroup_entry_def ft.search_link wf_sbi_def rb_wf_def)
  with l None v show ?thesis
    by (simp add: lookup_or_insert_fgroup_def insert_fgroup_entry_def)
qed

text \<open>Deleting a journal moves its statistics: \<open>convert_fgroup_to_special_journal\<close> removes the
  group of the inode from the tree, points the inode at the group of special journals, and adds
  the counters of the removed group to that group, which is created (from the history, if it is
  there) when it does not exist; every other group is left as it is.\<close>

theorem convert_to_special_journal_merges:
  assumes wf: "wf_sbi s" and l: "\<not> ltree_lock s"
    and fe: "lookup_fgroup_entry (fgroup_tree s) (ucast (i_fgroup inode)) = Some fe"
    and ne: "i_fgroup inode \<noteq> of_nat FGROUP_EXT_SPECIAL_JOURNAL"
  shows "\<exists>inode' s' j. convert_fgroup_to_special_journal s inode = Some (inode', s') \<and>
     unat (i_filetype inode') = FGROUP_EXT_SPECIAL_JOURNAL \<and>
     unat (i_fgroup inode') = FGROUP_EXT_SPECIAL_JOURNAL \<and>
     (lookup_fgroup_entry (fgroup_tree s) (of_nat FGROUP_EXT_SPECIAL_JOURNAL) = Some j \<or>
      lookup_fgroup_entry (fgroup_tree s) (of_nat FGROUP_EXT_SPECIAL_JOURNAL) = None \<and>
      new_fgroup_entry s (of_nat FGROUP_EXT_SPECIAL_JOURNAL) SPECIAL_JOURNAL_NAME = Some j) \<and>
     (\<forall>k. lookup_fgroup_entry (fgroup_tree s') k =
        (if k = ucast (i_fgroup inode) then None
         else if k = of_nat FGROUP_EXT_SPECIAL_JOURNAL then Some (merge_fgroup fe j)
         else lookup_fgroup_entry (fgroup_tree s) k))"
proof -
  let ?k = "of_nat FGROUP_EXT_SPECIAL_JOURNAL :: u64"
  define s2 where "s2 = unlock_ltree (case lookup_file_entry (lifetime_tree s) (ucast (i_ino inode)) of
       None \<Rightarrow> s\<lparr>ltree_lock := True\<rparr>
     | Some re \<Rightarrow> put_file_entry (re\<lparr>f_filetype := int FGROUP_EXT_SPECIAL_JOURNAL\<rparr>)
         (s\<lparr>ltree_lock := True\<rparr>))"
  have s2: "wf_sbi s2" "fgroup_tree s2 = fgroup_tree s" "hist s2 = hist s" "kmeans_max s2 = kmeans_max s"
      "cur_seq s2 = cur_seq s"
    using wf rb_wf_search [of f_ino wf_file_entry "lifetime_tree s"]
    by (auto simp: s2_def unlock_ltree_def wf_sbi_def lookup_file_entry_def cur_seq_def
        user_data_blocks_def put_file_entry_def intro!: wf_intros split: option.splits)
  from special_journal_entry [OF s2(1)] obtain s3 j where
    s3: "lookup_or_insert_fgroup s2 ?k SPECIAL_JOURNAL_NAME = Some (?k, s3)" "wf_sbi s3"
      "lookup_fgroup_entry (fgroup_tree s3) ?k = Some j"
      "\<And>k. k \<noteq> ?k \<Longrightarrow> lookup_fgroup_entry (fgroup_tree s3) k = lookup_fgroup_entry (fgroup_tree s) k"
      "lookup_fgroup_entry (fgroup_tree s) ?k = Some j \<or> lookup_fgroup_entry (fgroup_tree s) ?k = None \<and>
       new_fgroup_entry s2 ?k SPECIAL_JOURNAL_NAME = Some j"
    unfolding s2(2) by blast
  define s4 where "s4 = modify_fgroup ?k (merge_fgroup fe) s3"
  have k: "fkey fe = ucast (i_fgroup inode)" using lookup_fgroup_Some [OF wf fe] by simp
  have nk: "ucast (i_fgroup inode) \<noteq> ?k" using ne unfolding special_key by (metis ucast_ucast_32)
  have o: "rb_ordered fkey (fgroup_tree s3)" using s3(2) by (simp add: wf_sbi_def rb_wf_def)
  have m: "fkey (merge_fgroup fe e) = fkey e" for e by (simp add: merge_fgroup_def fkey_def)
  then have o4: "rb_ordered fkey (fgroup_tree s4)"
    by (simp add: s4_def modify_fgroup_def rb_ordered_modify [OF o])
  have "ftree_search k' (fgroup_tree s4) =
      (if k' = ?k then Some (merge_fgroup fe j) else lookup_fgroup_entry (fgroup_tree s) k')" for k'
    using s3(3,4) m by (simp add: s4_def modify_fgroup_def ft.search_modify [OF o] lookup_fgroup_entry_def)
  then have "lookup_fgroup_entry (ftree_erase (fkey fe) (fgroup_tree s4)) k' =
        (if k' = ucast (i_fgroup inode) then None
         else if k' = ?k then Some (merge_fgroup fe j) else lookup_fgroup_entry (fgroup_tree s) k')" for k'
    by (simp add: lookup_fgroup_entry_def ft.search_erase [OF o4] k)
  moreover have "convert_fgroup_to_special_journal s inode =
     Some (inode\<lparr>i_filetype := of_nat FGROUP_EXT_SPECIAL_JOURNAL,
                 i_fgroup := of_nat FGROUP_EXT_SPECIAL_JOURNAL\<rparr>,
           s4\<lparr>fgroup_tree := ftree_erase (fkey fe) (fgroup_tree s4)\<rparr>)"
    using fe l s3(1)
    by (cases "lookup_file_entry (lifetime_tree s) (ucast (i_ino inode))")
      (simp_all add: convert_fgroup_to_special_journal_def s2_def s4_def Let_def)
  moreover have "new_fgroup_entry s2 ?k SPECIAL_JOURNAL_NAME = new_fgroup_entry s ?k SPECIAL_JOURNAL_NAME"
    by (rule new_fgroup_entry_cong) (simp_all add: s2)
  ultimately show ?thesis
    using s3(5)
    by (intro exI [of _ "inode\<lparr>i_filetype := of_nat FGROUP_EXT_SPECIAL_JOURNAL,
            i_fgroup := of_nat FGROUP_EXT_SPECIAL_JOURNAL\<rparr>"] exI [of _ j]
          exI [of _ "s4\<lparr>fgroup_tree := ftree_erase (fkey fe) (fgroup_tree s4)\<rparr>"])
      (auto simp: FGROUP_EXT_SPECIAL_JOURNAL_def)
qed

theorem convert_to_special_journal_merges_witness:
  "\<exists>inode' s' j. convert_fgroup_to_special_journal (demo_sbi\<lparr>fgroup_tree := [demo_group]\<rparr>)
       (demo_inode\<lparr>i_fgroup := 2255\<rparr>) = Some (inode', s') \<and>
     lookup_fgroup_entry (fgroup_tree s') 2255 = None \<and>
     lookup_fgroup_entry (fgroup_tree s') 7 = Some (merge_fgroup demo_group j)"
proof -
  let ?s = "demo_sbi\<lparr>fgroup_tree := [demo_group]\<rparr>" and ?i = "demo_inode\<lparr>i_fgroup := 2255\<rparr>"
  have w: "wf_sbi ?s" "\<not> ltree_lock ?s"
    using demo_group_settled by (simp_all add: settled_def unlocked_def)
  have l: "lookup_fgroup_entry (fgroup_tree ?s) (ucast (i_fgroup ?i)) = Some demo_group"
    by (simp add: lookup_fgroup_entry_def rb_search_def fkey_def demo_group_def)
  have n: "i_fgroup ?i \<noteq> of_nat FGROUP_EXT_SPECIAL_JOURNAL" by (simp add: FGROUP_EXT_SPECIAL_JOURNAL_def)
  obtain inode' s' j where c: "convert_fgroup_to_special_journal ?s ?i = Some (inode', s')"
    "\<forall>k. lookup_fgroup_entry (fgroup_tree s') k =
        (if k = ucast (i_fgroup ?i) then None
         else if k = of_nat FGROUP_EXT_SPECIAL_JOURNAL then Some (merge_fgroup demo_group j)
         else lookup_fgroup_entry (fgroup_tree ?s) k)"
    using convert_to_special_journal_merges [OF w l n] by blast
  from c(1) spec [OF c(2), of 2255] spec [OF c(2), of 7] show ?thesis
    by (auto simp: FGROUP_EXT_SPECIAL_JOURNAL_def)
qed

end
