(* ===== verification/Kmeans.thy ===== *)
theory Kmeans
  imports F2fs_Types
begin

text \<open>
  One-dimensional k-means over expected lifetimes (\<open>kmeans.c\<close>): distances, the assignment of
  values to the nearest centre, the centroids, the two iterations (\<open>kmeans_org\<close> and the
  weighted \<open>kmeans\<close>), and the routines around them that order the data and choose the first
  centres.

  An array argument is a list at least as long as the count that goes with it; the \<open>int\<close> arrays
  hold cluster numbers, with \<open>-1\<close> for none.  Memory from \<open>vmalloc\<close> that the code reads before it
  writes it is the parameter \<open>junk\<close>.  The allocations whose failure the code handles have an
  outcome, the parameter \<open>oom\<close>.
\<close>

section \<open>Distances and centroids\<close>

definition MAX_ITERATIONS :: nat where "MAX_ITERATIONS = 10"

definition abs_diff :: "u64 \<Rightarrow> u64 \<Rightarrow> u64" where
  "abs_diff c d = (if c > d then c - d else d - c)"

definition calc_all_distances :: "nat \<Rightarrow> nat \<Rightarrow> u64 list \<Rightarrow> u64 list \<Rightarrow> u64 list list" where
  "calc_all_distances n k data centroid =
     map (\<lambda>ii. map (\<lambda>jj. abs_diff (centroid ! jj) (data ! ii)) [0..<k]) [0..<n]"

definition sqr :: "u64 \<Rightarrow> u64" where "sqr x = x * x"

definition calc_total_distance_org :: "nat \<Rightarrow> u64 list \<Rightarrow> u64 list \<Rightarrow> int list \<Rightarrow> u64" where
  "calc_total_distance_org n data centroid index =
     fold (\<lambda>ii tot. if index ! ii \<noteq> - 1 then tot + sqr (centroid ! nat (index ! ii) - data ! ii) else tot)
       [0..<n] 0"

definition calc_total_distance ::
    "nat \<Rightarrow> u64 list \<Rightarrow> u64 list \<Rightarrow> int list \<Rightarrow> int list \<Rightarrow> u64" where
  "calc_total_distance n data centroid index weight =
     fold (\<lambda>ii tot. if index ! ii \<noteq> - 1 then
         (let c = centroid ! nat (index ! ii); d = data ! ii
          in if c > d then tot + sqr (c - d) * word_of_int (weight ! ii)
             else tot + sqr (d - c) * word_of_int (weight ! ii))
       else tot) [0..<n] 0"

definition choose_step :: "u64 list \<Rightarrow> nat \<Rightarrow> int \<times> u64 \<Rightarrow> int \<times> u64" where
  "choose_step dist jj = (\<lambda>(best_index, closest_dist).
     if dist ! jj < closest_dist then (int jj, dist ! jj) else (best_index, closest_dist))"

definition choose_cluster :: "nat \<Rightarrow> u64 list \<Rightarrow> int" where
  "choose_cluster k dist = fst (fold (choose_step dist) [0..<k] (- 1, NO_DIST))"

definition choose_all_clusters_from_distances :: "nat \<Rightarrow> nat \<Rightarrow> u64 list list \<Rightarrow> int list" where
  "choose_all_clusters_from_distances n k dist = map (\<lambda>ii. choose_cluster k (dist ! ii)) [0..<n]"

text \<open>The accumulators are the member counts and the sums; a value with no cluster counts for
  the last one.\<close>

definition active_cluster :: "nat \<Rightarrow> int \<Rightarrow> nat" where
  "active_cluster k c = (if c < 0 \<or> c \<ge> int k then k - 1 else nat c)"

definition centroid_step_org ::
    "nat \<Rightarrow> u64 list \<Rightarrow> int list \<Rightarrow> nat \<Rightarrow> int list \<times> u64 list \<Rightarrow> int list \<times> u64 list" where
  "centroid_step_org k data index ii = (\<lambda>(cnt, tot).
     let a = active_cluster k (index ! ii)
     in (cnt[a := cnt ! a + 1], tot[a := tot ! a + data ! ii]))"

definition centroid_step ::
    "nat \<Rightarrow> u64 list \<Rightarrow> int list \<Rightarrow> int list \<Rightarrow> nat \<Rightarrow> int list \<times> u64 list \<Rightarrow> int list \<times> u64 list" where
  "centroid_step k data index weight ii = (\<lambda>(cnt, tot).
     let a = active_cluster k (index ! ii)
     in (cnt[a := cnt ! a + weight ! ii],
         tot[a := tot ! a + data ! ii * word_of_int (weight ! ii)]))"

definition mean_of :: "int \<Rightarrow> u64 \<Rightarrow> u64" where
  "mean_of cnt tot = (if cnt = 0 then tot else tot div word_of_int cnt)"

definition calc_cluster_centroids_org :: "nat \<Rightarrow> nat \<Rightarrow> u64 list \<Rightarrow> int list \<Rightarrow> u64 list" where
  "calc_cluster_centroids_org n k data index =
     (let (cnt, tot) = fold (centroid_step_org k data index) [0..<n] (replicate k 0, replicate k 0)
      in map2 mean_of cnt tot)"

definition calc_cluster_centroids ::
    "nat \<Rightarrow> nat \<Rightarrow> u64 list \<Rightarrow> int list \<Rightarrow> int list \<Rightarrow> u64 list" where
  "calc_cluster_centroids n k data index weight =
     (let (cnt, tot) = fold (centroid_step k data index weight) [0..<n] (replicate k 0, replicate k 0)
      in map2 mean_of cnt tot)"

definition copy_assignment_array :: "nat \<Rightarrow> int list \<Rightarrow> int list \<Rightarrow> int list" where
  "copy_assignment_array n src tgt = take n src @ drop n tgt"

definition assignment_change_count :: "nat \<Rightarrow> int list \<Rightarrow> int list \<Rightarrow> nat" where
  "assignment_change_count n a b = length (filter (\<lambda>ii. a ! ii \<noteq> b ! ii) [0..<n])"

section \<open>The iterations\<close>

text \<open>The assignment of every value for given centres.\<close>

definition assign :: "nat \<Rightarrow> nat \<Rightarrow> u64 list \<Rightarrow> u64 list \<Rightarrow> int list" where
  "assign n k data center =
     choose_all_clusters_from_distances n k (calc_all_distances n k data center)"

fun kmeans_org_loop ::
    "nat \<Rightarrow> nat \<Rightarrow> nat \<Rightarrow> u64 list \<Rightarrow> u64 list \<Rightarrow> int list \<Rightarrow> int list \<Rightarrow> u64 \<Rightarrow> u64 list \<times> int list" where
  "kmeans_org_loop 0 n k data center cur prev prev_totD = (center, cur)"
| "kmeans_org_loop (Suc m) n k data center cur prev prev_totD =
     (let center1 = calc_cluster_centroids_org n k data cur;
          totD = calc_total_distance_org n data center1 cur
      in if totD > prev_totD then
           (let cur1 = copy_assignment_array n prev cur
            in (calc_cluster_centroids_org n k data cur1, cur1))
         else
           (let prev1 = copy_assignment_array n cur prev;
                cur1 = assign n k data center1
            in if assignment_change_count n cur1 prev1 = 0 then (center1, cur1)
               else kmeans_org_loop m n k data center1 cur1 prev1 totD))"

fun kmeans_loop ::
    "nat \<Rightarrow> nat \<Rightarrow> nat \<Rightarrow> u64 list \<Rightarrow> int list \<Rightarrow> u64 list \<Rightarrow> int list \<Rightarrow> int list \<Rightarrow> u64 \<Rightarrow> u64 list \<times> int list" where
  "kmeans_loop 0 n k data weight center cur prev prev_totD = (center, cur)"
| "kmeans_loop (Suc m) n k data weight center cur prev prev_totD =
     (let center1 = calc_cluster_centroids n k data cur weight;
          totD = calc_total_distance n data center1 cur weight
      in if totD > prev_totD then
           (let cur1 = copy_assignment_array n prev cur
            in (calc_cluster_centroids n k data cur1 weight, cur1))
         else
           (let prev1 = copy_assignment_array n cur prev;
                cur1 = assign n k data center1
            in if assignment_change_count n cur1 prev1 = 0 then (center1, cur1)
               else kmeans_loop m n k data weight center1 cur1 prev1 totD))"

text \<open>The arrays the functions allocate: the rows of the distance matrix are a \<open>BUG_ON\<close>, the
  others make the function return with its arguments unchanged.  \<open>index_cur\<close> keeps what it has
  beyond the first \<open>n\<close> entries.\<close>

datatype oom = No_oom | Dist_oom | Row_oom | Prev_oom

definition kmeans_org ::
    "oom \<Rightarrow> nat \<Rightarrow> nat \<Rightarrow> u64 list \<Rightarrow> u64 list \<Rightarrow> int list \<Rightarrow> (u64 list \<times> int list) option" where
  "kmeans_org oom n k data center index_cur =
     (case oom of
        Row_oom \<Rightarrow> None
      | Dist_oom \<Rightarrow> Some (center, index_cur)
      | Prev_oom \<Rightarrow> Some (center, index_cur)
      | No_oom \<Rightarrow>
          (let cur = assign n k data center;
               (center1, cur1) = kmeans_org_loop MAX_ITERATIONS n k data center cur cur NO_DIST
           in Some (center1, copy_assignment_array n cur1 index_cur)))"

definition kmeans ::
    "oom \<Rightarrow> nat \<Rightarrow> nat \<Rightarrow> u64 list \<Rightarrow> u64 list \<Rightarrow> int list \<Rightarrow> int list \<Rightarrow> (u64 list \<times> int list) option" where
  "kmeans oom n k data center index_cur weight =
     (case oom of
        Row_oom \<Rightarrow> None
      | Dist_oom \<Rightarrow> Some (center, index_cur)
      | Prev_oom \<Rightarrow> Some (center, index_cur)
      | No_oom \<Rightarrow>
          (let cur = assign n k data center;
               (center1, cur1) = kmeans_loop MAX_ITERATIONS n k data weight center cur cur NO_DIST
           in Some (center1, copy_assignment_array n cur1 index_cur)))"

text \<open>\<open>fixed_center\<close> only assigns.\<close>

definition fixed_center ::
    "oom \<Rightarrow> nat \<Rightarrow> nat \<Rightarrow> u64 list \<Rightarrow> u64 list \<Rightarrow> int list \<Rightarrow> int list option" where
  "fixed_center oom n k data center index_cur =
     (case oom of
        Row_oom \<Rightarrow> None
      | Dist_oom \<Rightarrow> Some index_cur
      | Prev_oom \<Rightarrow> Some index_cur
      | No_oom \<Rightarrow> Some (copy_assignment_array n (assign n k data center) index_cur))"

section \<open>Ordering the data\<close>

text \<open>Selection sort, as four functions contain it: the next index is the first unvisited one with
  the smallest value below \<open>4294967295\<close>; the sort stops when there is none.\<close>

definition min_step :: "u64 list \<Rightarrow> bool list \<Rightarrow> nat \<Rightarrow> u64 \<times> nat option \<Rightarrow> u64 \<times> nat option" where
  "min_step data visit j = (\<lambda>(min_data, min_index).
     if visit ! j then (min_data, min_index)
     else if min_data > data ! j then (data ! j, Some j)
     else (min_data, min_index))"

definition min_unvisited :: "nat \<Rightarrow> u64 list \<Rightarrow> bool list \<Rightarrow> nat option" where
  "min_unvisited n data visit = snd (fold (min_step data visit) [0..<n] (NO_DIST, None))"

fun select_loop :: "nat \<Rightarrow> nat \<Rightarrow> u64 list \<Rightarrow> bool list \<Rightarrow> nat list" where
  "select_loop 0 n data visit = []"
| "select_loop (Suc m) n data visit =
     (case min_unvisited n data visit of
        None \<Rightarrow> []
      | Some i \<Rightarrow> i # select_loop m n data (visit[i := True]))"

definition selection_order :: "nat \<Rightarrow> u64 list \<Rightarrow> nat list" where
  "selection_order n data = select_loop n n data (replicate n False)"

text \<open>\<open>sort_index\<close> after the sort: the entries the sort did not reach are \<open>-1\<close>.\<close>

definition sort_index :: "nat \<Rightarrow> u64 list \<Rightarrow> int list" where
  "sort_index n data =
     (let order = map int (selection_order n data) in order @ replicate (n - length order) (- 1))"

text \<open>Fresh memory: the arrays \<open>temp_fgroup\<close>, \<open>temp_data\<close>, \<open>temp_weight\<close>, and what lies in the
  page of \<open>sort_index\<close> behind its \<open>n\<close> entries.  \<open>vmalloc\<close> gives whole pages of 4096 bytes.\<close>

record junk =
  jk_fgroup :: "nat \<Rightarrow> u64"
  jk_data :: "nat \<Rightarrow> u64"
  jk_weight :: "nat \<Rightarrow> int"
  jk_sort :: "nat \<Rightarrow> int"

definition page_ints :: "nat \<Rightarrow> nat" where
  "page_ints n = (n * 4 + 4095) div 4096 * 1024"

definition temp_array :: "nat \<Rightarrow> nat list \<Rightarrow> 'a list \<Rightarrow> (nat \<Rightarrow> 'a) \<Rightarrow> 'a list" where
  "temp_array n order xs jk =
     map (\<lambda>i. if i < length order then xs ! (order ! i) else jk i) [0..<n]"

definition sort_and_cut_data ::
    "junk \<Rightarrow> nat \<Rightarrow> u64 list \<Rightarrow> u64 list \<Rightarrow> int list \<Rightarrow> nat \<times> u64 list \<times> u64 list \<times> int list" where
  "sort_and_cut_data jk n fgroup data weight =
     (let order = selection_order n data
      in (n * VALID_FGROUP_RATE div 100,
          temp_array n order fgroup (jk_fgroup jk) @ drop n fgroup,
          temp_array n order data (jk_data jk) @ drop n data,
          temp_array n order weight (jk_weight jk) @ drop n weight))"

section \<open>The first centres\<close>

text \<open>Reading an array at an index of type \<open>int\<close>, and \<open>sort_index[j]\<close> up to the end of its page.\<close>

definition geti :: "'a list \<Rightarrow> int \<Rightarrow> 'a option" where
  "geti xs i = (if i < 0 then None else aget xs (nat i))"

definition sort_cell :: "junk \<Rightarrow> nat \<Rightarrow> int list \<Rightarrow> nat \<Rightarrow> int option" where
  "sort_cell jk n si j =
     (if j < n then aget si j else if j < page_ints n then Some (jk_sort jk j) else None)"

text \<open>The inner loop of \<open>init_center\<close> for one centre; at most \<open>n + 2\<close> iterations.  It returns \<open>j\<close>,
  \<open>sum_w\<close> and \<open>center[i]\<close>.\<close>

fun center_loop ::
    "nat \<Rightarrow> junk \<Rightarrow> nat \<Rightarrow> int list \<Rightarrow> u64 list \<Rightarrow> int list \<Rightarrow> u64 \<Rightarrow> int \<Rightarrow> nat \<Rightarrow> int \<Rightarrow> u64 \<Rightarrow>
     (nat \<times> int \<times> u64) option" where
  "center_loop 0 jk n si data weight interval interval_center j sum_w c = None"
| "center_loop (Suc m) jk n si data weight interval interval_center j sum_w c = do {
     index \<leftarrow> sort_cell jk n si j;
     (if j > n then
        (if c = 0 then do {
           index' \<leftarrow> sort_cell jk n si (n - 1);
           d \<leftarrow> geti data index';
           Some (j, sum_w, d) }
         else Some (j, sum_w, c))
      else if index = - 1 then None
      else do {
        w \<leftarrow> geti weight index;
        c' \<leftarrow> (if sum_w + w \<ge> interval_center then geti data index else Some c);
        (if (word_of_int (sum_w + w) :: u64) \<ge> interval then Some (j + 1, sum_w + w, c')
         else center_loop m jk n si data weight interval interval_center (j + 1) (sum_w + w) c') }) }"

definition sum_first :: "nat \<Rightarrow> int list \<Rightarrow> int" where
  "sum_first n weight = sum_list (take n weight)"

text \<open>The outer loop: \<open>j\<close>, the remaining \<open>weight_sum\<close>, and the centres chosen so far.\<close>

definition init_center_step ::
    "junk \<Rightarrow> nat \<Rightarrow> nat \<Rightarrow> int list \<Rightarrow> u64 list \<Rightarrow> int list \<Rightarrow> nat \<Rightarrow> nat \<times> int \<times> u64 list \<Rightarrow>
     (nat \<times> int \<times> u64 list) option" where
  "init_center_step jk n k si data weight i = (\<lambda>(j, weight_sum, center).
     let interval = word_of_int (cdiv weight_sum (int (k - i))) :: u64;
         interval_center = sint (ucast (interval div 2) :: u32)
     in do {
       (j', sum_w, c) \<leftarrow> center_loop (n + 2) jk n si data weight interval interval_center j 0 0;
       Some (j', weight_sum - sum_w, center @ [c]) })"

definition init_center :: "junk \<Rightarrow> nat \<Rightarrow> nat \<Rightarrow> u64 list \<Rightarrow> int list \<Rightarrow> u64 list option" where
  "init_center jk n k data weight = do {
     (j, ws, center) \<leftarrow> ofold (init_center_step jk n k (sort_index n data) data weight) [0..<k]
        (0, sum_first n weight, []);
     Some center }"

section \<open>Alternative clusterings\<close>

text \<open>\<open>convert_data\<close> maps the data through \<open>maximum - maximum * median / (x + median)\<close> and chooses
  centres on the result.\<close>

definition convert_step :: "u64 \<Rightarrow> u64 \<Rightarrow> int \<Rightarrow> u64 list \<Rightarrow> u64 list option" where
  "convert_step median maximum index data = do {
     d \<leftarrow> geti data index;
     q \<leftarrow> udiv (maximum * median) (d + median);
     aset data (nat index) (maximum - q) }"

fun convert_loop ::
    "nat \<Rightarrow> junk \<Rightarrow> nat \<Rightarrow> nat \<Rightarrow> nat \<Rightarrow> int list \<Rightarrow> u64 list \<Rightarrow> int list \<Rightarrow> u64 \<Rightarrow> int \<Rightarrow> nat \<Rightarrow> int \<Rightarrow> u64 \<Rightarrow>
     (nat \<times> int \<times> u64) option" where
  "convert_loop 0 jk n k i si data weight interval interval_center j sum_w c = None"
| "convert_loop (Suc m) jk n k i si data weight interval interval_center j sum_w c = do {
     index \<leftarrow> sort_cell jk n si j;
     ensure (index \<noteq> - 1);
     w \<leftarrow> geti weight index;
     (let sum_w' = sum_w + w; j' = j + 1
      in do {
        c' \<leftarrow> (if sum_w' \<ge> interval_center then geti data index else Some c);
        (if (word_of_int sum_w' :: u64) \<ge> interval then Some (j', sum_w', c')
         else if int k - int i - 1 = int n - int j' then Some (j', sum_w', c')
         else convert_loop m jk n k i si data weight interval interval_center j' sum_w' c') }) }"

definition convert_center_step ::
    "junk \<Rightarrow> nat \<Rightarrow> nat \<Rightarrow> int list \<Rightarrow> u64 list \<Rightarrow> int list \<Rightarrow> nat \<Rightarrow> nat \<times> int \<times> u64 list \<Rightarrow>
     (nat \<times> int \<times> u64 list) option" where
  "convert_center_step jk n k si data weight i = (\<lambda>(j, weight_sum, center).
     let interval = word_of_int (cdiv weight_sum (int (k - i))) :: u64;
         interval_center = sint (ucast (interval div 2) :: u32)
     in do {
       c \<leftarrow> aget center i;
       (j', sum_w, c') \<leftarrow> convert_loop (page_ints n + 1) jk n k i si data weight interval interval_center j 0 c;
       center' \<leftarrow> aset center i c';
       Some (j', weight_sum - sum_w, center') })"

definition convert_data ::
    "junk \<Rightarrow> nat \<Rightarrow> nat \<Rightarrow> u64 list \<Rightarrow> u64 list \<Rightarrow> int list \<Rightarrow> (u64 list \<times> u64 list) option" where
  "convert_data jk n k data center weight =
     (let si = sort_index n data in do {
        mi \<leftarrow> sort_cell jk n si (n div 2);
        m \<leftarrow> geti data mi;
        ensure (n > 0);
        xi \<leftarrow> sort_cell jk n si (n - 1);
        maximum \<leftarrow> geti data xi;
        data' \<leftarrow> ofold (convert_step (m + 1) maximum) si data;
        (j, ws, center') \<leftarrow> ofold (convert_center_step jk n k si data' weight) [0..<k]
           (0, sum_first n weight, center);
        Some (data', center') })"

text \<open>\<open>uniform\<close> sorts from both ends and cuts the order into parts of equal weight.\<close>

definition minmax_step ::
    "u64 list \<Rightarrow> bool list \<Rightarrow> nat \<Rightarrow> (u64 \<times> nat option) \<times> u64 \<times> nat option \<Rightarrow>
     (u64 \<times> nat option) \<times> u64 \<times> nat option" where
  "minmax_step data visit j = (\<lambda>((max_data, max_index), (min_data, min_index)).
     if visit ! j then ((max_data, max_index), (min_data, min_index))
     else (if max_data \<le> data ! j then (data ! j, Some j) else (max_data, max_index),
           if min_data > data ! j then (data ! j, Some j) else (min_data, min_index)))"

fun both_ends_loop ::
    "nat \<Rightarrow> nat \<Rightarrow> u64 list \<Rightarrow> bool list \<Rightarrow> int list \<Rightarrow> nat \<Rightarrow> int \<Rightarrow> int list" where
  "both_ends_loop 0 n data visit si min_pointer max_pointer = si"
| "both_ends_loop (Suc m) n data visit si min_pointer max_pointer =
     (case fold (minmax_step data visit) [0..<n] ((0, None), (NO_DIST, None)) of
        ((_, Some mx), (_, Some mn)) \<Rightarrow>
          (if mx = mn then
             (let si' = si[min_pointer := int mn]; visit' = visit[mn := True]; lo = min_pointer + 1
              in if int lo > max_pointer then si'
                 else both_ends_loop m n data visit' si' lo max_pointer)
           else
             (let si' = si[min_pointer := int mn, nat max_pointer := int mx];
                  visit' = visit[mn := True, mx := True]; lo = min_pointer + 1; hi = max_pointer - 1
              in if int lo > hi then si' else both_ends_loop m n data visit' si' lo hi))
      | _ \<Rightarrow> si)"

fun uniform_loop ::
    "nat \<Rightarrow> junk \<Rightarrow> nat \<Rightarrow> nat \<Rightarrow> int list \<Rightarrow> int list \<Rightarrow> u64 \<Rightarrow> nat \<Rightarrow> int \<Rightarrow> int list \<Rightarrow>
     (nat \<times> int \<times> int list) option" where
  "uniform_loop 0 jk n i si weight interval j sum_w index_cur = None"
| "uniform_loop (Suc m) jk n i si weight interval j sum_w index_cur = do {
     index \<leftarrow> sort_cell jk n si j;
     ensure (index \<noteq> - 1);
     w \<leftarrow> geti weight index;
     index_cur' \<leftarrow> aset index_cur (nat index) (int i);
     (let sum_w' = sum_w + w; j' = j + 1
      in if (word_of_int sum_w' :: u64) \<ge> interval then Some (j', sum_w', index_cur')
         else if int NR_CLUSTER - int i - 1 = int n - int j' then Some (j', sum_w', index_cur')
         else uniform_loop m jk n i si weight interval j' sum_w' index_cur') }"

definition uniform_step ::
    "junk \<Rightarrow> nat \<Rightarrow> int list \<Rightarrow> u64 list \<Rightarrow> int list \<Rightarrow> nat \<Rightarrow> nat \<times> int \<times> int list \<times> u64 list \<Rightarrow>
     (nat \<times> int \<times> int list \<times> u64 list) option" where
  "uniform_step jk n si data weight i = (\<lambda>(j, weight_sum, index_cur, center_temp). do {
     (j', sum_w, index_cur') \<leftarrow> uniform_loop (page_ints n + 1) jk n i si weight
        (word_of_int (cdiv weight_sum (int (NR_CLUSTER - i)))) j 0 index_cur;
     last_index \<leftarrow> sort_cell jk n si (j' - 1);
     d \<leftarrow> geti data last_index;
     Some (j', weight_sum - sum_w, index_cur', center_temp @ [d]) })"

definition uniform_rest :: "int list \<Rightarrow> nat \<Rightarrow> int list \<Rightarrow> int list option" where
  "uniform_rest si j index_cur = do {
     ensure (si ! j \<noteq> - 1);
     aset index_cur (nat (si ! j)) (int (NR_CLUSTER - 1)) }"

definition uniform ::
    "junk \<Rightarrow> nat \<Rightarrow> u64 list \<Rightarrow> u64 list \<Rightarrow> int list \<Rightarrow> int list \<Rightarrow> (u64 list \<times> int list) option" where
  "uniform jk n data center index_cur weight =
     (let index0 = replicate n (- 1) @ drop n index_cur;
          si = both_ends_loop n n data (replicate n False) (replicate n (- 1)) 0 (int n - 1);
          weight_sum = sum_first n weight
      in if (word_of_int (cdiv weight_sum (int NR_CLUSTER)) :: u64) = 0 then Some (center, index0)
         else do {
           (j, ws, index1, temp) \<leftarrow> ofold (uniform_step jk n si data weight) [0..<NR_CLUSTER]
              (0, weight_sum, index0, []);
           index2 \<leftarrow> ofold (uniform_rest si) [j..<n] index1;
           first \<leftarrow> sort_cell jk n si 0;
           d0 \<leftarrow> geti data first;
           ensure (- 1 \<notin> set (take n index2));
           Some ((d0 + temp ! 0) div 2 #
             map (\<lambda>i. (temp ! (i - 1) + temp ! i) div 2) [1..<NR_CLUSTER] @ drop NR_CLUSTER center,
             index2) })"

section \<open>The smallest entry\<close>

text \<open>The three searches for a smallest entry (the nearest centre, the next value of a selection
  sort, the next centre to rank) are one scan, which finds the first of the smallest entries
  below the bound that are not skipped.\<close>

definition argmin_step :: "(nat \<Rightarrow> bool) \<Rightarrow> (nat \<Rightarrow> u64) \<Rightarrow> nat \<Rightarrow> u64 \<times> nat option \<Rightarrow> u64 \<times> nat option" where
  "argmin_step skip f j = (\<lambda>(m, i).
     if skip j then (m, i) else if m > f j then (f j, Some j) else (m, i))"

definition argmin :: "(nat \<Rightarrow> bool) \<Rightarrow> (nat \<Rightarrow> u64) \<Rightarrow> nat \<Rightarrow> nat option" where
  "argmin skip f n = snd (fold (argmin_step skip f) [0..<n] (NO_DIST, None))"

definition first_min :: "(nat \<Rightarrow> bool) \<Rightarrow> (nat \<Rightarrow> u64) \<Rightarrow> nat \<Rightarrow> nat \<Rightarrow> bool" where
  "first_min skip f n i \<longleftrightarrow> i < n \<and> \<not> skip i \<and> f i < NO_DIST \<and>
     (\<forall>j<n. \<not> skip j \<longrightarrow> f i \<le> f j) \<and> (\<forall>j<i. \<not> skip j \<longrightarrow> f i < f j)"

lemma argmin_step_apply:
  "argmin_step skip f j (m, i) = (if skip j then (m, i) else if m > f j then (f j, Some j) else (m, i))"
  by (simp add: argmin_step_def)

lemma argmin_fold:
  "case fold (argmin_step skip f) [0..<n] (NO_DIST, None) of
     (m, None) \<Rightarrow> m = NO_DIST \<and> (\<forall>j<n. skip j \<or> NO_DIST \<le> f j)
   | (m, Some i) \<Rightarrow> m = f i \<and> first_min skip f n i"
proof (induction n)
  case (Suc n)
  obtain m r where mr: "fold (argmin_step skip f) [0..<n] (NO_DIST, None) = (m, r)" by fastforce
  show ?case
  proof (cases r)
    case None
    with Suc mr have m: "m = NO_DIST" and all: "\<forall>j<n. skip j \<or> NO_DIST \<le> f j" by simp_all
    have "first_min skip f (Suc n) n" if "\<not> skip n" "f n < NO_DIST"
      using that all by (auto simp: first_min_def less_Suc_eq intro: order_less_le_trans less_imp_le)
    with None mr m all show ?thesis
      by (auto simp: argmin_step_apply less_Suc_eq not_less)
  next
    case (Some i)
    with Suc mr have i: "m = f i" "first_min skip f n i" by simp_all
    then show ?thesis
    proof (cases "skip n \<or> f i \<le> f n")
      case True
      with i Some mr show ?thesis
        by (auto simp: argmin_step_apply first_min_def less_Suc_eq)
    next
      case False
      have "f n < f j" if "j < n" "\<not> skip j" for j
        using i that False by (auto simp: first_min_def not_le intro: order_less_le_trans)
      with False i Some mr show ?thesis
        by (auto simp: argmin_step_apply first_min_def less_Suc_eq intro: less_trans less_imp_le)
    qed
  qed
qed simp

lemma argmin_None: "argmin skip f n = None \<longleftrightarrow> (\<forall>j<n. skip j \<or> NO_DIST \<le> f j)"
  using argmin_fold [of n skip f]
  by (auto simp: argmin_def first_min_def not_le split: prod.splits option.splits)

lemma argmin_Some: "argmin skip f n = Some i \<longleftrightarrow> first_min skip f n i"
proof -
  have uniq: "first_min skip f n i \<Longrightarrow> first_min skip f n j \<Longrightarrow> i = j" for i j
    unfolding first_min_def by (meson leD linorder_neqE_nat)
  have "first_min skip f n i \<Longrightarrow> argmin skip f n \<noteq> None"
    by (auto simp: argmin_None first_min_def not_le)
  then show ?thesis
    using argmin_fold [of n skip f] uniq
    by (auto simp: argmin_def split: prod.splits option.splits)
qed

lemma min_unvisited_argmin: "min_unvisited n data visit = argmin (\<lambda>j. visit ! j) (\<lambda>j. data ! j) n"
proof -
  have "min_step data visit = argmin_step (\<lambda>j. visit ! j) (\<lambda>j. data ! j)"
    by (intro ext) (simp add: min_step_def argmin_step_def)
  then show ?thesis by (simp add: min_unvisited_def argmin_def)
qed

lemma choose_argmin:
  "choose_cluster k dist = (case argmin (\<lambda>_. False) (\<lambda>j. dist ! j) k of None \<Rightarrow> - 1 | Some i \<Rightarrow> int i)"
proof -
  have "fold (choose_step dist) js (case r of None \<Rightarrow> - 1 | Some i \<Rightarrow> int i, m) =
    (case fold (argmin_step (\<lambda>_. False) (\<lambda>j. dist ! j)) js (m, r) of
       (m', r') \<Rightarrow> (case r' of None \<Rightarrow> - 1 | Some i \<Rightarrow> int i, m'))" for js m r
  proof (induction js arbitrary: m r)
    case (Cons j js)
    show ?case
      using Cons [of "if m > dist ! j then Some j else r" "if m > dist ! j then dist ! j else m"]
      by (simp add: choose_step_def argmin_step_apply split: if_splits)
  qed simp
  from this [of "[0..<k]" None NO_DIST] show ?thesis
    by (simp add: choose_cluster_def argmin_def split: prod.splits)
qed

section \<open>Assignments and centroids\<close>

lemma length_assign [simp]: "length (assign n k data center) = n"
  by (simp add: assign_def choose_all_clusters_from_distances_def)

lemma assign_nth:
  assumes "i < n"
  shows "assign n k data center ! i =
    (case argmin (\<lambda>_. False) (\<lambda>j. abs_diff (center ! j) (data ! i)) k of None \<Rightarrow> - 1 | Some c \<Rightarrow> int c)"
proof -
  have "fold (argmin_step (\<lambda>_. False) (\<lambda>j. map (\<lambda>jj. abs_diff (center ! jj) (data ! i)) [0..<k] ! j)) [0..<k] s
      = fold (argmin_step (\<lambda>_. False) (\<lambda>j. abs_diff (center ! j) (data ! i))) [0..<k] s" for s
    by (rule fold_cong) (auto simp: argmin_step_def)
  with assms show ?thesis
    by (simp add: assign_def choose_all_clusters_from_distances_def calc_all_distances_def
        choose_argmin argmin_def)
qed

lemma assign_range: "i < n \<Longrightarrow> - 1 \<le> assign n k data center ! i \<and> assign n k data center ! i < int k"
  by (auto simp: assign_nth argmin_Some first_min_def split: option.split)

lemma copy_all: "length src = n \<Longrightarrow> length tgt = n \<Longrightarrow> copy_assignment_array n src tgt = src"
  by (simp add: copy_assignment_array_def)

lemma change_count_0:
  "length a = n \<Longrightarrow> length b = n \<Longrightarrow> assignment_change_count n a b = 0 \<longleftrightarrow> a = b"
  by (auto simp: assignment_change_count_def filter_empty_conv intro: nth_equalityI)

lemma centroids_org_cong:
  assumes "\<And>i. i < n \<Longrightarrow> index ! i = index' ! i"
  shows "calc_cluster_centroids_org n k data index = calc_cluster_centroids_org n k data index'"
proof -
  have "fold (centroid_step_org k data index) [0..<n] s = fold (centroid_step_org k data index') [0..<n] s" for s
    by (rule fold_cong) (auto simp: centroid_step_org_def assms)
  then show ?thesis by (simp add: calc_cluster_centroids_org_def)
qed

lemma length_centroid_fold:
  "length (snd (fold (centroid_step_org k data index) js (c, t))) = length t \<and>
   length (fst (fold (centroid_step_org k data index) js (c, t))) = length c"
  by (induction js arbitrary: c t) (simp_all add: centroid_step_org_def Let_def)

lemma length_centroids_org [simp]: "length (calc_cluster_centroids_org n k data index) = k"
  using length_centroid_fold [of k data index "[0..<n]" "replicate k 0" "replicate k 0"]
  by (simp add: calc_cluster_centroids_org_def case_prod_beta)

text \<open>How the iteration may end: with centres that are the centroids of the assignment, or with
  the assignment to the nearest of the centres.\<close>

definition consistent :: "nat \<Rightarrow> nat \<Rightarrow> u64 list \<Rightarrow> u64 list \<Rightarrow> int list \<Rightarrow> bool" where
  "consistent n k data center index \<longleftrightarrow>
     index = assign n k data center \<or> center = calc_cluster_centroids_org n k data index"

definition assignment_ok :: "nat \<Rightarrow> nat \<Rightarrow> int list \<Rightarrow> bool" where
  "assignment_ok n k index \<longleftrightarrow> length index = n \<and> (\<forall>c\<in>set index. - 1 \<le> c \<and> c < int k)"

lemma assign_ok [simp]: "assignment_ok n k (assign n k data center)"
  unfolding assignment_ok_def by (auto simp: in_set_conv_nth dest: assign_range)

lemma kmeans_org_loop_ends:
  assumes "index = assign n k data center" "assignment_ok n k prev" "length center = k"
    and "kmeans_org_loop m n k data center index prev d = (center', index')"
  shows "consistent n k data center' index' \<and> assignment_ok n k index' \<and> length center' = k"
  using assms
proof (induction m arbitrary: center index prev d)
  case 0
  then show ?case by (auto simp: consistent_def)
next
  case (Suc m)
  let ?c = "calc_cluster_centroids_org n k data index"
  let ?i = "assign n k data ?c"
  have l: "length index = n" "length prev = n" using Suc.prems by (simp_all add: assignment_ok_def)
  have ok: "assignment_ok n k index" using Suc.prems(1) by simp
  let ?d = "calc_total_distance_org n data ?c index"
  have "kmeans_org_loop (Suc m) n k data center index prev d =
    (if ?d > d then (calc_cluster_centroids_org n k data prev, prev)
     else if assignment_change_count n ?i index = 0 then (?c, ?i)
     else kmeans_org_loop m n k data ?c ?i index ?d)"
    by (simp add: Let_def copy_all l)
  with Suc.prems(4) consider "(center', index') = (calc_cluster_centroids_org n k data prev, prev)"
    | "(center', index') = (?c, ?i)" | "kmeans_org_loop m n k data ?c ?i index ?d = (center', index')"
    by metis
  then show ?case
  proof cases
    case 1
    then show ?thesis using Suc.prems(2) by (simp add: consistent_def)
  next
    case 2
    then show ?thesis by (simp add: consistent_def)
  next
    case 3
    show ?thesis by (rule Suc.IH [OF refl ok _ 3]) simp
  qed
qed

text \<open>With unit weights the weighted routines are the plain ones.\<close>

definition unit_weights :: "nat \<Rightarrow> int list \<Rightarrow> bool" where
  "unit_weights n weight \<longleftrightarrow> (\<forall>i<n. weight ! i = 1)"

lemma centroids_unit:
  assumes "unit_weights n weight"
  shows "calc_cluster_centroids n k data index weight = calc_cluster_centroids_org n k data index"
proof -
  have "fold (centroid_step k data index weight) [0..<n] s = fold (centroid_step_org k data index) [0..<n] s" for s
    using assms by (intro fold_cong) (auto simp: centroid_step_def centroid_step_org_def unit_weights_def)
  then show ?thesis by (simp add: calc_cluster_centroids_def calc_cluster_centroids_org_def)
qed

lemma sqr_minus: "sqr (a - b) = sqr (b - a)"
  by (simp add: sqr_def algebra_simps)

lemma total_unit:
  assumes "unit_weights n weight"
  shows "calc_total_distance n data center index weight = calc_total_distance_org n data center index"
  unfolding calc_total_distance_def calc_total_distance_org_def
  using assms
  by (intro fold_cong) (auto simp: unit_weights_def Let_def sqr_minus [of "data ! _"] intro!: ext)

lemma kmeans_loop_unit:
  assumes "unit_weights n weight"
  shows "kmeans_loop m n k data weight center cur prev d = kmeans_org_loop m n k data center cur prev d"
  by (induction m arbitrary: center cur prev d)
    (simp_all add: centroids_unit [OF assms] total_unit [OF assms] Let_def)

section \<open>Selection sort\<close>

lemma select_loop_spec:
  assumes "length visit = n"
  shows "distinct (select_loop m n data visit) \<and> sorted (map (\<lambda>i. data ! i) (select_loop m n data visit)) \<and>
    (\<forall>i\<in>set (select_loop m n data visit). i < n \<and> \<not> visit ! i \<and> data ! i < NO_DIST) \<and>
    (length (select_loop m n data visit) = m \<or>
     (\<forall>j<n. j \<in> set (select_loop m n data visit) \<or> visit ! j \<or> NO_DIST \<le> data ! j))"
  using assms
proof (induction m arbitrary: visit)
  case (Suc m)
  show ?case
  proof (cases "min_unvisited n data visit")
    case None
    then have "\<forall>j<n. visit ! j \<or> NO_DIST \<le> data ! j" by (simp add: min_unvisited_argmin argmin_None)
    with None show ?thesis by simp
  next
    case (Some i)
    then have i: "i < n" "\<not> visit ! i" "data ! i < NO_DIST" "\<And>j. j < n \<Longrightarrow> \<not> visit ! j \<Longrightarrow> data ! i \<le> data ! j"
      by (auto simp: min_unvisited_argmin argmin_Some first_min_def)
    let ?v = "visit[i := True]"
    have v: "visit[i := True] ! j \<longleftrightarrow> j = i \<or> visit ! j" if "j < n" for j
      using that i Suc.prems by (auto simp: nth_list_update)
    define r where "r = select_loop m n data ?v"
    have IH: "distinct r" "sorted (map (\<lambda>i. data ! i) r)"
      "\<forall>j\<in>set r. j < n \<and> \<not> ?v ! j \<and> data ! j < NO_DIST"
      "length r = m \<or> (\<forall>j<n. j \<in> set r \<or> ?v ! j \<or> NO_DIST \<le> data ! j)"
      using Suc.IH [of ?v] Suc.prems unfolding r_def by simp_all
    have r: "j \<noteq> i \<and> j < n \<and> \<not> visit ! j \<and> data ! j < NO_DIST \<and> data ! i \<le> data ! j" if "j \<in> set r" for j
      using IH(3) that v [of j] i(4) [of j] by blast
    have "length (i # r) = Suc m \<or> (\<forall>j<n. j \<in> set (i # r) \<or> visit ! j \<or> NO_DIST \<le> data ! j)"
      using IH(4) v by fastforce
    moreover have "sorted (map (\<lambda>i. data ! i) (i # r))" using IH(2) r by simp
    moreover have "distinct (i # r)" using IH(1) r by auto
    moreover have "\<forall>j\<in>set (i # r). j < n \<and> \<not> visit ! j \<and> data ! j < NO_DIST" using r i(1-3) by simp
    moreover have "select_loop (Suc m) n data visit = i # r" using Some by (simp add: r_def)
    ultimately show ?thesis by metis
  qed
qed simp

lemma selection_order_spec:
  "distinct (selection_order n data) \<and> sorted (map (\<lambda>i. data ! i) (selection_order n data)) \<and>
   set (selection_order n data) \<subseteq> {0..<n}"
  using select_loop_spec [of "replicate n False" n n data] by (auto simp: selection_order_def)

lemma selection_order_complete:
  assumes "\<And>i. i < n \<Longrightarrow> data ! i < NO_DIST"
  shows "set (selection_order n data) = {0..<n}" "length (selection_order n data) = n"
proof -
  let ?o = "selection_order n data"
  have d: "distinct ?o" "set ?o \<subseteq> {0..<n}" using selection_order_spec by simp_all
  have "length ?o = n \<or> (\<forall>j<n. j \<in> set ?o)"
  proof -
    have "length ?o = n \<or> (\<forall>j<n. j \<in> set ?o \<or> replicate n False ! j \<or> NO_DIST \<le> data ! j)"
      using select_loop_spec [of "replicate n False" n n data] unfolding selection_order_def by simp
    with assms show ?thesis by (auto simp: not_le [symmetric])
  qed
  moreover have "set ?o = {0..<n}" if "length ?o = n"
    using d that distinct_card [OF d(1)] by (intro card_subset_eq) simp_all
  ultimately show s: "set ?o = {0..<n}" using d by auto
  show "length ?o = n" using distinct_card [OF d(1)] s by simp
qed

lemma sort_index_complete:
  "(\<And>i. i < n \<Longrightarrow> data ! i < NO_DIST) \<Longrightarrow> sort_index n data = map int (selection_order n data)"
  by (simp add: sort_index_def selection_order_complete)

lemma temp_array_complete:
  "length order = n \<Longrightarrow> temp_array n order xs jk = map (\<lambda>i. xs ! i) order"
  by (auto simp: temp_array_def intro!: nth_equalityI)

lemma mset_order:
  assumes "distinct order" "set order = {0..<length xs}"
  shows "mset (map (\<lambda>i. xs ! i) order) = mset xs"
proof -
  have "mset order = mset [0..<length xs]" 
    using set_eq_iff_mset_eq_distinct [of order "[0..<length xs]"] assms by simp
  then have "mset (map (\<lambda>i. xs ! i) order) = mset (map (\<lambda>i. xs ! i) [0..<length xs])" by (simp only: mset_map)
  then show ?thesis by (simp add: map_nth)
qed

section \<open>Centroids are means\<close>

text \<open>The accumulators after the first \<open>m\<close> values.\<close>

definition sums_ok :: "nat \<Rightarrow> nat \<Rightarrow> nat \<Rightarrow> int list \<times> u64 list \<Rightarrow> bool" where
  "sums_ok k M m = (\<lambda>(cnt, tot). length cnt = k \<and> length tot = k \<and>
     (\<forall>a<k. 0 \<le> cnt ! a \<and> cnt ! a \<le> int m \<and> unat (tot ! a) \<le> M * nat (cnt ! a)))"

lemma unat_add_le: "unat (a + b :: u64) \<le> unat a + unat b"
  by (simp add: unat_word_ariths)

lemma centroid_step_sums:
  assumes "sums_ok k M m st" "unat (data ! i) \<le> M" "0 < k"
  shows "sums_ok k M (Suc m) (centroid_step_org k data index i st)"
proof -
  obtain cnt tot where st: "st = (cnt, tot)" by (cases st)
  let ?a = "active_cluster k (index ! i)"
  have a: "?a < k" using assms(3) by (auto simp: active_cluster_def)
  have c: "0 \<le> cnt ! ?a" "unat (tot ! ?a) \<le> M * nat (cnt ! ?a)" "length tot = k" "length cnt = k"
    using assms(1) a by (auto simp: sums_ok_def st)
  have "unat (tot ! ?a + data ! i) \<le> M * nat (cnt ! ?a) + M"
    using unat_add_le [of "tot ! ?a" "data ! i"] c(2) assms(2) by linarith
  also have "\<dots> = M * nat (cnt ! ?a + 1)" using c(1) by (simp add: nat_add_distrib)
  finally show ?thesis
    using assms(1) a c by (auto simp: sums_ok_def st centroid_step_org_def Let_def nth_list_update)
qed

lemma centroid_fold_sums:
  assumes "\<forall>i<n. unat (data ! i) \<le> M" "0 < k"
  shows "sums_ok k M n (fold (centroid_step_org k data index) [0..<n] (replicate k 0, replicate k 0))"
  using assms(1)
proof (induction n)
  case 0
  show ?case by (simp add: sums_ok_def)
next
  case (Suc n)
  then show ?case using centroid_step_sums [OF Suc.IH _ assms(2)] by simp
qed

lemma mean_of_bound:
  assumes "0 \<le> c" "nat c < 2 ^ 64" "unat t \<le> M * nat c"
  shows "unat (mean_of c t) \<le> M"
proof (cases "c = 0")
  case False
  have "word_of_int c = (of_nat (nat c) :: u64)" using assms(1) by simp
  then have "unat (word_of_int c :: u64) = nat c" using assms(2) by (simp add: unat_of_nat)
  then have "unat (mean_of c t) = unat t div nat c" using False by (simp add: mean_of_def unat_div)
  also have "\<dots> \<le> M * nat c div nat c" by (rule div_le_mono [OF assms(3)])
  also have "\<dots> = M" using False assms(1) by simp
  finally show ?thesis .
qed (use assms in \<open>simp add: mean_of_def\<close>)

lemma centroids_org_bound:
  assumes "\<forall>i<n. unat (data ! i) \<le> M" "n < 2 ^ 64" "j < k"
  shows "unat (calc_cluster_centroids_org n k data index ! j) \<le> M"
proof -
  obtain cnt tot where f: "fold (centroid_step_org k data index) [0..<n] (replicate k 0, replicate k 0) = (cnt, tot)"
    by fastforce
  have "0 < k" using assms(3) by simp
  from centroid_fold_sums [OF assms(1) this, of index] f assms(3)
  have "length cnt = k" "length tot = k" "0 \<le> cnt ! j" "cnt ! j \<le> int n" "unat (tot ! j) \<le> M * nat (cnt ! j)"
    by (auto simp: sums_ok_def)
  with assms(2,3) f show ?thesis
    by (auto simp: calc_cluster_centroids_org_def intro!: mean_of_bound)
qed

text \<open>The iteration therefore ends with centres below any bound of the data.\<close>

lemma kmeans_org_loop_bound:
  assumes "\<forall>i<n. unat (data ! i) \<le> M" "n < 2 ^ 64" "0 < m" "j < k"
    and "kmeans_org_loop m n k data center cur prev d = (center', cur')"
  shows "unat (center' ! j) \<le> M"
  using assms(3,5)
proof (induction m arbitrary: center cur prev d)
  case (Suc m)
  note b = centroids_org_bound [OF assms(1,2,4)]
  show ?case
  proof (cases m)
    case 0
    then show ?thesis using Suc.prems b by (auto simp: Let_def split: if_splits)
  next
    case (Suc m')
    then have "0 < m" by simp
    from Suc.IH [OF this] Suc.prems(2) b show ?thesis
      by (simp only: kmeans_org_loop.simps Let_def) (auto split: if_splits)
  qed
qed simp

section \<open>The first centres\<close>

text \<open>The arrays as \<open>init_center\<close> reads them: a complete order of \<open>n\<close> values, with positive
  weights whose sum is an \<open>int\<close>.\<close>

definition init_ready :: "nat \<Rightarrow> u64 list \<Rightarrow> int list \<Rightarrow> bool" where
  "init_ready n data weight \<longleftrightarrow> n \<le> length data \<and> n \<le> length weight \<and>
     (\<forall>i<n. data ! i < NO_DIST) \<and> (\<forall>i<n. 1 \<le> weight ! i) \<and> sum_first n weight < 2 ^ 31"

definition ordered_weight :: "nat \<Rightarrow> u64 list \<Rightarrow> int list \<Rightarrow> nat \<Rightarrow> int" where
  "ordered_weight n data weight t = weight ! (selection_order n data ! t)"

definition ordered_data :: "nat \<Rightarrow> u64 list \<Rightarrow> nat \<Rightarrow> u64" where
  "ordered_data n data t = data ! (selection_order n data ! t)"

lemma init_ready_order:
  assumes "init_ready n data weight"
  shows "sort_index n data = map int (selection_order n data)" "length (selection_order n data) = n"
    "\<And>t. t < n \<Longrightarrow> selection_order n data ! t < n" "\<And>t. t < n \<Longrightarrow> 1 \<le> ordered_weight n data weight t"
proof -
  have d: "\<And>i. i < n \<Longrightarrow> data ! i < NO_DIST" using assms by (simp add: init_ready_def)
  show "sort_index n data = map int (selection_order n data)" by (rule sort_index_complete [OF d])
  show l: "length (selection_order n data) = n" by (rule selection_order_complete(2) [OF d])
  show s: "selection_order n data ! t < n" if "t < n" for t
    using selection_order_complete(1) [OF d] nth_mem [of t "selection_order n data"] l that by auto
  show "1 \<le> ordered_weight n data weight t" if "t < n" for t
    using assms s [OF that] by (simp add: init_ready_def ordered_weight_def)
qed

lemma sum_ordered_weight:
  assumes "init_ready n data weight"
  shows "(\<Sum>t = 0..<n. ordered_weight n data weight t) = sum_first n weight"
proof -
  let ?o = "selection_order n data"
  have o: "distinct ?o" "set ?o = {0..<length (take n weight)}" "length ?o = n"
    using selection_order_spec [of n data] selection_order_complete [of n data] assms
    by (simp_all add: init_ready_def)
  have "(\<Sum>t = 0..<n. ordered_weight n data weight t) = sum_list (map (\<lambda>t. weight ! (?o ! t)) [0..<n])"
    by (simp add: ordered_weight_def interv_sum_list_conv_sum_set_nat)
  also have "map (\<lambda>t. weight ! (?o ! t)) [0..<n] = map (\<lambda>i. take n weight ! i) ?o"
    using o(3) init_ready_order(3) [OF assms] by (intro nth_equalityI) simp_all
  also have "sum_list \<dots> = sum_list (take n weight)"
    using mset_order [OF o(1,2)] by (metis sum_mset_sum_list)
  finally show ?thesis by (simp add: sum_first_def)
qed

lemma word_of_int_le: "0 \<le> a \<Longrightarrow> a < 2 ^ 64 \<Longrightarrow> 0 \<le> b \<Longrightarrow> b < 2 ^ 64 \<Longrightarrow>
    (word_of_int a :: u64) \<le> word_of_int b \<longleftrightarrow> a \<le> b"
  by (simp add: word_le_def uint_word_of_int)

text \<open>One interval: it ends at the first position where its weight reaches the quota, and its
  centre is the value there.\<close>

lemma center_loop_interval:
  assumes r: "init_ready n data weight"
    and "j < n" "n - j \<le> m" "0 \<le> s" "0 \<le> q" "ic \<le> q"
    and "q \<le> s + (\<Sum>t = j..<n. ordered_weight n data weight t)"
    and "s + (\<Sum>t = j..<n. ordered_weight n data weight t) < 2 ^ 31"
  shows "\<exists>j'. j < j' \<and> j' \<le> n \<and>
    center_loop m jk n (sort_index n data) data weight (word_of_int q) ic j s c =
      Some (j', s + (\<Sum>t = j..<j'. ordered_weight n data weight t), ordered_data n data (j' - 1)) \<and>
    q \<le> s + (\<Sum>t = j..<j'. ordered_weight n data weight t) \<and>
    s + (\<Sum>t = j..<j' - 1. ordered_weight n data weight t) \<le> max s q"
  using assms(2-)
proof (induction m arbitrary: j s c)
  case (Suc m)
  let ?w = "ordered_weight n data weight" and ?i = "selection_order n data ! j"
  note o = init_ready_order [OF r]
  have cell: "sort_cell jk n (sort_index n data) j = Some (int ?i)"
    using Suc.prems(1) o(1,2) by (simp add: sort_cell_def)
  have i: "?i < n" using o(3) Suc.prems(1) by simp
  have get: "geti weight (int ?i) = Some (?w j)" "geti data (int ?i) = Some (ordered_data n data j)"
    using i r by (simp_all add: geti_def init_ready_def ordered_weight_def ordered_data_def)
  have split: "(\<Sum>t = j..<e. ?w t) = ?w j + (\<Sum>t = Suc j..<e. ?w t)" if "j < e" for e
    using that by (simp add: sum.atLeast_Suc_lessThan)
  have pos: "0 \<le> (\<Sum>t = Suc j..<n. ?w t)" using o(4) by (intro sum_nonneg) fastforce
  have wj: "1 \<le> ?w j" using o(4) Suc.prems(1) by simp
  note sp = split [OF Suc.prems(1)]
  have cmp: "(word_of_int q :: u64) \<le> word_of_int (s + ?w j) \<longleftrightarrow> q \<le> s + ?w j"
    using Suc.prems wj pos sp by (intro word_of_int_le) auto
  have step: "center_loop (Suc m) jk n (sort_index n data) data weight (word_of_int q) ic j s c =
    (let c' = (if ic \<le> s + ?w j then ordered_data n data j else c)
     in if q \<le> s + ?w j then Some (j + 1, s + ?w j, c')
        else center_loop m jk n (sort_index n data) data weight (word_of_int q) ic (j + 1) (s + ?w j) c')"
    using cell get Suc.prems(1) by (simp add: cmp Let_def del: of_int_add)
  show ?case
  proof (cases "q \<le> s + ?w j")
    case True
    with step Suc.prems show ?thesis by (intro exI [of _ "j + 1"]) (simp add: split)
  next
    case False
    then have "Suc j < n" using Suc.prems sp by (cases "Suc j = n") auto
    moreover have "n - Suc j \<le> m" using Suc.prems(2) by simp
    ultimately have "\<exists>j'. Suc j < j' \<and> j' \<le> n \<and>
      center_loop m jk n (sort_index n data) data weight (word_of_int q) ic (Suc j) (s + ?w j)
         (if ic \<le> s + ?w j then ordered_data n data j else c) =
       Some (j', s + ?w j + (\<Sum>t = Suc j..<j'. ?w t), ordered_data n data (j' - 1)) \<and>
      q \<le> s + ?w j + (\<Sum>t = Suc j..<j'. ?w t) \<and>
      s + ?w j + (\<Sum>t = Suc j..<j' - 1. ?w t) \<le> max (s + ?w j) q"
      using Suc.prems sp wj by (intro Suc.IH) auto
    then
    obtain j' where j': "Suc j < j'" "j' \<le> n"
      "center_loop m jk n (sort_index n data) data weight (word_of_int q) ic (Suc j) (s + ?w j)
         (if ic \<le> s + ?w j then ordered_data n data j else c) =
       Some (j', s + ?w j + (\<Sum>t = Suc j..<j'. ?w t), ordered_data n data (j' - 1))"
      "q \<le> s + ?w j + (\<Sum>t = Suc j..<j'. ?w t)"
      "s + ?w j + (\<Sum>t = Suc j..<j' - 1. ?w t) \<le> max (s + ?w j) q"
      by blast
    with step False split [of j'] split [of "j' - 1"] show ?thesis
      by (intro exI [of _ j']) (simp add: add.assoc)
  qed
qed simp

lemma half_interval:
  assumes "0 \<le> q" "q < 2 ^ 31"
  shows "sint (ucast ((word_of_int q :: u64) div 2) :: u32) = q div 2"
proof -
  have u: "uint (word_of_int q :: u64) = q" using assms by (simp add: uint_word_of_int)
  have "uint ((word_of_int q :: u64) div 2) = q div 2" by (simp add: uint_div u)
  then have "uint (ucast ((word_of_int q :: u64) div 2) :: u32) = q div 2"
    using assms by (simp add: unsigned_ucast_eq take_bit_int_eq_self)
  then show ?thesis using assms by (simp add: sint_uint signed_take_bit_int_eq_self)
qed

lemma ordered_weight_sums:
  assumes "init_ready n data weight" "j \<le> e" "e \<le> n"
  shows "0 \<le> (\<Sum>t = j..<e. ordered_weight n data weight t)"
    "(\<Sum>t = j..<n. ordered_weight n data weight t) =
     (\<Sum>t = j..<e. ordered_weight n data weight t) + (\<Sum>t = e..<n. ordered_weight n data weight t)"
    "j < e \<Longrightarrow> (\<Sum>t = j..<e. ordered_weight n data weight t) =
     (\<Sum>t = j..<e - 1. ordered_weight n data weight t) + ordered_weight n data weight (e - 1)"
    "e < n \<Longrightarrow> 0 < (\<Sum>t = e..<n. ordered_weight n data weight t)"
proof -
  have p: "0 < ordered_weight n data weight t" if "t < n" for t
    using init_ready_order(4) [OF assms(1) that] by linarith
  show "0 \<le> (\<Sum>t = j..<e. ordered_weight n data weight t)"
    using assms p by (intro sum_nonneg) (auto intro: less_imp_le)
  show "(\<Sum>t = j..<n. ordered_weight n data weight t) =
     (\<Sum>t = j..<e. ordered_weight n data weight t) + (\<Sum>t = e..<n. ordered_weight n data weight t)"
    using assms by (simp add: sum.atLeastLessThan_concat)
  show "(\<Sum>t = j..<e. ordered_weight n data weight t) =
     (\<Sum>t = j..<e - 1. ordered_weight n data weight t) + ordered_weight n data weight (e - 1)" if "j < e"
    using that by (cases e) simp_all
  show "0 < (\<Sum>t = e..<n. ordered_weight n data weight t)" if "e < n"
    using p that by (intro sum_pos) auto
qed

lemma init_center_stage:
  assumes r: "init_ready n data weight" and "j < n" "i < k"
    and R: "R = (\<Sum>t = j..<n. ordered_weight n data weight t)"
  shows "\<exists>j'. j < j' \<and> j' \<le> n \<and>
    init_center_step jk n k (sort_index n data) data weight i (j, R, cs) =
      Some (j', \<Sum>t = j'..<n. ordered_weight n data weight t, cs @ [ordered_data n data (j' - 1)]) \<and>
    R div int (k - i) \<le> (\<Sum>t = j..<j'. ordered_weight n data weight t) \<and>
    (\<Sum>t = j..<j' - 1. ordered_weight n data weight t) \<le> R div int (k - i)"
proof -
  let ?w = "ordered_weight n data weight" and ?q = "R div int (k - i)"
  have R0: "0 \<le> R" unfolding R using ordered_weight_sums(1) [OF r, of j n] assms(2) by simp
  have "R \<le> sum_first n weight"
    using ordered_weight_sums(1,2) [OF r, of 0 j] assms(2) sum_ordered_weight [OF r] R by simp
  with r have R31: "R < 2 ^ 31" by (simp add: init_ready_def)
  have "?q \<le> R div 1" using R0 assms(3) by (intro zdiv_mono2) simp_all
  then have q: "0 \<le> ?q" "?q \<le> R" using R0 by (simp_all add: pos_imp_zdiv_nonneg_iff assms(3))
  have d: "cdiv R (int (k - i)) = ?q" using R0 assms(3) by (intro cdiv_nonneg) simp_all
  have h: "sint (ucast ((word_of_int ?q :: u64) div 2) :: u32) = ?q div 2"
    using q R31 by (intro half_interval) auto
  have "\<exists>j'. j < j' \<and> j' \<le> n \<and>
    center_loop (n + 2) jk n (sort_index n data) data weight (word_of_int ?q) (?q div 2) j 0 0 =
      Some (j', 0 + (\<Sum>t = j..<j'. ?w t), ordered_data n data (j' - 1)) \<and>
    ?q \<le> 0 + (\<Sum>t = j..<j'. ?w t) \<and> 0 + (\<Sum>t = j..<j' - 1. ?w t) \<le> max 0 ?q"
    using assms q R31 by (intro center_loop_interval) auto
  then obtain j' where j': "j < j'" "j' \<le> n"
    "center_loop (n + 2) jk n (sort_index n data) data weight (word_of_int ?q) (?q div 2) j 0 0 =
      Some (j', \<Sum>t = j..<j'. ?w t, ordered_data n data (j' - 1))"
    "?q \<le> (\<Sum>t = j..<j'. ?w t)" "(\<Sum>t = j..<j' - 1. ?w t) \<le> ?q"
    using q(1) by (auto simp del: center_loop.simps)
  have "R - (\<Sum>t = j..<j'. ?w t) = (\<Sum>t = j'..<n. ?w t)"
    using ordered_weight_sums(2) [OF r, of j j'] j' R by simp
  with j' show ?thesis by (auto simp: init_center_step_def d h Let_def simp del: center_loop.simps)
qed

lemma init_center_balanced:
  assumes r: "init_ready n data weight" and bal: "\<forall>i<n. 9 * weight ! i < 2 * sum_first n weight" and "0 < n"
  shows "\<exists>a b. 0 < a \<and> a < b \<and> b < n \<and> init_center jk n 3 data weight =
    Some [ordered_data n data (a - 1), ordered_data n data (b - 1), ordered_data n data (n - 1)]"
proof -
  let ?w = "ordered_weight n data weight" and ?W = "sum_first n weight"
  let ?S = "\<lambda>j e. (\<Sum>t = j..<e. ?w t)"
  let ?step = "init_center_step jk n 3 (sort_index n data) data weight"
  note sums = ordered_weight_sums [OF r]
  have W: "?S 0 n = ?W" by (rule sum_ordered_weight [OF r])
  have w: "9 * ?w t < 2 * ?W" if "t < n" for t
    using bal init_ready_order(3) [OF r that] by (simp add: ordered_weight_def)
  from init_center_stage [OF r assms(3), of 0 3 ?W jk "[]"] W obtain a where
    a: "0 < a" "a \<le> n" "?step 0 (0, ?W, []) = Some (a, ?S a n, [ordered_data n data (a - 1)])"
      "?S 0 (a - 1) \<le> ?W div 3" by auto
  have Ra: "4 * ?W < 9 * ?S a n"
  proof -
    have "?W = ?S 0 a + ?S a n" using sums(2) [of 0 a] a(2) W by simp
    moreover have "?S 0 a = ?S 0 (a - 1) + ?w (a - 1)" using a by (intro sums(3)) simp_all
    moreover have "9 * ?w (a - 1) < 2 * ?W" using a by (intro w) simp
    moreover have "3 * ?S 0 (a - 1) \<le> ?W" using a(4) by linarith
    ultimately show ?thesis by linarith
  qed
  then have an: "a < n" using a(2) w [of 0] init_ready_order(4) [OF r, of 0] assms(3)
    by (cases "a = n") auto
  from init_center_stage [OF r an, of 1 3 "?S a n" jk "[ordered_data n data (a - 1)]"] obtain b where
    b: "a < b" "b \<le> n"
      "?step 1 (a, ?S a n, [ordered_data n data (a - 1)]) =
         Some (b, ?S b n, [ordered_data n data (a - 1), ordered_data n data (b - 1)])"
      "?S a (b - 1) \<le> ?S a n div 2" by auto
  have Rb: "0 < ?S b n"
  proof -
    have "?S a n = ?S a b + ?S b n" using b by (intro sums(2)) simp_all
    moreover have "?S a b = ?S a (b - 1) + ?w (b - 1)" using b by (intro sums(3)) simp_all
    moreover have "9 * ?w (b - 1) < 2 * ?W" using b by (intro w) simp
    moreover have "2 * ?S a (b - 1) \<le> ?S a n" using b(4) by linarith
    ultimately show ?thesis using Ra by linarith
  qed
  then have bn: "b < n" using b(2) by (cases "b = n") auto
  from init_center_stage [OF r bn, of 2 3 "?S b n" jk
      "[ordered_data n data (a - 1), ordered_data n data (b - 1)]"] obtain c where
    c: "b < c" "c \<le> n"
      "?step 2 (b, ?S b n, [ordered_data n data (a - 1), ordered_data n data (b - 1)]) =
         Some (c, ?S c n, [ordered_data n data (a - 1), ordered_data n data (b - 1), ordered_data n data (c - 1)])"
      "?S b n \<le> ?S b c" by auto
  have "c = n"
  proof (rule ccontr)
    assume "c \<noteq> n"
    then have "0 < ?S c n" using c by (intro sums(4) [of b c]) simp_all
    moreover have "?S b n = ?S b c + ?S c n" using c by (intro sums(2)) simp_all
    ultimately show False using c(4) by linarith
  qed
  moreover have "[0..<3] = [0, 1, 2 :: nat]" by (simp add: upt_rec)
  ultimately show ?thesis
    using a(1,3) b(1,3) c(3) bn by (intro exI [of _ a] exI [of _ b]) (simp add: init_center_def)
qed

section \<open>Properties\<close>

text \<open>Every value is assigned to a nearest centre, the first one if several are equally near;
  a value that is \<open>4294967295\<close> or more away from every centre is assigned to none.\<close>

theorem assign_nearest:
  assumes "i < n"
  shows "(assign n k data center ! i = - 1 \<and> (\<forall>j<k. NO_DIST \<le> abs_diff (center ! j) (data ! i))) \<or>
    (\<exists>c<k. assign n k data center ! i = int c \<and> abs_diff (center ! c) (data ! i) < NO_DIST \<and>
       (\<forall>j<k. abs_diff (center ! c) (data ! i) \<le> abs_diff (center ! j) (data ! i)) \<and>
       (\<forall>j<c. abs_diff (center ! c) (data ! i) < abs_diff (center ! j) (data ! i)))"
proof (cases "argmin (\<lambda>_. False) (\<lambda>j. abs_diff (center ! j) (data ! i)) k")
  case None
  then have "\<forall>j<k. NO_DIST \<le> abs_diff (center ! j) (data ! i)" by (simp add: argmin_None)
  with None assms show ?thesis by (simp add: assign_nth)
next
  case (Some c)
  then have "first_min (\<lambda>_. False) (\<lambda>j. abs_diff (center ! j) (data ! i)) k c" by (simp add: argmin_Some)
  with Some assms show ?thesis by (auto simp: assign_nth first_min_def)
qed

theorem assign_nearest_witness:
  "\<exists>c<2. assign 3 2 [10, 52, 90] [20, 80] ! 1 = int c \<and> abs_diff ([20, 80] ! c) ([10, 52, 90] ! 1) < NO_DIST \<and>
     (\<forall>j<2. abs_diff ([20, 80] ! c) ([10, 52, 90] ! 1) \<le> abs_diff ([20, 80] ! j) ([10, 52, 90] ! 1)) \<and>
     (\<forall>j<c. abs_diff ([20, 80] ! c) ([10, 52, 90] ! 1) < abs_diff ([20, 80] ! j) ([10, 52, 90] ! 1))"
proof -
  have "assign 3 2 [10, 52, 90] [20, 80] = [0, 1, 1]" by code_simp
  then have ne: "assign 3 2 [10, 52, 90] [20, 80] ! 1 \<noteq> - 1" by simp
  have "(1 :: nat) < 3" by simp
  from assign_nearest [OF this] show ?thesis
    by (rule disjE) (erule conjE, erule notE [OF ne], assumption)
qed

text \<open>C27. \<open>kmeans\<close> with unit weights is \<open>kmeans_org\<close>, whatever the outcome of the allocations: the
  two differ in the weights only, although one squares wrapped differences.\<close>

theorem kmeans_unit_weights:
  assumes "\<forall>i<n. weight ! i = 1"
  shows "kmeans oom n k data center index weight = kmeans_org oom n k data center index"
  using kmeans_loop_unit [of n weight] assms
  by (simp add: kmeans_def kmeans_org_def unit_weights_def split: oom.split)

theorem kmeans_unit_weights_witness:
  "kmeans No_oom 3 2 [10, 52, 90] [20, 80] [0, 0, 0] [1, 1, 1] =
   kmeans_org No_oom 3 2 [10, 52, 90] [20, 80] [0, 0, 0]"
  by (rule kmeans_unit_weights) code_simp




definition demo_junk :: junk where
  "demo_junk = \<lparr>jk_fgroup = (\<lambda>_. 77), jk_data = (\<lambda>_. 88), jk_weight = (\<lambda>_. 99), jk_sort = (\<lambda>_. - 1)\<rparr>"


end
