(* ===== verification/Cluster.thy ===== *)
theory Cluster
  imports Lifetime Kmeans
begin

text \<open>
  The clustering of file groups into streams (\<open>kmeans.c\<close>: \<open>kmeans_cluster_minmax\<close>,
  \<open>f2fs_update_cluster\<close>; \<open>segment.c\<close>: the message of \<open>f2fs_issue_expect_lifetime\<close>; \<open>gc.c\<close>:
  \<open>find_kmeans_num\<close>; \<open>super.c\<close>: the initial values).  A run of the cluster thread updates the
  expected lifetime of every group, runs k-means on the 95 percent with the shortest lifetimes,
  numbers the centres by their rank, and gives every group the rank of its centre as its
  cluster.
\<close>

section \<open>The recorded lifetime ranges\<close>

definition addi :: "int list \<Rightarrow> int \<Rightarrow> int \<Rightarrow> int list option" where
  "addi xs i v = do { x \<leftarrow> geti xs i; aset xs (nat i) (x + v) }"

definition weight_sum_step ::
    "nat \<Rightarrow> int list \<Rightarrow> int list \<Rightarrow> nat \<Rightarrow> int list \<Rightarrow> int list option" where
  "weight_sum_step k cluster weight i sums = do {
     c \<leftarrow> aget cluster i;
     w \<leftarrow> aget weight i;
     addi sums (if c \<ge> int k then int k - 1 else c) w }"

definition range_step ::
    "u64 list \<Rightarrow> int list \<Rightarrow> int list \<Rightarrow> int list \<Rightarrow> int list \<Rightarrow> int \<Rightarrow>
     int list \<times> nat list \<times> kmeans_history \<Rightarrow> (int list \<times> nat list \<times> kmeans_history) option" where
  "range_step data weight cluster minbound maxbound index = (\<lambda>(pointer, steps, slot). do {
     ensure (index \<noteq> - 1);
     c \<leftarrow> geti cluster index;
     w \<leftarrow> geti weight index;
     pointer' \<leftarrow> addi pointer c w;
     lifetime \<leftarrow> geti data index;
     (let cn = nat c;
          (steps1, slot1) =
            (if steps ! cn = 0 \<and> pointer' ! cn > minbound ! cn
             then (steps[cn := 1], slot\<lparr>kh_q1 := (kh_q1 slot)[cn := ucast lifetime]\<rparr>)
             else (steps, slot));
          (steps2, slot2) =
            (if steps1 ! cn = 1 \<and> pointer' ! cn > maxbound ! cn
             then (steps1[cn := 2], slot1\<lparr>kh_q3 := (kh_q3 slot1)[cn := ucast lifetime]\<rparr>)
             else (steps1, slot1))
      in Some (pointer', steps2, slot2)) })"

definition default_range ::
    "u64 list \<Rightarrow> nat \<Rightarrow> nat list \<times> kmeans_history \<Rightarrow> nat list \<times> kmeans_history" where
  "default_range kmax i = (\<lambda>(steps, slot).
     let (steps1, slot1) =
           (if steps ! i = 0 then
              (steps[i := 1],
               slot\<lparr>kh_q1 := (kh_q1 slot)[i := (if i > 0 then ucast (kmax ! (i - 1)) else 0)]\<rparr>)
            else (steps, slot))
     in (steps1,
         if steps1 ! i = 1 then slot1\<lparr>kh_q3 := (kh_q3 slot1)[i := ucast (kmax ! i)]\<rparr> else slot1))"

definition kmeans_cluster_minmax ::
    "f2fs_sb_info \<Rightarrow> u64 list \<Rightarrow> int list \<Rightarrow> int list \<Rightarrow> nat \<Rightarrow> nat \<Rightarrow> f2fs_sb_info option" where
  "kmeans_cluster_minmax sbi data weight cluster n k =
     (let kc = unat (kmeans_count sbi) in
      if kc \<ge> MAX_HISTORY then Some sbi
      else do {
        sums \<leftarrow> ofold (weight_sum_step k cluster weight) [0..<n] (replicate k 0);
        (let minbound = map (\<lambda>s. cdiv (s * (50 - STREAM_LIFE_RANGE div 2)) 100) sums;
             maxbound = map2 (-) sums minbound;
             slot0 = (kmeans_hist sbi kc)\<lparr>kh_seq := user_data_blocks sbi div 512\<rparr>
         in do {
           (pointer, steps, slot1) \<leftarrow>
             ofold (range_step data weight cluster minbound maxbound) (sort_index n data)
               (replicate k 0, replicate k 0, slot0);
           (let slot2 = slot1\<lparr>kh_q1 := (kh_q1 slot1)[0 := 0],
                  kh_q3 := (kh_q3 slot1)[0 := ucast (kmeans_max sbi ! 0)]\<rparr>;
                (steps', slot3) = fold (default_range (kmeans_max sbi)) [0..<k] (steps[0 := 2], slot2)
            in Some (sbi\<lparr>kmeans_hist := (kmeans_hist sbi)(kc := slot3)\<rparr>)) }) })"

text \<open>The message to the device: the range and the number of a cluster, read from the slot of
  the history array, which has \<open>MAX_HISTORY\<close> slots.\<close>

definition f2fs_issue_expect_lifetime :: "f2fs_sb_info \<Rightarrow> nat \<Rightarrow> (u32 \<times> u32 \<times> nat) option" where
  "f2fs_issue_expect_lifetime sbi cluster = do {
     ensure (unat (kmeans_count sbi) < MAX_HISTORY);
     (let slot = kmeans_hist sbi (unat (kmeans_count sbi))
      in Some (kh_q1 slot ! cluster, kh_q3 slot ! cluster, cluster)) }"

section \<open>One run of the cluster thread\<close>

record sample =
  s_fgroup :: u64
  s_data :: u64
  s_weight :: int

text \<open>The walk over the tree: every entry with its average updated, and the samples.  A group with
  no known lifetime gives none.\<close>

definition sample_of :: "fgroup_entry \<Rightarrow> u64 \<Rightarrow> sample" where
  "sample_of e lifetime = \<lparr>s_fgroup = fkey e, s_data = lifetime div 512,
     s_weight = (if g_valid e = 0 then 1 else g_valid e)\<rparr>"

fun cluster_walk :: "f2fs_sb_info \<Rightarrow> fgroup_entry list \<Rightarrow> (fgroup_entry list \<times> sample list) option" where
  "cluster_walk sbi [] = Some ([], [])"
| "cluster_walk sbi (e # es) = do {
     (lifetime, e') \<leftarrow> update_new_ema sbi e;
     (es', ss) \<leftarrow> cluster_walk sbi es;
     Some (e' # es', if lifetime = 0 then ss else sample_of e' lifetime # ss) }"

text \<open>The ranks of the centres: repeatedly the first centre not yet ranked with the smallest value;
  index zero if there is none.\<close>

definition rank_min_step :: "u64 list \<Rightarrow> int list \<Rightarrow> nat \<Rightarrow> u64 \<times> nat option \<Rightarrow> u64 \<times> nat option" where
  "rank_min_step center order j = (\<lambda>(m, index).
     if order ! j \<ge> 0 then (m, index)
     else if m > center ! j then (center ! j, Some j) else (m, index))"

definition rank_step :: "nat \<Rightarrow> u64 list \<Rightarrow> nat \<Rightarrow> int list \<Rightarrow> int list" where
  "rank_step k center i order =
     (case snd (fold (rank_min_step center order) [0..<k] (NO_DIST, None)) of
        None \<Rightarrow> order[0 := int i]
      | Some j \<Rightarrow> order[j := int i])"

definition order_result :: "nat \<Rightarrow> u64 list \<Rightarrow> int list" where
  "order_result k center = fold (rank_step k center) [0..<k] (replicate k (- 1))"

definition cluster_of :: "nat \<Rightarrow> nat \<Rightarrow> int list \<Rightarrow> int list \<Rightarrow> nat \<Rightarrow> int" where
  "cluster_of k n result order j =
     (if j < n then (if result ! j < 0 then int k - 1 else order ! nat (result ! j)) else int k - 1)"

text \<open>The loop that stores the clusters.  \<open>cluster_arr\<close> has \<open>nr_fgroup\<close> entries but the loop runs
  over the entries before the cut: the writes behind the array stay in its last page or leave
  it.\<close>

record store_state =
  st_sbi :: f2fs_sb_info
  st_arr :: "nat \<Rightarrow> int"
  st_weight :: "int list"
  st_max :: "u64 list"

definition store_step ::
    "nat \<Rightarrow> u64 list \<Rightarrow> u64 list \<Rightarrow> (nat \<Rightarrow> int) \<Rightarrow> nat \<Rightarrow> store_state \<Rightarrow> store_state option" where
  "store_step n fgroup data cl j st =
     (let sbi1 = update_cluster (st_sbi st) (fgroup ! j) (cl j)
      in do {
        ensure (j < page_ints n);
        (let st1 = st\<lparr>st_sbi := sbi1, st_arr := (st_arr st)(j := cl j)\<rparr>
         in case lookup_fgroup_entry (fgroup_tree sbi1) (fgroup ! j) of
              None \<Rightarrow> Some st1
            | Some e \<Rightarrow> do {
                m \<leftarrow> geti (st_max st1) (cl j);
                Some (st1\<lparr>st_weight := (st_weight st1)[j := sint (ucast (g_count e) :: u32)],
                  st_max := (if m < data ! j then (st_max st1)[nat (cl j) := data ! j] else st_max st1)\<rparr>) }) })"

text \<open>The work after the lock is released, for more samples than clusters.\<close>

definition recluster ::
    "junk \<Rightarrow> oom \<Rightarrow> f2fs_sb_info \<Rightarrow> sample list \<Rightarrow> ((u32 \<times> u32 \<times> nat) list \<times> f2fs_sb_info) option" where
  "recluster jk oom sbi ss =
     (let k = NR_CLUSTER - 1; prev = length ss;
          (n, fgroup, data, weight) = sort_and_cut_data jk prev (map s_fgroup ss) (map s_data ss) (map s_weight ss)
      in do {
        center \<leftarrow> (if kmeans_count sbi < 10 then init_center jk n k data weight
                   else Some (take k (kmeans_center sbi)));
        (center', result) \<leftarrow> kmeans_org oom n k data center (replicate prev 0);
        (let order = order_result k center'
         in do {
           st \<leftarrow> ofold (store_step n fgroup data (cluster_of k n result order)) [0..<prev]
              \<lparr>st_sbi = sbi, st_arr = (\<lambda>_. 0), st_weight = weight, st_max = replicate k 0\<rparr>;
           (let sbi1 = (st_sbi st)\<lparr>kmeans_max := st_max st @ drop k (kmeans_max (st_sbi st)),
                  kmeans_center := center' @ drop k (kmeans_center (st_sbi st))\<rparr>
            in do {
              sbi2 \<leftarrow> kmeans_cluster_minmax sbi1 data (st_weight st) (map (st_arr st) [0..<n]) n k;
              msgs \<leftarrow> those (map (f2fs_issue_expect_lifetime sbi2) [0..<k]);
              Some (msgs, sbi2\<lparr>kmeans_count := kmeans_count sbi2 + 1\<rparr>) }) }) })"

text \<open>\<open>f2fs_update_cluster\<close>; with no more groups than clusters it returns with \<open>ftree_lock\<close> held.\<close>

definition f2fs_update_cluster ::
    "junk \<Rightarrow> oom \<Rightarrow> f2fs_sb_info \<Rightarrow> ((u32 \<times> u32 \<times> nat) list \<times> f2fs_sb_info) option" where
  "f2fs_update_cluster jk oom sbi =
     (if last_cluster sbi > cur_seq sbi then Some ([], sbi)
      else do {
        s1 \<leftarrow> lock_ftree sbi;
        (if length (fgroup_tree s1) \<le> NR_CLUSTER - 1 then
           Some ([], s1\<lparr>last_cluster := cur_seq sbi + CLUSTER_T\<rparr>)
         else do {
           (t, ss) \<leftarrow> cluster_walk s1 (fgroup_tree s1);
           (let s2 = unlock_ftree (s1\<lparr>fgroup_tree := t\<rparr>)
            in do {
              (msgs, s3) \<leftarrow> (if length ss \<le> NR_CLUSTER - 1 then Some ([], s2) else recluster jk oom s2 ss);
              Some (msgs, s3\<lparr>last_cluster := cur_seq sbi + CLUSTER_T\<rparr>) }) }) })"

section \<open>Start and use\<close>

text \<open>The values \<open>super.c\<close> gives the fields at mount; the block counters and the memory of the
  history are arguments.\<close>

definition init_stream ::
    "u32 list \<Rightarrow> u32 list \<Rightarrow> u32 list \<Rightarrow> (nat \<Rightarrow> kmeans_history) \<Rightarrow> f2fs_sb_info" where
  "init_stream b0 b1 gc kh = \<lparr>type_block0 = b0, type_block1 = b1, type_gc = gc,
     lifetime_tree = [], ltree_lock = False, fgroup_tree = [], ftree_lock = False,
     kmeans_max = replicate NR_CLUSTER 0, kmeans_center = replicate NR_CLUSTER 0,
     kmeans_count = 0, kmeans_hist = kh, hist = [], last_cluster = CLUSTER_T\<rparr>"

text \<open>The clustering that was in force when a segment was written: \<open>find_kmeans_num\<close> of \<open>gc.c\<close>.\<close>

fun kmeans_num_loop :: "nat \<Rightarrow> f2fs_sb_info \<Rightarrow> u32 \<Rightarrow> nat \<Rightarrow> nat" where
  "kmeans_num_loop 0 sbi seq i = i"
| "kmeans_num_loop (Suc m) sbi seq i =
     (if kh_seq (kmeans_hist sbi i) > seq then i else kmeans_num_loop m sbi seq (i + 1))"

definition find_kmeans_num :: "f2fs_sb_info \<Rightarrow> u32 \<Rightarrow> nat" where
  "find_kmeans_num sbi seq = kmeans_num_loop (unat (kmeans_count sbi)) sbi seq 0 - 1"

section \<open>Ranks\<close>

text \<open>The ranking is a selection sort of the centres: the centre selected as number \<open>t\<close> gets rank
  \<open>t\<close>.\<close>

lemma rank_step_select:
  assumes "length order = k" "min_unvisited k center (map (\<lambda>x. x \<ge> 0) order) = Some j"
  shows "rank_step k center i order = order[j := int i]"
proof -
  have "fold (rank_min_step center order) js s =
      fold (min_step center (map (\<lambda>x. x \<ge> 0) order)) js s" if "set js \<subseteq> {0..<k}" for js s
    using that by (intro fold_cong) (auto simp: rank_min_step_def min_step_def assms(1) subset_iff)
  from this [of "[0..<k]"] assms(2) show ?thesis
    by (simp add: rank_step_def min_unvisited_def)
qed

lemma rank_loop:
  assumes "length order = k" "length (select_loop m k center (map (\<lambda>x. x \<ge> 0) order)) = m"
  shows "length (fold (rank_step k center) [i..<i + m] order) = k \<and>
    (\<forall>t<m. fold (rank_step k center) [i..<i + m] order !
       (select_loop m k center (map (\<lambda>x. x \<ge> 0) order) ! t) = int (i + t)) \<and>
    (\<forall>j<k. j \<notin> set (select_loop m k center (map (\<lambda>x. x \<ge> 0) order)) \<longrightarrow>
       fold (rank_step k center) [i..<i + m] order ! j = order ! j)"
  using assms
proof (induction m arbitrary: i order)
  case (Suc m)
  let ?v = "map (\<lambda>x. x \<ge> 0) order"
  obtain j where j: "min_unvisited k center ?v = Some j"
    using Suc.prems(2) by (cases "min_unvisited k center ?v") simp_all
  then have jk: "j < k" by (simp add: min_unvisited_argmin argmin_Some first_min_def)
  let ?o = "order[j := int i]"
  have v: "?v[j := True] = map (\<lambda>x. x \<ge> 0) ?o"
    by (simp add: map_update)
  define r where "r = select_loop m k center (map (\<lambda>x. x \<ge> 0) ?o)"
  have sel: "select_loop (Suc m) k center ?v = j # r" using j by (simp add: v r_def)
  define R where "R = fold (rank_step k center) [Suc i..<Suc i + m] ?o"
  have fold: "fold (rank_step k center) [i..<i + Suc m] order = R"
    using rank_step_select [OF Suc.prems(1) j, of i] by (simp add: R_def upt_conv_Cons del: upt_Suc)
  have lr: "length r = m" using Suc.prems(2) sel by simp
  have IH: "length R = k" "\<forall>t<m. R ! (r ! t) = int (Suc i + t)"
    "\<forall>a<k. a \<notin> set r \<longrightarrow> R ! a = ?o ! a"
    using Suc.IH [of ?o "Suc i"] lr Suc.prems(1) unfolding r_def R_def by simp_all
  have jr: "j \<notin> set r"
    using select_loop_spec [of "map (\<lambda>x. x \<ge> 0) ?o" k m center] Suc.prems(1) jk unfolding r_def by auto
  have "R ! ((j # r) ! t) = int (i + t)" if "t < Suc m" for t
    using that IH(2,3) jr jk Suc.prems(1) by (cases t) auto
  moreover have "R ! a = order ! a" if "a < k" "a \<notin> set (j # r)" for a
    using that IH(3) by auto
  ultimately show ?case unfolding fold sel using IH(1) by blast
qed simp

lemma order_result_ranks:
  assumes "\<forall>j<k. center ! j < NO_DIST"
  shows "length (order_result k center) = k"
    "\<And>t. t < k \<Longrightarrow> order_result k center ! (selection_order k center ! t) = int t"
proof -
  have v: "map (\<lambda>x. x \<ge> 0) (replicate k (- 1 :: int)) = replicate k False" by simp
  have l: "length (select_loop k k center (replicate k False)) = k"
    using selection_order_complete(2) [of k center] assms by (simp add: selection_order_def)
  from rank_loop [of "replicate k (- 1)" k k center 0] l v
  show "length (order_result k center) = k"
    "\<And>t. t < k \<Longrightarrow> order_result k center ! (selection_order k center ! t) = int t"
    by (simp_all add: order_result_def selection_order_def)
qed

lemma order_result_obtain:
  assumes "\<forall>j<k. center ! j < NO_DIST" "c < k"
  obtains t where "t < k" "selection_order k center ! t = c" "order_result k center ! c = int t"
proof -
  have "c \<in> set (selection_order k center)" using selection_order_complete(1) [of k center] assms by simp
  then obtain t where "t < k" "selection_order k center ! t = c"
    using selection_order_complete(2) [of k center] assms by (auto simp: in_set_conv_nth)
  with order_result_ranks(2) [OF assms(1)] that show ?thesis by blast
qed

lemma order_result_range:
  "\<forall>j<k. center ! j < NO_DIST \<Longrightarrow> c < k \<Longrightarrow> order_result k center ! c \<in> {0..<int k}"
  by (erule (1) order_result_obtain) simp

lemma order_result_mono:
  assumes "\<forall>j<k. center ! j < NO_DIST" "a < k" "b < k"
    and "order_result k center ! a < order_result k center ! b"
  shows "center ! a \<le> center ! b"
proof -
  obtain s where s: "s < k" "selection_order k center ! s = a" "order_result k center ! a = int s"
    by (rule order_result_obtain [OF assms(1,2)])
  obtain t where t: "t < k" "selection_order k center ! t = b" "order_result k center ! b = int t"
    by (rule order_result_obtain [OF assms(1,3)])
  have "s \<le> t" using assms(4) s t by simp
  moreover have "length (selection_order k center) = k" using selection_order_complete(2) assms(1) by blast
  ultimately show ?thesis
    using selection_order_spec [of k center] s t
      sorted_nth_mono [of "map (\<lambda>i. center ! i) (selection_order k center)" s t] by simp
qed

lemma uint_abs_diff: "uint (abs_diff a b) = \<bar>uint a - uint b\<bar>"
  by (auto simp: abs_diff_def word_less_def uint_sub_if_size word_size split: if_splits)

lemma abs_diff_small: "a < NO_DIST \<Longrightarrow> b < NO_DIST \<Longrightarrow> abs_diff a b < NO_DIST"
  by (simp add: word_less_def uint_abs_diff NO_DIST_def)
    (use uint_ge_0 [of a] uint_ge_0 [of b] in linarith)

lemma assign_small:
  assumes "\<forall>j<k. center ! j < NO_DIST" "0 < k" "i < n" "data ! i < NO_DIST"
  obtains c where "c < k" "assign n k data center ! i = int c"
    "first_min (\<lambda>_. False) (\<lambda>j. abs_diff (center ! j) (data ! i)) k c"
proof -
  have "argmin (\<lambda>_. False) (\<lambda>j. abs_diff (center ! j) (data ! i)) k \<noteq> None"
    using assms abs_diff_small by (auto simp: argmin_None not_le intro!: exI [of _ 0])
  then obtain c where c: "argmin (\<lambda>_. False) (\<lambda>j. abs_diff (center ! j) (data ! i)) k = Some c" by auto
  then have "first_min (\<lambda>_. False) (\<lambda>j. abs_diff (center ! j) (data ! i)) k c" by (simp add: argmin_Some)
  moreover from this have "c < k" by (simp add: first_min_def)
  ultimately show ?thesis using that assms(3) c by (simp add: assign_nth)
qed

text \<open>Two values on a line and their nearest centres.\<close>

lemma nearest_mono:
  assumes c: "first_min (\<lambda>_. False) (\<lambda>j. abs_diff (center ! j) d) k c"
    and c': "first_min (\<lambda>_. False) (\<lambda>j. abs_diff (center ! j) d') k c'"
    and "d < d'" "center ! c' \<le> center ! c"
  shows "c = c'"
proof -
  have k: "c < k" "c' < k" using c c' by (simp_all add: first_min_def)
  have 1: "uint (abs_diff (center ! c) d) \<le> uint (abs_diff (center ! c') d)"
    and 2: "uint (abs_diff (center ! c') d') \<le> uint (abs_diff (center ! c) d')"
    using c c' k by (auto simp: first_min_def word_le_def)
  have "uint d < uint d'" "uint (center ! c') \<le> uint (center ! c)"
    using assms(3,4) by (simp_all add: word_less_def word_le_def)
  with 1 2 have "uint (center ! c) = uint (center ! c')" unfolding uint_abs_diff by linarith
  then have eq: "center ! c = center ! c'" by (rule unsigned_word_eqI)
  show ?thesis
  proof (rule linorder_cases [of c c'])
    assume "c < c'"
    with c' eq show ?thesis by (auto simp: first_min_def)
  next
    assume "c' < c"
    with c eq show ?thesis by (auto simp: first_min_def)
  qed
qed

section \<open>A run returns\<close>

lemma addi_ok: "0 \<le> c \<Longrightarrow> c < int (length xs) \<Longrightarrow> \<exists>ys. addi xs c v = Some ys \<and> length ys = length xs"
  by (simp add: addi_def geti_def)

lemma minmax_ok:
  assumes "n \<le> length data" "n \<le> length weight" "length cluster = n"
    and "\<forall>c\<in>set cluster. 0 \<le> c \<and> c < int k" "\<forall>i<n. data ! i < NO_DIST"
  shows "\<exists>h. kmeans_cluster_minmax s data weight cluster n k = Some (s\<lparr>kmeans_hist := h\<rparr>)"
proof (cases "unat (kmeans_count s) \<ge> MAX_HISTORY")
  case True
  then show ?thesis by (auto simp: kmeans_cluster_minmax_def intro: exI [of _ "kmeans_hist s"])
next
  case False
  have c: "0 \<le> cluster ! i \<and> cluster ! i < int k" if "i < n" for i using assms(3,4) that by simp
  have "\<exists>sums. ofold (weight_sum_step k cluster weight) [0..<n] (replicate k 0) = Some sums \<and> length sums = k"
  proof (rule ofold_invariant [where I = "\<lambda>t. length t = k"])
    fix i and t :: "int list" assume i: "i \<in> set [0..<n]" and t: "length t = k"
    from i c [of i] have "\<not> cluster ! i \<ge> int k" by simp
    with i t c [of i] assms(2,3) addi_ok [of "cluster ! i" t "weight ! i"]
    show "\<exists>u. weight_sum_step k cluster weight i t = Some u \<and> length u = k"
      by (simp add: weight_sum_step_def)
  qed simp
  then obtain sums where s: "ofold (weight_sum_step k cluster weight) [0..<n] (replicate k 0) = Some sums" by blast
  have "\<exists>t. ofold (range_step data weight cluster lo hi) (sort_index n data) (replicate k 0, replicate k 0, slot)
      = Some t \<and> length (fst t) = k" for lo hi slot
  proof (rule ofold_invariant [where I = "\<lambda>t. length (fst t) = k"])
    fix x and t :: "int list \<times> nat list \<times> kmeans_history"
    assume x: "x \<in> set (sort_index n data)" and t: "length (fst t) = k"
    from x obtain i where i: "x = int i" "i < n"
      using assms(5) sort_index_complete [of n data] selection_order_complete(1) [of n data] by auto
    obtain p st sl where t': "t = (p, st, sl)" by (cases t)
    from addi_ok [of "cluster ! i" p "weight ! i"] t c [OF i(2)] t' obtain p' where
      "addi p (cluster ! i) (weight ! i) = Some p'" "length p' = k" by auto
    with i assms t' show "\<exists>u. range_step data weight cluster lo hi x t = Some u \<and> length (fst u) = k"
      by (simp add: range_step_def geti_def Let_def case_prod_beta)
  qed simp
  then obtain p st sl where
    "ofold (range_step data weight cluster (map (\<lambda>s. cdiv (s * (50 - STREAM_LIFE_RANGE div 2)) 100) sums)
        (map2 (-) sums (map (\<lambda>s. cdiv (s * (50 - STREAM_LIFE_RANGE div 2)) 100) sums)))
      (sort_index n data) (replicate k 0, replicate k 0,
        (kmeans_hist s (unat (kmeans_count s)))\<lparr>kh_seq := user_data_blocks s div 512\<rparr>) = Some (p, st, sl)"
    by (metis prod_cases3)
  with s False show ?thesis by (simp add: kmeans_cluster_minmax_def Let_def case_prod_beta) blast
qed

text \<open>The sorted arrays, and the centres the iteration starts from.\<close>

definition cut_ready :: "junk \<Rightarrow> f2fs_sb_info \<Rightarrow> sample list \<Rightarrow> bool" where
  "cut_ready jk s ss \<longleftrightarrow>
     (let (n, fgroup, data, weight) =
        sort_and_cut_data jk (length ss) (map s_fgroup ss) (map s_data ss) (map s_weight ss)
      in length ss \<le> page_ints n \<and>
         (kmeans_count s < 10 \<longrightarrow>
            init_ready n data weight \<and> (\<forall>i<n. 9 * weight ! i < 2 * sum_first n weight)))"

lemma kmeans_org_small:
  assumes "\<forall>i<n. data ! i < NO_DIST" "\<forall>j<k. center ! j < NO_DIST" "length center = k" "0 < k"
    and "n < 2 ^ 64" "oom \<noteq> Row_oom" "n \<le> prev"
  shows "\<exists>center' result. kmeans_org oom n k data center (replicate prev 0) = Some (center', result) \<and>
    length center' = k \<and> (\<forall>j<k. center' ! j < NO_DIST) \<and> (\<forall>j<n. result ! j < int k)"
proof -
  have "\<exists>center' result. kmeans_org No_oom n k data center (replicate prev 0) = Some (center', result) \<and>
    length center' = k \<and> (\<forall>j<k. center' ! j < NO_DIST) \<and> (\<forall>j<n. result ! j < int k)"
  proof -
    obtain c r where l: "kmeans_org_loop MAX_ITERATIONS n k data center (assign n k data center)
        (assign n k data center) NO_DIST = (c, r)" by fastforce
    from kmeans_org_loop_ends [OF refl _ assms(3) l]
    have ok: "assignment_ok n k r" "length c = k" by simp_all
    have M: "\<forall>i<n. unat (data ! i) \<le> 4294967294"
      using assms(1) by (auto simp: NO_DIST_def word_less_nat_alt)
    have "c ! j < NO_DIST" if "j < k" for j
      using kmeans_org_loop_bound [OF M assms(5) _ that l]
      by (simp add: MAX_ITERATIONS_def NO_DIST_def word_less_nat_alt)
    moreover have "(r @ drop n (replicate prev 0)) ! j < int k" if "j < n" for j
      using ok(1) that by (auto simp: assignment_ok_def nth_append)
    ultimately show ?thesis
      using l ok by (auto simp: kmeans_org_def copy_assignment_array_def assignment_ok_def)
  qed
  with assms(2-4,6,7) show ?thesis by (cases oom) (auto simp: kmeans_org_def)
qed

lemma cluster_of_range:
  assumes "\<forall>j<k. center ! j < NO_DIST" "\<forall>j<n. result ! j < int k" "0 < k"
  shows "cluster_of k n result (order_result k center) j \<in> {0..<int k}"
  using assms order_result_range [OF assms(1)] by (auto simp: cluster_of_def)

text \<open>The loop that stores the clusters: what it keeps.\<close>

definition store_ok :: "f2fs_sb_info \<Rightarrow> nat \<Rightarrow> store_state \<Rightarrow> bool" where
  "store_ok s prev st \<longleftrightarrow> settled (st_sbi st) \<and> kmeans_count (st_sbi st) = kmeans_count s \<and>
     kmeans_center (st_sbi st) = kmeans_center s \<and>
     length (st_weight st) = prev \<and> length (st_max st) = NR_CLUSTER - 1 \<and>
     (\<forall>j. st_arr st j \<in> {0..<int (NR_CLUSTER - 1)})"

lemma update_cluster_settled:
  assumes "settled s" "c \<in> {0..<int (NR_CLUSTER - 1)}"
  shows "settled (update_cluster s fg c) \<and> kmeans_count (update_cluster s fg c) = kmeans_count s \<and>
    kmeans_center (update_cluster s fg c) = kmeans_center s"
proof -
  have "(word_of_int c :: u32) = of_nat (nat c)" using assms(2) by simp
  moreover have "(of_nat (nat c) :: u32) < of_nat NR_CLUSTER"
    using assms(2) by (intro cluster_word) (auto simp: NR_CLUSTER_def)
  ultimately have "wf_sbi (update_cluster s fg c)"
    using assms by (intro update_cluster_wf) (simp_all add: settled_def)
  then show ?thesis
    using assms(1) by (simp add: settled_def unlocked_def update_cluster_def modify_fgroup_def)
qed

lemma store_step_ok:
  assumes "store_ok s prev st" "j < page_ints n" "cl j \<in> {0..<int (NR_CLUSTER - 1)}"
  shows "\<exists>st'. store_step n fgroup data cl j st = Some st' \<and> store_ok s prev st'"
proof -
  have "settled (update_cluster (st_sbi st) (fgroup ! j) (cl j)) \<and>
      kmeans_count (update_cluster (st_sbi st) (fgroup ! j) (cl j)) = kmeans_count s \<and>
      kmeans_center (update_cluster (st_sbi st) (fgroup ! j) (cl j)) = kmeans_center s"
    using update_cluster_settled assms by (auto simp: store_ok_def)
  moreover have "\<exists>m. geti (st_max st) (cl j) = Some m" using assms by (auto simp: geti_def store_ok_def)
  ultimately show ?thesis
    using assms by (auto simp: store_step_def store_ok_def Let_def split: option.split)
qed

lemma store_loop_ok:
  assumes "store_ok s prev st" "prev \<le> page_ints n" "\<And>j. cl j \<in> {0..<int (NR_CLUSTER - 1)}"
  shows "\<exists>st'. ofold (store_step n fgroup data cl) [0..<prev] st = Some st' \<and> store_ok s prev st'"
  by (rule ofold_invariant [where I = "store_ok s prev", OF assms(1)]) (use assms(2,3) in \<open>auto intro!: store_step_ok\<close>)

lemma messages_ok:
  "unat (kmeans_count s) < MAX_HISTORY \<Longrightarrow>
   \<exists>msgs. those (map (f2fs_issue_expect_lifetime s) js) = Some msgs \<and> length msgs = length js"
  by (induction js) (auto simp: f2fs_issue_expect_lifetime_def Let_def)

lemma sorted_arrays:
  assumes "\<forall>x\<in>set ss. s_data x < NO_DIST"
    and "sort_and_cut_data jk (length ss) (map s_fgroup ss) (map s_data ss) (map s_weight ss) = (n, fg, data, weight)"
  shows "n = length ss * 95 div 100" "length data = length ss" "length weight = length ss"
    "\<forall>i<length ss. data ! i < NO_DIST"
proof -
  let ?o = "selection_order (length ss) (map s_data ss)"
  have small: "\<And>i. i < length ss \<Longrightarrow> map s_data ss ! i < NO_DIST" using assms(1) by simp
  have o: "length ?o = length ss" "set ?o = {0..<length ss}"
    using selection_order_complete [OF small] by simp_all
  have r: "n = length ss * 95 div 100" "data = map (\<lambda>i. map s_data ss ! i) ?o"
      "weight = map (\<lambda>i. map s_weight ss ! i) ?o"
    using assms(2) o(1) by (auto simp: sort_and_cut_data_def temp_array_complete VALID_FGROUP_RATE_def Let_def)
  then show "n = length ss * 95 div 100" "length data = length ss" "length weight = length ss"
    using o by simp_all
  have "?o ! i < length ss" if "i < length ss" for i using o nth_mem [of i ?o] that by auto
  then show "\<forall>i<length ss. data ! i < NO_DIST" unfolding r using small o(1) by simp
qed

lemma first_centers_ok:
  assumes "centers_ok s" "kmeans_count s < 10 \<longrightarrow>
      init_ready n data weight \<and> (\<forall>i<n. 9 * weight ! i < 2 * sum_first n weight)" "0 < n"
  shows "\<exists>center. (if kmeans_count s < 10 then init_center jk n (NR_CLUSTER - 1) data weight
      else Some (take (NR_CLUSTER - 1) (kmeans_center s))) = Some center \<and>
    length center = NR_CLUSTER - 1 \<and> (\<forall>j<NR_CLUSTER - 1. center ! j < NO_DIST)"
proof (cases "kmeans_count s < 10")
  case True
  with assms have r: "init_ready n data weight" and b: "\<forall>i<n. 9 * weight ! i < 2 * sum_first n weight" by simp_all
  have d: "ordered_data n data t < NO_DIST" if "t < n" for t
    using r init_ready_order(3) [OF r that] by (simp add: ordered_data_def init_ready_def)
  from init_center_balanced [OF r b assms(3), of jk] obtain a b where ab: "a < b" "b < n"
    "init_center jk n 3 data weight =
       Some [ordered_data n data (a - 1), ordered_data n data (b - 1), ordered_data n data (n - 1)]" by blast
  with True d [of "a - 1"] d [of "b - 1"] d [of "n - 1"] show ?thesis
    by (auto simp: NR_CLUSTER_def less_Suc_eq numeral_3_eq_3 nth_Cons')
next
  case False
  with assms(1) show ?thesis by (auto simp: centers_ok_def NR_CLUSTER_def)
qed

lemma recluster_ok:
  assumes "settled s" "\<forall>x\<in>set ss. s_data x < NO_DIST" "cut_ready jk s ss"
    and "length ss > NR_CLUSTER - 1" "length ss < 2 ^ 64" "oom \<noteq> Row_oom" "unat (kmeans_count s) < MAX_HISTORY"
  shows "\<exists>msgs s'. recluster jk oom s ss = Some (msgs, s') \<and> settled s' \<and>
    kmeans_count s' = kmeans_count s + 1 \<and> length msgs = NR_CLUSTER - 1"
proof -
  have c0: "centers_ok s" using assms(1) by (simp add: settled_def wf_sbi_def)
  let ?k = "NR_CLUSTER - 1" and ?prev = "length ss"
  obtain n fg data weight where
    sc: "sort_and_cut_data jk ?prev (map s_fgroup ss) (map s_data ss) (map s_weight ss) = (n, fg, data, weight)"
    by (metis prod_cases4)
  note arr = sorted_arrays [OF assms(2) sc]
  have n: "0 < n" "n \<le> ?prev" "n < 2 ^ 64" using arr(1) assms(4,5) by (auto simp: NR_CLUSTER_def)
  have page: "?prev \<le> page_ints n" and bal: "kmeans_count s < 10 \<longrightarrow>
      init_ready n data weight \<and> (\<forall>i<n. 9 * weight ! i < 2 * sum_first n weight)"
    using assms(3) by (simp_all add: cut_ready_def sc)
  obtain center where c: "(if kmeans_count s < 10 then init_center jk n ?k data weight
      else Some (take ?k (kmeans_center s))) = Some center" "length center = ?k" "\<forall>j<?k. center ! j < NO_DIST"
    using first_centers_ok [OF c0 bal n(1), of jk] by blast
  have dn: "\<forall>i<n. data ! i < NO_DIST" using arr(4) n(2) by auto
  obtain center' result where km: "kmeans_org oom n ?k data center (replicate ?prev 0) = Some (center', result)"
    "length center' = ?k" "\<forall>j<?k. center' ! j < NO_DIST" "\<forall>j<n. result ! j < int ?k"
    using kmeans_org_small [OF dn c(3,2) _ n(3) assms(6) n(2)] by (auto simp: NR_CLUSTER_def)
  let ?cl = "cluster_of ?k n result (order_result ?k center')"
  have cl: "?cl j \<in> {0..<int ?k}" for j
    by (rule cluster_of_range [OF km(3,4)]) (simp add: NR_CLUSTER_def)
  let ?st = "\<lparr>st_sbi = s, st_arr = (\<lambda>_. 0), st_weight = weight, st_max = replicate ?k 0\<rparr>"
  have "store_ok s ?prev ?st" using assms(1) arr(3) by (simp add: store_ok_def NR_CLUSTER_def)
  from store_loop_ok [where cl = ?cl, OF this page cl] obtain st where
    st: "ofold (store_step n fg data ?cl) [0..<?prev] ?st = Some st" "store_ok s ?prev st" by blast
  define s1 where "s1 = (st_sbi st)\<lparr>kmeans_max := st_max st @ drop ?k (kmeans_max (st_sbi st)),
     kmeans_center := center' @ drop ?k (kmeans_center (st_sbi st))\<rparr>"
  obtain h where h: "kmeans_cluster_minmax s1 data (st_weight st) (map (st_arr st) [0..<n]) n ?k
      = Some (s1\<lparr>kmeans_hist := h\<rparr>)"
    using minmax_ok [of n data "st_weight st" "map (st_arr st) [0..<n]" ?k s1] arr n dn st(2)
    by (auto simp: store_ok_def)
  let ?s2 = "s1\<lparr>kmeans_hist := h\<rparr>"
  have "set center' \<subseteq> {x. x < NO_DIST}" using km(2,3) by (auto simp: in_set_conv_nth)
  then have cs: "centers_ok (?s2\<lparr>kmeans_count := m\<rparr>)" for m
    using c0 st(2) km(2)
    by (auto simp: centers_ok_def s1_def store_ok_def NR_CLUSTER_def dest: in_set_dropD)
  then have s1: "kmeans_count ?s2 = kmeans_count s" "settled (?s2\<lparr>kmeans_count := m\<rparr>)" for m
    using st(2) cs [of m] by (simp_all add: s1_def store_ok_def settled_def wf_sbi_def unlocked_def)
  obtain msgs where m: "those (map (f2fs_issue_expect_lifetime ?s2) [0..<?k]) = Some msgs" "length msgs = ?k"
    using messages_ok [of ?s2 "[0..<?k]"] s1(1) assms(7) by auto
  have "recluster jk oom s ss = Some (msgs, ?s2\<lparr>kmeans_count := kmeans_count s + 1\<rparr>)"
    unfolding recluster_def Let_def sc prod.case c(1) Option.bind.bind_lunit km(1) st(1) s1_def [symmetric] h m(1) s1(1)
    by (rule refl)
  with m(2) s1(2) show ?thesis by simp
qed

lemma update_new_ema_ok:
  assumes "wf_fgroup_entry e"
  shows "\<exists>l e'. update_new_ema s e = Some (l, e') \<and> wf_fgroup_entry e' \<and> fkey e' = fkey e"
proof -
  have r: "wf_fgroup_entry (raise_cluster s a e) \<and> fkey (raise_cluster s a e) = fkey e" for a
    using assms by (simp add: raise_cluster_def Let_def wf_fgroup_entry_def fkey_def)
  have m: "wf_fgroup_entry (e\<lparr>g_cluster := of_nat (NR_CLUSTER - 1)\<rparr>)"
    using assms cluster_word [of "NR_CLUSTER - 1"] by (simp add: wf_fgroup_entry_def NR_CLUSTER_def)
  have k: "wf_fgroup_entry (e\<lparr>g_update_ema := u, g_ema := a, g_latest_count := b, g_latest_lifetime := c\<rparr>)"
    "wf_fgroup_entry (e\<lparr>g_ema := a, g_latest_count := b, g_latest_lifetime := c\<rparr>)" for u a b c
    using assms by (simp_all add: wf_fgroup_entry_def)
  show ?thesis
    using r m k assms
    by (auto simp: update_new_ema_def Let_def fkey_def add.commute [of "word_of_int (g_valid e)"])
qed

lemma cluster_walk_ok:
  assumes "\<forall>e\<in>set es. wf_fgroup_entry e"
  shows "\<exists>es' ss. cluster_walk s es = Some (es', ss) \<and> (\<forall>e\<in>set es'. wf_fgroup_entry e) \<and>
    map fkey es' = map fkey es"
  using assms
proof (induction es)
  case (Cons e es)
  then obtain es' ss where "cluster_walk s es = Some (es', ss)" "\<forall>e\<in>set es'. wf_fgroup_entry e"
    "map fkey es' = map fkey es" by auto
  moreover obtain l e' where "update_new_ema s e = Some (l, e')" "wf_fgroup_entry e'" "fkey e' = fkey e"
    using update_new_ema_ok [of e s] Cons.prems by auto
  ultimately show ?case by simp
qed simp

text \<open>What a run needs of the groups: lifetimes that fit 32 bits, and arrays whose sizes and
  weights the code can handle.\<close>

definition walk_ready :: "junk \<Rightarrow> f2fs_sb_info \<Rightarrow> bool" where
  "walk_ready jk s \<longleftrightarrow>
     (case cluster_walk s (fgroup_tree s) of
        None \<Rightarrow> True
      | Some (t, ss) \<Rightarrow> length ss \<le> NR_CLUSTER - 1 \<or>
          (\<forall>x\<in>set ss. s_data x < NO_DIST) \<and> cut_ready jk s ss \<and> length ss < 2 ^ 64)"

lemma update_new_ema_lock: "update_new_ema (s\<lparr>ftree_lock := b\<rparr>) e = update_new_ema s e"
proof -
  have "cur_seq (s\<lparr>ftree_lock := b\<rparr>) = cur_seq s" by (simp add: cur_seq_def user_data_blocks_def)
  moreover have "f2fs_lifetime_to_cluster (s\<lparr>ftree_lock := b\<rparr>) = f2fs_lifetime_to_cluster s"
    by (intro ext) (simp add: f2fs_lifetime_to_cluster_def)
  moreover from this have "raise_cluster (s\<lparr>ftree_lock := b\<rparr>) a e = raise_cluster s a e" for a
    by (simp add: raise_cluster_def)
  ultimately show ?thesis by (simp add: update_new_ema_def Let_def)
qed

lemma cluster_walk_lock: "cluster_walk (s\<lparr>ftree_lock := b\<rparr>) es = cluster_walk s es"
  by (induction es) (simp_all add: update_new_ema_lock)

lemma update_cluster_run_ok:
  assumes "settled s" "last_cluster s \<le> cur_seq s" "length (fgroup_tree s) > NR_CLUSTER - 1"
    and "walk_ready jk s" "oom \<noteq> Row_oom" "unat (kmeans_count s) < MAX_HISTORY"
  shows "\<exists>msgs s'. f2fs_update_cluster jk oom s = Some (msgs, s') \<and> settled s'"
proof -
  let ?s1 = "s\<lparr>ftree_lock := True\<rparr>"
  have t: "rb_ordered fkey (fgroup_tree s)" "\<forall>e\<in>set (fgroup_tree s). wf_fgroup_entry e"
    using assms(1) by (simp_all add: settled_def wf_sbi_def rb_wf_def)
  from cluster_walk_ok [OF t(2), of s] obtain es' ss where
    w: "cluster_walk s (fgroup_tree s) = Some (es', ss)" "\<forall>e\<in>set es'. wf_fgroup_entry e"
      "map fkey es' = map fkey (fgroup_tree s)" by blast
  let ?s2 = "unlock_ftree (?s1\<lparr>fgroup_tree := es'\<rparr>)"
  have s2: "settled ?s2"
    using assms(1) t(1) w(2,3)
    by (auto simp: settled_def wf_sbi_def unlocked_def unlock_ftree_def rb_wf_def rb_ordered_def)
  have "\<exists>msgs s3. (if length ss \<le> NR_CLUSTER - 1 then Some ([], ?s2) else recluster jk oom ?s2 ss) = Some (msgs, s3)
      \<and> settled s3"
  proof (cases "length ss \<le> NR_CLUSTER - 1")
    case False
    then have "\<forall>x\<in>set ss. s_data x < NO_DIST" "cut_ready jk s ss" "length ss < 2 ^ 64"
      using assms(4) w(1) by (simp_all add: walk_ready_def)
    moreover have "cut_ready jk ?s2 ss = cut_ready jk s ss" by (simp add: cut_ready_def unlock_ftree_def)
    ultimately have "\<exists>msgs s'. recluster jk oom ?s2 ss = Some (msgs, s') \<and> settled s' \<and>
        kmeans_count s' = kmeans_count ?s2 + 1 \<and> length msgs = NR_CLUSTER - 1"
      using s2 False assms(5,6) by (intro recluster_ok) (simp_all add: unlock_ftree_def)
    with False show ?thesis by auto
  qed (use s2 in auto)
  then obtain msgs s3 where s3: "(if length ss \<le> NR_CLUSTER - 1 then Some ([], ?s2) else recluster jk oom ?s2 ss)
      = Some (msgs, s3)" "settled s3" by blast
  have "\<not> last_cluster s > cur_seq s" "\<not> length (fgroup_tree s) \<le> NR_CLUSTER - 1"
    using assms(2,3) by (simp_all add: not_less)
  with assms(1) w(1) s3(1) have "f2fs_update_cluster jk oom s = Some (msgs, s3\<lparr>last_cluster := cur_seq s + CLUSTER_T\<rparr>)"
    by (simp add: f2fs_update_cluster_def settled_def unlocked_def cluster_walk_lock Let_def del: One_nat_def)
  moreover have "settled (s3\<lparr>last_cluster := x\<rparr>)" for x
    using s3(2) by (simp add: settled_def wf_sbi_def unlocked_def)
  ultimately show ?thesis by blast
qed

section \<open>Properties\<close>

text \<open>C23. Clusters follow lifetimes: when every group has its nearest centre, a group with a longer
  expected lifetime never gets a lower cluster number than one with a shorter lifetime, in
  whatever order the centres are stored, and the numbers are below the number of centres.\<close>

theorem cluster_order_monotone:
  assumes "\<forall>j<k. center ! j < NO_DIST" "0 < k" "a < n" "b < n" "n \<le> length data"
    and "data ! a < NO_DIST" "data ! b < NO_DIST" "data ! a \<le> data ! b"
  shows "cluster_of k n (assign n k data center) (order_result k center) a
      \<le> cluster_of k n (assign n k data center) (order_result k center) b \<and>
    cluster_of k n (assign n k data center) (order_result k center) a \<in> {0..<int k}"
proof -
  obtain c where c: "c < k" "assign n k data center ! a = int c"
    "first_min (\<lambda>_. False) (\<lambda>j. abs_diff (center ! j) (data ! a)) k c"
    using assign_small [of k center a n data] assms by blast
  obtain c' where c': "c' < k" "assign n k data center ! b = int c'"
    "first_min (\<lambda>_. False) (\<lambda>j. abs_diff (center ! j) (data ! b)) k c'"
    using assign_small [of k center b n data] assms by blast
  have "order_result k center ! c \<le> order_result k center ! c'"
  proof (cases "data ! a = data ! b")
    case True
    then have "c = c'" using c(2) c'(2) assms(3,4) by (simp add: assign_nth)
    then show ?thesis by simp
  next
    case False
    show ?thesis
    proof (rule ccontr)
      assume "\<not> ?thesis"
      then have lt: "order_result k center ! c' < order_result k center ! c" by simp
      then have "center ! c' \<le> center ! c" by (rule order_result_mono [OF assms(1) c'(1) c(1)])
      then have "c = c'" using nearest_mono [OF c(3) c'(3)] False assms(8) by simp
      with lt show False by simp
    qed
  qed
  with c c' assms(3,4) order_result_range [OF assms(1) c(1)] show ?thesis
    by (simp add: cluster_of_def)
qed

theorem cluster_order_monotone_witness:
  "cluster_of 3 4 (assign 4 3 [5, 40, 41, 90] [80, 6, 38]) (order_result 3 [80, 6, 38]) 0
     \<le> cluster_of 3 4 (assign 4 3 [5, 40, 41, 90] [80, 6, 38]) (order_result 3 [80, 6, 38]) 2 \<and>
   map (cluster_of 3 4 (assign 4 3 [5, 40, 41, 90] [80, 6, 38]) (order_result 3 [80, 6, 38])) [0..<4]
     = [0, 1, 1, 2]"
proof -
  have 1: "\<forall>j<3. [80, 6, 38] ! j < NO_DIST" by code_simp
  have 2: "map (cluster_of 3 4 (assign 4 3 [5, 40, 41, 90] [80, 6, 38]) (order_result 3 [80, 6, 38])) [0..<4]
     = [0, 1, 1, 2]" by code_simp
  have "cluster_of 3 4 (assign 4 3 [5, 40, 41, 90] [80, 6, 38]) (order_result 3 [80, 6, 38]) 0
     \<le> cluster_of 3 4 (assign 4 3 [5, 40, 41, 90] [80, 6, 38]) (order_result 3 [80, 6, 38]) 2"
    using cluster_order_monotone [OF 1, of 0 4 2 "[5, 40, 41, 90]"] by (simp add: NO_DIST_def)
  with 2 show ?thesis by blast
qed

text \<open>C30. The cluster thread blocks the file system when there are at most three groups: then
  \<open>f2fs_update_cluster\<close> returns without releasing \<open>ftree_lock\<close>, so the next operation that takes
  it (here the deletion of an application's groups, and a second run of the thread) spins
  forever.\<close>

theorem update_cluster_keeps_lock:
  assumes "unlocked s" "last_cluster s \<le> cur_seq s" "length (fgroup_tree s) \<le> 3"
  shows "\<exists>s'. f2fs_update_cluster jk oom s = Some ([], s') \<and> ftree_lock s' \<and>
    delete_fgroup_entry s' ino = None"
proof -
  have "\<not> last_cluster s > cur_seq s" using assms(2) by (simp add: not_less)
  with assms show ?thesis
    by (simp add: f2fs_update_cluster_def unlocked_def NR_CLUSTER_def delete_fgroup_entry_def lock_ftree_def)
qed

theorem update_cluster_keeps_lock_witness:
  "\<exists>s'. f2fs_update_cluster demo_junk No_oom demo_sbi = Some ([], s') \<and> ftree_lock s' \<and>
    delete_fgroup_entry s' 70 = None"
  by (rule update_cluster_keeps_lock) (simp_all add: demo_sbi_def unlocked_def)

text \<open>\<open>init_center\<close> runs off its order array: its test for the end comes after the read and
  admits index \<open>n\<close>.  When the group with the longest lifetime has most of the weight, the first
  interval takes all groups, and the second centre is computed from the word behind the array;
  if that word is \<open>-1\<close> the kernel stops at the \<open>BUG_ON\<close>.\<close>

theorem init_center_overrun:
  "init_center demo_junk 4 3 [10, 20, 30, 40] [1, 1, 1, 97] = None \<and>
   init_center (demo_junk\<lparr>jk_sort := (\<lambda>_. 0)\<rparr>) 4 3 [10, 20, 30, 40] [1, 1, 1, 97] = Some [40, 10, 40]"
  by code_simp


definition demo_entry :: "u32 \<Rightarrow> u64 \<Rightarrow> fgroup_entry" where
  "demo_entry fg ema = demo_group\<lparr>g_fgroup := fg, g_valid := 10, g_ema := ema, g_latest_count := 0,
     g_latest_lifetime := 0\<rparr>"

definition demo_run :: f2fs_sb_info where
  "demo_run = demo_sbi\<lparr>kmeans_count := 10,
     fgroup_tree := [demo_entry 47 51200, demo_entry 79 102400, demo_entry 111 512000, demo_entry 143 563200]\<rparr>"

lemma demo_run_walk:
  "cluster_walk demo_run (fgroup_tree demo_run) = Some (fgroup_tree demo_run,
     [\<lparr>s_fgroup = 47, s_data = 100, s_weight = 10\<rparr>, \<lparr>s_fgroup = 79, s_data = 200, s_weight = 10\<rparr>,
      \<lparr>s_fgroup = 111, s_data = 1000, s_weight = 10\<rparr>, \<lparr>s_fgroup = 143, s_data = 1100, s_weight = 10\<rparr>])"
proof -
  have e: "update_new_ema s (demo_entry 47 51200) = Some (51200, demo_entry 47 51200)"
    "update_new_ema s (demo_entry 79 102400) = Some (102400, demo_entry 79 102400)"
    "update_new_ema s (demo_entry 111 512000) = Some (512000, demo_entry 111 512000)"
    "update_new_ema s (demo_entry 143 563200) = Some (563200, demo_entry 143 563200)" for s
    by (simp_all add: update_new_ema_def demo_entry_def demo_group_def media_type_def vtype_of_def
        fgroup_type_defs stream_const_defs Let_def)
  have g: "fkey (demo_entry fg a) = ucast fg" "g_valid (demo_entry fg a) = 10" for fg a
    by (simp_all add: demo_entry_def fkey_def)
  show ?thesis by (simp add: demo_run_def e sample_of_def g)
qed

lemma demo_run_ready: "settled demo_run" "walk_ready demo_junk demo_run"
proof -
  have w: "wf_fgroup_entry (demo_entry fg a)" "fkey (demo_entry fg a) = ucast fg" for fg a
    by (simp_all add: wf_fgroup_entry_def demo_entry_def demo_group_def fkey_def NR_CLUSTER_def)
  show "settled demo_run"
    by (simp add: settled_def wf_sbi_def unlocked_def demo_run_def demo_sbi_def rb_wf_def rb_ordered_def
        wf_history_def w centers_ok_def NR_CLUSTER_def NO_DIST_def)
  have "kmeans_count demo_run = 10" by (simp add: demo_run_def)
  then show "walk_ready demo_junk demo_run"
    by (simp add: walk_ready_def demo_run_walk NO_DIST_def cut_ready_def sort_and_cut_data_def Let_def
        VALID_FGROUP_RATE_def page_ints_def)
qed


end
