(* ===== verification/Pqueue.thy ===== *)
theory Pqueue
  imports Prelude
begin

text \<open>
  The priority queue of the emulated SSD, \<open>femu/lib/pqueue.c\<close>: an array-based binary heap of
  pointers whose slot 0 is unused.  The elements live in a store of the client, which the
  five callbacks of the queue read and write; the callbacks are the record \<open>pq_ops\<close>, and every
  operation takes the store and returns it updated.  \<open>size_t\<close> values are natural numbers (they
  count pointers in memory and do not wrap).  The outcome of an allocation and the content of
  fresh memory are parameters.  A read or write outside the array is \<^const>\<open>None\<close>.

  The locale \<open>pq_callbacks\<close> holds what the queue needs of the callbacks.  Inside it the four
  operations are proved to keep the positions and the heap order, and to act on the multiset
  of elements as a priority queue does; the client interprets it on its own callbacks.
\<close>

section \<open>Data\<close>

record ('a, 's) pq_ops =
  cmppri :: "u64 \<Rightarrow> u64 \<Rightarrow> bool"
  getpri :: "'s \<Rightarrow> 'a \<Rightarrow> u64"
  setpri :: "'a \<Rightarrow> u64 \<Rightarrow> 's \<Rightarrow> 's"
  getpos :: "'s \<Rightarrow> 'a \<Rightarrow> nat"
  setpos :: "'a \<Rightarrow> nat \<Rightarrow> 's \<Rightarrow> 's"

record ('a, 's) pqueue_t =
  q_size :: nat
  q_avail :: nat
  q_step :: nat
  q_ops :: "('a, 's) pq_ops"
  q_d :: "'a list"

section \<open>Operations\<close>

definition pqueue_init :: "bool \<Rightarrow> (nat \<Rightarrow> 'a) \<Rightarrow> nat \<Rightarrow> ('a, 's) pq_ops \<Rightarrow> ('a, 's) pqueue_t option" where
  "pqueue_init ok mem n ops =
     (if ok then Some \<lparr>q_size = 1, q_avail = n + 1, q_step = n + 1, q_ops = ops, q_d = map mem [0..<n + 1]\<rparr>
      else None)"

definition pqueue_size :: "('a, 's) pqueue_t \<Rightarrow> nat" where
  "pqueue_size q = q_size q - 1"

function bubble_loop ::
    "('a, 's) pq_ops \<Rightarrow> 'a list \<Rightarrow> 's \<Rightarrow> nat \<Rightarrow> u64 \<Rightarrow> ('a list \<times> 's \<times> nat) option" where
  "bubble_loop ops d s i moving_pri =
     (if i > 1 then do {
        p \<leftarrow> aget d (i div 2);
        (if cmppri ops (getpri ops s p) moving_pri then do {
           d' \<leftarrow> aset d i p;
           bubble_loop ops d' (setpos ops p i s) (i div 2) moving_pri }
         else Some (d, s, i)) }
      else Some (d, s, i))"
  by pat_completeness auto
termination by (relation "measure (\<lambda>(ops, d, s, i, p). i)") auto

definition bubble_up :: "('a, 's) pqueue_t \<Rightarrow> 's \<Rightarrow> nat \<Rightarrow> (('a, 's) pqueue_t \<times> 's) option" where
  "bubble_up q s i = do {
     moving_node \<leftarrow> aget (q_d q) i;
     (d, s', j) \<leftarrow> bubble_loop (q_ops q) (q_d q) s i (getpri (q_ops q) s moving_node);
     d' \<leftarrow> aset d j moving_node;
     Some (q\<lparr>q_d := d'\<rparr>, setpos (q_ops q) moving_node j s') }"

definition maxchild :: "('a, 's) pq_ops \<Rightarrow> nat \<Rightarrow> 'a list \<Rightarrow> 's \<Rightarrow> nat \<Rightarrow> nat option" where
  "maxchild ops sz d s i =
     (let child_node = 2 * i in
      if child_node \<ge> sz then Some 0
      else if child_node + 1 < sz then do {
        l \<leftarrow> aget d child_node;
        r \<leftarrow> aget d (child_node + 1);
        Some (if cmppri ops (getpri ops s l) (getpri ops s r) then child_node + 1 else child_node) }
      else Some child_node)"

lemma maxchild_range: "maxchild ops sz d s i = Some c \<Longrightarrow> c \<noteq> 0 \<Longrightarrow> i < c \<and> c < sz \<and> c div 2 = i"
  by (auto simp: maxchild_def Let_def crash_simps split: if_splits Option.bind_splits)

function percolate_loop ::
    "('a, 's) pq_ops \<Rightarrow> nat \<Rightarrow> 'a list \<Rightarrow> 's \<Rightarrow> nat \<Rightarrow> u64 \<Rightarrow> ('a list \<times> 's \<times> nat) option" where
  "percolate_loop ops sz d s i moving_pri =
     (case maxchild ops sz d s i of
        None \<Rightarrow> None
      | Some child_node \<Rightarrow>
          if child_node = 0 then Some (d, s, i)
          else (case aget d child_node of
                  None \<Rightarrow> None
                | Some c \<Rightarrow>
                    if cmppri ops moving_pri (getpri ops s c) then
                      (case aset d i c of
                         None \<Rightarrow> None
                       | Some d' \<Rightarrow> percolate_loop ops sz d' (setpos ops c i s) child_node moving_pri)
                    else Some (d, s, i)))"
  by pat_completeness auto
termination
  by (relation "measure (\<lambda>(ops, sz, d, s, i, p). sz - i)") (auto dest: maxchild_range)

definition percolate_down :: "('a, 's) pqueue_t \<Rightarrow> 's \<Rightarrow> nat \<Rightarrow> (('a, 's) pqueue_t \<times> 's) option" where
  "percolate_down q s i = do {
     moving_node \<leftarrow> aget (q_d q) i;
     (d, s', j) \<leftarrow> percolate_loop (q_ops q) (q_size q) (q_d q) s i (getpri (q_ops q) s moving_node);
     d' \<leftarrow> aset d j moving_node;
     Some (q\<lparr>q_d := d'\<rparr>, setpos (q_ops q) moving_node j s') }"

text \<open>The \<open>int\<close> result is 0 on success; \<open>ok\<close> is whether a needed \<open>realloc\<close> succeeds.\<close>

definition pqueue_insert ::
    "bool \<Rightarrow> (nat \<Rightarrow> 'a) \<Rightarrow> ('a, 's) pqueue_t \<Rightarrow> 's \<Rightarrow> 'a \<Rightarrow> (int \<times> ('a, 's) pqueue_t \<times> 's) option" where
  "pqueue_insert ok mem q s x =
     (if q_size q \<ge> q_avail q \<and> \<not> ok then Some (1, q, s)
      else do {
        (let newsize = q_size q + q_step q;
             q1 = (if q_size q \<ge> q_avail q
                   then q\<lparr>q_d := q_d q @ map mem [q_avail q..<newsize], q_avail := newsize\<rparr> else q);
             i = q_size q1
         in do {
           d \<leftarrow> aset (q_d q1) i x;
           (q2, s') \<leftarrow> bubble_up (q1\<lparr>q_size := i + 1, q_d := d\<rparr>) s i;
           Some (0, q2, s') }) })"

definition pqueue_change_priority ::
    "('a, 's) pqueue_t \<Rightarrow> 's \<Rightarrow> u64 \<Rightarrow> 'a \<Rightarrow> (('a, 's) pqueue_t \<times> 's) option" where
  "pqueue_change_priority q s new_pri x =
     (let ops = q_ops q;
          old_pri = getpri ops s x;
          s1 = setpri ops x new_pri s;
          posn = getpos ops s1 x
      in if cmppri ops old_pri new_pri then bubble_up q s1 posn else percolate_down q s1 posn)"

definition pqueue_remove :: "('a, 's) pqueue_t \<Rightarrow> 's \<Rightarrow> 'a \<Rightarrow> (('a, 's) pqueue_t \<times> 's) option" where
  "pqueue_remove q s x =
     (let ops = q_ops q;
          posn = getpos ops s x;
          sz = q_size q - 1
      in do {
        y \<leftarrow> aget (q_d q) sz;
        d \<leftarrow> aset (q_d q) posn y;
        (let q1 = q\<lparr>q_size := sz, q_d := d\<rparr>
         in if cmppri ops (getpri ops s x) (getpri ops s y) then bubble_up q1 s posn
            else percolate_down q1 s posn) })"

definition pqueue_pop ::
    "('a, 's) pqueue_t \<Rightarrow> 's \<Rightarrow> ('a option \<times> ('a, 's) pqueue_t \<times> 's) option" where
  "pqueue_pop q s =
     (if q_size q = 1 then Some (None, q, s)
      else do {
        head \<leftarrow> aget (q_d q) 1;
        y \<leftarrow> aget (q_d q) (q_size q - 1);
        d \<leftarrow> aset (q_d q) 1 y;
        (q', s') \<leftarrow> percolate_down (q\<lparr>q_size := q_size q - 1, q_d := d\<rparr>) s 1;
        Some (Some head, q', s') })"

definition pqueue_peek :: "('a, 's) pqueue_t \<Rightarrow> 'a option option" where
  "pqueue_peek q = (if q_size q = 1 then Some None else map_option Some (aget (q_d q) 1))"

text \<open>\<open>pqueue_print\<close> pops a copy until it is empty, with setters that do nothing, and prints
  what it pops.  Each pop removes one of the elements, so as many steps as slots are enough.\<close>

definition set_pos :: "'a \<Rightarrow> nat \<Rightarrow> 's \<Rightarrow> 's" where
  "set_pos x val s = s"

definition set_pri :: "'a \<Rightarrow> u64 \<Rightarrow> 's \<Rightarrow> 's" where
  "set_pri x pri s = s"

fun print_loop :: "nat \<Rightarrow> ('a, 's) pqueue_t \<Rightarrow> 's \<Rightarrow> 'a list option" where
  "print_loop 0 q s = None"
| "print_loop (Suc m) q s = do {
     (e, q', s') \<leftarrow> pqueue_pop q s;
     (case e of None \<Rightarrow> Some []
      | Some x \<Rightarrow> do { es \<leftarrow> print_loop m q' s'; Some (x # es) }) }"

definition pqueue_print :: "(nat \<Rightarrow> 'a) \<Rightarrow> ('a, 's) pqueue_t \<Rightarrow> 's \<Rightarrow> 'a list option" where
  "pqueue_print mem q s =
     (let ops = (q_ops q)\<lparr>setpri := set_pri, setpos := set_pos\<rparr>
      in do {
        dup \<leftarrow> pqueue_init True mem (q_size q) ops;
        print_loop (q_size q) (dup\<lparr>q_size := q_size q, q_avail := q_avail q, q_step := q_step q,
          q_d := take (q_size q) (q_d q) @ drop (q_size q) (q_d dup)\<rparr>) s })"

text \<open>\<open>subtree_is_valid\<close> is called with position 1; position 0 is its own left child, so the
  recursion would not end there.\<close>

function subtree_is_valid :: "('a, 's) pqueue_t \<Rightarrow> 's \<Rightarrow> nat \<Rightarrow> bool option" where
  "subtree_is_valid q s pos =
     (if pos = 0 then None
      else do {
        l \<leftarrow> (if 2 * pos < q_size q then do {
                x \<leftarrow> aget (q_d q) pos;
                y \<leftarrow> aget (q_d q) (2 * pos);
                (if cmppri (q_ops q) (getpri (q_ops q) s x) (getpri (q_ops q) s y) then Some False
                 else subtree_is_valid q s (2 * pos)) }
              else Some True);
        (if \<not> l then Some False
         else if 2 * pos + 1 < q_size q then do {
                x \<leftarrow> aget (q_d q) pos;
                y \<leftarrow> aget (q_d q) (2 * pos + 1);
                (if cmppri (q_ops q) (getpri (q_ops q) s x) (getpri (q_ops q) s y) then Some False
                 else subtree_is_valid q s (2 * pos + 1)) }
              else Some True) })"
  by pat_completeness auto
termination by (relation "measure (\<lambda>(q, s, pos). q_size q - pos)") auto

definition pqueue_is_valid :: "('a, 's) pqueue_t \<Rightarrow> 's \<Rightarrow> bool option" where
  "pqueue_is_valid q s = subtree_is_valid q s 1"

declare bubble_loop.simps [simp del] percolate_loop.simps [simp del] subtree_is_valid.simps [simp del]

section \<open>The abstract queue\<close>

text \<open>A queue stands for the multiset of its elements.  In a consistent queue every element
  knows its slot; in an ordered one no parent has a worse priority than its child.\<close>

definition pq_items :: "('a, 's) pqueue_t \<Rightarrow> 'a multiset" where
  "pq_items q = mset (tl (take (q_size q) (q_d q)))"

definition pq_ok :: "('a, 's) pqueue_t \<Rightarrow> 's \<Rightarrow> bool" where
  "pq_ok q s \<longleftrightarrow> 0 < q_size q \<and> q_size q \<le> q_avail q \<and> length (q_d q) = q_avail q \<and> 0 < q_step q \<and>
     (\<forall>j. 0 < j \<and> j < q_size q \<longrightarrow> getpos (q_ops q) s (q_d q ! j) = j)"

definition pq_heap :: "('a, 's) pqueue_t \<Rightarrow> 's \<Rightarrow> bool" where
  "pq_heap q s \<longleftrightarrow> (\<forall>j. 2 \<le> j \<and> j < q_size q \<longrightarrow>
     \<not> cmppri (q_ops q) (getpri (q_ops q) s (q_d q ! (j div 2))) (getpri (q_ops q) s (q_d q ! j)))"

lemma pq_items_slots:
  assumes "0 < q_size q" "q_size q \<le> length (q_d q)"
  shows "mset (take (q_size q) (q_d q)) = add_mset (q_d q ! 0) (pq_items q)"
    "x \<in># pq_items q \<longleftrightarrow> (\<exists>j. 0 < j \<and> j < q_size q \<and> q_d q ! j = x)"
proof -
  obtain m y ys where m: "q_size q = Suc m" "q_d q = y # ys" using assms
    by (cases "q_size q"; cases "q_d q") auto
  then show "mset (take (q_size q) (q_d q)) = add_mset (q_d q ! 0) (pq_items q)"
    by (simp add: pq_items_def)
  from m assms have "x \<in># pq_items q \<longleftrightarrow> (\<exists>j<m. ys ! j = x)"
    by (auto simp: pq_items_def in_set_conv_nth)
  also have "\<dots> \<longleftrightarrow> (\<exists>j. 0 < j \<and> j < q_size q \<and> q_d q ! j = x)"
    unfolding m by (auto simp: gr0_conv_Suc)
  finally show "x \<in># pq_items q \<longleftrightarrow> (\<exists>j. 0 < j \<and> j < q_size q \<and> q_d q ! j = x)" .
qed

lemma pq_items_distinct:
  assumes "pq_ok q s"
  shows "pq_items q = mset_set (set_mset (pq_items q))" "size (pq_items q) = q_size q - 1"
proof -
  let ?l = "tl (take (q_size q) (q_d q))"
  have len: "length (take (q_size q) (q_d q)) = q_size q" using assms by (simp add: pq_ok_def)
  have "?l ! i = q_d q ! Suc i" if "Suc i < q_size q" for i
    using that len by (metis length_tl less_diff_conv nth_take nth_tl plus_1_eq_Suc add.commute)
  then have "distinct ?l" using assms len unfolding distinct_conv_nth pq_ok_def
    by (metis Suc_inject length_tl less_diff_conv plus_1_eq_Suc add.commute zero_less_Suc)
  then show "pq_items q = mset_set (set_mset (pq_items q))"
    by (simp add: pq_items_def mset_set_set)
  show "size (pq_items q) = q_size q - 1" using len by (simp add: pq_items_def)
qed

lemma move_slot:
  assumes "i < n" "p < n" "i \<noteq> p" "n \<le> length d"
  shows "mset (take n (d[i := d ! p, p := x])) = mset (take n (d[i := x]))"
    and "j < n \<Longrightarrow> f (d[i := d ! p, p := x] ! j) =
      ((\<lambda>j. f (d[i := x] ! j))(i := f (d[i := x] ! p), p := f (d[i := x] ! i))) j"
proof -
  let ?l = "take n (d[i := x])"
  have "take n (d[i := d ! p, p := x]) = ?l[i := ?l ! p, p := ?l ! i]"
    using assms by (simp add: take_update_swap list_update_swap)
  moreover have "mset (?l[i := ?l ! p, p := ?l ! i]) = mset ?l" using assms by (intro mset_swap) simp_all
  ultimately show "mset (take n (d[i := d ! p, p := x])) = mset ?l" by simp
  show "j < n \<Longrightarrow> f (d[i := d ! p, p := x] ! j) =
      ((\<lambda>j. f (d[i := x] ! j))(i := f (d[i := x] ! p), p := f (d[i := x] ! i))) j"
    using assms by (auto simp: nth_list_update)
qed

section \<open>Heap order\<close>

text \<open>What the queue needs of its client: the comparison is a strict weak order, positions read
  back what was set, and setting a position changes no priority and nothing else the client
  cares about (\<open>frame\<close>).\<close>

locale pq_callbacks =
  fixes ops :: "('a, 's) pq_ops"
    and frame :: "'s \<Rightarrow> 's \<Rightarrow> bool"
  assumes cmp_asym: "cmppri ops a b \<Longrightarrow> \<not> cmppri ops b a"
    and cmp_negtrans: "\<not> cmppri ops a b \<Longrightarrow> \<not> cmppri ops b c \<Longrightarrow> \<not> cmppri ops a c"
    and getpos_setpos: "getpos ops (setpos ops x p s) y = (if y = x then p else getpos ops s y)"
    and frame_refl: "frame s s"
    and frame_trans: "frame s t \<Longrightarrow> frame t u \<Longrightarrow> frame s u"
    and frame_setpos: "frame s (setpos ops x p s)"
    and frame_pri: "frame s t \<Longrightarrow> getpri ops t x = getpri ops s x"
begin

definition heap :: "nat \<Rightarrow> (nat \<Rightarrow> u64) \<Rightarrow> bool" where
  "heap n h \<longleftrightarrow> (\<forall>j. 2 \<le> j \<and> j < n \<longrightarrow> \<not> cmppri ops (h (j div 2)) (h j))"

definition heap_up :: "nat \<Rightarrow> (nat \<Rightarrow> u64) \<Rightarrow> nat \<Rightarrow> bool" where
  "heap_up n h i \<longleftrightarrow>
     (\<forall>j. 2 \<le> j \<and> j < n \<longrightarrow>
        (j \<noteq> i \<longrightarrow> \<not> cmppri ops (h (j div 2)) (h j)) \<and>
        (j div 2 = i \<and> 2 \<le> i \<longrightarrow> \<not> cmppri ops (h (i div 2)) (h j)))"

definition heap_down :: "nat \<Rightarrow> (nat \<Rightarrow> u64) \<Rightarrow> nat \<Rightarrow> bool" where
  "heap_down n h i \<longleftrightarrow>
     (\<forall>j. 2 \<le> j \<and> j < n \<longrightarrow>
        (j div 2 \<noteq> i \<longrightarrow> \<not> cmppri ops (h (j div 2)) (h j)) \<and>
        (j div 2 = i \<and> 2 \<le> i \<longrightarrow> \<not> cmppri ops (h (i div 2)) (h j)))"

lemma cmp_trans: "cmppri ops a b \<Longrightarrow> cmppri ops b c \<Longrightarrow> cmppri ops a c"
  using cmp_asym cmp_negtrans by blast

lemma cmp_irrefl: "\<not> cmppri ops a a"
  using cmp_asym by blast

lemma heap_cong: "(\<And>j. 0 < j \<Longrightarrow> j < n \<Longrightarrow> h j = h' j) \<Longrightarrow> heap n h = heap n h'"
  by (auto simp: heap_def)

lemma heap_up_cong: "(\<And>j. 0 < j \<Longrightarrow> j < n \<Longrightarrow> h j = h' j) \<Longrightarrow> heap_up n h i = heap_up n h' i"
proof -
  assume e: "\<And>j. 0 < j \<Longrightarrow> j < n \<Longrightarrow> h j = h' j"
  have "h j = h' j \<and> h (j div 2) = h' (j div 2) \<and> (j div 2 = i \<and> 2 \<le> i \<longrightarrow> h (i div 2) = h' (i div 2))"
    if "2 \<le> j \<and> j < n" for j
    using e [of j] e [of "j div 2"] e [of "i div 2"] that by auto
  then show ?thesis unfolding heap_up_def by (intro iff_allI imp_cong) auto
qed

lemma heap_down_cong: "(\<And>j. 0 < j \<Longrightarrow> j < n \<Longrightarrow> h j = h' j) \<Longrightarrow> heap_down n h i = heap_down n h' i"
proof -
  assume e: "\<And>j. 0 < j \<Longrightarrow> j < n \<Longrightarrow> h j = h' j"
  have "h j = h' j \<and> h (j div 2) = h' (j div 2) \<and> (j div 2 = i \<and> 2 \<le> i \<longrightarrow> h (i div 2) = h' (i div 2))"
    if "2 \<le> j \<and> j < n" for j
    using e [of j] e [of "j div 2"] e [of "i div 2"] that by auto
  then show ?thesis unfolding heap_down_def by (intro iff_allI imp_cong) auto
qed

lemma up_stop: "heap_up n h i \<Longrightarrow> i < 2 \<or> \<not> cmppri ops (h (i div 2)) (h i) \<Longrightarrow> heap n h"
  by (auto simp: heap_up_def heap_def)

lemma up_step:
  assumes "heap_up n h i" "2 \<le> i" "i < n" "cmppri ops (h (i div 2)) (h i)"
  shows "heap_up n (h(i := h (i div 2), i div 2 := h i)) (i div 2)"
proof -
  let ?p = "i div 2" and ?h = "h(i := h (i div 2), i div 2 := h i)"
  have ord: "\<not> cmppri ops (h (j div 2)) (h j)" if "2 \<le> j" "j < n" "j \<noteq> i" for j
    using assms(1) that by (simp add: heap_up_def)
  have gp: "\<not> cmppri ops (h ?p) (h j)" if "2 \<le> j" "j < n" "j div 2 = i" for j
    using assms(1,2) that by (simp add: heap_up_def)
  have p: "?p < i" "?p \<noteq> i" using assms(2) by auto
  have 1: "\<not> cmppri ops (?h (j div 2)) (?h j)" if j: "2 \<le> j" "j < n" "j \<noteq> ?p" for j
  proof (cases "j = i")
    case True
    with p assms(4) show ?thesis by (simp add: cmp_asym)
  next
    case ne: False
    show ?thesis
    proof (cases "j div 2 = ?p")
      case True
      have "\<not> cmppri ops (h ?p) (h j)" using ord [OF j(1,2) ne] True by simp
      with assms(4) have "\<not> cmppri ops (h i) (h j)" using cmp_trans by blast
      with True ne j p show ?thesis by simp
    next
      case False
      show ?thesis
      proof (cases "j div 2 = i")
        case True
        with gp [OF j(1,2)] ne j p show ?thesis by simp
      next
        case f: False
        with ord [OF j(1,2) ne] False ne j show ?thesis by simp
      qed
    qed
  qed
  have 2: "\<not> cmppri ops (?h (?p div 2)) (?h j)" if j: "2 \<le> j" "j < n" "j div 2 = ?p" "2 \<le> ?p" for j
  proof -
    have g: "\<not> cmppri ops (h (?p div 2)) (h ?p)" using ord [of ?p] j(4) assms(3) p by simp
    have q: "?p div 2 \<noteq> ?p" "?p div 2 \<noteq> i" using j(4) p by auto
    show ?thesis
    proof (cases "j = i")
      case True
      with g q p show ?thesis by simp
    next
      case False
      with j ord [of j] have "\<not> cmppri ops (h ?p) (h j)" by simp
      with g have "\<not> cmppri ops (h (?p div 2)) (h j)" by (rule cmp_negtrans)
      moreover have "j \<noteq> ?p" using j by auto
      ultimately show ?thesis using False q by simp
    qed
  qed
  show ?thesis unfolding heap_up_def using 1 2 by blast
qed

lemma down_stop:
  "heap_down n h i \<Longrightarrow> (\<And>c. 2 \<le> c \<Longrightarrow> c < n \<Longrightarrow> c div 2 = i \<Longrightarrow> \<not> cmppri ops (h i) (h c)) \<Longrightarrow> heap n h"
  by (auto simp: heap_down_def heap_def)

lemma down_step:
  assumes "heap_down n h i" "1 \<le> i" "c < n" "c div 2 = i" "cmppri ops (h i) (h c)"
    and best: "\<And>c'. 2 \<le> c' \<Longrightarrow> c' < n \<Longrightarrow> c' div 2 = i \<Longrightarrow> \<not> cmppri ops (h c) (h c')"
  shows "heap_down n (h(i := h c, c := h i)) c"
proof -
  let ?h = "h(i := h c, c := h i)"
  have ord: "\<not> cmppri ops (h (j div 2)) (h j)" if "2 \<le> j" "j < n" "j div 2 \<noteq> i" for j
    using assms(1) that by (simp add: heap_down_def)
  have gp: "\<not> cmppri ops (h (i div 2)) (h j)" if "2 \<le> j" "j < n" "j div 2 = i" "2 \<le> i" for j
    using assms(1) that by (simp add: heap_down_def)
  have c: "i < c" "2 \<le> c" using assms(2,4) by auto
  have 1: "\<not> cmppri ops (?h (j div 2)) (?h j)" if j: "2 \<le> j" "j < n" "j div 2 \<noteq> c" for j
  proof (cases "j div 2 = i")
    case True
    show ?thesis
    proof (cases "j = c")
      case True
      with assms(4,5) c show ?thesis by (simp add: cmp_asym)
    next
      case False
      moreover have "j \<noteq> i" using True j(1) by auto
      ultimately show ?thesis using best [OF j(1,2) True] True c by simp
    qed
  next
    case False
    show ?thesis
    proof (cases "j = i")
      case True
      with gp [of c] c assms(3,4) j have "\<not> cmppri ops (h (i div 2)) (h c)" by simp
      moreover have "i div 2 \<noteq> i" "i div 2 \<noteq> c" using True j(1) c by auto
      ultimately show ?thesis using True c by simp
    next
      case ne: False
      have "j \<noteq> c" using False assms(4) by auto
      with ord [OF j(1,2) False] False ne j show ?thesis by simp
    qed
  qed
  have 2: "\<not> cmppri ops (?h (c div 2)) (?h j)" if j: "2 \<le> j" "j < n" "j div 2 = c" for j
  proof -
    have "\<not> cmppri ops (h c) (h j)" using ord [OF j(1,2)] j(3) c by simp
    moreover have "j \<noteq> i" "j \<noteq> c" using j c by auto
    ultimately show ?thesis using assms(4) c by simp
  qed
  show ?thesis unfolding heap_down_def using 1 2 by blast
qed

lemma heap_min: "heap n h \<Longrightarrow> 1 \<le> j \<Longrightarrow> j < n \<Longrightarrow> \<not> cmppri ops (h 1) (h j)"
proof (induction j rule: less_induct)
  case (less j)
  show ?case
  proof (cases "j = 1")
    case True
    then show ?thesis by (simp add: cmp_irrefl)
  next
    case False
    with less.prems have "2 \<le> j" "j div 2 < j" "1 \<le> j div 2" "j div 2 < n" by auto
    with less have "\<not> cmppri ops (h 1) (h (j div 2))" "\<not> cmppri ops (h (j div 2)) (h j)"
      by (auto simp: heap_def)
    then show ?thesis by (rule cmp_negtrans)
  qed
qed

definition placed_but :: "nat \<Rightarrow> 'a list \<Rightarrow> 's \<Rightarrow> nat \<Rightarrow> 'a \<Rightarrow> bool" where
  "placed_but n d s i x \<longleftrightarrow> (\<forall>j. 0 < j \<and> j < n \<and> j \<noteq> i \<longrightarrow> getpos ops s (d ! j) = j \<and> d ! j \<noteq> x)"

text \<open>What both loops guarantee: the array with the hole at \<open>i\<close> filled by the moving element is
  permuted within its first \<open>n\<close> slots, and every element but the moving one knows its slot.\<close>

definition moved :: "nat \<Rightarrow> 'a \<Rightarrow> 'a list \<Rightarrow> 's \<Rightarrow> nat \<Rightarrow> 'a list \<Rightarrow> 's \<Rightarrow> nat \<Rightarrow> bool" where
  "moved n x d s i d' s' k \<longleftrightarrow> 0 < k \<and> k < n \<and> length d' = length d \<and> frame s s' \<and> placed_but n d' s' k x \<and>
     d' ! 0 = d ! 0 \<and> mset (take n (d'[k := x])) = mset (take n (d[i := x]))"

lemma moved_step:
  assumes "0 < i" "i < n" "0 < p" "p < n" "i \<noteq> p" "n \<le> length d" "placed_but n d s i x"
    and "moved n x (d[i := d ! p]) (setpos ops (d ! p) i s) p d' s' k"
  shows "moved n x d s i d' s' k"
proof -
  have "mset (take n (d[i := d ! p, p := x])) = mset (take n (d[i := x]))"
    by (rule move_slot) (use assms in simp_all)
  moreover have "frame s s'" using assms(8) frame_trans [OF frame_setpos] unfolding moved_def by blast
  ultimately show ?thesis using assms by (simp add: moved_def)
qed

lemma placed_step:
  assumes "placed_but n d s i x" "0 < p" "p < n" "i \<noteq> p" "n \<le> length d" "i < n"
  shows "placed_but n (d[i := d ! p]) (setpos ops (d ! p) i s) p x"
proof -
  have "d ! j \<noteq> d ! p" if "0 < j" "j < n" "j \<noteq> i" "j \<noteq> p" for j
    using assms that by (metis placed_but_def)
  then show ?thesis using assms by (auto simp: placed_but_def getpos_setpos nth_list_update)
qed

lemma bubble_loop_ok:
  assumes "0 < i" "i < n" "n \<le> length d" "placed_but n d s i x"
  shows "\<exists>d' s' k. bubble_loop ops d s i (getpri ops s x) = Some (d', s', k) \<and> moved n x d s i d' s' k \<and>
    (heap_up n (\<lambda>j. getpri ops s (d[i := x] ! j)) i \<longrightarrow> heap n (\<lambda>j. getpri ops s (d'[k := x] ! j)))"
  using assms
proof (induction i arbitrary: d s rule: less_induct)
  case (less i)
  let ?p = "i div 2" and ?h = "\<lambda>j. getpri ops s (d[i := x] ! j)"
  show ?case
  proof (cases "i > 1 \<and> cmppri ops (getpri ops s (d ! ?p)) (getpri ops s x)")
    case False
    then have "bubble_loop ops d s i (getpri ops s x) = Some (d, s, i)"
      using less.prems by (subst bubble_loop.simps) auto
    moreover have "heap_up n ?h i \<longrightarrow> heap n ?h"
      using False less.prems by (auto intro!: up_stop)
    ultimately show ?thesis using less.prems frame_refl by (auto simp: moved_def)
  next
    case True
    let ?d = "d[i := d ! ?p]" and ?s = "setpos ops (d ! ?p) i s"
    have p: "0 < ?p" "?p < n" "i \<noteq> ?p" "?p < i" "2 \<le> i" using True less.prems by auto
    have pri: "getpri ops ?s y = getpri ops s y" for y by (rule frame_pri [OF frame_setpos])
    have pl: "placed_but n ?d ?s ?p x" using less.prems p by (intro placed_step) auto
    have step: "bubble_loop ops d s i (getpri ops s x) = bubble_loop ops ?d ?s ?p (getpri ops s x)"
      using True less.prems by (subst bubble_loop.simps) simp
    from less.IH [OF p(4,1,2) _ pl, unfolded pri] less.prems(3) obtain d' s' k where
      r: "bubble_loop ops ?d ?s ?p (getpri ops s x) = Some (d', s', k)" "moved n x ?d ?s ?p d' s' k"
        "heap_up n (\<lambda>j. getpri ops s (?d[?p := x] ! j)) ?p \<longrightarrow> heap n (\<lambda>j. getpri ops s (d'[k := x] ! j))"
      unfolding length_list_update by blast
    have "heap_up n (\<lambda>j. getpri ops s (?d[?p := x] ! j)) ?p" if "heap_up n ?h i"
    proof -
      have "heap_up n (?h(i := ?h ?p, ?p := ?h i)) ?p"
        using that p less.prems True by (intro up_step) auto
      moreover have "(?h(i := ?h ?p, ?p := ?h i)) j = getpri ops s (?d[?p := x] ! j)" if "j < n" for j
        by (rule move_slot(2) [symmetric]) (use p less.prems that in simp_all)
      ultimately show ?thesis
        using heap_up_cong [of n "?h(i := ?h ?p, ?p := ?h i)" "\<lambda>j. getpri ops s (?d[?p := x] ! j)" ?p] by blast
    qed
    with r(3) have "heap_up n ?h i \<longrightarrow> heap n (\<lambda>j. getpri ops s (d'[k := x] ! j))" by blast
    with r(1) step moved_step [OF less.prems(1,2) p(1-3) less.prems(3,4) r(2)] show ?thesis by metis
  qed
qed

lemma maxchild_best:
  assumes "0 < i" "n \<le> length d"
  shows "\<exists>c. maxchild ops n d s i = Some c \<and> (c = 0 \<longrightarrow> n \<le> 2 * i) \<and>
    (c \<noteq> 0 \<longrightarrow> (\<forall>c'. c' < n \<and> c' div 2 = i \<longrightarrow> \<not> cmppri ops (getpri ops s (d ! c)) (getpri ops s (d ! c'))))"
proof -
  have two: "c' div 2 = i \<longleftrightarrow> c' = 2 * i \<or> c' = 2 * i + 1" for c' by auto
  consider "n \<le> 2 * i" | "n = 2 * i + 1" | "2 * i + 1 < n" by linarith
  then show ?thesis
  proof cases
    case 1
    then show ?thesis by (auto simp: maxchild_def Let_def)
  next
    case 2
    then show ?thesis using assms by (auto simp: maxchild_def Let_def two cmp_irrefl)
  next
    case 3
    then show ?thesis using assms by (auto simp: maxchild_def Let_def two cmp_irrefl dest: cmp_asym)
  qed
qed

lemma percolate_loop_ok:
  assumes "0 < i" "i < n" "n \<le> length d" "placed_but n d s i x"
  shows "\<exists>d' s' k. percolate_loop ops n d s i (getpri ops s x) = Some (d', s', k) \<and> moved n x d s i d' s' k \<and>
    (heap_down n (\<lambda>j. getpri ops s (d[i := x] ! j)) i \<longrightarrow> heap n (\<lambda>j. getpri ops s (d'[k := x] ! j)))"
  using assms
proof (induction "n - i" arbitrary: d s i rule: less_induct)
  case less
  let ?h = "\<lambda>j. getpri ops s (d[i := x] ! j)"
  from maxchild_best [OF less.prems(1,3), of s] obtain c where
    c: "maxchild ops n d s i = Some c" "c = 0 \<longrightarrow> n \<le> 2 * i"
      "c \<noteq> 0 \<longrightarrow> (\<forall>c'. c' < n \<and> c' div 2 = i \<longrightarrow> \<not> cmppri ops (getpri ops s (d ! c)) (getpri ops s (d ! c')))"
    by blast
  have other: "?h j = getpri ops s (d ! j)" if "2 \<le> j" "j div 2 = i" for j using that by auto
  show ?case
  proof (cases "c \<noteq> 0 \<and> cmppri ops (getpri ops s x) (getpri ops s (d ! c))")
    case False
    then have "percolate_loop ops n d s i (getpri ops s x) = Some (d, s, i)"
      using c(1) maxchild_range [OF c(1)] less.prems by (subst percolate_loop.simps) auto
    moreover have "heap n ?h" if h: "heap_down n ?h i"
    proof (rule down_stop [OF h])
      fix c' assume c': "2 \<le> c'" "c' < n" "c' div 2 = i"
      then have "c \<noteq> 0" using c(2) by auto
      with False c(3) c' have "\<not> cmppri ops (getpri ops s x) (getpri ops s (d ! c'))"
        using cmp_negtrans by blast
      with c' less.prems show "\<not> cmppri ops (?h i) (?h c')" by (simp add: other)
    qed
    ultimately show ?thesis using less.prems frame_refl by (auto simp: moved_def)
  next
    case True
    let ?d = "d[i := d ! c]" and ?s = "setpos ops (d ! c) i s"
    have p: "0 < c" "c < n" "i \<noteq> c" "n - c < n - i" "c div 2 = i" "2 \<le> c"
      using True maxchild_range [OF c(1)] less.prems by auto
    have pri: "getpri ops ?s y = getpri ops s y" for y by (rule frame_pri [OF frame_setpos])
    have pl: "placed_but n ?d ?s c x" using less.prems p by (intro placed_step) auto
    have step: "percolate_loop ops n d s i (getpri ops s x) = percolate_loop ops n ?d ?s c (getpri ops s x)"
      using True c(1) p less.prems by (subst percolate_loop.simps) simp
    from less.hyps [OF p(4,1,2) _ pl, unfolded pri] less.prems(3) obtain d' s' k where
      r: "percolate_loop ops n ?d ?s c (getpri ops s x) = Some (d', s', k)" "moved n x ?d ?s c d' s' k"
        "heap_down n (\<lambda>j. getpri ops s (?d[c := x] ! j)) c \<longrightarrow> heap n (\<lambda>j. getpri ops s (d'[k := x] ! j))"
      unfolding length_list_update by blast
    have "heap_down n (\<lambda>j. getpri ops s (?d[c := x] ! j)) c" if "heap_down n ?h i"
    proof -
      have "heap_down n (?h(i := ?h c, c := ?h i)) c"
      proof (rule down_step [OF that])
        fix c' assume c': "2 \<le> c'" "c' < n" "c' div 2 = i"
        then show "\<not> cmppri ops (?h c) (?h c')" using c(3) p other by simp
      qed (use p less.prems True other in auto)
      moreover have "(?h(i := ?h c, c := ?h i)) j = getpri ops s (?d[c := x] ! j)" if "j < n" for j
        by (rule move_slot(2) [symmetric]) (use p less.prems that in simp_all)
      ultimately show ?thesis
        using heap_down_cong [of n "?h(i := ?h c, c := ?h i)" "\<lambda>j. getpri ops s (?d[c := x] ! j)" c] by blast
    qed
    with r(3) have "heap_down n ?h i \<longrightarrow> heap n (\<lambda>j. getpri ops s (d'[k := x] ! j))" by blast
    with r(1) step moved_step [OF less.prems(1,2) p(1-3) less.prems(3,4) r(2)] show ?thesis by metis
  qed
qed

text \<open>Sifting an element in a queue whose other elements are in place.\<close>

definition sifted :: "('a, 's) pqueue_t \<Rightarrow> 's \<Rightarrow> ('a, 's) pqueue_t \<Rightarrow> 's \<Rightarrow> bool" where
  "sifted q s q' s' \<longleftrightarrow> q_ops q' = ops \<and> pq_ok q' s' \<and> frame s s' \<and> q_size q' = q_size q \<and> q_avail q' = q_avail q \<and>
     pq_items q' = pq_items q"

lemma sifted_moved:
  assumes "q_ops q = ops" "0 < q_size q" "q_size q \<le> q_avail q" "length (q_d q) = q_avail q" "0 < q_step q"
    and "0 < i" "i < q_size q" "moved (q_size q) (q_d q ! i) (q_d q) s i d' s' k"
  shows "sifted q s (q\<lparr>q_d := d'[k := q_d q ! i]\<rparr>) (setpos ops (q_d q ! i) k s')"
proof -
  let ?x = "q_d q ! i" and ?n = "q_size q" and ?d = "d'[k := q_d q ! i]"
  note m = assms(8) [unfolded moved_def]
  have len: "length d' = q_avail q" "k < length d'" using m assms(3,4) by auto
  have "mset (take ?n ?d) = mset (take ?n (q_d q))" using m by simp
  moreover have "?d ! 0 = q_d q ! 0" using m by simp
  moreover have "mset (take ?n ?d) = add_mset (?d ! 0) (pq_items (q\<lparr>q_d := ?d\<rparr>))"
    "mset (take ?n (q_d q)) = add_mset (q_d q ! 0) (pq_items q)"
    using pq_items_slots(1) [of "q\<lparr>q_d := ?d\<rparr>"] pq_items_slots(1) [of q] assms len by auto
  ultimately have "pq_items (q\<lparr>q_d := ?d\<rparr>) = pq_items q" by (metis add_mset_add_mset_same_iff)
  moreover have "getpos ops (setpos ops ?x k s') (?d ! j) = j" if "0 < j" "j < ?n" for j
    using m that len by (cases "j = k") (simp_all add: getpos_setpos placed_but_def)
  moreover have "frame s (setpos ops ?x k s')" using m frame_setpos frame_trans by blast
  ultimately show ?thesis using assms len by (simp add: sifted_def pq_ok_def)
qed

lemma placed_but_ok:
  assumes "pq_ok q s" "q_ops q = ops" "0 < i" "i < q_size q"
  shows "placed_but (q_size q) (q_d q) s i (q_d q ! i)"
  using assms unfolding placed_but_def pq_ok_def by metis

definition shaped :: "('a, 's) pqueue_t \<Rightarrow> bool" where
  "shaped q \<longleftrightarrow> q_ops q = ops \<and> 0 < q_size q \<and> q_size q \<le> q_avail q \<and> length (q_d q) = q_avail q \<and> 0 < q_step q"

abbreviation pris :: "('a, 's) pqueue_t \<Rightarrow> 's \<Rightarrow> nat \<Rightarrow> u64" where
  "pris q s \<equiv> \<lambda>j. getpri ops s (q_d q ! j)"

lemma ok_shaped: "pq_ok q s \<Longrightarrow> q_ops q = ops \<Longrightarrow> shaped q"
  by (simp add: pq_ok_def shaped_def)

lemma pq_heap_iff: "q_ops q = ops \<Longrightarrow> pq_heap q s \<longleftrightarrow> heap (q_size q) (pris q s)"
  by (simp add: pq_heap_def heap_def)

lemma sifted_heap:
  assumes "sifted q s (q\<lparr>q_d := d\<rparr>) s'" "heap (q_size q) (\<lambda>j. getpri ops s (d ! j))"
  shows "pq_heap (q\<lparr>q_d := d\<rparr>) s'"
proof -
  have "frame s s'" using assms(1) by (simp add: sifted_def)
  then have "getpri ops s' y = getpri ops s y" for y by (rule frame_pri)
  then show ?thesis using assms by (simp add: pq_heap_iff sifted_def)
qed

lemma bubble_up_ok:
  assumes "shaped q" "0 < i" "i < q_size q" "placed_but (q_size q) (q_d q) s i (q_d q ! i)"
  shows "\<exists>q' s'. bubble_up q s i = Some (q', s') \<and> sifted q s q' s' \<and>
    (heap_up (q_size q) (pris q s) i \<longrightarrow> pq_heap q' s')"
proof -
  note sh = assms(1) [unfolded shaped_def]
  from bubble_loop_ok [OF assms(2,3) _ assms(4)] sh obtain d s' k where
    r: "bubble_loop ops (q_d q) s i (getpri ops s (q_d q ! i)) = Some (d, s', k)"
      "moved (q_size q) (q_d q ! i) (q_d q) s i d s' k"
      "heap_up (q_size q) (pris q s) i \<longrightarrow> heap (q_size q) (\<lambda>j. getpri ops s (d[k := q_d q ! i] ! j))"
    by auto
  have k: "k < length d" "i < length (q_d q)" using r(2) assms(3) sh by (auto simp: moved_def)
  have "bubble_up q s i = Some (q\<lparr>q_d := d[k := q_d q ! i]\<rparr>, setpos ops (q_d q ! i) k s')"
    using sh r(1) k by (simp add: bubble_up_def)
  moreover have "sifted q s (q\<lparr>q_d := d[k := q_d q ! i]\<rparr>) (setpos ops (q_d q ! i) k s')"
    using sh assms(2,3) r(2) by (intro sifted_moved) auto
  ultimately show ?thesis using r(3) sifted_heap by blast
qed

lemma percolate_down_ok:
  assumes "shaped q" "0 < i" "i < q_size q" "placed_but (q_size q) (q_d q) s i (q_d q ! i)"
  shows "\<exists>q' s'. percolate_down q s i = Some (q', s') \<and> sifted q s q' s' \<and>
    (heap_down (q_size q) (pris q s) i \<longrightarrow> pq_heap q' s')"
proof -
  note sh = assms(1) [unfolded shaped_def]
  from percolate_loop_ok [OF assms(2,3) _ assms(4)] sh obtain d s' k where
    r: "percolate_loop ops (q_size q) (q_d q) s i (getpri ops s (q_d q ! i)) = Some (d, s', k)"
      "moved (q_size q) (q_d q ! i) (q_d q) s i d s' k"
      "heap_down (q_size q) (pris q s) i \<longrightarrow> heap (q_size q) (\<lambda>j. getpri ops s (d[k := q_d q ! i] ! j))"
    by auto
  have k: "k < length d" "i < length (q_d q)" using r(2) assms(3) sh by (auto simp: moved_def)
  have "percolate_down q s i = Some (q\<lparr>q_d := d[k := q_d q ! i]\<rparr>, setpos ops (q_d q ! i) k s')"
    using sh r(1) k by (simp add: percolate_down_def)
  moreover have "sifted q s (q\<lparr>q_d := d[k := q_d q ! i]\<rparr>) (setpos ops (q_d q ! i) k s')"
    using sh assms(2,3) r(2) by (intro sifted_moved) auto
  ultimately show ?thesis using r(3) sifted_heap by blast
qed

lemma percolate_last:
  assumes "shaped q" "0 < i" "q_size q \<le> i" "i < length (q_d q)"
  shows "percolate_down q s i = Some (q, setpos ops (q_d q ! i) i s)"
proof -
  have "maxchild ops (q_size q) (q_d q) s i = Some 0" using assms by (simp add: maxchild_def)
  then have "percolate_loop ops (q_size q) (q_d q) s i pri = Some (q_d q, s, i)" for pri
    by (subst percolate_loop.simps) simp
  with assms show ?thesis by (simp add: percolate_down_def shaped_def)
qed

section \<open>Inserting\<close>

lemma insert_items:
  assumes "0 < n" "n < length d"
  shows "mset (tl (take (n + 1) (d[n := x]))) = add_mset x (mset (tl (take n d)))"
proof -
  have "take (n + 1) (d[n := x]) = take n d @ [x]"
    using assms by (simp add: take_Suc_conv_app_nth)
  then show ?thesis using assms by (cases d; cases n) simp_all
qed

lemma insert_ok:
  assumes "pq_ok q s" "q_ops q = ops" "x \<notin># pq_items q" "ok \<or> q_size q < q_avail q"
  shows "\<exists>q' s'. pqueue_insert ok mem q s x = Some (0, q', s') \<and> q_ops q' = ops \<and> pq_ok q' s' \<and> frame s s' \<and>
    pq_items q' = add_mset x (pq_items q) \<and> (q_size q < q_avail q \<longrightarrow> q_avail q' = q_avail q) \<and>
    (pq_heap q s \<longrightarrow> pq_heap q' s')"
proof -
  define q1 where "q1 = (if q_size q \<ge> q_avail q
    then q\<lparr>q_d := q_d q @ map mem [q_avail q..<q_size q + q_step q], q_avail := q_size q + q_step q\<rparr> else q)"
  let ?n = "q_size q"
  define q2 where "q2 = q1\<lparr>q_size := ?n + 1, q_d := (q_d q1)[?n := x]\<rparr>"
  note ok = assms(1) [unfolded pq_ok_def]
  have q1: "q_size q1 = ?n" "?n < q_avail q1" "length (q_d q1) = q_avail q1" "take ?n (q_d q1) = take ?n (q_d q)"
    "q_ops q1 = ops" "q_step q1 = q_step q" "q_size q < q_avail q \<longrightarrow> q_avail q1 = q_avail q"
    using ok assms(2) by (auto simp: q1_def)
  have same: "q_d q1 ! j = q_d q ! j" if "j < ?n" for j using q1(4) that by (metis nth_take)
  have sh: "shaped q2" using q1 ok by (simp add: shaped_def q2_def)
  have "q_d q ! j \<noteq> x" if "0 < j" "j < ?n" for j
    using assms(3) pq_items_slots(2) [of q x] ok that by auto
  then have pl: "placed_but (q_size q2) (q_d q2) s ?n (q_d q2 ! ?n)"
    using ok assms(2) q1 same by (auto simp: placed_but_def q2_def)
  from bubble_up_ok [OF sh _ _ pl] obtain q' s' where
    r: "bubble_up q2 s ?n = Some (q', s')" "sifted q2 s q' s'"
      "heap_up (q_size q2) (pris q2 s) ?n \<longrightarrow> pq_heap q' s'" using ok by (auto simp: q2_def)
  have "pqueue_insert ok mem q s x = Some (0, q', s')"
  proof -
    have "\<not> (q_size q \<ge> q_avail q \<and> \<not> ok)" using assms(4) by auto
    moreover have "aset (q_d q1) (q_size q1) x = Some ((q_d q1)[?n := x])" using q1 by simp
    ultimately show ?thesis
      unfolding pqueue_insert_def Let_def q1_def [symmetric] using r(1) q1(1) by (simp add: q2_def)
  qed
  moreover have "pq_items q2 = add_mset x (pq_items q)"
    unfolding pq_items_def using insert_items [of ?n "q_d q1" x] q1 ok by (simp add: q2_def)
  moreover have "heap_up (q_size q2) (pris q2 s) ?n" if "pq_heap q s"
    using that same assms(2) q1 by (auto simp: heap_up_def q2_def pq_heap_def)
  moreover have "q_size q < q_avail q \<longrightarrow> q_avail q' = q_avail q"
    using r(2) q1(7) by (simp add: sifted_def q2_def)
  ultimately show ?thesis using r by (auto simp: sifted_def)
qed

section \<open>Removing\<close>

text \<open>Removing slot \<open>p\<close> puts the last element into it and shrinks the queue.\<close>

definition refill :: "('a, 's) pqueue_t \<Rightarrow> nat \<Rightarrow> ('a, 's) pqueue_t" where
  "refill q p = q\<lparr>q_size := q_size q - 1, q_d := (q_d q)[p := q_d q ! (q_size q - 1)]\<rparr>"

lemma refill_simps [simp]:
  "q_size (refill q p) = q_size q - 1" "q_d (refill q p) = (q_d q)[p := q_d q ! (q_size q - 1)]"
  "q_ops (refill q p) = q_ops q" "q_avail (refill q p) = q_avail q" "q_step (refill q p) = q_step q"
  by (simp_all add: refill_def)

lemma refill_items:
  assumes "pq_ok q s" "0 < p" "p < q_size q"
  shows "pq_items (refill q p) = pq_items q - {#q_d q ! p#}"
proof -
  let ?m = "q_size q - 1" and ?d = "q_d q"
  have len: "q_size q \<le> length ?d" "q_size q = Suc ?m" "?m < length ?d" using assms by (auto simp: pq_ok_def)
  have e: "take (q_size q) ?d = take ?m ?d @ [?d ! ?m]" using len by (metis take_Suc_conv_app_nth)
  have all: "mset (take (q_size q) ?d) = add_mset (?d ! 0) (pq_items q)"
    using pq_items_slots(1) [of q] len assms by simp
  have "?m > 0" using assms by auto
  then have new: "mset (take ?m (?d[p := ?d ! ?m])) = add_mset (?d ! 0) (pq_items (refill q p))"
    using pq_items_slots(1) [of "refill q p"] len assms(2) by simp
  have "add_mset (?d ! p) (mset (take ?m (?d[p := ?d ! ?m]))) = mset (take (q_size q) ?d)"
  proof (cases "p = ?m")
    case True
    then show ?thesis using e by simp
  next
    case False
    then have p: "p < length (take ?m ?d)" using assms len by simp
    have "take ?m (?d[p := ?d ! ?m]) = (take ?m ?d)[p := ?d ! ?m]" by (rule take_update_swap)
    moreover have "?d ! p \<in># mset (take ?m ?d)" using nth_mem [OF p] p by simp
    ultimately show ?thesis unfolding e using p by (simp add: mset_update)
  qed
  with all new have "add_mset (?d ! 0) (add_mset (?d ! p) (pq_items (refill q p))) = add_mset (?d ! 0) (pq_items q)"
    by (metis add_mset_commute)
  then have "add_mset (?d ! p) (pq_items (refill q p)) = pq_items q" by simp
  then show ?thesis by (metis add_mset_remove_trivial)
qed

lemma refill_ready:
  assumes "pq_ok q s" "q_ops q = ops" "0 < p" "p < q_size q - 1"
  shows "shaped (refill q p)"
    "placed_but (q_size (refill q p)) (q_d (refill q p)) s p (q_d (refill q p) ! p)"
proof -
  let ?m = "q_size q - 1" and ?d = "q_d q"
  show "shaped (refill q p)" using assms by (auto simp: pq_ok_def shaped_def)
  have "?d ! j \<noteq> ?d ! ?m" if "0 < j" "j < ?m" for j
    using assms that unfolding pq_ok_def by (metis diff_less less_numeral_extra(1) less_trans nat_neq_iff)
  then show "placed_but (q_size (refill q p)) (q_d (refill q p)) s p (q_d (refill q p) ! p)"
    using assms by (auto simp: placed_but_def pq_ok_def)
qed

text \<open>The heap order after the refill: sift up if the new element is better than the removed
  one, down if it is not.\<close>

lemma refill_up:
  assumes "pq_ok q s" "q_ops q = ops" "pq_heap q s" "0 < p" "p < q_size q - 1"
    and "cmppri ops (pris q s p) (pris q s (q_size q - 1))"
  shows "heap_up (q_size q - 1) (pris (refill q p) s) p"
proof -
  let ?m = "q_size q - 1" and ?h = "pris q s"
  have h: "\<not> cmppri ops (?h (j div 2)) (?h j)" if "2 \<le> j" "j < ?m" for j
    using assms(2,3) that by (simp add: pq_heap_def)
  have len: "?m < length (q_d q)" using assms(1,5) by (auto simp: pq_ok_def)
  have g: "\<not> cmppri ops (?h (p div 2)) (?h j)" if "2 \<le> j" "j < ?m" "j div 2 = p" "2 \<le> p" for j
    using h [OF that(1,2)] h [OF that(4) assms(5)] that(3) cmp_negtrans by metis
  have c: "\<not> cmppri ops (?h ?m) (?h j)" if "2 \<le> j" "j < ?m" "j div 2 = p" for j
    using h [OF that(1,2)] that(3) assms(6) cmp_trans by metis
  have r: "pris (refill q p) s j = (if j = p then ?h ?m else ?h j)" if "j < ?m" for j
    using that len by (auto simp: nth_list_update)
  show ?thesis unfolding heap_up_def
  proof (intro allI impI conjI)
    fix j assume j: "2 \<le> j \<and> j < ?m" and ne: "j \<noteq> p"
    have jd: "j div 2 < ?m" using j by auto
    show "\<not> cmppri ops (pris (refill q p) s (j div 2)) (pris (refill q p) s j)"
      using h [of j] c [of j] j ne r [OF jd] r [of j] by (cases "j div 2 = p") auto
  next
    fix j assume j: "2 \<le> j \<and> j < ?m" and e: "j div 2 = p \<and> 2 \<le> p"
    have "p div 2 < ?m" "p div 2 \<noteq> p" "j \<noteq> p" using j e by auto
    then show "\<not> cmppri ops (pris (refill q p) s (p div 2)) (pris (refill q p) s j)"
      using g [of j] j e r [of "p div 2"] r [of j] by auto
  qed
qed

lemma refill_down:
  assumes "pq_ok q s" "q_ops q = ops" "pq_heap q s" "0 < p" "p < q_size q - 1"
    and "p = 1 \<or> \<not> cmppri ops (pris q s p) (pris q s (q_size q - 1))"
  shows "heap_down (q_size q - 1) (pris (refill q p) s) p"
proof -
  let ?m = "q_size q - 1" and ?h = "pris q s"
  have h: "\<not> cmppri ops (?h (j div 2)) (?h j)" if "2 \<le> j" "j < ?m" for j
    using assms(2,3) that by (simp add: pq_heap_def)
  have len: "?m < length (q_d q)" using assms(1,5) by (auto simp: pq_ok_def)
  have g: "\<not> cmppri ops (?h (p div 2)) (?h j)" if "2 \<le> j" "j < ?m" "j div 2 = p" "2 \<le> p" for j
    using h [OF that(1,2)] h [OF that(4) assms(5)] that(3) cmp_negtrans by metis
  have r: "pris (refill q p) s j = (if j = p then ?h ?m else ?h j)" if "j < ?m" for j
    using that len by (auto simp: nth_list_update)
  have c: "\<not> cmppri ops (?h (p div 2)) (?h ?m)" if "2 \<le> p"
    using h [OF that assms(5)] assms(6) that cmp_negtrans by auto
  show ?thesis unfolding heap_down_def
  proof (intro allI impI conjI)
    fix j assume j: "2 \<le> j \<and> j < ?m" and ne: "j div 2 \<noteq> p"
    have jd: "j div 2 < ?m" using j by auto
    show "\<not> cmppri ops (pris (refill q p) s (j div 2)) (pris (refill q p) s j)"
      using h [of j] c j ne r [OF jd] r [of j] by (cases "j = p") auto
  next
    fix j assume j: "2 \<le> j \<and> j < ?m" and e: "j div 2 = p \<and> 2 \<le> p"
    have "p div 2 < ?m" "p div 2 \<noteq> p" "j \<noteq> p" using j e by auto
    then show "\<not> cmppri ops (pris (refill q p) s (p div 2)) (pris (refill q p) s j)"
      using g [of j] j e r [of "p div 2"] r [of j] by auto
  qed
qed

definition removed :: "('a, 's) pqueue_t \<Rightarrow> 's \<Rightarrow> 'a \<Rightarrow> ('a, 's) pqueue_t \<Rightarrow> 's \<Rightarrow> bool" where
  "removed q s x q' s' \<longleftrightarrow> q_ops q' = ops \<and> pq_ok q' s' \<and> frame s s' \<and> q_size q' = q_size q - 1 \<and> q_avail q' = q_avail q \<and>
     pq_items q' = pq_items q - {#x#} \<and> (pq_heap q s \<longrightarrow> pq_heap q' s')"

lemma refill_last:
  assumes "pq_ok q s" "q_ops q = ops" "0 < p" "p = q_size q - 1"
  shows "\<exists>q' s'. percolate_down (refill q p) s p = Some (q', s') \<and> removed q s (q_d q ! p) q' s'"
proof -
  have len: "p < length (q_d q)" using assms by (auto simp: pq_ok_def)
  have e: "(q_d q)[p := q_d q ! (q_size q - 1)] = q_d q" using assms(4) by simp
  have sh: "shaped (refill q p)" using assms by (auto simp: shaped_def pq_ok_def)
  have "percolate_down (refill q p) s p = Some (refill q p, setpos ops (q_d q ! p) p s)"
    using percolate_last [OF sh assms(3)] len e assms(4) by simp
  moreover have "getpos ops (setpos ops (q_d q ! p) p s) (q_d q ! j) = j" if "0 < j" "j < p" for j
  proof -
    have "getpos ops s (q_d q ! j) = j" "getpos ops s (q_d q ! p) = p"
      using assms that by (auto simp: pq_ok_def)
    then show ?thesis using that by (auto simp: getpos_setpos)
  qed
  then have "pq_ok (refill q p) (setpos ops (q_d q ! p) p s)"
    using assms e by (auto simp: pq_ok_def)
  moreover have "pq_items (refill q p) = pq_items q - {#q_d q ! p#}"
    by (rule refill_items [OF assms(1,3)]) (use assms in auto)
  moreover have "pq_heap (refill q p) (setpos ops (q_d q ! p) p s)" if "pq_heap q s"
  proof -
    have "getpri ops (setpos ops (q_d q ! p) p s) y = getpri ops s y" for y
      by (rule frame_pri [OF frame_setpos])
    then show ?thesis using that assms(2) e by (auto simp: pq_heap_def)
  qed
  ultimately show ?thesis using assms(2) frame_setpos by (auto simp: removed_def)
qed

lemma sifted_removed:
  assumes "sifted (refill q p) s q' s'" "pq_ok q s" "0 < p" "p < q_size q" "pq_heap q s \<longrightarrow> pq_heap q' s'"
  shows "removed q s (q_d q ! p) q' s'"
  using assms refill_items [OF assms(2-4)] by (simp add: sifted_def removed_def)

lemma removed_down:
  assumes "pq_ok q s" "q_ops q = ops" "0 < p" "p < q_size q"
    and "p = 1 \<or> \<not> cmppri ops (pris q s p) (pris q s (q_size q - 1))"
  shows "\<exists>q' s'. percolate_down (refill q p) s p = Some (q', s') \<and> removed q s (q_d q ! p) q' s'"
proof (cases "p = q_size q - 1")
  case True
  show ?thesis by (rule refill_last [OF assms(1-3) True])
next
  case False
  then have p: "p < q_size q - 1" using assms(4) by simp
  from percolate_down_ok [OF refill_ready(1) [OF assms(1-3) p] assms(3) _ refill_ready(2) [OF assms(1-3) p]] p
  obtain q' s' where r: "percolate_down (refill q p) s p = Some (q', s')" "sifted (refill q p) s q' s'"
    "heap_down (q_size q - 1) (pris (refill q p) s) p \<longrightarrow> pq_heap q' s'" by auto
  have "pq_heap q s \<longrightarrow> pq_heap q' s'" using r(3) refill_down [OF assms(1,2) _ assms(3) p assms(5)] by blast
  with r sifted_removed [OF r(2) assms(1,3,4)] show ?thesis by blast
qed

lemma removed_up:
  assumes "pq_ok q s" "q_ops q = ops" "0 < p" "p < q_size q"
    and "cmppri ops (pris q s p) (pris q s (q_size q - 1))"
  shows "\<exists>q' s'. bubble_up (refill q p) s p = Some (q', s') \<and> removed q s (q_d q ! p) q' s'"
proof -
  have "p \<noteq> q_size q - 1" using assms(5) cmp_irrefl by metis
  then have p: "p < q_size q - 1" using assms(4) by simp
  from bubble_up_ok [OF refill_ready(1) [OF assms(1-3) p] assms(3) _ refill_ready(2) [OF assms(1-3) p]] p
  obtain q' s' where r: "bubble_up (refill q p) s p = Some (q', s')" "sifted (refill q p) s q' s'"
    "heap_up (q_size q - 1) (pris (refill q p) s) p \<longrightarrow> pq_heap q' s'" by auto
  have "pq_heap q s \<longrightarrow> pq_heap q' s'" using r(3) refill_up [OF assms(1,2) _ assms(3) p assms(5)] by blast
  with r sifted_removed [OF r(2) assms(1,3,4)] show ?thesis by blast
qed

lemma remove_ok:
  assumes "pq_ok q s" "q_ops q = ops" "x \<in># pq_items q"
  shows "\<exists>q' s'. pqueue_remove q s x = Some (q', s') \<and> removed q s x q' s'"
proof -
  have sz: "0 < q_size q" "q_size q \<le> length (q_d q)" using assms(1) by (auto simp: pq_ok_def)
  from assms(3) obtain p where p: "0 < p" "p < q_size q" "q_d q ! p = x"
    using pq_items_slots(2) [OF sz] by auto
  then have pos: "getpos ops s x = p" using assms(1,2) by (auto simp: pq_ok_def)
  have "pqueue_remove q s x = (if cmppri ops (pris q s p) (pris q s (q_size q - 1))
      then bubble_up (refill q p) s p else percolate_down (refill q p) s p)"
    using sz p pos assms(2) by (simp add: pqueue_remove_def refill_def Let_def)
  then show ?thesis using removed_up [OF assms(1,2) p(1,2)] removed_down [OF assms(1,2) p(1,2)] p(3) by auto
qed

lemma pop_empty: "q_size q = 1 \<Longrightarrow> pqueue_pop q s = Some (None, q, s)"
  by (simp add: pqueue_pop_def)

lemma pop_ok:
  assumes "pq_ok q s" "q_ops q = ops" "q_size q \<noteq> 1"
  shows "\<exists>x q' s'. pqueue_pop q s = Some (Some x, q', s') \<and> x = q_d q ! 1 \<and> x \<in># pq_items q \<and> removed q s x q' s' \<and>
    (pq_heap q s \<longrightarrow> (\<forall>y\<in>#pq_items q. \<not> cmppri ops (getpri ops s x) (getpri ops s y)))"
proof -
  have sz: "0 < q_size q" "q_size q \<le> length (q_d q)" "1 < q_size q" using assms(1,3) by (auto simp: pq_ok_def)
  have "pqueue_pop q s = map_option (\<lambda>(q', s'). (Some (q_d q ! 1), q', s')) (percolate_down (refill q 1) s 1)"
    using sz assms(3) by (simp add: pqueue_pop_def refill_def map_option_case split: option.split)
  moreover from removed_down [OF assms(1,2) _ sz(3)] obtain q' s' where
    "percolate_down (refill q 1) s 1 = Some (q', s')" "removed q s (q_d q ! 1) q' s'" by auto
  moreover have "q_d q ! 1 \<in># pq_items q" using pq_items_slots(2) [OF sz(1,2)] sz(3) by auto
  moreover have "\<not> cmppri ops (getpri ops s (q_d q ! 1)) (getpri ops s y)" if h: "pq_heap q s" and y: "y \<in># pq_items q" for y
  proof -
    obtain j where "0 < j" "j < q_size q" "q_d q ! j = y" using y pq_items_slots(2) [OF sz(1,2)] by auto
    then show ?thesis using heap_min [of "q_size q" "pris q s" j] h pq_heap_iff [OF assms(2)] by auto
  qed
  ultimately show ?thesis by auto
qed

lemma peek_pop:
  assumes "pq_ok q s" "q_ops q = ops"
  shows "pqueue_peek q = map_option fst (pqueue_pop q s)"
proof (cases "q_size q = 1")
  case False
  with assms(1) have "1 < length (q_d q)" by (auto simp: pq_ok_def)
  with False pop_ok [OF assms False] show ?thesis by (auto simp: pqueue_peek_def)
qed (simp add: pqueue_peek_def pop_empty)

section \<open>Printing\<close>

text \<open>With setters that do nothing the slots are the same: the loops only read priorities.\<close>

lemma maxchild_quiet:
  "cmppri ops' = cmppri ops \<Longrightarrow> (\<And>x. getpri ops' s' x = getpri ops s x) \<Longrightarrow> maxchild ops' n d s' i = maxchild ops n d s i"
  by (simp add: maxchild_def Let_def)

lemma percolate_quiet:
  assumes "cmppri ops' = cmppri ops" "setpos ops' = set_pos" "\<And>x. getpri ops' s' x = getpri ops s x"
  shows "percolate_loop ops' n d s' i pri = map_option (\<lambda>(d1, s1, k). (d1, s', k)) (percolate_loop ops n d s i pri)"
  using assms(3)
proof (induction "n - i" arbitrary: d s i rule: less_induct)
  case less
  note m = maxchild_quiet [OF assms(1) less.prems, of n d i]
  show ?case
  proof (cases "maxchild ops n d s i")
    case None
    then show ?thesis using m by (simp add: percolate_loop.simps)
  next
    case (Some c)
    have IH: "percolate_loop ops' n d' s' c pri =
        map_option (\<lambda>(d1, s1, k). (d1, s', k)) (percolate_loop ops n d' (setpos ops x i s) c pri)"
      if "c \<noteq> 0" for d' x
      using maxchild_range [OF Some that] frame_pri [OF frame_setpos] less.prems
      by (intro less.hyps) auto
    show ?thesis
      using Some m IH less.prems assms(1,2)
      by (simp add: percolate_loop.simps [of ops'] percolate_loop.simps [of ops n d s i pri] set_pos_def split: option.split)
  qed
qed

lemma pop_quiet:
  assumes "cmppri ops' = cmppri ops" "setpos ops' = set_pos" "\<And>x. getpri ops' s' x = getpri ops s x" "q_ops q = ops"
  shows "pqueue_pop (q\<lparr>q_ops := ops', q_avail := a\<rparr>) s' =
    map_option (\<lambda>(e, q1, s1). (e, q1\<lparr>q_ops := ops', q_avail := a\<rparr>, s')) (pqueue_pop q s)"
  using percolate_quiet [OF assms(1-3)] assms
  by (auto simp: pqueue_pop_def percolate_down_def set_pos_def split: Option.bind_splits option.splits)

lemma print_loop_sorted:
  assumes "cmppri ops' = cmppri ops" "setpos ops' = set_pos"
    and "pq_ok q s" "pq_heap q s" "q_ops q = ops" "q_size q \<le> m" "\<And>x. getpri ops' s' x = getpri ops s x"
  shows "\<exists>es. print_loop m (q\<lparr>q_ops := ops', q_avail := a\<rparr>) s' = Some es \<and> mset es = pq_items q \<and>
    sorted_wrt (\<lambda>x y. \<not> cmppri ops (getpri ops s x) (getpri ops s y)) es"
  using assms(3-)
proof (induction m arbitrary: q s)
  case 0
  then show ?case by (simp add: pq_ok_def)
next
  case (Suc m)
  note quiet = pop_quiet [OF assms(1,2) Suc.prems(5,3), of a]
  show ?case
  proof (cases "q_size q = 1")
    case True
    then have "pq_items q = {#}" by (cases "q_d q") (simp_all add: pq_items_def)
    with True quiet show ?thesis by (simp add: pop_empty)
  next
    case False
    from pop_ok [OF Suc.prems(1,3) False] Suc.prems(2) obtain x q1 s1 where
      r: "pqueue_pop q s = Some (Some x, q1, s1)" "x \<in># pq_items q" "removed q s x q1 s1"
        "\<forall>y\<in>#pq_items q. \<not> cmppri ops (getpri ops s x) (getpri ops s y)" by auto
    have q1: "pq_ok q1 s1" "pq_heap q1 s1" "q_ops q1 = ops" "q_size q1 \<le> m" "pq_items q1 = pq_items q - {#x#}"
      using r(3) Suc.prems by (auto simp: removed_def)
    have "frame s s1" using r(3) by (simp add: removed_def)
    then have pri: "getpri ops s1 y = getpri ops s y" for y by (rule frame_pri)
    from Suc.IH [OF q1(1-4)] Suc.prems(5) pri obtain es where
      es: "print_loop m (q1\<lparr>q_ops := ops', q_avail := a\<rparr>) s' = Some es" "mset es = pq_items q1"
        "sorted_wrt (\<lambda>x y. \<not> cmppri ops (getpri ops s x) (getpri ops s y)) es" by auto
    have "print_loop (Suc m) (q\<lparr>q_ops := ops', q_avail := a\<rparr>) s' = Some (x # es)"
      using quiet r(1) es(1) by simp
    moreover have "mset (x # es) = pq_items q" using es(2) q1(5) r(2) by simp
    moreover have "\<not> cmppri ops (getpri ops s x) (getpri ops s y)" if "y \<in> set es" for y
    proof -
      have "y \<in># pq_items q" using that es(2) q1(5) by (metis in_diffD set_mset_mset)
      then show ?thesis using r(4) by blast
    qed
    ultimately show ?thesis using es(3) by auto
  qed
qed

lemma print_ok:
  assumes "pq_ok q s" "pq_heap q s" "q_ops q = ops"
  shows "\<exists>es. pqueue_print mem q s = Some es \<and> mset es = pq_items q \<and>
    sorted_wrt (\<lambda>x y. \<not> cmppri ops (getpri ops s x) (getpri ops s y)) es"
proof -
  let ?ops = "ops\<lparr>setpri := set_pri, setpos := set_pos\<rparr>" and ?n = "q_size q"
  let ?d = "take ?n (q_d q) @ drop ?n (map mem [0..<?n + 1])"
  let ?q = "q\<lparr>q_avail := length ?d, q_d := ?d\<rparr>"
  have len: "?n \<le> length (q_d q)" using assms(1) by (simp add: pq_ok_def)
  have same: "?d ! j = q_d q ! j" if "j < ?n" for j using that len by (simp add: nth_append)
  have tk: "take ?n ?d = take ?n (q_d q)" using len by simp
  have "pq_ok ?q s" using assms(1) same len by (auto simp: pq_ok_def)
  moreover have "pq_heap ?q s" using assms(2) same by (auto simp: pq_heap_def)
  moreover have "pq_items ?q = pq_items q" using tk by (simp add: pq_items_def)
  ultimately obtain es where es: "print_loop ?n (?q\<lparr>q_ops := ?ops, q_avail := q_avail q\<rparr>) s = Some es"
    "mset es = pq_items q" "sorted_wrt (\<lambda>x y. \<not> cmppri ops (getpri ops s x) (getpri ops s y)) es"
    using print_loop_sorted [of ?ops ?q s ?n s "q_avail q"] assms(3) by auto
  moreover have "pqueue_print mem q s = print_loop ?n (?q\<lparr>q_ops := ?ops, q_avail := q_avail q\<rparr>) s"
    using assms(3) by (cases q) (simp add: pqueue_print_def pqueue_init_def)
  ultimately show ?thesis by metis
qed

end

section \<open>Changing a priority\<close>

text \<open>For \<open>pqueue_change_priority\<close> the client's priorities must read back what was set, for the
  priorities that fit its field.\<close>

locale pq_priorities = pq_callbacks +
  fixes fits :: "u64 \<Rightarrow> bool"
  assumes getpri_setpri: "fits v \<Longrightarrow> getpri ops (setpri ops x v s) y = (if y = x then v else getpri ops s y)"
    and getpos_setpri: "getpos ops (setpri ops x v s) y = getpos ops s y"
begin

lemma change_heap:
  assumes "pq_heap q s" "q_ops q = ops" "0 < p" "p < q_size q"
    and other: "\<And>j. 0 < j \<Longrightarrow> j < q_size q \<Longrightarrow> j \<noteq> p \<Longrightarrow> h j = pris q s j"
  shows "cmppri ops (pris q s p) (h p) \<Longrightarrow> heap_up (q_size q) h p"
    and "\<not> cmppri ops (pris q s p) (h p) \<Longrightarrow> heap_down (q_size q) h p"
proof -
  let ?n = "q_size q" and ?h = "pris q s"
  have o: "\<not> cmppri ops (?h (j div 2)) (?h j)" if "2 \<le> j" "j < ?n" for j
    using assms(1,2) that by (simp add: pq_heap_def)
  have g: "\<not> cmppri ops (?h (p div 2)) (?h j)" if "2 \<le> j" "j < ?n" "j div 2 = p" "2 \<le> p" for j
    using o [OF that(1,2)] o [OF that(4) assms(4)] that(3) cmp_negtrans by metis
  have gh: "\<not> cmppri ops (h (p div 2)) (h j)" if "2 \<le> j" "j < ?n" "j div 2 = p" "2 \<le> p" for j
    using g [OF that] other [of j] other [of "p div 2"] that assms(4) by fastforce
  have far: "\<not> cmppri ops (h (j div 2)) (h j)" if "2 \<le> j" "j < ?n" "j \<noteq> p" "j div 2 \<noteq> p" for j
    using o [OF that(1,2)] other [of j] other [of "j div 2"] that by auto
  show "heap_up ?n h p" if c: "cmppri ops (?h p) (h p)"
  proof -
    have "\<not> cmppri ops (h p) (h j)" if "2 \<le> j" "j < ?n" "j div 2 = p" "j \<noteq> p" for j
    proof -
      have "h j = ?h j" using that by (intro other) auto
      then show ?thesis using o [OF that(1,2)] that(3) c cmp_trans by metis
    qed
    with far gh show ?thesis unfolding heap_up_def by metis
  qed
  show "heap_down ?n h p" if c: "\<not> cmppri ops (?h p) (h p)"
  proof -
    have "\<not> cmppri ops (h (p div 2)) (h p)" if "2 \<le> p"
    proof -
      have "\<not> cmppri ops (?h (p div 2)) (h p)" using o [OF that assms(4)] c by (rule cmp_negtrans)
      moreover have "h (p div 2) = ?h (p div 2)" using that assms(4) by (intro other) auto
      ultimately show ?thesis by simp
    qed
    with far gh show ?thesis unfolding heap_down_def by metis
  qed
qed

lemma change_priority_ok:
  assumes "pq_ok q s" "q_ops q = ops" "x \<in># pq_items q" "fits v"
  shows "\<exists>q' s'. pqueue_change_priority q s v x = Some (q', s') \<and> q_ops q' = ops \<and> pq_ok q' s' \<and>
    pq_items q' = pq_items q \<and> getpri ops s' x = v \<and> (\<forall>y. y \<noteq> x \<longrightarrow> getpri ops s' y = getpri ops s y) \<and>
    (pq_heap q s \<longrightarrow> pq_heap q' s')"
proof -
  let ?s = "setpri ops x v s"
  have sz: "0 < q_size q" "q_size q \<le> length (q_d q)" using assms(1) by (auto simp: pq_ok_def)
  from assms(3) obtain p where p: "0 < p" "p < q_size q" "q_d q ! p = x"
    using pq_items_slots(2) [OF sz] by auto
  then have pos: "getpos ops ?s x = p" using assms(1,2) by (auto simp: pq_ok_def getpos_setpri)
  have ok: "pq_ok q ?s" using assms(1,2) by (simp add: pq_ok_def getpos_setpri)
  have ne: "q_d q ! j \<noteq> x" if "0 < j" "j < q_size q" "j \<noteq> p" for j
    using assms(1) p that unfolding pq_ok_def by metis
  have h: "pris q ?s j = pris q s j" if "0 < j" "j < q_size q" "j \<noteq> p" for j
    using ne [OF that] assms(4) by (simp add: getpri_setpri)
  have hp: "pris q ?s p = v" using p assms(4) by (simp add: getpri_setpri)
  note pl = placed_but_ok [OF ok assms(2) p(1,2)]
  note sh = ok_shaped [OF ok assms(2)]
  have "\<exists>q' s'. pqueue_change_priority q s v x = Some (q', s') \<and> sifted q ?s q' s' \<and> (pq_heap q s \<longrightarrow> pq_heap q' s')"
  proof (cases "cmppri ops (getpri ops s x) v")
    case True
    then have "pq_heap q s \<longrightarrow> heap_up (q_size q) (pris q ?s) p"
      using change_heap(1) [OF _ assms(2) p(1,2) h] hp p(3) by auto
    moreover have "pqueue_change_priority q s v x = bubble_up q ?s p"
      using True pos assms(2) by (simp add: pqueue_change_priority_def Let_def)
    ultimately show ?thesis using bubble_up_ok [OF sh p(1,2) pl] by auto
  next
    case False
    then have "pq_heap q s \<longrightarrow> heap_down (q_size q) (pris q ?s) p"
      using change_heap(2) [OF _ assms(2) p(1,2) h] hp p(3) by auto
    moreover have "pqueue_change_priority q s v x = percolate_down q ?s p"
      using False pos assms(2) by (simp add: pqueue_change_priority_def Let_def)
    ultimately show ?thesis using percolate_down_ok [OF sh p(1,2) pl] by auto
  qed
  then obtain q' s' where r: "pqueue_change_priority q s v x = Some (q', s')" "sifted q ?s q' s'"
    "pq_heap q s \<longrightarrow> pq_heap q' s'" by blast
  have "getpri ops s' y = getpri ops ?s y" for y
    by (rule frame_pri) (use r(2) in \<open>simp add: sifted_def\<close>)
  with r assms(4) show ?thesis by (auto simp: sifted_def getpri_setpri)
qed

end

section \<open>The validity check\<close>

definition slot_valid :: "('a, 's) pqueue_t \<Rightarrow> 's \<Rightarrow> nat \<Rightarrow> bool" where
  "slot_valid q s j \<longleftrightarrow>
     \<not> cmppri (q_ops q) (getpri (q_ops q) s (q_d q ! (j div 2))) (getpri (q_ops q) s (q_d q ! j))"

definition below_valid :: "('a, 's) pqueue_t \<Rightarrow> 's \<Rightarrow> nat \<Rightarrow> bool" where
  "below_valid q s pos \<longleftrightarrow> (\<forall>j k. j < q_size q \<and> j div 2 ^ Suc k = pos \<longrightarrow> slot_valid q s j)"

lemma below_valid_step:
  assumes "0 < pos"
  shows "below_valid q s pos \<longleftrightarrow>
    (2 * pos < q_size q \<longrightarrow> slot_valid q s (2 * pos) \<and> below_valid q s (2 * pos)) \<and>
    (2 * pos + 1 < q_size q \<longrightarrow> slot_valid q s (2 * pos + 1) \<and> below_valid q s (2 * pos + 1))"
    (is "_ \<longleftrightarrow> ?R")
proof
  assume l: "below_valid q s pos"
  have "slot_valid q s j" if "j < q_size q" "j div 2 ^ Suc k = 2 * pos \<or> j div 2 ^ Suc k = 2 * pos + 1" for j k
  proof -
    have "j div 2 ^ Suc (Suc k) = j div 2 ^ Suc k div 2" by (metis div_mult2_eq power_Suc2)
    then have "j div 2 ^ Suc (Suc k) = pos" using that(2) by auto
    with l that(1) show ?thesis unfolding below_valid_def by blast
  qed
  moreover have "slot_valid q s j" if "j < q_size q" "j = 2 * pos \<or> j = 2 * pos + 1" for j
  proof -
    have "j div 2 ^ Suc 0 = pos" using that(2) by auto
    with l that(1) show ?thesis unfolding below_valid_def by blast
  qed
  ultimately show ?R unfolding below_valid_def by blast
next
  assume r: ?R
  show "below_valid q s pos" unfolding below_valid_def
  proof (intro allI impI)
    fix j k assume j: "j < q_size q \<and> j div 2 ^ Suc k = pos"
    show "slot_valid q s j"
    proof (cases k)
      case 0
      then have "j = 2 * pos \<or> j = 2 * pos + 1" using j by auto
      then show ?thesis using r j by auto
    next
      case (Suc m)
      let ?c = "j div 2 ^ Suc m"
      have "?c div 2 = pos" using j Suc by (metis div_mult2_eq power_Suc2)
      then have c: "?c = 2 * pos \<or> ?c = 2 * pos + 1" by auto
      have "?c < q_size q" using j by (meson div_le_dividend le_less_trans)
      with c r have "below_valid q s ?c" by auto
      then show ?thesis using j unfolding below_valid_def by blast
    qed
  qed
qed

lemma subtree_is_valid_iff:
  "0 < pos \<Longrightarrow> q_size q \<le> length (q_d q) \<Longrightarrow> subtree_is_valid q s pos = Some (below_valid q s pos)"
proof (induction q s pos rule: subtree_is_valid.induct)
  case (1 q s pos)
  then show ?case
    by (subst subtree_is_valid.simps, subst below_valid_step) (auto simp: slot_valid_def)
qed

lemma below_root: "below_valid q s 1 \<longleftrightarrow> pq_heap q s"
proof -
  have "\<exists>k. j div 2 ^ Suc k = 1" if "2 \<le> j" for j :: nat
    using that
  proof (induction j rule: less_induct)
    case (less j)
    show ?case
    proof (cases "j div 2 = 1")
      case True
      then have "j div 2 ^ Suc 0 = 1" by simp
      then show ?thesis ..
    next
      case False
      with less obtain k where "j div 2 div 2 ^ Suc k = 1" by fastforce
      then have "j div 2 ^ Suc (Suc k) = 1" by (metis div_mult2_eq power_Suc)
      then show ?thesis ..
    qed
  qed
  moreover have "2 \<le> j" if "j div 2 ^ Suc k = 1" for j k :: nat
  proof (rule ccontr)
    assume "\<not> 2 \<le> j"
    moreover have "(2::nat) \<le> 2 ^ Suc k" by simp
    ultimately have "j < 2 ^ Suc k" by linarith
    with that show False by simp
  qed
  ultimately show ?thesis unfolding below_valid_def pq_heap_def slot_valid_def by metis
qed

end
