(* ===== verification/Ftl.thy ===== *)
theory Ftl
  imports Pqueue
begin

text \<open>
  The flash translation layer of the emulated black-box SSD, \<open>femu/bbssd/ftl.c\<close>: the page map
  and its inverse, the lines (one block of every LUN), the write pointer, garbage collection
  and the latency accounting.

  The nested arrays of channels, LUNs, planes, blocks and pages are functions of their indices
  with the bounds of the parameters written out at every access.  A \<open>struct line *\<close> is the index
  of the line in \<open>lm.lines\<close>.  The tail queues are lists of such indices; removing a line that is
  not in the queue dereferences a null pointer and is \<^const>\<open>None\<close>.  \<open>clock\<close> holds the readings of
  the real-time clock still to come, \<open>alloc_ok\<close> whether a \<open>realloc\<close> succeeds.  Counters of type
  \<open>int\<close> are integers; sizes and indices are natural numbers.  The assertions of \<open>ftl_assert\<close> are
  compiled out and are not part of the operations.
\<close>

section \<open>Physical page addresses\<close>

text \<open>\<open>struct ppa\<close> is a 64-bit word with bit fields, allocated from the low end.\<close>

definition BLK_BITS :: nat where "BLK_BITS = 16"
definition PG_BITS :: nat where "PG_BITS = 16"
definition SEC_BITS :: nat where "SEC_BITS = 8"
definition PL_BITS :: nat where "PL_BITS = 8"
definition LUN_BITS :: nat where "LUN_BITS = 8"
definition CH_BITS :: nat where "CH_BITS = 7"

definition INVALID_LPN :: u64 where "INVALID_LPN = NOT 0"
definition UNMAPPED_PPA :: u64 where "UNMAPPED_PPA = NOT 0"

definition get_bits :: "nat \<Rightarrow> nat \<Rightarrow> u64 \<Rightarrow> nat" where
  "get_bits off len w = unat (take_bit len (drop_bit off w))"

definition put_bits :: "nat \<Rightarrow> nat \<Rightarrow> nat \<Rightarrow> u64 \<Rightarrow> u64" where
  "put_bits off len v w =
     (w AND NOT (push_bit off (mask len))) OR push_bit off (take_bit len (of_nat v))"

definition ppa_blk :: "u64 \<Rightarrow> nat" where "ppa_blk = get_bits 0 BLK_BITS"
definition ppa_pg :: "u64 \<Rightarrow> nat" where "ppa_pg = get_bits BLK_BITS PG_BITS"
definition ppa_sec :: "u64 \<Rightarrow> nat" where "ppa_sec = get_bits (BLK_BITS + PG_BITS) SEC_BITS"
definition ppa_pl :: "u64 \<Rightarrow> nat" where "ppa_pl = get_bits (BLK_BITS + PG_BITS + SEC_BITS) PL_BITS"
definition ppa_lun :: "u64 \<Rightarrow> nat" where
  "ppa_lun = get_bits (BLK_BITS + PG_BITS + SEC_BITS + PL_BITS) LUN_BITS"
definition ppa_ch :: "u64 \<Rightarrow> nat" where
  "ppa_ch = get_bits (BLK_BITS + PG_BITS + SEC_BITS + PL_BITS + LUN_BITS) CH_BITS"

definition set_blk :: "nat \<Rightarrow> u64 \<Rightarrow> u64" where "set_blk = put_bits 0 BLK_BITS"
definition set_pg :: "nat \<Rightarrow> u64 \<Rightarrow> u64" where "set_pg = put_bits BLK_BITS PG_BITS"
definition set_pl :: "nat \<Rightarrow> u64 \<Rightarrow> u64" where "set_pl = put_bits (BLK_BITS + PG_BITS + SEC_BITS) PL_BITS"
definition set_lun :: "nat \<Rightarrow> u64 \<Rightarrow> u64" where
  "set_lun = put_bits (BLK_BITS + PG_BITS + SEC_BITS + PL_BITS) LUN_BITS"
definition set_ch :: "nat \<Rightarrow> u64 \<Rightarrow> u64" where
  "set_ch = put_bits (BLK_BITS + PG_BITS + SEC_BITS + PL_BITS + LUN_BITS) CH_BITS"

section \<open>Data\<close>

datatype pg_status = PG_FREE | PG_INVALID | PG_VALID

definition NAND_READ :: nat where "NAND_READ = 0"
definition NAND_WRITE :: nat where "NAND_WRITE = 1"
definition NAND_ERASE :: nat where "NAND_ERASE = 2"
definition NAND_READ_LATENCY :: nat where "NAND_READ_LATENCY = 40000"
definition NAND_PROG_LATENCY :: nat where "NAND_PROG_LATENCY = 200000"
definition NAND_ERASE_LATENCY :: nat where "NAND_ERASE_LATENCY = 2000000"
definition USER_IO :: nat where "USER_IO = 0"
definition GC_IO :: nat where "GC_IO = 1"

record nand_page =
  pg_sec :: "pg_status list"
  pg_nsecs :: nat
  pg_stat :: pg_status

record nand_block =
  b_pg :: "nand_page list"
  b_npgs :: nat
  b_ipc :: int
  b_vpc :: int
  b_erase_cnt :: int
  b_wp :: int

record nand_lun =
  next_lun_avail_time :: u64
  lun_busy :: bool
  lun_gc_endtime :: u64

record ssd_channel =
  next_ch_avail_time :: u64
  ch_busy :: bool
  ch_gc_endtime :: u64

record ssdparams =
  secsz :: nat
  secs_per_pg :: nat
  pgs_per_blk :: nat
  blks_per_pl :: nat
  pls_per_lun :: nat
  luns_per_ch :: nat
  nchs :: nat
  pg_rd_lat :: nat
  pg_wr_lat :: nat
  blk_er_lat :: nat
  ch_xfer_lat :: nat
  gc_thres_pcent :: nat
  gc_thres_lines :: nat
  gc_thres_pcent_high :: nat
  gc_thres_lines_high :: nat
  enable_gc_delay :: bool
  secs_per_blk :: nat
  secs_per_pl :: nat
  secs_per_lun :: nat
  secs_per_ch :: nat
  tt_secs :: nat
  pgs_per_pl :: nat
  pgs_per_lun :: nat
  pgs_per_ch :: nat
  tt_pgs :: nat
  blks_per_lun :: nat
  blks_per_ch :: nat
  tt_blks :: nat
  secs_per_line :: nat
  pgs_per_line :: nat
  blks_per_line :: nat
  tt_lines :: nat
  pls_per_ch :: nat
  tt_pls :: nat
  tt_luns :: nat

record line =
  l_id :: nat
  l_ipc :: int
  l_vpc :: int
  l_pos :: nat

type_synonym lines = "nat \<Rightarrow> line"

record write_pointer =
  curline :: nat
  wp_ch :: nat
  wp_lun :: nat
  wp_pg :: nat
  wp_blk :: nat
  wp_pl :: nat

record line_mgmt =
  lm_lines :: lines
  free_line_list :: "nat list"
  victim_line_pq :: "(nat, lines) pqueue_t"
  full_line_list :: "nat list"
  lm_tt_lines :: nat
  free_line_cnt :: int
  victim_line_cnt :: int
  full_line_cnt :: int

record ssd =
  sp :: ssdparams
  chs :: "nat \<Rightarrow> ssd_channel"
  luns :: "nat \<times> nat \<Rightarrow> nand_lun"
  blocks :: "nat \<times> nat \<times> nat \<times> nat \<Rightarrow> nand_block"
  maptbl :: "u64 list"
  rmap :: "u64 list"
  wp :: write_pointer
  lm :: line_mgmt
  clock :: "nat \<Rightarrow> u64"
  alloc_ok :: bool

record nand_cmd =
  nc_type :: nat
  nc_cmd :: nat
  nc_stime :: u64

section \<open>Tables\<close>

definition should_gc :: "ssd \<Rightarrow> bool" where
  "should_gc s \<longleftrightarrow> free_line_cnt (lm s) \<le> int (gc_thres_lines (sp s))"

definition should_gc_high :: "ssd \<Rightarrow> bool" where
  "should_gc_high s \<longleftrightarrow> free_line_cnt (lm s) \<le> int (gc_thres_lines_high (sp s))"

definition get_maptbl_ent :: "ssd \<Rightarrow> u64 \<Rightarrow> u64 option" where
  "get_maptbl_ent s lpn = aget (maptbl s) (unat lpn)"

definition set_maptbl_ent :: "ssd \<Rightarrow> u64 \<Rightarrow> u64 \<Rightarrow> ssd option" where
  "set_maptbl_ent s lpn ppa = do { t \<leftarrow> aset (maptbl s) (unat lpn) ppa; Some (s\<lparr>maptbl := t\<rparr>) }"

definition ppa2pgidx :: "ssdparams \<Rightarrow> u64 \<Rightarrow> nat" where
  "ppa2pgidx spp ppa = ppa_ch ppa * pgs_per_ch spp + ppa_lun ppa * pgs_per_lun spp +
     ppa_pl ppa * pgs_per_pl spp + ppa_blk ppa * pgs_per_blk spp + ppa_pg ppa"

definition get_rmap_ent :: "ssd \<Rightarrow> u64 \<Rightarrow> u64 option" where
  "get_rmap_ent s ppa = aget (rmap s) (ppa2pgidx (sp s) ppa)"

definition set_rmap_ent :: "ssd \<Rightarrow> u64 \<Rightarrow> u64 \<Rightarrow> ssd option" where
  "set_rmap_ent s lpn ppa = do { t \<leftarrow> aset (rmap s) (ppa2pgidx (sp s) ppa) lpn; Some (s\<lparr>rmap := t\<rparr>) }"

section \<open>The callbacks of the victim queue\<close>

definition victim_line_cmp_pri :: "u64 \<Rightarrow> u64 \<Rightarrow> bool" where
  "victim_line_cmp_pri next cur \<longleftrightarrow> next > cur"

definition victim_line_get_pri :: "lines \<Rightarrow> nat \<Rightarrow> u64" where
  "victim_line_get_pri ls a = word_of_int (l_vpc (ls a))"

definition victim_line_set_pri :: "nat \<Rightarrow> u64 \<Rightarrow> lines \<Rightarrow> lines" where
  "victim_line_set_pri a pri ls = ls(a := (ls a)\<lparr>l_vpc := sint (ucast pri :: 32 word)\<rparr>)"

definition victim_line_get_pos :: "lines \<Rightarrow> nat \<Rightarrow> nat" where
  "victim_line_get_pos ls a = l_pos (ls a)"

definition victim_line_set_pos :: "nat \<Rightarrow> nat \<Rightarrow> lines \<Rightarrow> lines" where
  "victim_line_set_pos a pos ls = ls(a := (ls a)\<lparr>l_pos := pos\<rparr>)"

definition victim_ops :: "(nat, lines) pq_ops" where
  "victim_ops = \<lparr>cmppri = victim_line_cmp_pri, getpri = victim_line_get_pri, setpri = victim_line_set_pri,
     getpos = victim_line_get_pos, setpos = victim_line_set_pos\<rparr>"

section \<open>Initialisation\<close>

definition ssd_init_lines :: "(nat \<Rightarrow> nat) \<Rightarrow> ssdparams \<Rightarrow> line_mgmt option" where
  "ssd_init_lines mem spp = do {
     q \<leftarrow> pqueue_init True mem (tt_lines spp) victim_ops;
     Some \<lparr>lm_lines = (\<lambda>i. \<lparr>l_id = (if i < blks_per_pl spp then i else 0), l_ipc = 0, l_vpc = 0, l_pos = 0\<rparr>),
       free_line_list = [0..<blks_per_pl spp], victim_line_pq = q, full_line_list = [],
       lm_tt_lines = blks_per_pl spp, free_line_cnt = int (blks_per_pl spp),
       victim_line_cnt = 0, full_line_cnt = 0\<rparr> }"

definition ssd_init_write_pointer :: "line_mgmt \<Rightarrow> (write_pointer \<times> line_mgmt) option" where
  "ssd_init_write_pointer m =
     (case free_line_list m of
        [] \<Rightarrow> None
      | c # rest \<Rightarrow> Some (\<lparr>curline = c, wp_ch = 0, wp_lun = 0, wp_pg = 0, wp_blk = 0, wp_pl = 0\<rparr>,
          m\<lparr>free_line_list := rest, free_line_cnt := free_line_cnt m - 1\<rparr>))"

text \<open>The thresholds are the truncations of \<open>(1 - 0.75) * tt_lines\<close> and \<open>(1 - 0.95) * tt_lines\<close>; the
  fractions are kept as percentages, which gives the same integers.\<close>

definition ssd_init_params :: ssdparams where
  "ssd_init_params =
     (let secs_pg = 8; pgs_blk = 256; blks_pl = 256; pls_lun = 1; luns_ch = 8; chs_n = 8;
          secs_blk = secs_pg * pgs_blk; secs_pl = secs_blk * blks_pl; secs_lun = secs_pl * pls_lun;
          secs_ch = secs_lun * luns_ch;
          pgs_pl = pgs_blk * blks_pl; pgs_lun = pgs_pl * pls_lun; pgs_ch = pgs_lun * luns_ch;
          blks_lun = blks_pl * pls_lun; blks_ch = blks_lun * luns_ch;
          pls_ch = pls_lun * luns_ch; luns_n = luns_ch * chs_n;
          blks_line = luns_n; pgs_line = blks_line * pgs_blk
      in \<lparr>secsz = 512, secs_per_pg = secs_pg, pgs_per_blk = pgs_blk, blks_per_pl = blks_pl,
          pls_per_lun = pls_lun, luns_per_ch = luns_ch, nchs = chs_n,
          pg_rd_lat = NAND_READ_LATENCY, pg_wr_lat = NAND_PROG_LATENCY, blk_er_lat = NAND_ERASE_LATENCY,
          ch_xfer_lat = 0,
          gc_thres_pcent = 75, gc_thres_lines = (100 - 75) * blks_lun div 100,
          gc_thres_pcent_high = 95, gc_thres_lines_high = (100 - 95) * blks_lun div 100,
          enable_gc_delay = True,
          secs_per_blk = secs_blk, secs_per_pl = secs_pl, secs_per_lun = secs_lun,
          secs_per_ch = secs_ch, tt_secs = secs_ch * chs_n,
          pgs_per_pl = pgs_pl, pgs_per_lun = pgs_lun, pgs_per_ch = pgs_ch, tt_pgs = pgs_ch * chs_n,
          blks_per_lun = blks_lun, blks_per_ch = blks_ch, tt_blks = blks_ch * chs_n,
          secs_per_line = pgs_line * secs_pg, pgs_per_line = pgs_line, blks_per_line = blks_line,
          tt_lines = blks_lun,
          pls_per_ch = pls_ch, tt_pls = pls_ch * chs_n, tt_luns = luns_n\<rparr>)"

definition ssd_init_nand_page :: "ssdparams \<Rightarrow> nand_page" where
  "ssd_init_nand_page spp =
     \<lparr>pg_sec = replicate (secs_per_pg spp) PG_FREE, pg_nsecs = secs_per_pg spp, pg_stat = PG_FREE\<rparr>"

definition ssd_init_nand_blk :: "ssdparams \<Rightarrow> nand_block" where
  "ssd_init_nand_blk spp =
     \<lparr>b_pg = replicate (pgs_per_blk spp) (ssd_init_nand_page spp), b_npgs = pgs_per_blk spp,
      b_ipc = 0, b_vpc = 0, b_erase_cnt = 0, b_wp = 0\<rparr>"

definition ssd_init_nand_lun :: nand_lun where
  "ssd_init_nand_lun = \<lparr>next_lun_avail_time = 0, lun_busy = False, lun_gc_endtime = 0\<rparr>"

definition ssd_init_ch :: ssd_channel where
  "ssd_init_ch = \<lparr>next_ch_avail_time = 0, ch_busy = False, ch_gc_endtime = 0\<rparr>"

definition ssd_init_maptbl :: "ssdparams \<Rightarrow> u64 list" where
  "ssd_init_maptbl spp = replicate (tt_pgs spp) UNMAPPED_PPA"

definition ssd_init_rmap :: "ssdparams \<Rightarrow> u64 list" where
  "ssd_init_rmap spp = replicate (tt_pgs spp) INVALID_LPN"

definition ssd_layout :: "(nat \<Rightarrow> nat) \<Rightarrow> (nat \<Rightarrow> u64) \<Rightarrow> bool \<Rightarrow> ssdparams \<Rightarrow> ssd option" where
  "ssd_layout mem clk ok spp = do {
     m \<leftarrow> ssd_init_lines mem spp;
     (w, m') \<leftarrow> ssd_init_write_pointer m;
     Some \<lparr>sp = spp, chs = (\<lambda>_. ssd_init_ch), luns = (\<lambda>_. ssd_init_nand_lun),
       blocks = (\<lambda>_. ssd_init_nand_blk spp), maptbl = ssd_init_maptbl spp, rmap = ssd_init_rmap spp,
       wp = w, lm = m', clock = clk, alloc_ok = ok\<rparr> }"

definition ssd_init :: "(nat \<Rightarrow> nat) \<Rightarrow> (nat \<Rightarrow> u64) \<Rightarrow> bool \<Rightarrow> ssd option" where
  "ssd_init mem clk ok = ssd_layout mem clk ok ssd_init_params"

section \<open>The write pointer\<close>

definition get_next_free_line :: "line_mgmt \<Rightarrow> nat option \<times> line_mgmt" where
  "get_next_free_line m =
     (case free_line_list m of
        [] \<Rightarrow> (None, m)
      | c # rest \<Rightarrow> (Some c, m\<lparr>free_line_list := rest, free_line_cnt := free_line_cnt m - 1\<rparr>))"

definition insert_victim :: "ssd \<Rightarrow> nat \<Rightarrow> ssd option" where
  "insert_victim s l = do {
     (_, q, ls) \<leftarrow> pqueue_insert (alloc_ok s) (\<lambda>_. 0) (victim_line_pq (lm s)) (lm_lines (lm s)) l;
     Some (s\<lparr>lm := (lm s)\<lparr>victim_line_pq := q, lm_lines := ls, victim_line_cnt := victim_line_cnt (lm s) + 1\<rparr>\<rparr>) }"

definition retire_line :: "ssd \<Rightarrow> nat \<Rightarrow> ssd option" where
  "retire_line s l =
     (if l_vpc (lm_lines (lm s) l) = int (pgs_per_line (sp s)) then
        Some (s\<lparr>lm := (lm s)\<lparr>full_line_list := full_line_list (lm s) @ [l], full_line_cnt := full_line_cnt (lm s) + 1\<rparr>\<rparr>)
      else insert_victim s l)"

definition ssd_advance_write_pointer :: "ssd \<Rightarrow> ssd option" where
  "ssd_advance_write_pointer s =
     (let w = wp s in
      if wp_ch w + 1 \<noteq> nchs (sp s) then Some (s\<lparr>wp := w\<lparr>wp_ch := wp_ch w + 1\<rparr>\<rparr>)
      else if wp_lun w + 1 \<noteq> luns_per_ch (sp s) then
        Some (s\<lparr>wp := w\<lparr>wp_ch := 0, wp_lun := wp_lun w + 1\<rparr>\<rparr>)
      else if wp_pg w + 1 \<noteq> pgs_per_blk (sp s) then
        Some (s\<lparr>wp := w\<lparr>wp_ch := 0, wp_lun := 0, wp_pg := wp_pg w + 1\<rparr>\<rparr>)
      else do {
        s1 \<leftarrow> retire_line s (curline w);
        (case get_next_free_line (lm s1) of
           (None, _) \<Rightarrow> None
         | (Some c, m) \<Rightarrow> Some (s1\<lparr>lm := m,
             wp := w\<lparr>wp_ch := 0, wp_lun := 0, wp_pg := 0, curline := c, wp_blk := l_id (lm_lines m c)\<rparr>\<rparr>)) })"

definition get_new_page :: "write_pointer \<Rightarrow> u64" where
  "get_new_page w = set_pl (wp_pl w) (set_blk (wp_blk w) (set_pg (wp_pg w) (set_lun (wp_lun w) (set_ch (wp_ch w) 0))))"

section \<open>Access paths\<close>

definition valid_ppa :: "ssdparams \<Rightarrow> u64 \<Rightarrow> bool" where
  "valid_ppa spp ppa \<longleftrightarrow> ppa_ch ppa < nchs spp \<and> ppa_lun ppa < luns_per_ch spp \<and> ppa_pl ppa < pls_per_lun spp \<and>
     ppa_blk ppa < blks_per_pl spp \<and> ppa_pg ppa < pgs_per_blk spp \<and> ppa_sec ppa < secs_per_pg spp"

definition valid_lpn :: "ssdparams \<Rightarrow> u64 \<Rightarrow> bool" where
  "valid_lpn spp lpn \<longleftrightarrow> unat lpn < tt_pgs spp"

definition mapped_ppa :: "u64 \<Rightarrow> bool" where
  "mapped_ppa ppa \<longleftrightarrow> ppa \<noteq> UNMAPPED_PPA"

definition get_lun :: "ssd \<Rightarrow> u64 \<Rightarrow> (nat \<times> nat) option" where
  "get_lun s ppa =
     (if ppa_ch ppa < nchs (sp s) \<and> ppa_lun ppa < luns_per_ch (sp s) then Some (ppa_ch ppa, ppa_lun ppa) else None)"

definition get_blk :: "ssd \<Rightarrow> u64 \<Rightarrow> (nat \<times> nat \<times> nat \<times> nat) option" where
  "get_blk s ppa =
     (if ppa_ch ppa < nchs (sp s) \<and> ppa_lun ppa < luns_per_ch (sp s) \<and> ppa_pl ppa < pls_per_lun (sp s) \<and>
         ppa_blk ppa < blks_per_pl (sp s)
      then Some (ppa_ch ppa, ppa_lun ppa, ppa_pl ppa, ppa_blk ppa) else None)"

definition get_line :: "ssd \<Rightarrow> u64 \<Rightarrow> nat option" where
  "get_line s ppa = (if ppa_blk ppa < lm_tt_lines (lm s) then Some (ppa_blk ppa) else None)"

definition get_pg :: "ssd \<Rightarrow> u64 \<Rightarrow> nand_page option" where
  "get_pg s ppa = do { k \<leftarrow> get_blk s ppa; aget (b_pg (blocks s k)) (ppa_pg ppa) }"

definition set_pg_status :: "nat \<Rightarrow> pg_status \<Rightarrow> nand_block \<Rightarrow> nand_block option" where
  "set_pg_status i st b = do {
     p \<leftarrow> aget (b_pg b) i;
     pgs \<leftarrow> aset (b_pg b) i (p\<lparr>pg_stat := st\<rparr>);
     Some (b\<lparr>b_pg := pgs\<rparr>) }"

section \<open>Latencies\<close>

definition clock_get_ns :: "ssd \<Rightarrow> u64 \<times> ssd" where
  "clock_get_ns s = (clock s 0, s\<lparr>clock := (\<lambda>i. clock s (Suc i))\<rparr>)"

definition ssd_advance_status :: "ssd \<Rightarrow> u64 \<Rightarrow> nand_cmd \<Rightarrow> (u64 \<times> ssd) option" where
  "ssd_advance_status s ppa ncmd =
     (let (cmd_stime, s1) = (if nc_stime ncmd = 0 then clock_get_ns s else (nc_stime ncmd, s))
      in do {
        k \<leftarrow> get_lun s1 ppa;
        (let lun = luns s1 k;
             nand_stime = (if next_lun_avail_time lun < cmd_stime then cmd_stime else next_lun_avail_time lun)
         in if nc_cmd ncmd = NAND_READ \<or> nc_cmd ncmd = NAND_WRITE \<or> nc_cmd ncmd = NAND_ERASE then
              (let op_lat = (if nc_cmd ncmd = NAND_READ then pg_rd_lat (sp s1)
                             else if nc_cmd ncmd = NAND_WRITE then pg_wr_lat (sp s1) else blk_er_lat (sp s1));
                   avail = nand_stime + of_nat op_lat
               in Some (avail - cmd_stime, s1\<lparr>luns := (luns s1)(k := lun\<lparr>next_lun_avail_time := avail\<rparr>)\<rparr>))
            else Some (0, s1)) })"

section \<open>Page and block states\<close>

definition mark_page_invalid :: "ssd \<Rightarrow> u64 \<Rightarrow> ssd option" where
  "mark_page_invalid s ppa = do {
     k \<leftarrow> get_blk s ppa;
     b \<leftarrow> set_pg_status (ppa_pg ppa) PG_INVALID (blocks s k);
     l \<leftarrow> get_line s ppa;
     (let s1 = s\<lparr>blocks := (blocks s)(k := b\<lparr>b_ipc := b_ipc b + 1, b_vpc := b_vpc b - 1\<rparr>)\<rparr>;
          ln = lm_lines (lm s) l;
          was_full_line = (l_vpc ln = int (pgs_per_line (sp s)));
          ls = (lm_lines (lm s))(l := ln\<lparr>l_ipc := l_ipc ln + 1, l_vpc := l_vpc ln - 1\<rparr>);
          s2 = s1\<lparr>lm := (lm s)\<lparr>lm_lines := ls\<rparr>\<rparr>
      in if was_full_line then do {
           full \<leftarrow> qtailq_remove l (full_line_list (lm s2));
           insert_victim (s2\<lparr>lm := (lm s2)\<lparr>full_line_list := full, full_line_cnt := full_line_cnt (lm s2) - 1\<rparr>\<rparr>) l }
         else Some s2) }"

definition mark_page_valid :: "ssd \<Rightarrow> u64 \<Rightarrow> ssd option" where
  "mark_page_valid s ppa = do {
     k \<leftarrow> get_blk s ppa;
     b \<leftarrow> set_pg_status (ppa_pg ppa) PG_VALID (blocks s k);
     l \<leftarrow> get_line s ppa;
     (let ln = lm_lines (lm s) l
      in Some (s\<lparr>blocks := (blocks s)(k := b\<lparr>b_vpc := b_vpc b + 1\<rparr>),
           lm := (lm s)\<lparr>lm_lines := (lm_lines (lm s))(l := ln\<lparr>l_vpc := l_vpc ln + 1\<rparr>)\<rparr>\<rparr>)) }"

definition mark_block_free :: "ssd \<Rightarrow> u64 \<Rightarrow> ssd option" where
  "mark_block_free s ppa = do {
     k \<leftarrow> get_blk s ppa;
     b \<leftarrow> ofold (\<lambda>i. set_pg_status i PG_FREE) [0..<pgs_per_blk (sp s)] (blocks s k);
     Some (s\<lparr>blocks := (blocks s)(k := b\<lparr>b_ipc := 0, b_vpc := 0, b_erase_cnt := b_erase_cnt b + 1\<rparr>)\<rparr>) }"

text \<open>The steps that \<open>ssd_write\<close> and \<open>gc_write_page\<close> share: take the page of the write pointer,
  map it in both tables, mark it valid and advance the write pointer.\<close>

definition program_page :: "ssd \<Rightarrow> u64 \<Rightarrow> (u64 \<times> ssd) option" where
  "program_page s lpn =
     (let ppa = get_new_page (wp s) in do {
        s1 \<leftarrow> set_maptbl_ent s lpn ppa;
        s2 \<leftarrow> set_rmap_ent s1 lpn ppa;
        s3 \<leftarrow> mark_page_valid s2 ppa;
        s4 \<leftarrow> ssd_advance_write_pointer s3;
        Some (ppa, s4) })"

section \<open>Garbage collection\<close>

definition gc_delay :: "nat \<Rightarrow> ssd \<Rightarrow> u64 \<Rightarrow> ssd option" where
  "gc_delay cmd s ppa =
     (if enable_gc_delay (sp s) then
        map_option snd (ssd_advance_status s ppa \<lparr>nc_type = GC_IO, nc_cmd = cmd, nc_stime = 0\<rparr>)
      else Some s)"

definition gc_read_page :: "ssd \<Rightarrow> u64 \<Rightarrow> ssd option" where
  "gc_read_page s ppa = gc_delay NAND_READ s ppa"

definition set_gc_endtime :: "ssd \<Rightarrow> u64 \<Rightarrow> ssd option" where
  "set_gc_endtime s ppa = do {
     k \<leftarrow> get_lun s ppa;
     Some (s\<lparr>luns := (luns s)(k := (luns s k)\<lparr>lun_gc_endtime := next_lun_avail_time (luns s k)\<rparr>)\<rparr>) }"

definition gc_write_page :: "ssd \<Rightarrow> u64 \<Rightarrow> ssd option" where
  "gc_write_page s old_ppa = do {
     lpn \<leftarrow> get_rmap_ent s old_ppa;
     (new_ppa, s1) \<leftarrow> program_page s lpn;
     s2 \<leftarrow> gc_delay NAND_WRITE s1 new_ppa;
     set_gc_endtime s2 new_ppa }"

definition select_victim_line :: "ssd \<Rightarrow> bool \<Rightarrow> (nat option \<times> ssd) option" where
  "select_victim_line s force = do {
     v \<leftarrow> pqueue_peek (victim_line_pq (lm s));
     (case v of
        None \<Rightarrow> Some (None, s)
      | Some l \<Rightarrow>
          if \<not> force \<and> l_ipc (lm_lines (lm s) l) < int (pgs_per_line (sp s) div 8) then Some (None, s)
          else do {
            (_, q, ls) \<leftarrow> pqueue_pop (victim_line_pq (lm s)) (lm_lines (lm s));
            Some (Some l, s\<lparr>lm := (lm s)\<lparr>victim_line_pq := q, lm_lines := ls,
              victim_line_cnt := victim_line_cnt (lm s) - 1\<rparr>\<rparr>) }) }"

definition clean_page :: "nat \<Rightarrow> ssd \<times> u64 \<Rightarrow> (ssd \<times> u64) option" where
  "clean_page pg = (\<lambda>(s, ppa0).
     let ppa = set_pg pg ppa0 in do {
       pg_iter \<leftarrow> get_pg s ppa;
       (if pg_stat pg_iter = PG_VALID then do {
          s1 \<leftarrow> gc_read_page s ppa;
          s2 \<leftarrow> gc_write_page s1 ppa;
          Some (s2, ppa) }
        else Some (s, ppa)) })"

definition clean_one_block :: "ssd \<Rightarrow> u64 \<Rightarrow> (ssd \<times> u64) option" where
  "clean_one_block s ppa = ofold clean_page [0..<pgs_per_blk (sp s)] (s, ppa)"

definition mark_line_free :: "ssd \<Rightarrow> u64 \<Rightarrow> ssd option" where
  "mark_line_free s ppa = do {
     l \<leftarrow> get_line s ppa;
     Some (s\<lparr>lm := (lm s)\<lparr>lm_lines := (lm_lines (lm s))(l := (lm_lines (lm s) l)\<lparr>l_ipc := 0, l_vpc := 0\<rparr>),
       free_line_list := free_line_list (lm s) @ [l], free_line_cnt := free_line_cnt (lm s) + 1\<rparr>\<rparr>) }"

definition gc_block :: "nat \<times> nat \<Rightarrow> ssd \<times> u64 \<Rightarrow> (ssd \<times> u64) option" where
  "gc_block = (\<lambda>(ch, lun) (s, ppa0).
     let ppa = set_pl 0 (set_lun lun (set_ch ch ppa0)) in do {
       _ \<leftarrow> get_lun s ppa;
       (s1, ppa1) \<leftarrow> clean_one_block s ppa;
       s2 \<leftarrow> mark_block_free s1 ppa1;
       s3 \<leftarrow> gc_delay NAND_ERASE s2 ppa1;
       s4 \<leftarrow> set_gc_endtime s3 ppa1;
       Some (s4, ppa1) })"

text \<open>\<open>junk\<close> is the content of the uninitialised \<open>struct ppa\<close>; only its sector and reserved
  bits survive.\<close>

definition do_gc :: "u64 \<Rightarrow> ssd \<Rightarrow> bool \<Rightarrow> (int \<times> ssd) option" where
  "do_gc junk s force = do {
     (v, s1) \<leftarrow> select_victim_line s force;
     (case v of
        None \<Rightarrow> Some (- 1, s1)
      | Some l \<Rightarrow> do {
          (s2, ppa) \<leftarrow> ofold gc_block (List.product [0..<nchs (sp s1)] [0..<luns_per_ch (sp s1)])
            (s1, set_blk (l_id (lm_lines (lm s1) l)) junk);
          s3 \<leftarrow> mark_line_free s2 ppa;
          Some (0, s3) }) }"

section \<open>Requests\<close>

record nvme_request =
  slba :: u64
  nlb :: u16
  is_write :: nat
  stime :: u64
  reqlat :: u64
  expire_time :: u64

definition read_page :: "u64 \<Rightarrow> nat \<Rightarrow> ssd \<times> u64 \<Rightarrow> (ssd \<times> u64) option" where
  "read_page st lpn = (\<lambda>(s, maxlat). do {
     ppa \<leftarrow> get_maptbl_ent s (of_nat lpn);
     (if \<not> mapped_ppa ppa \<or> \<not> valid_ppa (sp s) ppa then Some (s, maxlat)
      else do {
        (sublat, s1) \<leftarrow> ssd_advance_status s ppa \<lparr>nc_type = USER_IO, nc_cmd = NAND_READ, nc_stime = st\<rparr>;
        Some (s1, if sublat > maxlat then sublat else maxlat) }) })"

definition ssd_read :: "ssd \<Rightarrow> nvme_request \<Rightarrow> (u64 \<times> ssd) option" where
  "ssd_read s req = do {
     start_lpn \<leftarrow> udiv (slba req) (of_nat (secs_per_pg (sp s)));
     end_lpn \<leftarrow> udiv (slba req + ucast (nlb req)) (of_nat (secs_per_pg (sp s)));
     (s', maxlat) \<leftarrow> ofold (read_page (stime req)) [unat start_lpn..<unat end_lpn + 1] (s, 0);
     Some (maxlat, s') }"

text \<open>The loop that collects garbage until enough lines are free or no victim is left.  A run
  that does not end is \<^const>\<open>None\<close>.\<close>

partial_function (option) gc_loop :: "u64 \<Rightarrow> ssd \<Rightarrow> ssd option" where
  "gc_loop junk s =
     (if should_gc_high s then do {
        (r, s') \<leftarrow> do_gc junk s True;
        (if r = - 1 then Some s' else gc_loop junk s') }
      else Some s)"

definition invalidate_old :: "ssd \<Rightarrow> u64 \<Rightarrow> ssd option" where
  "invalidate_old s lpn = do {
     ppa \<leftarrow> get_maptbl_ent s lpn;
     (if mapped_ppa ppa then do {
        s1 \<leftarrow> mark_page_invalid s ppa;
        set_rmap_ent s1 INVALID_LPN ppa }
      else Some s) }"

definition write_page :: "u64 \<Rightarrow> nat \<Rightarrow> ssd \<times> u64 \<Rightarrow> (ssd \<times> u64) option" where
  "write_page st lpn = (\<lambda>(s, maxlat). do {
     s1 \<leftarrow> invalidate_old s (of_nat lpn);
     (ppa, s2) \<leftarrow> program_page s1 (of_nat lpn);
     (curlat, s3) \<leftarrow> ssd_advance_status s2 ppa \<lparr>nc_type = USER_IO, nc_cmd = NAND_WRITE, nc_stime = st\<rparr>;
     Some (s3, if curlat > maxlat then curlat else maxlat) })"

definition ssd_write :: "u64 \<Rightarrow> ssd \<Rightarrow> nvme_request \<Rightarrow> (u64 \<times> ssd) option" where
  "ssd_write junk s req = do {
     start_lpn \<leftarrow> udiv (slba req) (of_nat (secs_per_pg (sp s)));
     end_lpn \<leftarrow> udiv (slba req + ucast (nlb req) - 1) (of_nat (secs_per_pg (sp s)));
     s1 \<leftarrow> gc_loop junk s;
     (s', maxlat) \<leftarrow> ofold (write_page (stime req)) [unat start_lpn..<unat end_lpn + 1] (s1, 0);
     Some (maxlat, s') }"

text \<open>One request of the FTL thread: serve it, charge its latency, and clean one line in the
  background if few are free.  \<open>lat\<close> is the latency of the request before, which a request of
  unknown type keeps.\<close>

definition ftl_serve :: "u64 \<Rightarrow> ssd \<times> u64 \<Rightarrow> nvme_request \<Rightarrow> ((ssd \<times> u64) \<times> nvme_request) option" where
  "ftl_serve junk st req = (case st of (s, lat0) \<Rightarrow> do {
     (lat, s1) \<leftarrow> (if is_write req = 1 then ssd_write junk s req
                   else if is_write req = 0 then ssd_read s req else Some (lat0, s));
     s2 \<leftarrow> (if should_gc s1 then map_option snd (do_gc junk s1 False) else Some s1);
     Some ((s2, lat), req\<lparr>reqlat := lat, expire_time := expire_time req + lat\<rparr>) })"

text \<open>The requests in the order in which the thread takes them from the rings of the pollers,
  each with the content of the uninitialised \<open>struct ppa\<close> of its collections; the result has the
  requests as they are handed back to the pollers.\<close>

primrec ftl_thread :: "(u64 \<times> nvme_request) list \<Rightarrow> ssd \<times> u64 \<Rightarrow> ((ssd \<times> u64) \<times> nvme_request list) option" where
  "ftl_thread [] st = Some (st, [])"
| "ftl_thread (r # rs) st = do {
     (st1, done) \<leftarrow> ftl_serve (fst r) st (snd r);
     (st2, out) \<leftarrow> ftl_thread rs st1;
     Some (st2, done # out) }"

section \<open>Control commands\<close>

definition FEMU_ENABLE_GC_DELAY :: int where "FEMU_ENABLE_GC_DELAY = 1"
definition FEMU_DISABLE_GC_DELAY :: int where "FEMU_DISABLE_GC_DELAY = 2"
definition FEMU_ENABLE_DELAY_EMU :: int where "FEMU_ENABLE_DELAY_EMU = 3"
definition FEMU_DISABLE_DELAY_EMU :: int where "FEMU_DISABLE_DELAY_EMU = 4"
definition FEMU_RESET_ACCT :: int where "FEMU_RESET_ACCT = 5"
definition FEMU_ENABLE_LOG :: int where "FEMU_ENABLE_LOG = 6"
definition FEMU_DISABLE_LOG :: int where "FEMU_DISABLE_LOG = 7"

record bb_ctrl =
  bb_ssd :: ssd
  nr_tt_ios :: nat
  nr_tt_late_ios :: nat
  print_log :: bool

definition bb_flip :: "bb_ctrl \<Rightarrow> int \<Rightarrow> bb_ctrl" where
  "bb_flip n cdw10 =
     (let upd = (\<lambda>f. n\<lparr>bb_ssd := (bb_ssd n)\<lparr>sp := f (sp (bb_ssd n))\<rparr>\<rparr>) in
      if cdw10 = FEMU_ENABLE_GC_DELAY then upd (\<lambda>p. p\<lparr>enable_gc_delay := True\<rparr>)
      else if cdw10 = FEMU_DISABLE_GC_DELAY then upd (\<lambda>p. p\<lparr>enable_gc_delay := False\<rparr>)
      else if cdw10 = FEMU_ENABLE_DELAY_EMU then
        upd (\<lambda>p. p\<lparr>pg_rd_lat := NAND_READ_LATENCY, pg_wr_lat := NAND_PROG_LATENCY,
          blk_er_lat := NAND_ERASE_LATENCY, ch_xfer_lat := 0\<rparr>)
      else if cdw10 = FEMU_DISABLE_DELAY_EMU then
        upd (\<lambda>p. p\<lparr>pg_rd_lat := 0, pg_wr_lat := 0, blk_er_lat := 0, ch_xfer_lat := 0\<rparr>)
      else if cdw10 = FEMU_RESET_ACCT then n\<lparr>nr_tt_ios := 0, nr_tt_late_ios := 0\<rparr>
      else if cdw10 = FEMU_ENABLE_LOG then n\<lparr>print_log := True\<rparr>
      else if cdw10 = FEMU_DISABLE_LOG then n\<lparr>print_log := False\<rparr>
      else n)"

section \<open>Bit fields\<close>

lemma get_bits_bound: "get_bits off len w < 2 ^ len"
proof -
  have "unat (take_bit len v) < 2 ^ len" for v :: u64
    by (simp add: unsigned_take_bit_eq)
  then show ?thesis by (simp add: get_bits_def)
qed

lemma get_put_same:
  assumes "off + len \<le> 64" "v < 2 ^ len"
  shows "get_bits off len (put_bits off len v w) = v"
proof -
  have "take_bit len (drop_bit off (put_bits off len v w)) = (take_bit len (of_nat v) :: u64)"
    by (rule bit_word_eqI) (use assms(1) in \<open>auto simp: put_bits_def bit_simps\<close>)
  moreover have "unat (take_bit len (of_nat v :: u64)) = v"
  proof -
    have "(2::nat) ^ len \<le> 2 ^ 64" using assms(1) by (intro power_increasing) simp_all
    then have "unat (of_nat v :: u64) = v" using assms(2) by (simp add: unat_of_nat)
    then show ?thesis using assms(2) by (simp add: unsigned_take_bit_eq take_bit_nat_eq_self)
  qed
  ultimately show ?thesis by (simp add: get_bits_def)
qed

lemma get_put_other:
  assumes "off' + len' \<le> off \<or> off + len \<le> off'" "off' + len' \<le> 64"
  shows "get_bits off' len' (put_bits off len v w) = get_bits off' len' w"
proof -
  have "take_bit len' (drop_bit off' (put_bits off len v w)) = take_bit len' (drop_bit off' w)"
    by (rule bit_word_eqI) (use assms in \<open>auto simp: put_bits_def bit_simps\<close>)
  then show ?thesis by (simp add: get_bits_def)
qed

lemmas ppa_field_defs = ppa_blk_def ppa_pg_def ppa_sec_def ppa_pl_def ppa_lun_def ppa_ch_def
  set_blk_def set_pg_def set_pl_def set_lun_def set_ch_def
  BLK_BITS_def PG_BITS_def SEC_BITS_def PL_BITS_def LUN_BITS_def CH_BITS_def

lemma ppa_set_same [simp]:
  "v < 65536 \<Longrightarrow> ppa_blk (set_blk v w) = v" "v < 65536 \<Longrightarrow> ppa_pg (set_pg v w) = v"
  "v < 256 \<Longrightarrow> ppa_pl (set_pl v w) = v" "v < 256 \<Longrightarrow> ppa_lun (set_lun v w) = v"
  "v < 128 \<Longrightarrow> ppa_ch (set_ch v w) = v"
  by (simp_all add: ppa_field_defs get_put_same)

lemma ppa_set_other [simp]:
  "ppa_blk (set_pg v w) = ppa_blk w" "ppa_blk (set_pl v w) = ppa_blk w" "ppa_blk (set_lun v w) = ppa_blk w"
  "ppa_blk (set_ch v w) = ppa_blk w"
  "ppa_pg (set_blk v w) = ppa_pg w" "ppa_pg (set_pl v w) = ppa_pg w" "ppa_pg (set_lun v w) = ppa_pg w"
  "ppa_pg (set_ch v w) = ppa_pg w"
  "ppa_pl (set_blk v w) = ppa_pl w" "ppa_pl (set_pg v w) = ppa_pl w" "ppa_pl (set_lun v w) = ppa_pl w"
  "ppa_pl (set_ch v w) = ppa_pl w"
  "ppa_lun (set_blk v w) = ppa_lun w" "ppa_lun (set_pg v w) = ppa_lun w" "ppa_lun (set_pl v w) = ppa_lun w"
  "ppa_lun (set_ch v w) = ppa_lun w"
  "ppa_ch (set_blk v w) = ppa_ch w" "ppa_ch (set_pg v w) = ppa_ch w" "ppa_ch (set_pl v w) = ppa_ch w"
  "ppa_ch (set_lun v w) = ppa_ch w"
  "ppa_sec (set_blk v w) = ppa_sec w" "ppa_sec (set_pg v w) = ppa_sec w" "ppa_sec (set_pl v w) = ppa_sec w"
  "ppa_sec (set_lun v w) = ppa_sec w" "ppa_sec (set_ch v w) = ppa_sec w"
  by (simp_all add: ppa_field_defs get_put_other)

text \<open>The reserved bit stays clear, so a new page is never the unmapped address.\<close>

lemma put_bits_reserved: "off + len \<le> 63 \<Longrightarrow> bit (put_bits off len v w) 63 = bit w 63"
  by (auto simp: put_bits_def bit_simps)

lemma new_page_mapped: "mapped_ppa (get_new_page w)"
proof -
  have "\<not> bit (get_new_page w) 63"
    by (simp add: get_new_page_def ppa_field_defs put_bits_reserved)
  moreover have "bit UNMAPPED_PPA 63" by (simp add: UNMAPPED_PPA_def)
  ultimately show ?thesis unfolding mapped_ppa_def by metis
qed

lemma new_page_fields:
  assumes "wp_ch w < 128" "wp_lun w < 256" "wp_pg w < 65536" "wp_blk w < 65536" "wp_pl w < 256"
  shows "ppa_ch (get_new_page w) = wp_ch w" "ppa_lun (get_new_page w) = wp_lun w"
    "ppa_pg (get_new_page w) = wp_pg w" "ppa_blk (get_new_page w) = wp_blk w" "ppa_pl (get_new_page w) = wp_pl w"
    "ppa_sec (get_new_page w) = 0"
  using assms by (simp_all add: get_new_page_def) (simp add: ppa_field_defs get_bits_def)

section \<open>The victim queue is a priority queue of lines\<close>

text \<open>The queue moves lines by writing their positions only.\<close>

definition line_frame :: "lines \<Rightarrow> lines \<Rightarrow> bool" where
  "line_frame ls ls' \<longleftrightarrow> (\<forall>i. l_id (ls' i) = l_id (ls i) \<and> l_ipc (ls' i) = l_ipc (ls i) \<and> l_vpc (ls' i) = l_vpc (ls i))"

lemmas victim_defs = victim_ops_def victim_line_cmp_pri_def victim_line_get_pri_def victim_line_set_pri_def
  victim_line_get_pos_def victim_line_set_pos_def

interpretation vq: pq_callbacks victim_ops line_frame
  by unfold_locales (auto simp: victim_defs line_frame_def)

lemma small_pri: "v < 2147483648 \<Longrightarrow> scast (ucast v :: 32 word) = (v :: u64)"
proof -
  assume v: "v < 2147483648"
  then have "unat v < 2147483648" by (simp add: word_less_nat_alt)
  then have s: "uint v < 2147483648" using uint_nat [of v] by linarith
  then have "uint (ucast v :: 32 word) = uint v" by (simp add: unsigned_ucast_eq take_bit_int_eq_self)
  then have "sint (ucast v :: 32 word) = uint v"
    using signed_take_bit_int_eq_self [of 31 "uint v"] uint_ge_0 [of v] s by (simp add: sint_uint)
  then have "word_of_int (sint (ucast v :: 32 word)) = v" by simp
  then show ?thesis by simp
qed

interpretation vp: pq_priorities victim_ops line_frame "\<lambda>v. v < 2147483648"
  by unfold_locales (auto simp: victim_defs small_pri)

end
