(* ===== verification/Victim_Queue.thy ===== *)
theory Victim_Queue
  imports Ftl
begin

text \<open>
  The priority queue with the callbacks of the flash translation layer: what the queue of
  victim lines promises, stated over the model's own operations.  The queue stands for the
  multiset of its lines; the line with the fewest valid pages comes first.
\<close>

section \<open>Filling a queue\<close>

definition insert_line :: "nat \<Rightarrow> (nat, lines) pqueue_t \<times> lines \<Rightarrow> ((nat, lines) pqueue_t \<times> lines) option" where
  "insert_line x = (\<lambda>(q, ls). map_option snd (pqueue_insert True (\<lambda>_. 0) q ls x))"

lemma victim_pri [simp]:
  "cmppri victim_ops a b \<longleftrightarrow> b < a" "getpri victim_ops ls x = victim_line_get_pri ls x"
  by (simp_all add: victim_ops_def victim_line_cmp_pri_def)

lemma insert_line_ok:
  assumes "pq_ok q ls" "q_ops q = victim_ops" "pq_heap q ls" "x \<notin># pq_items q"
  shows "\<exists>q' ls'. insert_line x (q, ls) = Some (q', ls') \<and> q_ops q' = victim_ops \<and> pq_ok q' ls' \<and> pq_heap q' ls' \<and>
    pq_items q' = add_mset x (pq_items q) \<and> line_frame ls ls'"
  using vq.insert_ok [OF assms(1,2,4), of True "\<lambda>_. 0"] assms(3) by (auto simp: insert_line_def)

lemma insert_lines_ok:
  assumes "pq_ok q ls" "q_ops q = victim_ops" "pq_heap q ls" "distinct xs" "\<forall>x\<in>set xs. x \<notin># pq_items q"
  shows "\<exists>q' ls'. ofold insert_line xs (q, ls) = Some (q', ls') \<and> q_ops q' = victim_ops \<and> pq_ok q' ls' \<and> pq_heap q' ls' \<and>
    pq_items q' = mset xs + pq_items q \<and> line_frame ls ls'"
  using assms
proof (induction xs arbitrary: q ls)
  case Nil
  then show ?case using vq.frame_refl by simp
next
  case (Cons x xs)
  obtain q1 ls1 where s1: "insert_line x (q, ls) = Some (q1, ls1)" "q_ops q1 = victim_ops" "pq_ok q1 ls1" "pq_heap q1 ls1"
    "pq_items q1 = add_mset x (pq_items q)" "line_frame ls ls1"
    using insert_line_ok [OF Cons.prems(1-3), of x] Cons.prems(5) by auto
  have "distinct xs" "\<forall>y\<in>set xs. y \<notin># pq_items q1" using Cons.prems(4,5) s1(5) by auto
  from Cons.IH [OF s1(3,2,4) this] obtain q2 ls2 where
    s2: "ofold insert_line xs (q1, ls1) = Some (q2, ls2)" "q_ops q2 = victim_ops" "pq_ok q2 ls2" "pq_heap q2 ls2"
      "pq_items q2 = mset xs + pq_items q1" "line_frame ls1 ls2" by blast
  then show ?case using s1 vq.frame_trans [OF s1(6) s2(6)] by auto
qed

lemma init_queue:
  assumes "pqueue_init True mem n victim_ops = Some q"
  shows "pq_ok q ls" "q_ops q = victim_ops" "pq_heap q ls" "pq_items q = {#}"
proof -
  have "tl (take (Suc 0) xs) = []" for xs :: "nat list" by (cases xs) simp_all
  then show "pq_ok q ls" "q_ops q = victim_ops" "pq_heap q ls" "pq_items q = {#}"
    using assms by (auto simp: pqueue_init_def pq_ok_def pq_heap_def pq_items_def simp del: upt_Suc)
qed

section \<open>Properties\<close>

text \<open>C32. Lines that are inserted one after the other into a new queue, in any order and in any number,
  are all printed, each once, in the order of their numbers of valid pages.  Printing pops a
  copy, so this is a heap sort by the queue's own operations.\<close>

theorem victim_queue_sorts:
  assumes "pqueue_init True mem n victim_ops = Some q" "distinct xs"
  shows "\<exists>q' ls' es. ofold insert_line xs (q, ls) = Some (q', ls') \<and> pqueue_print mem' q' ls' = Some es \<and>
    mset es = mset xs \<and> sorted (map (victim_line_get_pri ls) es)"
proof -
  note i = init_queue [OF assms(1)]
  obtain q' ls' where q: "ofold insert_line xs (q, ls) = Some (q', ls')" "q_ops q' = victim_ops" "pq_ok q' ls'" "pq_heap q' ls'"
    "pq_items q' = mset xs" "line_frame ls ls'"
    using insert_lines_ok [OF i(1,2,3) assms(2), of ls] i(4) by auto
  obtain es where es: "pqueue_print mem' q' ls' = Some es" "mset es = mset xs"
    "sorted_wrt (\<lambda>x y. \<not> victim_line_get_pri ls' y < victim_line_get_pri ls' x) es"
    using vq.print_ok [OF q(3,4,2)] q(5) by auto
  have "victim_line_get_pri ls' x = victim_line_get_pri ls x" for x
    using q(6) by (simp add: victim_line_get_pri_def line_frame_def)
  then have "sorted (map (victim_line_get_pri ls) es)" using es(3) by (simp add: sorted_map not_less)
  with q(1) es show ?thesis by blast
qed

definition ex_lines :: lines where
  "ex_lines i = \<lparr>l_id = i, l_ipc = 0, l_vpc = (if i = 3 then 7 else if i = 5 then 2 else 9), l_pos = 0\<rparr>"

theorem victim_queue_sorts_witness:
  "\<exists>q q' ls' es. pqueue_init True (\<lambda>_. 0) 2 victim_ops = Some q \<and> ofold insert_line [4, 3, 5] (q, ex_lines) = Some (q', ls') \<and>
    pqueue_print (\<lambda>_. 0) q' ls' = Some es \<and> mset es = {#3, 4, 5#} \<and> sorted (map (victim_line_get_pri ex_lines) es)"
proof -
  obtain q :: "(nat, lines) pqueue_t" where q: "pqueue_init True (\<lambda>_. 0) 2 victim_ops = Some q" by (simp add: pqueue_init_def)
  from victim_queue_sorts [OF q, of "[4, 3, 5]" ex_lines "\<lambda>_. 0"] q show ?thesis by (auto simp: add_mset_commute)
qed

text \<open>Popping a consistent, ordered, non-empty queue returns a line with the least number of
  valid pages, the one that peeking shows; the queue that is left holds the other
  lines and is consistent and ordered, and no counter of a line has changed.\<close>

theorem victim_queue_pop:
  assumes "pq_ok q ls" "q_ops q = victim_ops" "pq_heap q ls" "pq_items q \<noteq> {#}"
  shows "\<exists>x q' ls'. pqueue_pop q ls = Some (Some x, q', ls') \<and> pqueue_peek q = Some (Some x) \<and> x \<in># pq_items q \<and>
    (\<forall>y\<in>#pq_items q. victim_line_get_pri ls x \<le> victim_line_get_pri ls y) \<and> pq_items q' = pq_items q - {#x#} \<and>
    pq_ok q' ls' \<and> pq_heap q' ls' \<and> line_frame ls ls'"
proof -
  have "q_size q \<noteq> 1" using assms(4) pq_items_distinct(2) [OF assms(1)] by auto
  from vq.pop_ok [OF assms(1,2) this] obtain x q' ls' where
    x: "pqueue_pop q ls = Some (Some x, q', ls')" "x \<in># pq_items q" "vq.removed q ls x q' ls'"
      "\<forall>y\<in>#pq_items q. \<not> victim_line_get_pri ls y < victim_line_get_pri ls x" using assms(3) by auto
  have "pqueue_peek q = Some (Some x)" using vq.peek_pop [OF assms(1,2)] x(1) by simp
  with x assms(3) show ?thesis by (auto simp: vq.removed_def not_less)
qed

theorem victim_queue_pop_witness:
  "\<exists>q ls x q' ls'. pq_items q = {#4, 5#} \<and> pqueue_pop q ls = Some (Some x, q', ls') \<and>
    (\<forall>y\<in>#pq_items q. victim_line_get_pri ls x \<le> victim_line_get_pri ls y) \<and> pq_items q' = pq_items q - {#x#}"
proof -
  obtain q :: "(nat, lines) pqueue_t" where q: "pqueue_init True (\<lambda>_. 0) 2 victim_ops = Some q" by (simp add: pqueue_init_def)
  note i = init_queue [OF q]
  obtain q1 ls1 where q1: "q_ops q1 = victim_ops" "pq_ok q1 ls1" "pq_heap q1 ls1" "pq_items q1 = {#4, 5#}"
    using insert_lines_ok [OF i(1,2,3), of "[4, 5]" ex_lines] i(4) by auto
  then have "pq_items q1 \<noteq> {#}" by simp
  from victim_queue_pop [OF q1(2,1,3) this] q1(4) show ?thesis by blast
qed

text \<open>Removing a line that is in the queue removes just that line, and giving a line
  of the queue a new number of valid pages moves it to its place: both keep the queue consistent and
  ordered and change no other priority.\<close>

theorem victim_queue_update:
  assumes "pq_ok q ls" "q_ops q = victim_ops" "pq_heap q ls" "x \<in># pq_items q" "v < 2147483648"
  shows "(\<exists>q' ls'. pqueue_remove q ls x = Some (q', ls') \<and> pq_items q' = pq_items q - {#x#} \<and> pq_ok q' ls' \<and> pq_heap q' ls' \<and>
      line_frame ls ls') \<and>
    (\<exists>q' ls'. pqueue_change_priority q ls v x = Some (q', ls') \<and> pq_items q' = pq_items q \<and> pq_ok q' ls' \<and> pq_heap q' ls' \<and>
      victim_line_get_pri ls' x = v \<and> (\<forall>y. y \<noteq> x \<longrightarrow> victim_line_get_pri ls' y = victim_line_get_pri ls y))"
  using vq.remove_ok [OF assms(1,2,4)] vp.change_priority_ok [OF assms(1,2,4,5)] assms(3)
  by (auto simp: vq.removed_def)

theorem victim_queue_update_witness:
  "\<exists>(q :: (nat, lines) pqueue_t) ls q' ls'. pq_items q = {#4, 5#} \<and> pqueue_change_priority q ls 1 4 = Some (q', ls') \<and> pq_heap q' ls' \<and>
    victim_line_get_pri ls' 4 = 1"
proof -
  obtain q :: "(nat, lines) pqueue_t" where q: "pqueue_init True (\<lambda>_. 0) 2 victim_ops = Some q" by (simp add: pqueue_init_def)
  note i = init_queue [OF q]
  obtain q1 ls1 where q1: "q_ops q1 = victim_ops" "pq_ok q1 ls1" "pq_heap q1 ls1" "pq_items q1 = {#4, 5#}"
    using insert_lines_ok [OF i(1,2,3), of "[4, 5]" ex_lines] i(4) by auto
  then have "4 \<in># pq_items q1" "(1 :: u64) < 2147483648" by simp_all
  from victim_queue_update [OF q1(2,1,3) this] q1(4) show ?thesis by blast
qed

text \<open>The checking routine of the queue decides the heap order: on a queue whose elements are all in
  its array it returns true exactly if no element has a better priority than its parent.\<close>

theorem is_valid_decides_heap:
  assumes "q_size q \<le> length (q_d q)"
  shows "pqueue_is_valid q s = Some (pq_heap q s)"
  using subtree_is_valid_iff [of 1 q s] assms below_root [of q s] by (simp add: pqueue_is_valid_def)

theorem is_valid_decides_heap_witness:
  "pqueue_is_valid \<lparr>q_size = 3, q_avail = 3, q_step = 3, q_ops = victim_ops, q_d = [0, 5, 3]\<rparr> ex_lines = Some True \<and>
   pqueue_is_valid \<lparr>q_size = 3, q_avail = 3, q_step = 3, q_ops = victim_ops, q_d = [0, 3, 5]\<rparr> ex_lines = Some False"
proof -
  have j: "2 \<le> j \<and> j < 3 \<longleftrightarrow> j = 2" for j :: nat by auto
  show ?thesis
    using is_valid_decides_heap [of "\<lparr>q_size = 3, q_avail = 3, q_step = 3, q_ops = victim_ops, q_d = [0, 5, 3]\<rparr>" ex_lines]
      is_valid_decides_heap [of "\<lparr>q_size = 3, q_avail = 3, q_step = 3, q_ops = victim_ops, q_d = [0, 3, 5]\<rparr>" ex_lines]
    by (simp add: pq_heap_def j ex_lines_def victim_line_get_pri_def)
qed

end
