(* ===== verification/Ftl_Inv.thy ===== *)
theory Ftl_Inv
  imports Ftl
begin

text \<open>
  The invariant of the flash translation layer and its preservation by the operations below
  garbage collection: the two tables are inverse to each other on the valid pages, the lines
  are partitioned into the free, the full, the victim and the current one, the pages of the
  current line are written in the order of the write pointer, and the counters of blocks and
  lines are the numbers of valid and invalid pages.

  Garbage collection breaks the invariant for a while: the victim line belongs to no list, its
  pages that are already copied are still marked valid, and between the invalidation of an old
  copy and the mapping of the new one the entry of one logical page is stale.  The invariant
  has parameters for exactly these exceptions.
\<close>

section \<open>Locations\<close>

type_synonym loc = "nat \<times> nat \<times> nat \<times> nat"

definition geom :: "ssdparams \<Rightarrow> bool" where
  "geom spp \<longleftrightarrow> 0 < nchs spp \<and> nchs spp \<le> 128 \<and> 0 < luns_per_ch spp \<and> luns_per_ch spp \<le> 256 \<and>
     pls_per_lun spp = 1 \<and> 0 < blks_per_pl spp \<and> blks_per_pl spp \<le> 65536 \<and>
     0 < pgs_per_blk spp \<and> pgs_per_blk spp \<le> 65536 \<and> 0 < secs_per_pg spp \<and> secs_per_pg spp \<le> 256 \<and>
     pgs_per_pl spp = pgs_per_blk spp * blks_per_pl spp \<and> pgs_per_lun spp = pgs_per_pl spp \<and>
     pgs_per_ch spp = pgs_per_lun spp * luns_per_ch spp \<and> tt_pgs spp = pgs_per_ch spp * nchs spp \<and>
     pgs_per_line spp = luns_per_ch spp * nchs spp * pgs_per_blk spp \<and> tt_lines spp = blks_per_pl spp"

definition on_chip :: "ssdparams \<Rightarrow> loc set" where
  "on_chip spp = {0..<nchs spp} \<times> {0..<luns_per_ch spp} \<times> {0..<blks_per_pl spp} \<times> {0..<pgs_per_blk spp}"

definition loc_of :: "u64 \<Rightarrow> loc" where
  "loc_of ppa = (ppa_ch ppa, ppa_lun ppa, ppa_blk ppa, ppa_pg ppa)"

definition page_no :: "ssdparams \<Rightarrow> loc \<Rightarrow> nat" where
  "page_no spp = (\<lambda>(c, l, b, p). c * pgs_per_ch spp + l * pgs_per_lun spp + b * pgs_per_blk spp + p)"

definition line_of :: "loc \<Rightarrow> nat" where
  "line_of = (\<lambda>(c, l, b, p). b)"

definition line_pages :: "ssdparams \<Rightarrow> nat \<Rightarrow> loc set" where
  "line_pages spp b = {0..<nchs spp} \<times> {0..<luns_per_ch spp} \<times> {b} \<times> {0..<pgs_per_blk spp}"

definition block_pages :: "ssdparams \<Rightarrow> nat \<times> nat \<times> nat \<Rightarrow> loc set" where
  "block_pages spp = (\<lambda>(c, l, b). {c} \<times> {l} \<times> {b} \<times> {0..<pgs_per_blk spp})"

definition stat :: "ssd \<Rightarrow> loc \<Rightarrow> pg_status" where
  "stat s = (\<lambda>(c, l, b, p). pg_stat (b_pg (blocks s (c, l, 0, b)) ! p))"

definition pages_in :: "(loc \<Rightarrow> pg_status) \<Rightarrow> loc set \<Rightarrow> pg_status \<Rightarrow> int" where
  "pages_in f A st = int (card {x \<in> A. f x = st})"

text \<open>The order in which the pages of a line are written.\<close>

definition slot_no :: "ssdparams \<Rightarrow> nat \<Rightarrow> nat \<Rightarrow> nat \<Rightarrow> nat" where
  "slot_no spp c l p = (p * luns_per_ch spp + l) * nchs spp + c"

definition slot_of :: "ssdparams \<Rightarrow> loc \<Rightarrow> nat" where
  "slot_of spp = (\<lambda>(c, l, b, p). slot_no spp c l p)"

definition wp_slot :: "ssd \<Rightarrow> nat" where
  "wp_slot s = slot_no (sp s) (wp_ch (wp s)) (wp_lun (wp s)) (wp_pg (wp s))"

lemma finite_pages [simp]: "finite (on_chip spp)" "finite (line_pages spp b)" "finite (block_pages spp k)"
  by (simp_all add: on_chip_def line_pages_def block_pages_def split: prod.split)

lemma card_line_pages: "geom spp \<Longrightarrow> card (line_pages spp b) = pgs_per_line spp"
  by (simp add: line_pages_def geom_def)

lemma digit_bound: "a < m \<Longrightarrow> b < n \<Longrightarrow> a * n + b < m * (n :: nat)"
proof -
  assume "a < m" "b < n"
  then have "a * n + b < (a + 1) * n" "(a + 1) * n \<le> m * n" by (simp, intro mult_le_mono1) simp
  then show ?thesis by linarith
qed

lemma page_no_bound:
  assumes "geom spp" "x \<in> on_chip spp"
  shows "page_no spp x < tt_pgs spp"
proof -
  obtain c l b p where x: "x = (c, l, b, p)" by (metis prod_cases4)
  let ?P = "pgs_per_blk spp" and ?B = "blks_per_pl spp" and ?L = "luns_per_ch spp" and ?C = "nchs spp"
  have "b * ?P + p < ?B * ?P" using assms(2) x
    by (simp add: on_chip_def digit_bound)
  then have "l * (?B * ?P) + (b * ?P + p) < ?L * (?B * ?P)" using assms(2) x
    by (simp add: on_chip_def digit_bound)
  then have "c * (?L * (?B * ?P)) + (l * (?B * ?P) + (b * ?P + p)) < ?C * (?L * (?B * ?P))" using assms(2) x
    by (simp add: on_chip_def digit_bound)
  then show ?thesis using assms(1) x by (simp add: page_no_def geom_def ac_simps)
qed

lemma div_mod_unique: "a * n + b = a' * n + b' \<Longrightarrow> b < n \<Longrightarrow> b' < n \<Longrightarrow> a = a' \<and> b = (b' :: nat)"
  by (metis add.commute div_mult_self3 div_less add_right_cancel add_0_right not_less_zero)

lemma page_no_inj:
  assumes "geom spp" "x \<in> on_chip spp" "y \<in> on_chip spp" "page_no spp x = page_no spp y"
  shows "x = y"
proof -
  obtain c l b p where x: "x = (c, l, b, p)" by (metis prod_cases4)
  obtain c' l' b' p' where y: "y = (c', l', b', p')" by (metis prod_cases4)
  let ?P = "pgs_per_blk spp" and ?B = "blks_per_pl spp" and ?L = "luns_per_ch spp" and ?C = "nchs spp"
  have in_blk: "b * ?P + p < ?B * ?P" "b' * ?P + p' < ?B * ?P" using assms(2,3) x y
    by (simp_all add: on_chip_def digit_bound)
  have in_lun: "l * (?B * ?P) + (b * ?P + p) < ?L * (?B * ?P)" "l' * (?B * ?P) + (b' * ?P + p') < ?L * (?B * ?P)"
    using assms(2,3) x y in_blk by (simp_all add: on_chip_def digit_bound)
  have "c * (?L * (?B * ?P)) + (l * (?B * ?P) + (b * ?P + p)) =
      c' * (?L * (?B * ?P)) + (l' * (?B * ?P) + (b' * ?P + p'))"
    using assms(1,4) x y by (simp add: page_no_def geom_def ac_simps)
  then have 1: "c = c'" "l * (?B * ?P) + (b * ?P + p) = l' * (?B * ?P) + (b' * ?P + p')"
    using div_mod_unique in_lun by blast+
  from 1(2) have 2: "l = l'" "b * ?P + p = b' * ?P + p'" using div_mod_unique in_blk by blast+
  have "p < ?P" "p' < ?P" using assms(2,3) x y by (simp_all add: on_chip_def)
  with 2(2) have "b = b'" "p = p'" using div_mod_unique by blast+
  with 1 2 x y show ?thesis by simp
qed

section \<open>The invariant\<close>

abbreviation free_set :: "ssd \<Rightarrow> nat set" where
  "free_set s \<equiv> set (free_line_list (lm s))"

abbreviation full_set :: "ssd \<Rightarrow> nat set" where
  "full_set s \<equiv> set (full_line_list (lm s))"

abbreviation victim_set :: "ssd \<Rightarrow> nat set" where
  "victim_set s \<equiv> set_mset (pq_items (victim_line_pq (lm s)))"

abbreviation the_line :: "ssd \<Rightarrow> nat \<Rightarrow> line" where
  "the_line s \<equiv> lm_lines (lm s)"

definition shape :: "ssd \<Rightarrow> bool" where
  "shape s \<longleftrightarrow> geom (sp s) \<and> length (maptbl s) = tt_pgs (sp s) \<and> length (rmap s) = tt_pgs (sp s) \<and>
     lm_tt_lines (lm s) = blks_per_pl (sp s) \<and>
     (\<forall>c l b. c < nchs (sp s) \<and> l < luns_per_ch (sp s) \<and> b < blks_per_pl (sp s) \<longrightarrow>
        length (b_pg (blocks s (c, l, 0, b))) = pgs_per_blk (sp s))"

definition wp_ok :: "ssd \<Rightarrow> bool" where
  "wp_ok s \<longleftrightarrow> wp_ch (wp s) < nchs (sp s) \<and> wp_lun (wp s) < luns_per_ch (sp s) \<and>
     wp_pg (wp s) < pgs_per_blk (sp s) \<and> wp_blk (wp s) = curline (wp s) \<and> wp_pl (wp s) = 0"

definition lines_ok :: "nat option \<Rightarrow> ssd \<Rightarrow> bool" where
  "lines_ok g s \<longleftrightarrow>
     (\<forall>b<blks_per_pl (sp s). l_id (the_line s b) = b) \<and>
     distinct (free_line_list (lm s)) \<and> distinct (full_line_list (lm s)) \<and>
     curline (wp s) \<notin> free_set s \<union> full_set s \<union> victim_set s \<and>
     free_set s \<inter> full_set s = {} \<and> free_set s \<inter> victim_set s = {} \<and> full_set s \<inter> victim_set s = {} \<and>
     insert (curline (wp s)) (free_set s \<union> full_set s \<union> victim_set s) = {0..<blks_per_pl (sp s)} - set_option g \<and>
     set_option g \<subseteq> {0..<blks_per_pl (sp s)} \<and>
     free_line_cnt (lm s) = int (length (free_line_list (lm s))) \<and>
     full_line_cnt (lm s) = int (length (full_line_list (lm s))) \<and>
     victim_line_cnt (lm s) = int (size (pq_items (victim_line_pq (lm s)))) \<and>
     q_ops (victim_line_pq (lm s)) = victim_ops \<and> pq_ok (victim_line_pq (lm s)) (the_line s) \<and>
     q_avail (victim_line_pq (lm s)) = blks_per_pl (sp s) + 1"

definition pages_ok :: "nat \<Rightarrow> ssd \<Rightarrow> bool" where
  "pages_ok t s \<longleftrightarrow> (\<forall>x\<in>on_chip (sp s).
     (line_of x \<in> free_set s \<longrightarrow> stat s x = PG_FREE) \<and>
     (line_of x = curline (wp s) \<longrightarrow> (stat s x = PG_FREE \<longleftrightarrow> t \<le> slot_of (sp s) x)) \<and>
     (line_of x \<in> full_set s \<union> victim_set s \<longrightarrow> stat s x \<noteq> PG_FREE))"

definition counts_ok :: "nat option \<Rightarrow> ssd \<Rightarrow> bool" where
  "counts_ok g s \<longleftrightarrow> (\<forall>b<blks_per_pl (sp s). b \<notin> set_option g \<longrightarrow>
     l_vpc (the_line s b) = pages_in (stat s) (line_pages (sp s) b) PG_VALID \<and>
     l_ipc (the_line s b) = pages_in (stat s) (line_pages (sp s) b) PG_INVALID \<and>
     (b \<in> full_set s \<longleftrightarrow> l_vpc (the_line s b) = int (pgs_per_line (sp s)) \<and> b \<noteq> curline (wp s)))"

definition blk_counts_ok :: "ssd \<Rightarrow> bool" where
  "blk_counts_ok s \<longleftrightarrow> (\<forall>c l b. c < nchs (sp s) \<and> l < luns_per_ch (sp s) \<and> b < blks_per_pl (sp s) \<longrightarrow>
     b_vpc (blocks s (c, l, 0, b)) = pages_in (stat s) (block_pages (sp s) (c, l, b)) PG_VALID \<and>
     b_ipc (blocks s (c, l, 0, b)) = pages_in (stat s) (block_pages (sp s) (c, l, b)) PG_INVALID)"

definition map_ok :: "loc set \<Rightarrow> nat option \<Rightarrow> ssd \<Rightarrow> bool" where
  "map_ok d h s \<longleftrightarrow>
     (\<forall>i<tt_pgs (sp s). h \<noteq> Some i \<and> mapped_ppa (maptbl s ! i) \<longrightarrow>
        valid_ppa (sp s) (maptbl s ! i) \<and> loc_of (maptbl s ! i) \<notin> d \<and>
        stat s (loc_of (maptbl s ! i)) = PG_VALID \<and>
        rmap s ! page_no (sp s) (loc_of (maptbl s ! i)) = of_nat i) \<and>
     (\<forall>x\<in>on_chip (sp s) - d. stat s x = PG_VALID \<longrightarrow>
        (\<exists>i<tt_pgs (sp s). h \<noteq> Some i \<and> mapped_ppa (maptbl s ! i) \<and> loc_of (maptbl s ! i) = x))"

text \<open>\<open>g\<close> is the line being collected, \<open>d\<close> its pages already copied, \<open>h\<close> the logical page whose
  entry is stale, \<open>t\<close> the slot of the first free page of the current line.\<close>

definition ftl_inv :: "nat option \<Rightarrow> loc set \<Rightarrow> nat option \<Rightarrow> nat \<Rightarrow> ssd \<Rightarrow> bool" where
  "ftl_inv g d h t s \<longleftrightarrow> shape s \<and> wp_ok s \<and> lines_ok g s \<and> pages_ok t s \<and> counts_ok g s \<and>
     blk_counts_ok s \<and> map_ok d h s \<and> (\<forall>x\<in>d. line_of x \<in> set_option g)"

definition ssd_ok :: "ssd \<Rightarrow> bool" where
  "ssd_ok s \<longleftrightarrow> ftl_inv None {} None (wp_slot s) s"

lemmas inv_defs = ftl_inv_def shape_def wp_ok_def lines_ok_def pages_ok_def counts_ok_def blk_counts_ok_def map_ok_def

text \<open>Latencies are not part of the invariant.\<close>

lemma stat_timing [simp]: "stat (s\<lparr>luns := a\<rparr>) = stat s" "stat (s\<lparr>clock := k\<rparr>) = stat s"
  by (simp_all add: stat_def fun_eq_iff)

lemma inv_timing [simp]:
  "ftl_inv g d h t (s\<lparr>luns := a\<rparr>) = ftl_inv g d h t s" "ftl_inv g d h t (s\<lparr>clock := k\<rparr>) = ftl_inv g d h t s"
  by (simp_all add: inv_defs)

section \<open>Counting\<close>

lemma pages_in_upd:
  assumes "finite A"
  shows "pages_in (f(x := v)) A st =
    pages_in f A st + (if x \<in> A then of_bool (v = st) - of_bool (f x = st) else 0)"
proof (cases "x \<in> A")
  case False
  then have "{y \<in> A. (f(x := v)) y = st} = {y \<in> A. f y = st}" by auto
  with False show ?thesis by (simp add: pages_in_def)
next
  case True
  define B where "B = {y \<in> A. f y = st} - {x}"
  have fin: "finite B" "x \<notin> B" using assms by (auto simp: B_def)
  have "{y \<in> A. (f(x := v)) y = st} = (if v = st then insert x B else B)" using True by (auto simp: B_def)
  then have 1: "card {y \<in> A. (f(x := v)) y = st} = card B + of_bool (v = st)" using fin by simp
  have "{y \<in> A. f y = st} = (if f x = st then insert x B else B)" using True by (auto simp: B_def)
  then have 2: "card {y \<in> A. f y = st} = card B + of_bool (f x = st)" using fin by simp
  show ?thesis unfolding pages_in_def 1 2 using True by simp
qed

lemma pages_in_cong: "(\<And>x. x \<in> A \<Longrightarrow> f x = h x) \<Longrightarrow> pages_in f A st = pages_in h A st"
  by (simp add: pages_in_def) (metis (mono_tags, lifting) Collect_cong)

lemma pages_in_nonneg [simp]: "0 \<le> pages_in f A st"
  by (simp add: pages_in_def)

lemma pages_in_full:
  assumes "finite A"
  shows "pages_in f A st = int (card A) \<longleftrightarrow> (\<forall>x\<in>A. f x = st)"
proof
  assume "pages_in f A st = int (card A)"
  then have "{x \<in> A. f x = st} = A" using assms by (intro card_subset_eq) (auto simp: pages_in_def)
  then show "\<forall>x\<in>A. f x = st" by auto
next
  assume "\<forall>x\<in>A. f x = st"
  then have "{x \<in> A. f x = st} = A" by auto
  then show "pages_in f A st = int (card A)" by (simp add: pages_in_def)
qed

lemma pages_in_zero: "finite A \<Longrightarrow> pages_in f A st = 0 \<longleftrightarrow> (\<forall>x\<in>A. f x \<noteq> st)"
  by (auto simp: pages_in_def)

lemma line_pages_on_chip: "b < blks_per_pl spp \<Longrightarrow> x \<in> line_pages spp b \<longleftrightarrow> x \<in> on_chip spp \<and> line_of x = b"
  by (auto simp: line_pages_def on_chip_def line_of_def)

section \<open>Changing the state of one page\<close>

lemma tt_pgs_bound: "geom spp \<Longrightarrow> tt_pgs spp < 2 ^ 64"
proof -
  assume g: "geom spp"
  have "pgs_per_blk spp * blks_per_pl spp \<le> 65536 * 65536" using g by (intro mult_le_mono) (simp_all add: geom_def)
  then have "pgs_per_blk spp * blks_per_pl spp * luns_per_ch spp \<le> 65536 * 65536 * 256"
    using g by (intro mult_le_mono) (simp_all add: geom_def)
  then have "pgs_per_blk spp * blks_per_pl spp * luns_per_ch spp * nchs spp \<le> 65536 * 65536 * 256 * 128"
    using g by (intro mult_le_mono) (simp_all add: geom_def)
  moreover have "(65536 * 65536 * 256 * 128 :: nat) < 2 ^ 64" by simp
  moreover have "tt_pgs spp = pgs_per_blk spp * blks_per_pl spp * luns_per_ch spp * nchs spp"
    using g by (simp add: geom_def)
  ultimately show ?thesis by linarith
qed

lemma unat_lpn: "geom spp \<Longrightarrow> i < tt_pgs spp \<Longrightarrow> unat (of_nat i :: u64) = i"
  using tt_pgs_bound [of spp] by (simp add: unat_of_nat)

lemma ppa_index: "ppa_pl ppa = 0 \<Longrightarrow> ppa2pgidx spp ppa = page_no spp (loc_of ppa)"
  by (simp add: ppa2pgidx_def page_no_def loc_of_def)

lemma set_pg_status_in:
  "i < length (b_pg b) \<Longrightarrow> set_pg_status i v b = Some (b\<lparr>b_pg := (b_pg b)[i := (b_pg b ! i)\<lparr>pg_stat := v\<rparr>]\<rparr>)"
  by (simp add: set_pg_status_def)

lemma stat_set:
  assumes "p < length (b_pg (blocks s (c, l, 0, b)))"
    and "b_pg nb = (b_pg (blocks s (c, l, 0, b)))[p := (b_pg (blocks s (c, l, 0, b)) ! p)\<lparr>pg_stat := v\<rparr>]"
    and "blocks s' = (blocks s)((c, l, 0, b) := nb)"
  shows "stat s' = (stat s)((c, l, b, p) := v)"
  using assms by (auto simp: stat_def fun_eq_iff nth_list_update)

text \<open>The block and line counters after the change of one page.\<close>

lemma blk_counts_upd:
  assumes "blk_counts_ok s" "sp s' = sp s" "stat s' = (stat s)((c, l, b, p) := v)" "p < pgs_per_blk (sp s)"
    and "blocks s' = (blocks s)((c, l, 0, b) := nb)"
    and "b_vpc nb = b_vpc (blocks s (c, l, 0, b)) + of_bool (v = PG_VALID) - of_bool (stat s (c, l, b, p) = PG_VALID)"
    and "b_ipc nb = b_ipc (blocks s (c, l, 0, b)) + of_bool (v = PG_INVALID) - of_bool (stat s (c, l, b, p) = PG_INVALID)"
  shows "blk_counts_ok s'"
  unfolding blk_counts_ok_def
proof (intro allI impI)
  fix c' l' b' assume r: "c' < nchs (sp s') \<and> l' < luns_per_ch (sp s') \<and> b' < blks_per_pl (sp s')"
  have mem: "(c, l, b, p) \<in> block_pages (sp s) (c', l', b') \<longleftrightarrow> c' = c \<and> l' = l \<and> b' = b"
    using assms(4) by (auto simp: block_pages_def)
  have old: "b_vpc (blocks s (c', l', 0, b')) = pages_in (stat s) (block_pages (sp s) (c', l', b')) PG_VALID"
    "b_ipc (blocks s (c', l', 0, b')) = pages_in (stat s) (block_pages (sp s) (c', l', b')) PG_INVALID"
    using assms(1,2) r by (auto simp: blk_counts_ok_def)
  show "b_vpc (blocks s' (c', l', 0, b')) = pages_in (stat s') (block_pages (sp s') (c', l', b')) PG_VALID \<and>
     b_ipc (blocks s' (c', l', 0, b')) = pages_in (stat s') (block_pages (sp s') (c', l', b')) PG_INVALID"
    using assms(2,3,5,6,7) old mem by (auto simp: pages_in_upd)
qed

lemma line_count_upd:
  assumes "stat s' = (stat s)(x := v)" "x \<in> on_chip (sp s)" "b < blks_per_pl (sp s)"
  shows "pages_in (stat s') (line_pages (sp s) b) st = pages_in (stat s) (line_pages (sp s) b) st +
    (if b = line_of x then of_bool (v = st) - of_bool (stat s x = st) else 0)"
  using assms line_pages_on_chip [OF assms(3), of x] by (auto simp: pages_in_upd)

section \<open>Programming a page\<close>

lemma new_page_loc:
  assumes "ftl_inv g d h t s"
  shows "loc_of (get_new_page (wp s)) = (wp_ch (wp s), wp_lun (wp s), curline (wp s), wp_pg (wp s))"
    "loc_of (get_new_page (wp s)) \<in> on_chip (sp s)" "ppa_pl (get_new_page (wp s)) = 0"
    "valid_ppa (sp s) (get_new_page (wp s))" "curline (wp s) < blks_per_pl (sp s)"
    "line_of (loc_of (get_new_page (wp s))) = curline (wp s)" "slot_of (sp s) (loc_of (get_new_page (wp s))) = wp_slot s"
proof -
  have g: "geom (sp s)" and w: "wp_ok s" and l: "lines_ok g s" using assms by (simp_all add: ftl_inv_def shape_def)
  have "curline (wp s) \<in> {0..<blks_per_pl (sp s)} - set_option g" using l unfolding lines_ok_def by blast
  then show c: "curline (wp s) < blks_per_pl (sp s)" by simp
  have f: "wp_ch (wp s) < 128" "wp_lun (wp s) < 256" "wp_pg (wp s) < 65536" "wp_blk (wp s) < 65536" "wp_pl (wp s) < 256"
    using g w c by (auto simp: geom_def wp_ok_def)
  note n = new_page_fields [OF f]
  show 1: "loc_of (get_new_page (wp s)) = (wp_ch (wp s), wp_lun (wp s), curline (wp s), wp_pg (wp s))"
    using n w by (simp add: loc_of_def wp_ok_def)
  show "loc_of (get_new_page (wp s)) \<in> on_chip (sp s)" unfolding 1 using w c by (simp add: on_chip_def wp_ok_def)
  show "ppa_pl (get_new_page (wp s)) = 0" using n w by (simp add: wp_ok_def)
  show "valid_ppa (sp s) (get_new_page (wp s))" using n w c g by (simp add: valid_ppa_def wp_ok_def geom_def)
  show "line_of (loc_of (get_new_page (wp s))) = curline (wp s)" unfolding 1 by (simp add: line_of_def)
  show "slot_of (sp s) (loc_of (get_new_page (wp s))) = wp_slot s" unfolding 1 by (simp add: slot_of_def wp_slot_def)
qed

definition programmed :: "nat \<Rightarrow> ssd \<Rightarrow> ssd" where
  "programmed i s =
     (let ppa = get_new_page (wp s); c = wp_ch (wp s); l = wp_lun (wp s); b = curline (wp s); p = wp_pg (wp s);
          blk = blocks s (c, l, 0, b); ln = the_line s b
      in s\<lparr>maptbl := (maptbl s)[i := ppa], rmap := (rmap s)[page_no (sp s) (c, l, b, p) := of_nat i],
           blocks := (blocks s)((c, l, 0, b) := blk\<lparr>b_pg := (b_pg blk)[p := (b_pg blk ! p)\<lparr>pg_stat := PG_VALID\<rparr>],
             b_vpc := b_vpc blk + 1\<rparr>),
           lm := (lm s)\<lparr>lm_lines := (the_line s)(b := ln\<lparr>l_vpc := l_vpc ln + 1\<rparr>)\<rparr>\<rparr>)"

lemma programmed_simps [simp]:
  "sp (programmed i s) = sp s" "wp (programmed i s) = wp s" "alloc_ok (programmed i s) = alloc_ok s"
  "maptbl (programmed i s) = (maptbl s)[i := get_new_page (wp s)]"
  "free_line_list (lm (programmed i s)) = free_line_list (lm s)"
  "full_line_list (lm (programmed i s)) = full_line_list (lm s)"
  "victim_line_pq (lm (programmed i s)) = victim_line_pq (lm s)"
  "lm_tt_lines (lm (programmed i s)) = lm_tt_lines (lm s)"
  "free_line_cnt (lm (programmed i s)) = free_line_cnt (lm s)"
  "full_line_cnt (lm (programmed i s)) = full_line_cnt (lm s)"
  "victim_line_cnt (lm (programmed i s)) = victim_line_cnt (lm s)"
  by (simp_all add: programmed_def Let_def)

lemma programmed_eq:
  assumes "ftl_inv g d h t s" "i < tt_pgs (sp s)"
  shows "program_page s (of_nat i) =
    map_option (\<lambda>s'. (get_new_page (wp s), s')) (ssd_advance_write_pointer (programmed i s))"
proof -
  note n = new_page_loc [OF assms(1)]
  let ?ppa = "get_new_page (wp s)"
  have sh: "shape s" and w: "wp_ok s" using assms(1) by (simp_all add: ftl_inv_def)
  have len: "i < length (maptbl s)" "page_no (sp s) (loc_of ?ppa) < length (rmap s)"
    using sh assms(2) page_no_bound [OF _ n(2)] by (simp_all add: shape_def)
  have u: "unat (of_nat i :: u64) = i" using unat_lpn [of "sp s" i] sh assms(2) by (simp add: shape_def)
  have c: "ppa_ch ?ppa = wp_ch (wp s)" "ppa_lun ?ppa = wp_lun (wp s)" "ppa_blk ?ppa = curline (wp s)" "ppa_pg ?ppa = wp_pg (wp s)"
    using n(1) by (simp_all add: loc_of_def)
  have blk: "get_blk s' ?ppa = Some (wp_ch (wp s), wp_lun (wp s), 0, curline (wp s))" if "sp s' = sp s" for s' :: ssd
    using w n(3,5) c sh that by (simp add: get_blk_def wp_ok_def shape_def geom_def)
  have ln: "get_line s' ?ppa = Some (curline (wp s))" if "lm s' = lm s" for s' :: ssd
    using sh n(5) c that by (simp add: get_line_def shape_def)
  have pgs: "wp_pg (wp s) < length (b_pg (blocks s (wp_ch (wp s), wp_lun (wp s), 0, curline (wp s))))"
    using sh w n(5) by (simp add: shape_def wp_ok_def)
  show ?thesis
    unfolding program_page_def Let_def set_maptbl_ent_def set_rmap_ent_def mark_page_valid_def
    using len u blk ln c pgs n(1)
    by (simp add: ppa_index [OF n(3)] set_pg_status_in programmed_def Let_def map_option_case split: option.split)
qed

lemma programmed_stat:
  assumes "ftl_inv g d h t s"
  shows "stat (programmed i s) = (stat s)(loc_of (get_new_page (wp s)) := PG_VALID)"
proof -
  have sh: "shape s" and w: "wp_ok s" using assms by (simp_all add: ftl_inv_def)
  have "wp_pg (wp s) < length (b_pg (blocks s (wp_ch (wp s), wp_lun (wp s), 0, curline (wp s))))"
    using sh w new_page_loc(5) [OF assms] by (simp add: shape_def wp_ok_def)
  then show ?thesis unfolding new_page_loc(1) [OF assms]
    by (rule stat_set [where nb = "blocks (programmed i s) (wp_ch (wp s), wp_lun (wp s), 0, curline (wp s))"])
      (simp_all add: programmed_def Let_def)
qed

lemma programmed_map:
  assumes inv: "ftl_inv g d (Some i) (wp_slot s) s" and i: "i < tt_pgs (sp s)"
  shows "map_ok d None (programmed i s)"
proof -
  let ?s = "programmed i s" and ?x = "loc_of (get_new_page (wp s))"
  note n = new_page_loc [OF inv]
  have sh: "shape s" and m: "map_ok d (Some i) s" and pg: "pages_ok (wp_slot s) s" and l: "lines_ok g s"
    and dg: "\<forall>x\<in>d. line_of x \<in> set_option g" using inv by (simp_all add: ftl_inv_def)
  have geo: "geom (sp s)" and len: "length (maptbl s) = tt_pgs (sp s)" "length (rmap s) = tt_pgs (sp s)"
    using sh by (simp_all add: shape_def)
  have free: "stat s ?x = PG_FREE" using pg n unfolding pages_ok_def by (metis order_refl)
  have "curline (wp s) \<notin> set_option g" using l unfolding lines_ok_def by blast
  then have xd: "?x \<notin> d" using dg n(6) by auto
  have st: "stat ?s = (stat s)(?x := PG_VALID)" by (rule programmed_stat [OF inv])
  have rm: "rmap ?s = (rmap s)[page_no (sp s) ?x := of_nat i]" unfolding n(1) by (simp add: programmed_def Let_def)
  have xr: "page_no (sp s) ?x < length (rmap s)" using page_no_bound [OF geo n(2)] len by simp
  have old: "valid_ppa (sp s) (maptbl s ! j) \<and> loc_of (maptbl s ! j) \<notin> d \<and> loc_of (maptbl s ! j) \<noteq> ?x \<and>
      stat s (loc_of (maptbl s ! j)) = PG_VALID \<and> rmap s ! page_no (sp s) (loc_of (maptbl s ! j)) = of_nat j"
    if "j < tt_pgs (sp s)" "j \<noteq> i" "mapped_ppa (maptbl s ! j)" for j
    using m that free unfolding map_ok_def by (metis option.inject pg_status.distinct(3))
  have chip: "loc_of ppa \<in> on_chip (sp s)" if "valid_ppa (sp s) ppa" for ppa
    using that by (simp add: valid_ppa_def loc_of_def on_chip_def)
  show ?thesis unfolding map_ok_def
  proof (intro conjI allI impI ballI)
    fix j assume j: "j < tt_pgs (sp ?s)" "None \<noteq> Some j \<and> mapped_ppa (maptbl ?s ! j)"
    show "valid_ppa (sp ?s) (maptbl ?s ! j)" "loc_of (maptbl ?s ! j) \<notin> d" "stat ?s (loc_of (maptbl ?s ! j)) = PG_VALID"
      using j old [of j] len n(4) xd st by (cases "j = i"; simp)+
    show "rmap ?s ! page_no (sp ?s) (loc_of (maptbl ?s ! j)) = of_nat j"
    proof (cases "j = i")
      case True
      then show ?thesis using j len rm xr by simp
    next
      case False
      with j have e: "maptbl ?s ! j = maptbl s ! j" by simp
      have o: "valid_ppa (sp s) (maptbl s ! j)" "loc_of (maptbl s ! j) \<noteq> ?x"
        "rmap s ! page_no (sp s) (loc_of (maptbl s ! j)) = of_nat j" using old [of j] False j e by auto
      then have "page_no (sp s) (loc_of (maptbl s ! j)) \<noteq> page_no (sp s) ?x"
        using page_no_inj [OF geo chip [OF o(1)] n(2)] by blast
      with o(3) e show ?thesis by (simp add: rm)
    qed
  next
    fix x assume x: "x \<in> on_chip (sp ?s) - d" "stat ?s x = PG_VALID"
    show "\<exists>j<tt_pgs (sp ?s). None \<noteq> Some j \<and> mapped_ppa (maptbl ?s ! j) \<and> loc_of (maptbl ?s ! j) = x"
    proof (cases "x = ?x")
      case True
      then show ?thesis using i len new_page_mapped by (intro exI [of _ i]) simp
    next
      case False
      with x st have "stat s x = PG_VALID" by simp
      with m x obtain j where "j < tt_pgs (sp s)" "j \<noteq> i" "mapped_ppa (maptbl s ! j)" "loc_of (maptbl s ! j) = x"
        unfolding map_ok_def by auto
      then show ?thesis by (intro exI [of _ j]) simp
    qed
  qed
qed

lemma slot_inj:
  assumes "geom spp" "x \<in> on_chip spp" "y \<in> on_chip spp" "line_of x = line_of y" "slot_of spp x = slot_of spp y"
  shows "x = y"
proof -
  obtain c l b p where x: "x = (c, l, b, p)" by (metis prod_cases4)
  obtain c' l' b' p' where y: "y = (c', l', b', p')" by (metis prod_cases4)
  have r: "c < nchs spp" "c' < nchs spp" "l < luns_per_ch spp" "l' < luns_per_ch spp"
    using assms(2,3) x y by (simp_all add: on_chip_def)
  have "(p * luns_per_ch spp + l) * nchs spp + c = (p' * luns_per_ch spp + l') * nchs spp + c'"
    using assms(5) x y by (simp add: slot_of_def slot_no_def)
  then have "c = c'" "p * luns_per_ch spp + l = p' * luns_per_ch spp + l'"
    using div_mod_unique [OF _ r(1,2)] by blast+
  then have "p = p'" "l = l'" using div_mod_unique [OF _ r(3,4)] by blast+
  with \<open>c = c'\<close> assms(4) x y show ?thesis by (simp add: line_of_def)
qed

lemma programmed_inv:
  assumes inv: "ftl_inv g d (Some i) (wp_slot s) s" and i: "i < tt_pgs (sp s)"
  shows "ftl_inv g d None (wp_slot s + 1) (programmed i s)"
proof -
  let ?s = "programmed i s" and ?x = "loc_of (get_new_page (wp s))" and ?b = "curline (wp s)"
  note n = new_page_loc [OF inv]
  have p: "shape s" "pages_ok (wp_slot s) s" "lines_ok g s" "counts_ok g s" "blk_counts_ok s" "wp_ok s"
    "\<forall>x\<in>d. line_of x \<in> set_option g" using inv by (simp_all add: ftl_inv_def)
  have geo: "geom (sp s)" using p(1) by (simp add: shape_def)
  have free: "stat s ?x = PG_FREE" using p(2) n unfolding pages_ok_def by (metis order_refl)
  have st: "stat ?s = (stat s)(?x := PG_VALID)" by (rule programmed_stat [OF inv])
  have cur: "?b \<notin> free_set s \<union> full_set s \<union> victim_set s" using p(3) unfolding lines_ok_def by blast
  have "shape ?s" using p(1) by (auto simp: shape_def programmed_def Let_def)
  moreover have "wp_ok ?s" using p(6) by (simp add: wp_ok_def)
  moreover have "lines_ok g ?s"
  proof -
    have "pq_ok (victim_line_pq (lm s)) (the_line ?s)"
      using p(3) by (auto simp: lines_ok_def pq_ok_def victim_defs programmed_def Let_def)
    moreover have "l_id (the_line ?s b) = l_id (the_line s b)" for b by (simp add: programmed_def Let_def)
    ultimately show ?thesis using p(3) by (simp add: lines_ok_def)
  qed
  moreover have "pages_ok (wp_slot s + 1) ?s"
    unfolding pages_ok_def
  proof (intro ballI conjI impI)
    fix x assume x: "x \<in> on_chip (sp ?s)"
    show "stat ?s x = PG_FREE" if "line_of x \<in> free_set ?s"
      using p(2) x that cur n(6) by (auto simp: pages_ok_def st)
    show "stat ?s x \<noteq> PG_FREE" if "line_of x \<in> full_set ?s \<union> victim_set ?s"
      using p(2) x that cur n(6) by (auto simp: pages_ok_def st)
    show "stat ?s x = PG_FREE \<longleftrightarrow> wp_slot s + 1 \<le> slot_of (sp ?s) x" if "line_of x = curline (wp ?s)"
    proof (cases "x = ?x")
      case True
      then show ?thesis using n(7) by (simp add: st)
    next
      case False
      then have "slot_of (sp s) x \<noteq> wp_slot s" using slot_inj [OF geo _ n(2), of x] x that n(6,7) by auto
      then show ?thesis using False p(2) x that by (auto simp: pages_ok_def st)
    qed
  qed
  moreover have "counts_ok g ?s"
  proof -
    have v: "l_vpc (the_line ?s b) = l_vpc (the_line s b) + (if b = ?b then 1 else 0)"
      "l_ipc (the_line ?s b) = l_ipc (the_line s b)" for b by (simp_all add: programmed_def Let_def)
    have c: "pages_in (stat ?s) (line_pages (sp s) b) PG_VALID = pages_in (stat s) (line_pages (sp s) b) PG_VALID + (if b = ?b then 1 else 0)"
      "pages_in (stat ?s) (line_pages (sp s) b) PG_INVALID = pages_in (stat s) (line_pages (sp s) b) PG_INVALID"
      if "b < blks_per_pl (sp s)" for b
      using line_count_upd [OF st n(2) that] free n(6) by simp_all
    show ?thesis unfolding counts_ok_def using p(4) v c cur by (auto simp: counts_ok_def)
  qed
  moreover have "blk_counts_ok ?s"
  proof (rule blk_counts_upd [OF p(5), where nb = "blocks ?s (wp_ch (wp s), wp_lun (wp s), 0, ?b)"])
    show "stat ?s = (stat s)((wp_ch (wp s), wp_lun (wp s), ?b, wp_pg (wp s)) := PG_VALID)" using st n(1) by simp
  qed (use p(6) free n(1) in \<open>simp_all add: wp_ok_def programmed_def Let_def\<close>)
  moreover have "map_ok d None ?s" by (rule programmed_map [OF inv i])
  ultimately show ?thesis using p(7) by (simp add: ftl_inv_def)
qed

section \<open>Advancing the write pointer\<close>

text \<open>How many pages can still be programmed before the device runs out of free lines.\<close>

definition room :: "ssd \<Rightarrow> nat" where
  "room s = pgs_per_line (sp s) - wp_slot s + pgs_per_line (sp s) * length (free_line_list (lm s))"

lemma slot_bound:
  assumes "geom spp" "x \<in> on_chip spp"
  shows "slot_of spp x < pgs_per_line spp"
proof -
  obtain c l b p where x: "x = (c, l, b, p)" by (metis prod_cases4)
  have "p * luns_per_ch spp + l < pgs_per_blk spp * luns_per_ch spp"
    using assms(2) x by (simp add: on_chip_def digit_bound)
  then have "(p * luns_per_ch spp + l) * nchs spp + c < pgs_per_blk spp * luns_per_ch spp * nchs spp"
    using assms(2) x by (simp add: on_chip_def digit_bound)
  then show ?thesis using assms(1) x by (simp add: slot_of_def slot_no_def geom_def ac_simps)
qed

lemma slot_next:
  "slot_no spp (c + 1) l p = slot_no spp c l p + 1"
  "c + 1 = nchs spp \<Longrightarrow> slot_no spp 0 (l + 1) p = slot_no spp c l p + 1"
  "c + 1 = nchs spp \<Longrightarrow> l + 1 = luns_per_ch spp \<Longrightarrow> slot_no spp 0 0 (p + 1) = slot_no spp c l p + 1"
proof -
  show "slot_no spp (c + 1) l p = slot_no spp c l p + 1" by (simp add: slot_no_def)
  have lun: "slot_no spp 0 (k + 1) p = slot_no spp c k p + 1" if "c + 1 = nchs spp" for k
    using that by (simp add: slot_no_def algebra_simps)
  then show "c + 1 = nchs spp \<Longrightarrow> slot_no spp 0 (l + 1) p = slot_no spp c l p + 1" .
  show "slot_no spp 0 0 (p + 1) = slot_no spp c l p + 1" if "c + 1 = nchs spp" "l + 1 = luns_per_ch spp"
  proof -
    have "slot_no spp 0 0 (p + 1) = slot_no spp 0 (l + 1) p" unfolding that(2) by (simp add: slot_no_def)
    with lun [OF that(1), of l] show ?thesis by simp
  qed
qed

lemma slot_last:
  assumes "geom spp" "c + 1 = nchs spp" "l + 1 = luns_per_ch spp" "p + 1 = pgs_per_blk spp"
  shows "slot_no spp c l p + 1 = pgs_per_line spp"
proof -
  have "slot_no spp 0 0 (p + 1) = pgs_per_line spp"
    unfolding assms(4) using assms(1) by (simp add: slot_no_def geom_def)
  then show ?thesis using slot_next(3) [OF assms(2,3), of p] by simp
qed

lemma wp_slot_bound: "ftl_inv g d h t s \<Longrightarrow> wp_slot s < pgs_per_line (sp s)"
  using slot_bound [OF _ new_page_loc(2)] new_page_loc(7) by (metis ftl_inv_def shape_def)

text \<open>Within the line only the write pointer moves.\<close>

lemma inv_wp:
  assumes "ftl_inv g d h t s" "wp_ok (s\<lparr>wp := w\<rparr>)" "curline w = curline (wp s)"
  shows "ftl_inv g d h t (s\<lparr>wp := w\<rparr>)"
proof -
  have "stat (s\<lparr>wp := w\<rparr>) = stat s" by (simp add: stat_def)
  then show ?thesis using assms by (simp add: inv_defs)
qed

text \<open>At its end the line goes to the full or to the victim lines and a free one is taken.\<close>

definition switched :: "nat \<Rightarrow> ssd \<Rightarrow> ssd \<Rightarrow> bool" where
  "switched c s s' \<longleftrightarrow> sp s' = sp s \<and> maptbl s' = maptbl s \<and> rmap s' = rmap s \<and> blocks s' = blocks s \<and>
     line_frame (the_line s) (the_line s') \<and> lm_tt_lines (lm s') = lm_tt_lines (lm s) \<and>
     free_line_list (lm s) = c # free_line_list (lm s') \<and> free_line_cnt (lm s') = free_line_cnt (lm s) - 1 \<and>
     wp s' = \<lparr>curline = c, wp_ch = 0, wp_lun = 0, wp_pg = 0, wp_blk = c, wp_pl = 0\<rparr> \<and>
     q_ops (victim_line_pq (lm s')) = victim_ops \<and> pq_ok (victim_line_pq (lm s')) (the_line s') \<and>
     q_avail (victim_line_pq (lm s')) = q_avail (victim_line_pq (lm s)) \<and>
     (let full = (l_vpc (the_line s (curline (wp s))) = int (pgs_per_line (sp s))); b = curline (wp s)
      in full_line_list (lm s') = full_line_list (lm s) @ (if full then [b] else []) \<and>
         full_line_cnt (lm s') = full_line_cnt (lm s) + of_bool full \<and>
         pq_items (victim_line_pq (lm s')) =
           (if full then pq_items (victim_line_pq (lm s)) else add_mset b (pq_items (victim_line_pq (lm s)))) \<and>
         victim_line_cnt (lm s') = victim_line_cnt (lm s) + of_bool (\<not> full))"

lemma switched_inv:
  assumes inv: "ftl_inv g d h (pgs_per_line (sp s)) s" and sw: "switched c s s'"
  shows "ftl_inv g d h 0 s'"
proof -
  let ?b = "curline (wp s)"
  have p: "shape s" "pages_ok (pgs_per_line (sp s)) s" "lines_ok g s" "counts_ok g s" "blk_counts_ok s" "map_ok d h s"
    "\<forall>x\<in>d. line_of x \<in> set_option g" using inv by (simp_all add: ftl_inv_def)
  note sw' = sw [unfolded switched_def Let_def]
  have geo: "geom (sp s)" using p(1) by (simp add: shape_def)
  have st: "stat s' = stat s" using sw' by (simp add: stat_def)
  have fr: "free_set s = insert c (free_set s')" "c \<notin> free_set s'" using sw' p(3) by (auto simp: lines_ok_def)
  have ul: "full_set s' \<union> victim_set s' = insert ?b (full_set s \<union> victim_set s)"
    "full_set s' \<subseteq> insert ?b (full_set s)" "?b \<in> full_set s' \<longleftrightarrow> l_vpc (the_line s ?b) = int (pgs_per_line (sp s))"
    using sw' p(3) by (auto simp: lines_ok_def)
  have "shape s'" using p(1) sw' by (simp add: shape_def)
  moreover have "wp_ok s'" using geo sw' by (simp add: wp_ok_def geom_def)
  moreover have "lines_ok g s'"
  proof -
    note l = p(3) [unfolded lines_ok_def]
    have part: "insert c (free_set s' \<union> full_set s' \<union> victim_set s') = {0..<blks_per_pl (sp s)} - set_option g"
      using l fr(1) ul(1) by blast
    have dis: "c \<notin> full_set s \<union> victim_set s" "?b \<noteq> c" "?b \<notin> free_set s'" "?b \<notin> full_set s \<union> victim_set s"
      using l fr(1) by auto
    have disj: "free_set s' \<inter> full_set s' = {}" "free_set s' \<inter> victim_set s' = {}" "full_set s' \<inter> victim_set s' = {}"
      using l fr dis sw' by (auto split: if_splits)
    have "distinct (full_line_list (lm s'))" using l dis sw' by auto
    moreover have "distinct (free_line_list (lm s'))" using l sw' by auto
    moreover have "\<forall>b<blks_per_pl (sp s'). l_id (the_line s' b) = b" using l sw' by (simp add: line_frame_def)
    moreover have "c \<notin> full_set s' \<union> victim_set s'" unfolding ul(1) using dis by simp
    ultimately show ?thesis unfolding lines_ok_def using l sw' part disj fr(2) by auto
  qed
  moreover have "pages_ok 0 s'"
    unfolding pages_ok_def
  proof (intro ballI conjI impI)
    fix x assume "x \<in> on_chip (sp s')"
    then have x: "x \<in> on_chip (sp s)" using sw' by simp
    show "stat s' x = PG_FREE" if "line_of x \<in> free_set s'"
      using p(2) x that fr(1) st by (auto simp: pages_ok_def)
    show "stat s' x = PG_FREE \<longleftrightarrow> 0 \<le> slot_of (sp s') x" if "line_of x = curline (wp s')"
      using p(2) x that fr(1) st sw' by (auto simp: pages_ok_def)
    show "stat s' x \<noteq> PG_FREE" if "line_of x \<in> full_set s' \<union> victim_set s'"
      using p(2) x that ul(1) st slot_bound [OF geo x] by (auto simp: pages_ok_def)
  qed
  moreover have "counts_ok g s'"
    unfolding counts_ok_def
  proof (intro allI impI conjI)
    fix b assume "b < blks_per_pl (sp s')" "b \<notin> set_option g"
    then have o: "l_vpc (the_line s b) = pages_in (stat s) (line_pages (sp s) b) PG_VALID"
      "l_ipc (the_line s b) = pages_in (stat s) (line_pages (sp s) b) PG_INVALID"
      "b \<in> full_set s \<longleftrightarrow> l_vpc (the_line s b) = int (pgs_per_line (sp s)) \<and> b \<noteq> ?b"
      using p(4) sw' by (simp_all add: counts_ok_def)
    have fl: "l_vpc (the_line s' b) = l_vpc (the_line s b)" "l_ipc (the_line s' b) = l_ipc (the_line s b)"
      using sw' by (simp_all add: line_frame_def)
    show "l_vpc (the_line s' b) = pages_in (stat s') (line_pages (sp s') b) PG_VALID"
      "l_ipc (the_line s' b) = pages_in (stat s') (line_pages (sp s') b) PG_INVALID"
      using o fl st sw' by simp_all
    have "c \<notin> full_set s'" using p(3) fr(1) ul(2) by (auto simp: lines_ok_def)
    then show "b \<in> full_set s' \<longleftrightarrow> l_vpc (the_line s' b) = int (pgs_per_line (sp s')) \<and> b \<noteq> curline (wp s')"
    proof (cases "b = c")
      case True
      then have "line_pages (sp s) b \<noteq> {}" "\<forall>x\<in>line_pages (sp s) b. stat s x \<noteq> PG_VALID"
        using geo p(2) fr(1) line_pages_on_chip \<open>b < blks_per_pl (sp s')\<close> sw'
        by (auto simp: pages_ok_def line_pages_def geom_def)
      then show ?thesis using \<open>c \<notin> full_set s'\<close> True sw' by simp
    next
      case False
      then show ?thesis using o(3) fl(1) sw' by auto
    qed
  qed
  moreover have "blk_counts_ok s'" using p(5) sw' st by (simp add: blk_counts_ok_def)
  moreover have "map_ok d h s'" using p(6) sw' st by (simp add: map_ok_def)
  ultimately show ?thesis using p(7) by (simp add: ftl_inv_def)
qed

lemma insert_victim_ok:
  assumes l: "q_ops (victim_line_pq (lm s)) = victim_ops" "pq_ok (victim_line_pq (lm s)) (the_line s)"
    "q_avail (victim_line_pq (lm s)) = n + 1" "victim_set s \<subseteq> {0..<n}" "b < n" "b \<notin> victim_set s"
  shows "\<exists>q ls. insert_victim s b = Some (s\<lparr>lm := (lm s)\<lparr>victim_line_pq := q, lm_lines := ls,
      victim_line_cnt := victim_line_cnt (lm s) + 1\<rparr>\<rparr>) \<and> q_ops q = victim_ops \<and> pq_ok q ls \<and>
    line_frame (the_line s) ls \<and> pq_items q = add_mset b (pq_items (victim_line_pq (lm s))) \<and> q_avail q = n + 1"
proof -
  let ?q = "victim_line_pq (lm s)"
  have "size (pq_items ?q) = card (victim_set s)"
    using pq_items_distinct(1) [OF l(2)] by (metis finite_set_mset size_mset_set)
  also have "\<dots> \<le> card ({0..<n} - {b})" using l(4,6) by (intro card_mono) auto
  also have "\<dots> < n" using l(5) by simp
  finally have "q_size ?q < q_avail ?q" using pq_items_distinct(2) [OF l(2)] l(2,3) by (simp add: pq_ok_def)
  with vq.insert_ok [OF l(2,1,6), of "alloc_ok s" "\<lambda>_. 0"] obtain q ls where
    "pqueue_insert (alloc_ok s) (\<lambda>_. 0) ?q (the_line s) b = Some (0, q, ls)" "q_ops q = victim_ops" "pq_ok q ls"
    "line_frame (the_line s) ls" "pq_items q = add_mset b (pq_items ?q)" "q_avail q = q_avail ?q" by blast
  then show ?thesis using l(3) by (auto simp: insert_victim_def)
qed

lemma switch_line:
  assumes inv: "ftl_inv g d h t s" and "free_line_list (lm s) = c # rest"
    and "wp_ch (wp s) + 1 = nchs (sp s)" "wp_lun (wp s) + 1 = luns_per_ch (sp s)" "wp_pg (wp s) + 1 = pgs_per_blk (sp s)"
  shows "\<exists>s'. ssd_advance_write_pointer s = Some s' \<and> switched c s s'"
proof -
  let ?b = "curline (wp s)" and ?w = "wp s"
  have p: "lines_ok g s" "wp_ok s" "shape s" using inv by (simp_all add: ftl_inv_def)
  note l = p(1) [unfolded lines_ok_def]
  have c: "c < blks_per_pl (sp s)" using l assms(2) by auto
  have v: "victim_set s \<subseteq> {0..<blks_per_pl (sp s)}" "?b \<notin> victim_set s" "?b < blks_per_pl (sp s)"
    using l new_page_loc(5) [OF inv] by auto
  have w: "wp_pl ?w = 0" using p(2) by (simp add: wp_ok_def)
  have same: "?w\<lparr>wp_ch := 0, wp_lun := 0, wp_pg := 0, curline := c, wp_blk := c\<rparr> =
      \<lparr>curline = c, wp_ch = 0, wp_lun = 0, wp_pg = 0, wp_blk = c, wp_pl = 0\<rparr>"
    using w by (cases ?w) simp
  show ?thesis
  proof (cases "l_vpc (the_line s ?b) = int (pgs_per_line (sp s))")
    case True
    then show ?thesis
      using assms(2-5) l c same
      by (simp add: ssd_advance_write_pointer_def Let_def retire_line_def get_next_free_line_def switched_def
          line_frame_def)
  next
    case False
    obtain q ls where i: "insert_victim s ?b = Some (s\<lparr>lm := (lm s)\<lparr>victim_line_pq := q, lm_lines := ls,
        victim_line_cnt := victim_line_cnt (lm s) + 1\<rparr>\<rparr>)" "q_ops q = victim_ops" "pq_ok q ls"
      "line_frame (the_line s) ls" "pq_items q = add_mset ?b (pq_items (victim_line_pq (lm s)))"
      "q_avail q = blks_per_pl (sp s) + 1"
      using insert_victim_ok [of s "blks_per_pl (sp s)" ?b] l v by blast
    have "l_id (ls c) = c" using i(4) l c by (simp add: line_frame_def)
    then show ?thesis
      using False assms(2-5) l i same
      by (simp add: ssd_advance_write_pointer_def Let_def retire_line_def get_next_free_line_def switched_def)
  qed
qed

lemma advance_ok:
  assumes inv: "ftl_inv g d h (wp_slot s + 1) s" and "1 < room s"
  shows "\<exists>s'. ssd_advance_write_pointer s = Some s' \<and> ftl_inv g d h (wp_slot s') s' \<and> room s' = room s - 1 \<and>
    sp s' = sp s \<and> maptbl s' = maptbl s \<and> rmap s' = rmap s \<and> stat s' = stat s \<and>
    (\<forall>b. l_ipc (the_line s' b) = l_ipc (the_line s b) \<and> l_vpc (the_line s' b) = l_vpc (the_line s b)) \<and>
    (free_line_list (lm s) \<noteq> [] \<longrightarrow> length (free_line_list (lm s')) + 1 \<ge> length (free_line_list (lm s)))"
proof -
  let ?w = "wp s"
  have p: "shape s" "wp_ok s" using inv by (simp_all add: ftl_inv_def)
  have geo: "geom (sp s)" using p(1) by (simp add: shape_def)
  note bound = wp_slot_bound [OF inv]
  have step: ?thesis if a: "ssd_advance_write_pointer s = Some (s\<lparr>wp := w\<rparr>)" and k: "wp_ok (s\<lparr>wp := w\<rparr>)"
      "curline w = curline ?w" and w: "slot_no (sp s) (wp_ch w) (wp_lun w) (wp_pg w) = wp_slot s + 1" for w
  proof -
    have sl: "wp_slot (s\<lparr>wp := w\<rparr>) = wp_slot s + 1" using w by (simp add: wp_slot_def)
    have i: "ftl_inv g d h (wp_slot s + 1) (s\<lparr>wp := w\<rparr>)" by (rule inv_wp [OF inv k])
    have "stat (s\<lparr>wp := w\<rparr>) = stat s" by (simp add: stat_def)
    moreover have "room (s\<lparr>wp := w\<rparr>) = room s - 1" using sl bound by (simp add: room_def)
    ultimately show ?thesis using a i sl by simp
  qed
  have z: "0 < nchs (sp s)" "0 < luns_per_ch (sp s)" "0 < pgs_per_blk (sp s)" using geo by (simp_all add: geom_def)
  consider "wp_ch ?w + 1 \<noteq> nchs (sp s)"
    | "wp_ch ?w + 1 = nchs (sp s)" "wp_lun ?w + 1 \<noteq> luns_per_ch (sp s)"
    | "wp_ch ?w + 1 = nchs (sp s)" "wp_lun ?w + 1 = luns_per_ch (sp s)" "wp_pg ?w + 1 \<noteq> pgs_per_blk (sp s)"
    | "wp_ch ?w + 1 = nchs (sp s)" "wp_lun ?w + 1 = luns_per_ch (sp s)" "wp_pg ?w + 1 = pgs_per_blk (sp s)" by blast
  then show ?thesis
  proof cases
    case 1
    then show ?thesis using p(2)
      by (intro step [of "?w\<lparr>wp_ch := wp_ch ?w + 1\<rparr>"])
        (auto simp: ssd_advance_write_pointer_def Let_def wp_ok_def wp_slot_def slot_no_def)
  next
    case 2
    have "slot_no (sp s) 0 (wp_lun ?w + 1) (wp_pg ?w) = wp_slot s + 1"
      unfolding wp_slot_def by (rule slot_next(2) [OF 2(1)])
    then show ?thesis using 2 p(2) z
      by (intro step [of "?w\<lparr>wp_ch := 0, wp_lun := wp_lun ?w + 1\<rparr>"])
        (auto simp: ssd_advance_write_pointer_def Let_def wp_ok_def)
  next
    case 3
    have "slot_no (sp s) 0 0 (wp_pg ?w + 1) = wp_slot s + 1"
      unfolding wp_slot_def by (rule slot_next(3) [OF 3(1,2)])
    then show ?thesis using 3 p(2) z
      by (intro step [of "?w\<lparr>wp_ch := 0, wp_lun := 0, wp_pg := wp_pg ?w + 1\<rparr>"])
        (auto simp: ssd_advance_write_pointer_def Let_def wp_ok_def)
  next
    case 4
    have full: "wp_slot s + 1 = pgs_per_line (sp s)" unfolding wp_slot_def by (rule slot_last [OF geo 4])
    then have "free_line_list (lm s) \<noteq> []" using assms(2) by (auto simp: room_def)
    then obtain c rest where f: "free_line_list (lm s) = c # rest" by (cases "free_line_list (lm s)") auto
    from switch_line [OF inv f 4] obtain s' where s': "ssd_advance_write_pointer s = Some s'" "switched c s s'" by blast
    have i: "ftl_inv g d h 0 s'" by (rule switched_inv [OF _ s'(2)]) (use inv full in simp)
    have w0: "wp_slot s' = 0" using s'(2) by (simp add: switched_def wp_slot_def slot_no_def)
    moreover have "stat s' = stat s" using s'(2) by (simp add: switched_def stat_def)
    moreover have "room s' = room s - 1"
      using s'(2) full w0 by (simp add: room_def switched_def)
    ultimately show ?thesis using s' i by (simp add: switched_def line_frame_def)
  qed
qed

lemma advance_out_of_lines:
  assumes inv: "ftl_inv g d h t s" and r: "room s = 1"
  shows "ssd_advance_write_pointer s = None"
proof -
  let ?w = "wp s"
  have p: "shape s" "wp_ok s" "lines_ok g s" using inv by (simp_all add: ftl_inv_def)
  have geo: "geom (sp s)" using p(1) by (simp add: shape_def)
  note bound = wp_slot_bound [OF inv] and cur = new_page_loc(5) [OF inv]
  have e: "free_line_list (lm s) = []" "wp_slot s + 1 = pgs_per_line (sp s)"
    using r bound by (cases "free_line_list (lm s)"; simp add: room_def)+
  have last: "\<not> (c < nchs (sp s) \<and> l < luns_per_ch (sp s) \<and> k < pgs_per_blk (sp s) \<and>
      slot_no (sp s) c l k = wp_slot s + 1)" for c l k
    using slot_bound [OF geo, of "(c, l, curline ?w, k)"] e(2) cur by (auto simp: on_chip_def slot_of_def)
  have ch: "wp_ch ?w + 1 = nchs (sp s)"
    using last [of "wp_ch ?w + 1" "wp_lun ?w" "wp_pg ?w"] p(2) by (auto simp: wp_ok_def wp_slot_def slot_no_def)
  have lun: "wp_lun ?w + 1 = luns_per_ch (sp s)"
    using last [of 0 "wp_lun ?w + 1" "wp_pg ?w"] slot_next(2) [OF ch] p(2) by (auto simp: wp_ok_def wp_slot_def)
  have pg: "wp_pg ?w + 1 = pgs_per_blk (sp s)"
    using last [of 0 0 "wp_pg ?w + 1"] slot_next(3) [OF ch lun] p(2) by (auto simp: wp_ok_def wp_slot_def)
  have "free_line_list (lm s1) = []" if "retire_line s (curline ?w) = Some s1" for s1
    using that e(1) by (auto simp: retire_line_def insert_victim_def split: if_splits Option.bind_splits)
  then show ?thesis
    using ch lun pg by (auto simp: ssd_advance_write_pointer_def Let_def get_next_free_line_def split: Option.bind_splits)
qed

lemma program_ok:
  assumes inv: "ftl_inv g d (Some i) (wp_slot s) s" and i: "i < tt_pgs (sp s)" and "1 < room s"
  shows "\<exists>s'. program_page s (of_nat i) = Some (get_new_page (wp s), s') \<and> ftl_inv g d None (wp_slot s') s' \<and>
    room s' = room s - 1 \<and> sp s' = sp s \<and> maptbl s' = (maptbl s)[i := get_new_page (wp s)] \<and>
    rmap s' = rmap (programmed i s) \<and>
    stat s' = (stat s)(loc_of (get_new_page (wp s)) := PG_VALID) \<and>
    (\<forall>b. l_ipc (the_line s' b) = l_ipc (the_line s b)) \<and>
    (free_line_list (lm s) \<noteq> [] \<longrightarrow> length (free_line_list (lm s')) + 1 \<ge> length (free_line_list (lm s)))"
proof -
  let ?s = "programmed i s"
  have sl: "wp_slot ?s = wp_slot s" "room ?s = room s" by (simp_all add: wp_slot_def room_def)
  have "ftl_inv g d None (wp_slot ?s + 1) ?s" using programmed_inv [OF inv i] sl by simp
  from advance_ok [OF this] assms(3) sl obtain s' where
    s': "ssd_advance_write_pointer ?s = Some s'" "ftl_inv g d None (wp_slot s') s'" "room s' = room s - 1"
      "sp s' = sp s" "maptbl s' = maptbl ?s" "rmap s' = rmap ?s" "stat s' = stat ?s"
      "\<forall>b. l_ipc (the_line s' b) = l_ipc (the_line ?s b)"
      "free_line_list (lm s) \<noteq> [] \<longrightarrow> length (free_line_list (lm s')) + 1 \<ge> length (free_line_list (lm s))" by auto
  have "l_ipc (the_line ?s b) = l_ipc (the_line s b)" for b by (simp add: programmed_def Let_def)
  with s' programmed_eq [OF inv i] programmed_stat [OF inv] show ?thesis by simp
qed

lemma new_page_free:
  assumes "ftl_inv g d h (wp_slot s) s"
  shows "stat s (loc_of (get_new_page (wp s))) = PG_FREE" "curline (wp s) \<notin> set_option g"
proof -
  have p: "pages_ok (wp_slot s) s" "lines_ok g s" using assms by (simp_all add: ftl_inv_def)
  show "stat s (loc_of (get_new_page (wp s))) = PG_FREE"
    using p(1) new_page_loc [OF assms] unfolding pages_ok_def by (metis order_refl)
  show "curline (wp s) \<notin> set_option g" using p(2) unfolding lines_ok_def by blast
qed

section \<open>Invalidating the old copy\<close>

definition dropped :: "loc \<Rightarrow> ssd \<Rightarrow> ssd \<Rightarrow> bool" where
  "dropped x s s' \<longleftrightarrow> sp s' = sp s \<and> maptbl s' = maptbl s \<and> wp s' = wp s \<and>
     rmap s' = (rmap s)[page_no (sp s) x := INVALID_LPN] \<and> stat s' = (stat s)(x := PG_INVALID) \<and>
     shape s' \<and> blk_counts_ok s' \<and>
     (\<forall>k. l_id (the_line s' k) = l_id (the_line s k) \<and>
        l_ipc (the_line s' k) = l_ipc (the_line s k) + of_bool (k = line_of x) \<and>
        l_vpc (the_line s' k) = l_vpc (the_line s k) - of_bool (k = line_of x)) \<and>
     free_line_list (lm s') = free_line_list (lm s) \<and> free_line_cnt (lm s') = free_line_cnt (lm s) \<and>
     q_ops (victim_line_pq (lm s')) = victim_ops \<and> pq_ok (victim_line_pq (lm s')) (the_line s') \<and>
     q_avail (victim_line_pq (lm s')) = q_avail (victim_line_pq (lm s)) \<and>
     (let full = (l_vpc (the_line s (line_of x)) = int (pgs_per_line (sp s))); b = line_of x
      in full_line_list (lm s') = (if full then remove1 b (full_line_list (lm s)) else full_line_list (lm s)) \<and>
         full_line_cnt (lm s') = full_line_cnt (lm s) - of_bool full \<and>
         (full \<longrightarrow> b \<in> full_set s) \<and>
         pq_items (victim_line_pq (lm s')) =
           (if full then add_mset b (pq_items (victim_line_pq (lm s))) else pq_items (victim_line_pq (lm s))) \<and>
         victim_line_cnt (lm s') = victim_line_cnt (lm s) + of_bool full)"

lemma vpc_le:
  assumes "counts_ok g s" "geom (sp s)" "b < blks_per_pl (sp s)" "b \<notin> set_option g"
  shows "l_vpc (the_line s b) \<le> int (pgs_per_line (sp s))"
    "l_vpc (the_line s b) = int (pgs_per_line (sp s)) \<longleftrightarrow> (\<forall>x\<in>line_pages (sp s) b. stat s x = PG_VALID)"
proof -
  have v: "l_vpc (the_line s b) = pages_in (stat s) (line_pages (sp s) b) PG_VALID" using assms by (simp add: counts_ok_def)
  have "card {x \<in> line_pages (sp s) b. stat s x = PG_VALID} \<le> card (line_pages (sp s) b)" by (rule card_mono) auto
  then show "l_vpc (the_line s b) \<le> int (pgs_per_line (sp s))"
    using v card_line_pages [OF assms(2)] by (simp add: pages_in_def)
  show "l_vpc (the_line s b) = int (pgs_per_line (sp s)) \<longleftrightarrow> (\<forall>x\<in>line_pages (sp s) b. stat s x = PG_VALID)"
    using v pages_in_full [of "line_pages (sp s) b"] card_line_pages [OF assms(2)] by simp
qed

lemma dropped_map:
  assumes inv: "ftl_inv None {} None t s" and i: "i < tt_pgs (sp s)" "mapped_ppa (maptbl s ! i)"
    and dr: "dropped (loc_of (maptbl s ! i)) s s'"
  shows "map_ok {} (Some i) s'"
proof -
  let ?x = "loc_of (maptbl s ! i)"
  have geo: "geom (sp s)" and m: "map_ok {} None s" using inv by (simp_all add: ftl_inv_def shape_def)
  have len: "length (rmap s) = tt_pgs (sp s)" using inv by (simp add: ftl_inv_def shape_def)
  note d = dr [unfolded dropped_def Let_def]
  have chip: "loc_of ppa \<in> on_chip (sp s)" if "valid_ppa (sp s) ppa" for ppa
    using that by (simp add: valid_ppa_def loc_of_def on_chip_def)
  have old: "valid_ppa (sp s) (maptbl s ! j) \<and> stat s (loc_of (maptbl s ! j)) = PG_VALID \<and>
      rmap s ! page_no (sp s) (loc_of (maptbl s ! j)) = of_nat j" if "j < tt_pgs (sp s)" "mapped_ppa (maptbl s ! j)" for j
    using m that by (simp add: map_ok_def)
  have diff: "loc_of (maptbl s ! j) \<noteq> ?x" if "j < tt_pgs (sp s)" "mapped_ppa (maptbl s ! j)" "j \<noteq> i" for j
  proof
    assume "loc_of (maptbl s ! j) = ?x"
    then have "(of_nat j :: u64) = of_nat i" using old [OF that(1,2)] old [OF i] by metis
    then have "unat (of_nat j :: u64) = unat (of_nat i :: u64)" by simp
    then show False using that unat_lpn [OF geo] i(1) by simp
  qed
  show ?thesis unfolding map_ok_def
  proof (intro conjI allI impI ballI)
    fix j assume j: "j < tt_pgs (sp s')" "Some i \<noteq> Some j \<and> mapped_ppa (maptbl s' ! j)"
    then have j': "j < tt_pgs (sp s)" "mapped_ppa (maptbl s ! j)" "j \<noteq> i" using d by auto
    note o = old [OF j'(1,2)] diff [OF j']
    show "valid_ppa (sp s') (maptbl s' ! j)" "loc_of (maptbl s' ! j) \<notin> {}" "stat s' (loc_of (maptbl s' ! j)) = PG_VALID"
      using o d by simp_all
    have "page_no (sp s) (loc_of (maptbl s ! j)) \<noteq> page_no (sp s) ?x"
      using page_no_inj [OF geo] chip o old [OF i] by blast
    then show "rmap s' ! page_no (sp s') (loc_of (maptbl s' ! j)) = of_nat j" using o d by simp
  next
    fix x assume "x \<in> on_chip (sp s') - {}" "stat s' x = PG_VALID"
    then have x: "x \<in> on_chip (sp s)" "x \<noteq> ?x" "stat s x = PG_VALID" using d by (auto split: if_splits)
    then obtain j where "j < tt_pgs (sp s)" "mapped_ppa (maptbl s ! j)" "loc_of (maptbl s ! j) = x"
      using m unfolding map_ok_def by auto
    then show "\<exists>j<tt_pgs (sp s'). Some i \<noteq> Some j \<and> mapped_ppa (maptbl s' ! j) \<and> loc_of (maptbl s' ! j) = x"
      using x(2) d by (intro exI [of _ j]) auto
  qed
qed

end
