(* ===== verification/Ftl_Gc.thy ===== *)
theory Ftl_Gc
  imports Ftl_Inv
begin

text \<open>
  Writing and garbage collection keep the invariant of the flash translation layer: the
  invalidation of an old copy, the copying of the valid pages of a victim line, the erasure of
  its blocks, the loop that frees lines before a write, and the requests.
\<close>

section \<open>Invalidation\<close>

lemma dropped_inv:
  assumes inv: "ftl_inv None {} None (wp_slot s) s" and i: "i < tt_pgs (sp s)" "mapped_ppa (maptbl s ! i)"
    and dr: "dropped (loc_of (maptbl s ! i)) s s'"
  shows "ftl_inv None {} (Some i) (wp_slot s') s'"
proof -
  let ?x = "loc_of (maptbl s ! i)" and ?b = "line_of (loc_of (maptbl s ! i))"
  have p: "shape s" "pages_ok (wp_slot s) s" "lines_ok None s" "counts_ok None s" "wp_ok s" "map_ok {} None s"
    using inv by (simp_all add: ftl_inv_def)
  note d = dr [unfolded dropped_def Let_def]
  have geo: "geom (sp s)" using p(1) by (simp add: shape_def)
  have x: "valid_ppa (sp s) (maptbl s ! i)" "stat s ?x = PG_VALID" using p(6) i by (simp_all add: map_ok_def)
  have chip: "?x \<in> on_chip (sp s)" and b: "?b < blks_per_pl (sp s)"
    using x(1) by (simp_all add: valid_ppa_def loc_of_def on_chip_def line_of_def)
  have sl: "wp_slot s' = wp_slot s" using d by (simp add: wp_slot_def)
  have fv: "full_set s' \<union> victim_set s' = full_set s \<union> victim_set s"
    using d p(3) by (auto simp: lines_ok_def)
  have "lines_ok None s'"
  proof -
    note l = p(3) [unfolded lines_ok_def]
    have "distinct (full_line_list (lm s'))" "full_set s' \<inter> victim_set s' = {}"
      using l d by (auto split: if_splits)
    moreover have "full_set s' \<subseteq> full_set s" using d set_remove1_subset [of ?b "full_line_list (lm s)"] by (auto split: if_splits)
    moreover have "length (full_line_list (lm s')) + of_bool (l_vpc (the_line s ?b) = int (pgs_per_line (sp s))) =
        length (full_line_list (lm s))"
      using d by (auto simp: length_remove1 intro: Suc_pred length_pos_if_in_set)
    then have "full_line_cnt (lm s') = int (length (full_line_list (lm s')))" using d l by (auto split: if_splits)
    moreover have "victim_set s' \<subseteq> full_set s \<union> victim_set s" using fv by blast
    moreover have "insert (curline (wp s')) (free_set s' \<union> full_set s' \<union> victim_set s') = {0..<blks_per_pl (sp s')} - set_option None"
      using l d fv by (simp add: Un_assoc)
    ultimately show ?thesis unfolding lines_ok_def using l d by auto
  qed
  moreover have "pages_ok (wp_slot s') s'"
    unfolding pages_ok_def
  proof (intro ballI conjI impI)
    fix y assume "y \<in> on_chip (sp s')"
    then have y: "y \<in> on_chip (sp s)" using d by simp
    show "stat s' y = PG_FREE" if "line_of y \<in> free_set s'" using p(2) y that d x(2) chip by (auto simp: pages_ok_def)
    show "stat s' y = PG_FREE \<longleftrightarrow> wp_slot s' \<le> slot_of (sp s') y" if "line_of y = curline (wp s')"
      using p(2) y that d x(2) chip sl by (auto simp: pages_ok_def)
    show "stat s' y \<noteq> PG_FREE" if "line_of y \<in> full_set s' \<union> victim_set s'"
      using p(2) y that d x(2) fv by (auto simp: pages_ok_def)
  qed
  moreover have "counts_ok None s'"
    unfolding counts_ok_def
  proof (intro allI impI conjI)
    fix k assume "k < blks_per_pl (sp s')"
    then have k: "k < blks_per_pl (sp s)" using d by simp
    have o: "l_vpc (the_line s k) = pages_in (stat s) (line_pages (sp s) k) PG_VALID"
      "l_ipc (the_line s k) = pages_in (stat s) (line_pages (sp s) k) PG_INVALID"
      "k \<in> full_set s \<longleftrightarrow> l_vpc (the_line s k) = int (pgs_per_line (sp s)) \<and> k \<noteq> curline (wp s)"
      using p(4) k by (simp_all add: counts_ok_def)
    have st: "stat s' = (stat s)(?x := PG_INVALID)" using d by simp
    show "l_vpc (the_line s' k) = pages_in (stat s') (line_pages (sp s') k) PG_VALID"
      "l_ipc (the_line s' k) = pages_in (stat s') (line_pages (sp s') k) PG_INVALID"
      using line_count_upd [OF st chip k] o d x(2) by auto
    show "k \<in> full_set s' \<longleftrightarrow> l_vpc (the_line s' k) = int (pgs_per_line (sp s')) \<and> k \<noteq> curline (wp s')"
    proof (cases "k = ?b")
      case True
      have "l_vpc (the_line s' k) < int (pgs_per_line (sp s))" using vpc_le(1) [OF p(4) geo k] True d by auto
      moreover have "k \<notin> full_set s'" using True d p(3) o(3) by (auto simp: lines_ok_def split: if_splits)
      ultimately show ?thesis using d by simp
    next
      case False
      then show ?thesis using o(3) d by (auto split: if_splits)
    qed
  qed
  moreover have "map_ok {} (Some i) s'" by (rule dropped_map [OF inv i dr])
  ultimately show ?thesis using d p(5) by (simp add: ftl_inv_def wp_ok_def)
qed

lemma mark_page_invalid_drops:
  assumes inv: "ftl_inv None {} None (wp_slot s) s" and i: "i < tt_pgs (sp s)" "mapped_ppa (maptbl s ! i)"
  shows "\<exists>s' s''. mark_page_invalid s (maptbl s ! i) = Some s' \<and> set_rmap_ent s' INVALID_LPN (maptbl s ! i) = Some s'' \<and>
    dropped (loc_of (maptbl s ! i)) s s''"
proof -
  let ?ppa = "maptbl s ! i"
  let ?c = "ppa_ch ?ppa" and ?l = "ppa_lun ?ppa" and ?b = "ppa_blk ?ppa" and ?p = "ppa_pg ?ppa"
  let ?blk = "blocks s (?c, ?l, 0, ?b)" and ?ln = "the_line s ?b"
  have p: "shape s" "pages_ok (wp_slot s) s" "lines_ok None s" "counts_ok None s" "blk_counts_ok s" "map_ok {} None s"
    using inv by (simp_all add: ftl_inv_def)
  note l = p(3) [unfolded lines_ok_def]
  have geo: "geom (sp s)" using p(1) by (simp add: shape_def)
  have x: "valid_ppa (sp s) ?ppa" "stat s (loc_of ?ppa) = PG_VALID" using p(6) i by (simp_all add: map_ok_def)
  have r: "?c < nchs (sp s)" "?l < luns_per_ch (sp s)" "?b < blks_per_pl (sp s)" "?p < pgs_per_blk (sp s)" "ppa_pl ?ppa = 0"
    using x(1) geo by (auto simp: valid_ppa_def geom_def)
  have pgs: "?p < length (b_pg ?blk)" using p(1) r by (simp add: shape_def)
  define nb where "nb = ?blk\<lparr>b_pg := (b_pg ?blk)[?p := (b_pg ?blk ! ?p)\<lparr>pg_stat := PG_INVALID\<rparr>],
    b_ipc := b_ipc ?blk + 1, b_vpc := b_vpc ?blk - 1\<rparr>"
  define s2 where "s2 = s\<lparr>blocks := (blocks s)((?c, ?l, 0, ?b) := nb),
    lm := (lm s)\<lparr>lm_lines := (the_line s)(?b := ?ln\<lparr>l_ipc := l_ipc ?ln + 1, l_vpc := l_vpc ?ln - 1\<rparr>)\<rparr>\<rparr>"
  let ?full = "l_vpc ?ln = int (pgs_per_line (sp s))"
  have loc: "loc_of ?ppa = (?c, ?l, ?b, ?p)" "line_of (loc_of ?ppa) = ?b" by (simp_all add: loc_of_def line_of_def)
  have st: "stat s2 = (stat s)(loc_of ?ppa := PG_INVALID)"
    unfolding loc using pgs by (rule stat_set [where nb = nb]) (simp_all add: s2_def nb_def)
  have sh: "shape s2" using p(1) by (auto simp: shape_def s2_def nb_def)
  have bc: "blk_counts_ok s2"
    by (rule blk_counts_upd [OF p(5) _ st [unfolded loc(1)] r(4), where nb = nb])
      (use x(2) loc in \<open>simp_all add: s2_def nb_def\<close>)
  have mark: "mark_page_invalid s ?ppa = (if ?full then do {
      full \<leftarrow> qtailq_remove ?b (full_line_list (lm s));
      insert_victim (s2\<lparr>lm := (lm s2)\<lparr>full_line_list := full, full_line_cnt := full_line_cnt (lm s) - 1\<rparr>\<rparr>) ?b }
    else Some s2)"
    using r p(1) geo pgs
    by (simp add: mark_page_invalid_def get_blk_def get_line_def set_pg_status_in shape_def geom_def Let_def s2_def nb_def)
  have idx: "page_no (sp s) (loc_of ?ppa) < length (rmap s)" "ppa2pgidx (sp s) ?ppa = page_no (sp s) (loc_of ?ppa)"
    using page_no_bound [OF geo] r p(1) ppa_index [OF r(5)] by (auto simp: loc on_chip_def shape_def)
  have pq: "pq_ok (victim_line_pq (lm s)) (the_line s2)" using l by (auto simp: pq_ok_def victim_defs s2_def)
  have v: "victim_set s \<subseteq> {0..<blks_per_pl (sp s)}" using l by auto
  show ?thesis
  proof (cases ?full)
    case False
    then have "mark_page_invalid s ?ppa = Some s2" using mark by simp
    moreover have "set_rmap_ent s2 INVALID_LPN ?ppa = Some (s2\<lparr>rmap := (rmap s)[page_no (sp s) (loc_of ?ppa) := INVALID_LPN]\<rparr>)"
      using idx by (simp add: set_rmap_ent_def s2_def)
    moreover have "stat (s2\<lparr>rmap := a\<rparr>) = stat s2" "shape (s2\<lparr>rmap := a\<rparr>) = (shape s2 \<and> length a = tt_pgs (sp s2))" for a
      using sh by (auto simp: stat_def shape_def)
    moreover have "blk_counts_ok (s2\<lparr>rmap := a\<rparr>) = blk_counts_ok s2" for a by (simp add: blk_counts_ok_def stat_def)
    ultimately show ?thesis
      using False st sh bc l pq idx p(1) loc by (simp add: dropped_def shape_def s2_def)
  next
    case True
    let ?s3 = "s2\<lparr>lm := (lm s2)\<lparr>full_line_list := remove1 ?b (full_line_list (lm s)), full_line_cnt := full_line_cnt (lm s) - 1\<rparr>\<rparr>"
    have "?b \<noteq> curline (wp s)"
    proof
      assume e: "?b = curline (wp s)"
      then have "loc_of (get_new_page (wp s)) \<in> line_pages (sp s) ?b"
        using new_page_loc [OF inv] line_pages_on_chip r(3) by simp
      then have "stat s (loc_of (get_new_page (wp s))) = PG_VALID"
        using vpc_le(2) [OF p(4) geo r(3)] True by simp
      then show False using new_page_free(1) [OF inv] by simp
    qed
    then have b: "?b \<in> full_set s" using p(4) r(3) True by (simp add: counts_ok_def)
    then have nv: "?b \<notin> victim_set s" using l by auto
    have "\<exists>q ls. insert_victim ?s3 ?b = Some (?s3\<lparr>lm := (lm ?s3)\<lparr>victim_line_pq := q, lm_lines := ls,
        victim_line_cnt := victim_line_cnt (lm ?s3) + 1\<rparr>\<rparr>) \<and> q_ops q = victim_ops \<and> pq_ok q ls \<and>
      line_frame (the_line ?s3) ls \<and> pq_items q = add_mset ?b (pq_items (victim_line_pq (lm ?s3))) \<and> q_avail q = blks_per_pl (sp s) + 1"
      by (rule insert_victim_ok) (use l pq v nv r(3) in \<open>simp_all add: s2_def\<close>)
    then obtain q ls where i: "insert_victim ?s3 ?b = Some (?s3\<lparr>lm := (lm ?s3)\<lparr>victim_line_pq := q, lm_lines := ls,
        victim_line_cnt := victim_line_cnt (lm s) + 1\<rparr>\<rparr>)" "q_ops q = victim_ops" "pq_ok q ls"
      "line_frame (the_line s2) ls" "pq_items q = add_mset ?b (pq_items (victim_line_pq (lm s)))" "q_avail q = blks_per_pl (sp s) + 1"
      by (auto simp: s2_def)
    let ?s4 = "?s3\<lparr>lm := (lm ?s3)\<lparr>victim_line_pq := q, lm_lines := ls, victim_line_cnt := victim_line_cnt (lm s) + 1\<rparr>\<rparr>"
    have "mark_page_invalid s ?ppa = Some ?s4" using mark True b i(1) by (simp add: qtailq_remove_def)
    moreover have "set_rmap_ent ?s4 INVALID_LPN ?ppa = Some (?s4\<lparr>rmap := (rmap s)[page_no (sp s) (loc_of ?ppa) := INVALID_LPN]\<rparr>)"
      using idx by (simp add: set_rmap_ent_def s2_def)
    moreover have "stat (s2\<lparr>lm := m, rmap := a\<rparr>) = stat s2" for m a by (simp add: stat_def)
    moreover have "shape (s2\<lparr>lm := m, rmap := a\<rparr>)" if "lm_tt_lines m = lm_tt_lines (lm s)" "length a = length (rmap s)" for m a
      using sh that by (auto simp: shape_def s2_def)
    moreover have "blk_counts_ok (s2\<lparr>lm := m, rmap := a\<rparr>) = blk_counts_ok s2" for m a by (simp add: blk_counts_ok_def stat_def)
    ultimately show ?thesis
      using True st bc l i b loc by (simp add: dropped_def s2_def line_frame_def)
  qed
qed

lemma invalidate_ok:
  assumes inv: "ftl_inv None {} None (wp_slot s) s" and i: "i < tt_pgs (sp s)"
  shows "\<exists>s'. invalidate_old s (of_nat i) = Some s' \<and> ftl_inv None {} (Some i) (wp_slot s') s' \<and> sp s' = sp s \<and>
    room s' = room s \<and> maptbl s' = maptbl s \<and> free_line_list (lm s') = free_line_list (lm s)"
proof -
  have sh: "shape s" and m: "map_ok {} None s" using inv by (simp_all add: ftl_inv_def)
  have u: "unat (of_nat i :: u64) = i" using unat_lpn [of "sp s" i] sh i by (simp add: shape_def)
  have get: "get_maptbl_ent s (of_nat i) = Some (maptbl s ! i)" using sh i u by (simp add: get_maptbl_ent_def shape_def)
  show ?thesis
  proof (cases "mapped_ppa (maptbl s ! i)")
    case False
    have "\<exists>j<tt_pgs (sp s). Some i \<noteq> Some j \<and> mapped_ppa (maptbl s ! j) \<and> loc_of (maptbl s ! j) = x"
      if "x \<in> on_chip (sp s)" "stat s x = PG_VALID" for x
    proof -
      from m that obtain j where "j < tt_pgs (sp s)" "mapped_ppa (maptbl s ! j)" "loc_of (maptbl s ! j) = x"
        unfolding map_ok_def by auto
      with False show ?thesis by (intro exI [of _ j]) auto
    qed
    then have "map_ok {} (Some i) s" using m by (simp add: map_ok_def)
    then have "ftl_inv None {} (Some i) (wp_slot s) s" using inv by (simp add: ftl_inv_def)
    then show ?thesis using False get by (simp add: invalidate_old_def)
  next
    case True
    from mark_page_invalid_drops [OF inv i True] obtain s1 s2 where
      s2: "mark_page_invalid s (maptbl s ! i) = Some s1" "set_rmap_ent s1 INVALID_LPN (maptbl s ! i) = Some s2"
        "dropped (loc_of (maptbl s ! i)) s s2" by blast
    have "invalidate_old s (of_nat i) = Some s2" using get True s2 by (simp add: invalidate_old_def)
    moreover have "room s2 = room s" using s2(3) by (simp add: dropped_def room_def wp_slot_def)
    ultimately show ?thesis using dropped_inv [OF inv i True s2(3)] s2(3) by (simp add: dropped_def)
  qed
qed

section \<open>Timing\<close>

definition same_but_timing :: "ssd \<Rightarrow> ssd \<Rightarrow> bool" where
  "same_but_timing s s' \<longleftrightarrow> (\<exists>a k. s' = s\<lparr>luns := a, clock := k\<rparr>)"

lemma same_but_timingD:
  assumes "same_but_timing s s'"
  shows "ftl_inv g d h t s' = ftl_inv g d h t s" "sp s' = sp s" "wp s' = wp s" "lm s' = lm s" "maptbl s' = maptbl s"
    "rmap s' = rmap s" "blocks s' = blocks s" "stat s' = stat s" "room s' = room s" "wp_slot s' = wp_slot s"
  using assms by (auto simp: same_but_timing_def room_def wp_slot_def)

lemma same_but_timing_refl [simp]: "same_but_timing s s"
  unfolding same_but_timing_def by (rule exI [of _ "luns s"], rule exI [of _ "clock s"]) simp

lemma advance_status_ok:
  assumes "ppa_ch ppa < nchs (sp s)" "ppa_lun ppa < luns_per_ch (sp s)"
  shows "\<exists>lat s'. ssd_advance_status s ppa cmd = Some (lat, s') \<and> same_but_timing s s'"
proof -
  have upd: "same_but_timing s (s\<lparr>clock := k, luns := a\<rparr>)" "same_but_timing s (s\<lparr>luns := a\<rparr>)"
    "same_but_timing s (s\<lparr>clock := k\<rparr>)" for k a
    unfolding same_but_timing_def
    by (rule exI [of _ a], rule exI [of _ k], simp, rule exI [of _ a], rule exI [of _ "clock s"], simp,
        rule exI [of _ "luns s"], rule exI [of _ k], simp)
  show ?thesis
    using assms upd by (auto simp: ssd_advance_status_def get_lun_def clock_get_ns_def Let_def)
qed

lemma gc_delay_ok:
  assumes "ppa_ch ppa < nchs (sp s)" "ppa_lun ppa < luns_per_ch (sp s)"
  shows "\<exists>s'. gc_delay cmd s ppa = Some s' \<and> same_but_timing s s'"
  using advance_status_ok [OF assms, of "\<lparr>nc_type = GC_IO, nc_cmd = cmd, nc_stime = 0\<rparr>"]
  by (auto simp: gc_delay_def)

lemma set_gc_endtime_ok:
  assumes "ppa_ch ppa < nchs (sp s)" "ppa_lun ppa < luns_per_ch (sp s)"
  shows "\<exists>s'. set_gc_endtime s ppa = Some s' \<and> same_but_timing s s'"
proof -
  have "same_but_timing s (s\<lparr>luns := a\<rparr>)" for a
    unfolding same_but_timing_def by (rule exI [of _ a], rule exI [of _ "clock s"]) simp
  then show ?thesis using assms by (simp add: set_gc_endtime_def get_lun_def)
qed

section \<open>Writing pages\<close>

lemma write_page_ok:
  assumes ok: "ssd_ok s" and i: "i < tt_pgs (sp s)" and r: "1 < room s"
  shows "\<exists>s' m'. write_page st i (s, m) = Some (s', m') \<and> ssd_ok s' \<and> sp s' = sp s \<and> room s' = room s - 1 \<and>
    mapped_ppa (maptbl s' ! i) \<and> (\<forall>j. j \<noteq> i \<longrightarrow> maptbl s' ! j = maptbl s ! j)"
proof -
  from invalidate_ok [OF ok [unfolded ssd_ok_def] i] obtain s1 where
    s1: "invalidate_old s (of_nat i) = Some s1" "ftl_inv None {} (Some i) (wp_slot s1) s1" "sp s1 = sp s"
      "room s1 = room s" "maptbl s1 = maptbl s" by blast
  from program_ok [OF s1(2)] i r s1(3,4) obtain s2 where
    s2: "program_page s1 (of_nat i) = Some (get_new_page (wp s1), s2)" "ftl_inv None {} None (wp_slot s2) s2"
      "room s2 = room s - 1" "sp s2 = sp s" "maptbl s2 = (maptbl s1)[i := get_new_page (wp s1)]" by auto
  have v: "valid_ppa (sp s) (get_new_page (wp s1))" using new_page_loc(4) [OF s1(2)] s1(3) by simp
  then obtain lat s3 where s3: "ssd_advance_status s2 (get_new_page (wp s1))
      \<lparr>nc_type = USER_IO, nc_cmd = NAND_WRITE, nc_stime = st\<rparr> = Some (lat, s3)" "same_but_timing s2 s3"
    using advance_status_ok [of "get_new_page (wp s1)" s2] s2(4) unfolding valid_ppa_def by metis
  have "length (maptbl s1) = tt_pgs (sp s)" using s1(2,3) by (simp add: ftl_inv_def shape_def)
  then show ?thesis
    using s1 s2 s3 same_but_timingD [OF s3(2)] i new_page_mapped
    by (simp add: write_page_def ssd_ok_def)
qed

lemma write_pages_ok:
  assumes "ssd_ok s" "a \<le> b" "b \<le> tt_pgs (sp s)" "b - a < room s"
  shows "\<exists>s' m'. ofold (write_page st) [a..<b] (s, m) = Some (s', m') \<and> ssd_ok s' \<and> sp s' = sp s \<and>
    room s' = room s - (b - a) \<and> (\<forall>i\<in>{a..<b}. mapped_ppa (maptbl s' ! i)) \<and>
    (\<forall>j. j \<notin> {a..<b} \<longrightarrow> maptbl s' ! j = maptbl s ! j)"
  using assms(2-4)
proof (induction b rule: dec_induct)
  case base
  then show ?case using assms(1) by simp
next
  case (step n)
  then have "n - a < room s" "n \<le> tt_pgs (sp s)" by auto
  from step.IH [OF this(2,1)] obtain s1 m1 where s1: "ofold (write_page st) [a..<n] (s, m) = Some (s1, m1)" "ssd_ok s1" "sp s1 = sp s"
    "room s1 = room s - (n - a)" "\<forall>i\<in>{a..<n}. mapped_ppa (maptbl s1 ! i)"
    "\<forall>j. j \<notin> {a..<n} \<longrightarrow> maptbl s1 ! j = maptbl s ! j" by blast
  have "n < tt_pgs (sp s1)" "1 < room s1" using s1(3,4) step.prems step(1) by auto
  from write_page_ok [OF s1(2) this, of st m1] s1(3) obtain s2 m2 where
    s2: "write_page st n (s1, m1) = Some (s2, m2)" "ssd_ok s2" "sp s2 = sp s" "room s2 = room s1 - 1"
      "mapped_ppa (maptbl s2 ! n)" "\<forall>j. j \<noteq> n \<longrightarrow> maptbl s2 ! j = maptbl s1 ! j" by auto
  have "ofold (write_page st) [a..<Suc n] (s, m) = Some (s2, m2)"
    using step(1) s1(1) s2(1) by (simp add: ofold_append)
  moreover have "room s2 = room s - (Suc n - a)" using s2(4) s1(4) step(1) by simp
  moreover have "mapped_ppa (maptbl s2 ! i)" if "i \<in> {a..<Suc n}" for i
    using that s1(5) s2(5,6) by (cases "i = n") auto
  moreover have "maptbl s2 ! j = maptbl s ! j" if "j \<notin> {a..<Suc n}" for j
    using that s1(6) s2(6) step(1) by (metis atLeastLessThan_iff le_imp_less_Suc less_Suc_eq not_le order_refl)
  ultimately show ?case using s2 by blast
qed

section \<open>Copying the valid pages of a line\<close>

text \<open>Collecting line \<open>v\<close> keeps the set of mapped logical pages, moves only those that are
  stored in the line, and invalidates no page of another line.\<close>

definition kept :: "nat \<Rightarrow> ssd \<Rightarrow> ssd \<Rightarrow> bool" where
  "kept v s s' \<longleftrightarrow> sp s' = sp s \<and> (\<forall>j<tt_pgs (sp s). (mapped_ppa (maptbl s' ! j) \<longleftrightarrow> mapped_ppa (maptbl s ! j)) \<and>
     (line_of (loc_of (maptbl s ! j)) \<noteq> v \<longrightarrow> maptbl s' ! j = maptbl s ! j)) \<and>
     (\<forall>y\<in>on_chip (sp s). line_of y \<noteq> v \<longrightarrow> (stat s' y = PG_INVALID \<longleftrightarrow> stat s y = PG_INVALID))"

text \<open>The room that is left when the remaining valid pages of the line are copied.\<close>

definition slack :: "nat \<Rightarrow> loc set \<Rightarrow> ssd \<Rightarrow> int" where
  "slack v d s = int (room s) - pages_in (stat s) (line_pages (sp s) v - d) PG_VALID"

lemma kept_refl [simp]: "kept v s s"
  by (simp add: kept_def)

lemma kept_trans: "kept v s s' \<Longrightarrow> kept v s' s'' \<Longrightarrow> kept v s s''"
  unfolding kept_def by metis

lemma timing_kept:
  assumes "same_but_timing s s'"
  shows "kept v s s'" "slack v d s' = slack v d s"
  using same_but_timingD [OF assms] by (simp_all add: kept_def slack_def)

lemma timing_trans: "same_but_timing s s' \<Longrightarrow> same_but_timing s' s'' \<Longrightarrow> same_but_timing s s''"
    unfolding same_but_timing_def
proof (elim exE)
  fix a k a' k'
  assume "s' = s\<lparr>luns := a, clock := k\<rparr>" "s'' = s'\<lparr>luns := a', clock := k'\<rparr>"
  then show "\<exists>a k. s'' = s\<lparr>luns := a, clock := k\<rparr>" by (intro exI [of _ a'] exI [of _ k']) simp
qed

lemma pages_in_insert:
  assumes "finite A" "x \<in> A" "x \<notin> d"
  shows "pages_in f (A - insert x d) st = pages_in f (A - d) st - of_bool (f x = st)"
proof -
  have "{y \<in> A - d. f y = st} = (if f x = st then insert x {y \<in> A - insert x d. f y = st} else {y \<in> A - insert x d. f y = st})"
    using assms by auto
  then show ?thesis using assms(1) by (simp add: pages_in_def)
qed

lemma copied_map:
  assumes inv: "ftl_inv (Some v) d None t s" and x: "x \<in> on_chip (sp s)" "line_of x = v" "x \<notin> d" "stat s x = PG_VALID"
  obtains i where "i < tt_pgs (sp s)" "rmap s ! page_no (sp s) x = of_nat i" "ftl_inv (Some v) (insert x d) (Some i) t s"
    "mapped_ppa (maptbl s ! i)" "loc_of (maptbl s ! i) = x"
proof -
  have m: "map_ok d None s" and g: "geom (sp s)" using inv by (simp_all add: ftl_inv_def shape_def)
  obtain i where i: "i < tt_pgs (sp s)" "mapped_ppa (maptbl s ! i)" "loc_of (maptbl s ! i) = x"
    using m x unfolding map_ok_def by blast
  have r: "rmap s ! page_no (sp s) x = of_nat i" using m i unfolding map_ok_def by blast
  have other: "loc_of (maptbl s ! j) \<noteq> x" if "j < tt_pgs (sp s)" "j \<noteq> i" "mapped_ppa (maptbl s ! j)" for j
  proof
    assume "loc_of (maptbl s ! j) = x"
    then have "rmap s ! page_no (sp s) x = of_nat j" using m that(1,3) unfolding map_ok_def by blast
    then have "unat (of_nat i :: u64) = unat (of_nat j :: u64)" using r by simp
    then show False using unat_lpn [OF g] i(1) that(1,2) by simp
  qed
  have "map_ok (insert x d) (Some i) s"
    unfolding map_ok_def
  proof (intro conjI allI ballI impI)
    fix j assume j: "j < tt_pgs (sp s)" "Some i \<noteq> Some j \<and> mapped_ppa (maptbl s ! j)"
    then have "loc_of (maptbl s ! j) \<notin> d" using m unfolding map_ok_def by blast
    then show "loc_of (maptbl s ! j) \<notin> insert x d" using other j by blast
  next
    fix y assume y: "y \<in> on_chip (sp s) - insert x d" "stat s y = PG_VALID"
    then obtain j where "j < tt_pgs (sp s)" "mapped_ppa (maptbl s ! j)" "loc_of (maptbl s ! j) = y"
      using m unfolding map_ok_def by blast
    then show "\<exists>j<tt_pgs (sp s). Some i \<noteq> Some j \<and> mapped_ppa (maptbl s ! j) \<and> loc_of (maptbl s ! j) = y"
      using y(1) i(3) by (intro exI [of _ j]) auto
  qed (use m in \<open>unfold map_ok_def, blast\<close>)+
  then have "ftl_inv (Some v) (insert x d) (Some i) t s" using inv x(2) by (simp add: ftl_inv_def)
  with i r show ?thesis by (rule_tac that) auto
qed

lemma gc_write_page_ok:
  assumes inv: "ftl_inv (Some v) d None (wp_slot s) s" and p: "loc_of ppa = x" "ppa_pl ppa = 0"
    and x: "x \<in> on_chip (sp s)" "line_of x = v" "x \<notin> d" "stat s x = PG_VALID" and r: "0 < slack v d s"
  shows "\<exists>s'. gc_write_page s ppa = Some s' \<and> ftl_inv (Some v) (insert x d) None (wp_slot s') s' \<and>
    kept v s s' \<and> slack v (insert x d) s' = slack v d s \<and>
    (\<forall>y\<in>line_pages (sp s) v. stat s' y = stat s y)"
proof -
  let ?n = "get_new_page (wp s)"
  obtain i where i: "i < tt_pgs (sp s)" "rmap s ! page_no (sp s) x = of_nat i"
    "ftl_inv (Some v) (insert x d) (Some i) (wp_slot s) s" "mapped_ppa (maptbl s ! i)" "loc_of (maptbl s ! i) = x"
    using copied_map [OF inv x] by metis
  have shape: "geom (sp s)" "length (rmap s) = tt_pgs (sp s)" "length (maptbl s) = tt_pgs (sp s)" "v < blks_per_pl (sp s)"
    using inv by (auto simp: ftl_inv_def shape_def lines_ok_def)
  have xl: "x \<in> line_pages (sp s) v" using x shape(4) line_pages_on_chip by blast
  have "pages_in (stat s) (line_pages (sp s) v - insert x d) PG_VALID
      = pages_in (stat s) (line_pages (sp s) v - d) PG_VALID - 1"
    using pages_in_insert [OF finite_pages(2) xl x(3), of "stat s" PG_VALID] x(4) by simp
  with r have room: "1 < room s" and sl: "slack v (insert x d) s = slack v d s + 1"
    using pages_in_nonneg [of "stat s" "line_pages (sp s) v - insert x d" PG_VALID] by (simp_all add: slack_def)
  from program_ok [OF i(3,1) room] obtain s1 where
    s1: "program_page s (of_nat i) = Some (?n, s1)" "ftl_inv (Some v) (insert x d) None (wp_slot s1) s1"
      "room s1 = room s - 1" "sp s1 = sp s" "maptbl s1 = (maptbl s)[i := ?n]" "stat s1 = (stat s)(loc_of ?n := PG_VALID)"
    by metis
  have n: "line_of (loc_of ?n) \<noteq> v" "valid_ppa (sp s) ?n" "stat s (loc_of ?n) = PG_FREE"
    using new_page_loc(4,6) [OF inv] new_page_free [OF inv] by auto
  have k: "kept v s s1"
    using i x(2) s1(4-6) n(3) new_page_mapped shape(3) by (auto simp: kept_def nth_list_update)
  have st: "stat s1 y = stat s y" if "y \<in> line_pages (sp s) v" for y
    using that n(1) shape(4) line_pages_on_chip s1(6) by auto
  have "pages_in (stat s1) (line_pages (sp s) v - insert x d) PG_VALID
      = pages_in (stat s) (line_pages (sp s) v - insert x d) PG_VALID"
    using st by (intro pages_in_cong) blast
  then have sl1: "slack v (insert x d) s1 = slack v d s" using sl s1(3,4) room by (simp add: slack_def)
  obtain s2 where s2: "gc_delay NAND_WRITE s1 ?n = Some s2" "same_but_timing s1 s2"
    using gc_delay_ok [of ?n s1] n(2) s1(4) unfolding valid_ppa_def by metis
  obtain s3 where s3: "set_gc_endtime s2 ?n = Some s3" "same_but_timing s2 s3"
    using set_gc_endtime_ok [of ?n s2] n(2) s1(4) same_but_timingD(2) [OF s2(2)] unfolding valid_ppa_def by metis
  note e = timing_trans [OF s2(2) s3(2)]
  have "page_no (sp s) x < tt_pgs (sp s)" using page_no_bound [OF shape(1) x(1)] .
  then have "get_rmap_ent s ppa = Some (of_nat i)" using i(2) p shape(2) by (simp add: get_rmap_ent_def ppa_index aget_def)
  then have "gc_write_page s ppa = Some s3" using s1(1) s2(1) s3(1) by (simp add: gc_write_page_def)
  moreover have "kept v s s3" using kept_trans [OF k timing_kept(1) [OF e]] .
  ultimately show ?thesis using s1(2) sl1 st same_but_timingD [OF e] timing_kept(2) [OF e] by simp
qed

text \<open>The address that the loops of \<open>do_gc\<close> build field by field.\<close>

definition block_addr :: "u64 \<Rightarrow> nat \<times> nat \<times> nat \<Rightarrow> bool" where
  "block_addr ppa = (\<lambda>(c, l, b). ppa_ch ppa = c \<and> ppa_lun ppa = l \<and> ppa_blk ppa = b \<and> ppa_pl ppa = 0)"

definition copying :: "nat \<Rightarrow> loc set \<Rightarrow> ssd \<Rightarrow> loc set \<Rightarrow> ssd \<Rightarrow> bool" where
  "copying v d s d' s' \<longleftrightarrow> ftl_inv (Some v) d' None (wp_slot s') s' \<and> kept v s s' \<and>
     slack v d' s' = slack v d s \<and> (\<forall>y\<in>line_pages (sp s) v. stat s' y = stat s y)"

lemma copying_trans:
  assumes "copying v d s d' s'" "copying v d' s' d'' s''"
  shows "copying v d s d'' s''"
proof -
  have "sp s' = sp s" using assms(1) by (simp add: copying_def kept_def)
  then show ?thesis using assms kept_trans [of v s s' s''] by (simp add: copying_def)
qed

lemma skipped_page:
  assumes inv: "ftl_inv (Some v) d None t s" and x: "x \<in> line_pages (sp s) v" "x \<notin> d" "stat s x \<noteq> PG_VALID"
  shows "ftl_inv (Some v) (insert x d) None t s" "slack v (insert x d) s = slack v d s"
proof -
  have m: "map_ok d None s" using inv by (simp add: ftl_inv_def)
  have "map_ok (insert x d) None s" unfolding map_ok_def
  proof (intro conjI allI ballI impI)
    fix j assume "j < tt_pgs (sp s)" "None \<noteq> Some j \<and> mapped_ppa (maptbl s ! j)"
    then have "loc_of (maptbl s ! j) \<notin> d" "stat s (loc_of (maptbl s ! j)) = PG_VALID"
      using m unfolding map_ok_def by blast+
    then show "loc_of (maptbl s ! j) \<notin> insert x d" using x(3) by auto
  qed (use m in \<open>unfold map_ok_def, blast\<close>)+
  moreover have "line_of x = v" using x(1) by (auto simp: line_pages_def line_of_def)
  ultimately show "ftl_inv (Some v) (insert x d) None t s" using inv by (simp add: ftl_inv_def)
  show "slack v (insert x d) s = slack v d s"
    using pages_in_insert [OF finite_pages(2) x(1,2), of "stat s" PG_VALID] x(3) by (simp add: slack_def)
qed

lemma clean_page_ok:
  assumes inv: "ftl_inv (Some v) d None (wp_slot s) s" and a: "block_addr ppa (c, l, v)" "c < nchs (sp s)" "l < luns_per_ch (sp s)"
    and p: "p < pgs_per_blk (sp s)" "(c, l, v, p) \<notin> d" and r: "0 < slack v d s"
  shows "\<exists>s' ppa'. clean_page p (s, ppa) = Some (s', ppa') \<and> block_addr ppa' (c, l, v) \<and>
    copying v d s (insert (c, l, v, p) d) s'"
proof -
  let ?ppa = "set_pg p ppa" and ?x = "(c, l, v, p)"
  have g: "geom (sp s)" and v: "v < blks_per_pl (sp s)"
    and len: "length (b_pg (blocks s (c, l, 0, v))) = pgs_per_blk (sp s)"
    using inv a(2,3) by (auto simp: ftl_inv_def shape_def lines_ok_def)
  have addr: "loc_of ?ppa = ?x" "ppa_pl ?ppa = 0" "block_addr ?ppa (c, l, v)"
    using a(1) p(1) g by (simp_all add: block_addr_def loc_of_def geom_def)
  have x: "?x \<in> on_chip (sp s)" "line_of ?x = v" "?x \<in> line_pages (sp s) v"
    using a p(1) v by (simp_all add: on_chip_def line_of_def line_pages_def)
  have pg: "get_pg s ?ppa = Some (b_pg (blocks s (c, l, 0, v)) ! p)"
    using addr a(2,3) p(1) v len g by (simp add: get_pg_def get_blk_def get_lun_def block_addr_def loc_of_def geom_def)
  have stat: "pg_stat (b_pg (blocks s (c, l, 0, v)) ! p) = stat s ?x" by (simp add: stat_def)
  show ?thesis
  proof (cases "stat s ?x = PG_VALID")
    case False
    then show ?thesis
      using pg stat skipped_page [OF inv x(3) p(2) False] addr(3)
      by (simp add: clean_page_def Let_def copying_def)
  next
    case True
    obtain s1 where s1: "gc_read_page s ?ppa = Some s1" "same_but_timing s s1"
      using gc_delay_ok [of ?ppa s NAND_READ] addr(3) a(2,3) by (auto simp: gc_read_page_def block_addr_def)
    note e = same_but_timingD [OF s1(2)]
    have "ftl_inv (Some v) d None (wp_slot s1) s1" "?x \<in> on_chip (sp s1)" "stat s1 ?x = PG_VALID" "0 < slack v d s1"
      using inv x(1) True r e timing_kept(2) [OF s1(2)] by simp_all
    from gc_write_page_ok [OF this(1) addr(1,2) this(2) x(2) p(2) this(3,4)] obtain s2 where
      s2: "gc_write_page s1 ?ppa = Some s2" "ftl_inv (Some v) (insert ?x d) None (wp_slot s2) s2"
        "kept v s1 s2" "slack v (insert ?x d) s2 = slack v d s1"
        "\<forall>y\<in>line_pages (sp s1) v. stat s2 y = stat s1 y" by blast
    have "copying v d s (insert ?x d) s2"
      using s2 e timing_kept(2) [OF s1(2)] kept_trans [OF timing_kept(1) [OF s1(2)] s2(3)] by (simp add: copying_def)
    then show ?thesis using pg stat True s1(1) s2(1) addr(3) by (simp add: clean_page_def Let_def)
  qed
qed

lemma clean_pages_ok:
  assumes inv: "ftl_inv (Some v) d None (wp_slot s) s" and a: "block_addr ppa (c, l, v)" "c < nchs (sp s)" "l < luns_per_ch (sp s)"
    and new: "d \<inter> block_pages (sp s) (c, l, v) = {}" and r: "0 < slack v d s" and n: "n \<le> pgs_per_blk (sp s)"
  shows "\<exists>s' ppa'. ofold clean_page [0..<n] (s, ppa) = Some (s', ppa') \<and> block_addr ppa' (c, l, v) \<and>
    copying v d s (d \<union> {c} \<times> {l} \<times> {v} \<times> {0..<n}) s'"
  using n
proof (induction n)
  case 0
  then show ?case using inv a(1) by (simp add: copying_def)
next
  case (Suc n)
  then obtain s1 ppa1 where s1: "ofold clean_page [0..<n] (s, ppa) = Some (s1, ppa1)" "block_addr ppa1 (c, l, v)"
    and c1: "copying v d s (d \<union> {c} \<times> {l} \<times> {v} \<times> {0..<n}) s1" by auto
  let ?d = "d \<union> {c} \<times> {l} \<times> {v} \<times> {0..<n}"
  have sp: "sp s1 = sp s" using c1 by (simp add: copying_def kept_def)
  have "(c, l, v, n) \<notin> ?d" using new Suc(2) by (auto simp: block_pages_def)
  with c1 sp a s1(2) r Suc(2) obtain s2 ppa2 where
    s2: "clean_page n (s1, ppa1) = Some (s2, ppa2)" "block_addr ppa2 (c, l, v)" "copying v ?d s1 (insert (c, l, v, n) ?d) s2"
    using clean_page_ok [of v ?d s1 ppa1 c l n] by (auto simp: copying_def)
  have "insert (c, l, v, n) ?d = d \<union> {c} \<times> {l} \<times> {v} \<times> {0..<Suc n}" by auto
  then have "copying v d s (d \<union> {c} \<times> {l} \<times> {v} \<times> {0..<Suc n}) s2" using copying_trans [OF c1 s2(3)] by simp
  then show ?case using s1(1) s2(1,2) by (simp add: ofold_append)
qed

lemma clean_one_block_ok:
  assumes "ftl_inv (Some v) d None (wp_slot s) s" "block_addr ppa (c, l, v)" "c < nchs (sp s)" "l < luns_per_ch (sp s)"
    "d \<inter> block_pages (sp s) (c, l, v) = {}" "0 < slack v d s"
  shows "\<exists>s' ppa'. clean_one_block s ppa = Some (s', ppa') \<and> block_addr ppa' (c, l, v) \<and>
    copying v d s (d \<union> block_pages (sp s) (c, l, v)) s'"
  using clean_pages_ok [OF assms, of "pgs_per_blk (sp s)"] by (simp add: clean_one_block_def block_pages_def)

section \<open>Erasing the blocks of a line\<close>

definition erased :: "nat \<Rightarrow> loc set \<Rightarrow> ssd \<Rightarrow> bool" where
  "erased v d s \<longleftrightarrow> d \<subseteq> line_pages (sp s) v \<and> (\<forall>y\<in>d. stat s y = PG_FREE)"

lemma free_pages:
  assumes "n \<le> length (b_pg b)"
  shows "ofold (\<lambda>i. set_pg_status i PG_FREE) [0..<n] b =
    Some (b\<lparr>b_pg := map (\<lambda>pg. pg\<lparr>pg_stat := PG_FREE\<rparr>) (take n (b_pg b)) @ drop n (b_pg b)\<rparr>)"
  using assms
proof (induction n)
  case 0
  then show ?case by simp
next
  case (Suc n)
  then have "n < length (b_pg b)" by simp
  then have "(map (\<lambda>pg. pg\<lparr>pg_stat := PG_FREE\<rparr>) (take n (b_pg b)) @ drop n (b_pg b))[n := (b_pg b ! n)\<lparr>pg_stat := PG_FREE\<rparr>]
      = map (\<lambda>pg. pg\<lparr>pg_stat := PG_FREE\<rparr>) (take (Suc n) (b_pg b)) @ drop (Suc n) (b_pg b)"
    by (simp add: list_update_append take_Suc_conv_app_nth Cons_nth_drop_Suc [symmetric])
  with Suc show ?case by (simp add: ofold_append set_pg_status_in nth_append)
qed

lemma freed_counts:
  assumes inv: "ftl_inv (Some v) d None t s" and blk: "s' = s\<lparr>blocks := (blocks s)((c, l, 0, v) := nb)\<rparr>"
    and st: "\<And>y. y \<in> on_chip (sp s) \<Longrightarrow> stat s' y = (if y \<in> block_pages (sp s) (c, l, v) then PG_FREE else stat s y)"
    and nb: "b_vpc nb = 0" "b_ipc nb = 0"
  shows "blk_counts_ok s'" "counts_ok (Some v) s'"
proof -
  show "blk_counts_ok s'"
    unfolding blk_counts_ok_def
  proof (intro allI impI)
    fix c' l' b' assume k: "c' < nchs (sp s') \<and> l' < luns_per_ch (sp s') \<and> b' < blks_per_pl (sp s')"
    let ?A = "block_pages (sp s) (c', l', b')"
    have on: "?A \<subseteq> on_chip (sp s)" using k blk by (auto simp: block_pages_def on_chip_def)
    show "b_vpc (blocks s' (c', l', 0, b')) = pages_in (stat s') (block_pages (sp s') (c', l', b')) PG_VALID \<and>
        b_ipc (blocks s' (c', l', 0, b')) = pages_in (stat s') (block_pages (sp s') (c', l', b')) PG_INVALID"
    proof (cases "(c', l', b') = (c, l, v)")
      case True
      then have "\<forall>y\<in>?A. stat s' y = PG_FREE" using st on by auto
      then have "pages_in (stat s') ?A st = 0" if "st \<noteq> PG_FREE" for st
        using that pages_in_zero [OF finite_pages(3)] by metis
      then show ?thesis using True nb blk by simp
    next
      case False
      then have "?A \<inter> block_pages (sp s) (c, l, v) = {}" by (auto simp: block_pages_def)
      then have "\<And>y. y \<in> ?A \<Longrightarrow> stat s' y = stat s y" using st on by (metis disjoint_iff subsetD)
      then have "pages_in (stat s') ?A st = pages_in (stat s) ?A st" for st by (intro pages_in_cong) blast
      then show ?thesis using False k inv blk by (auto simp: ftl_inv_def blk_counts_ok_def)
    qed
  qed
  show "counts_ok (Some v) s'"
    unfolding counts_ok_def
  proof (intro allI impI)
    fix b assume b: "b < blks_per_pl (sp s')" "b \<notin> set_option (Some v)"
    have "stat s' y = stat s y" if "y \<in> line_pages (sp s) b" for y
      using that b blk st [of y] by (auto simp: line_pages_def block_pages_def on_chip_def)
    then have "pages_in (stat s') (line_pages (sp s) b) st = pages_in (stat s) (line_pages (sp s) b) st" for st
      by (intro pages_in_cong) blast
    then show "l_vpc (the_line s' b) = pages_in (stat s') (line_pages (sp s') b) PG_VALID \<and>
        l_ipc (the_line s' b) = pages_in (stat s') (line_pages (sp s') b) PG_INVALID \<and>
        (b \<in> full_set s' \<longleftrightarrow> l_vpc (the_line s' b) = int (pgs_per_line (sp s')) \<and> b \<noteq> curline (wp s'))"
      using inv b blk by (auto simp: ftl_inv_def counts_ok_def)
  qed
qed

lemma freed_inv:
  assumes inv: "ftl_inv (Some v) d None t s" and blk: "s' = s\<lparr>blocks := (blocks s)((c, l, 0, v) := nb)\<rparr>"
    and st: "\<And>y. y \<in> on_chip (sp s) \<Longrightarrow> stat s' y = (if y \<in> block_pages (sp s) (c, l, v) then PG_FREE else stat s y)"
    and nb: "b_vpc nb = 0" "b_ipc nb = 0" "length (b_pg nb) = pgs_per_blk (sp s)"
    and copied: "block_pages (sp s) (c, l, v) \<subseteq> d"
  shows "ftl_inv (Some v) d None t s'"
proof -
  have same: "sp s' = sp s" "wp s' = wp s" "lm s' = lm s" "maptbl s' = maptbl s" "rmap s' = rmap s" using blk by simp_all
  have other: "stat s' y = stat s y" if "y \<in> on_chip (sp s)" "line_of y \<noteq> v \<or> y \<notin> d" for y
    using that st [of y] copied by (auto simp: block_pages_def line_of_def)
  have "shape s'" "wp_ok s'" "lines_ok (Some v) s'" using inv blk nb(3) by (auto simp: ftl_inv_def shape_def wp_ok_def lines_ok_def)
  moreover have "pages_ok t s'"
  proof -
    have "v \<notin> insert (curline (wp s)) (free_set s \<union> full_set s \<union> victim_set s)"
      using inv unfolding ftl_inv_def lines_ok_def by auto
    then have "stat s' y = stat s y"
      if "y \<in> on_chip (sp s)" "line_of y \<in> insert (curline (wp s)) (free_set s \<union> full_set s \<union> victim_set s)" for y
      using that other by metis
    moreover have "pages_ok t s" using inv by (simp add: ftl_inv_def)
    ultimately show ?thesis unfolding pages_ok_def same by simp
  qed
  moreover have "map_ok d None s'"
  proof -
    have m: "map_ok d None s" using inv by (simp add: ftl_inv_def)
    have "loc_of (maptbl s ! i) \<in> on_chip (sp s)" if "i < tt_pgs (sp s)" "mapped_ppa (maptbl s ! i)" for i
      using m that by (auto simp: map_ok_def valid_ppa_def loc_of_def on_chip_def)
    then have "stat s' (loc_of (maptbl s ! i)) = stat s (loc_of (maptbl s ! i))"
      if "i < tt_pgs (sp s)" "mapped_ppa (maptbl s ! i)" for i
      using that m by (intro other) (auto simp: map_ok_def)
    then show ?thesis using m other unfolding map_ok_def same by simp
  qed
  ultimately show ?thesis using inv freed_counts [OF inv blk st nb(1,2)] by (simp add: ftl_inv_def)
qed

lemma mark_block_free_ok:
  assumes inv: "ftl_inv (Some v) d None (wp_slot s) s" and a: "block_addr ppa (c, l, v)" "c < nchs (sp s)" "l < luns_per_ch (sp s)"
    and copied: "block_pages (sp s) (c, l, v) \<subseteq> d"
  shows "\<exists>s'. mark_block_free s ppa = Some s' \<and> ftl_inv (Some v) d None (wp_slot s') s' \<and> kept v s s' \<and>
    slack v d s' = slack v d s \<and>
    (\<forall>y\<in>on_chip (sp s). stat s' y = (if y \<in> block_pages (sp s) (c, l, v) then PG_FREE else stat s y))"
proof -
  let ?b = "blocks s (c, l, 0, v)" and ?B = "block_pages (sp s) (c, l, v)"
  have v: "v < blks_per_pl (sp s)" "geom (sp s)" and len: "length (b_pg ?b) = pgs_per_blk (sp s)"
    using inv a(2,3) by (auto simp: ftl_inv_def lines_ok_def shape_def)
  define nb where "nb = ?b\<lparr>b_pg := map (\<lambda>pg. pg\<lparr>pg_stat := PG_FREE\<rparr>) (b_pg ?b), b_ipc := 0, b_vpc := 0,
    b_erase_cnt := b_erase_cnt ?b + 1\<rparr>"
  define s' where "s' = s\<lparr>blocks := (blocks s)((c, l, 0, v) := nb)\<rparr>"
  have run: "mark_block_free s ppa = Some s'"
    using a v len free_pages [of "pgs_per_blk (sp s)" ?b]
    by (simp add: mark_block_free_def get_blk_def block_addr_def geom_def s'_def nb_def)
  have st: "stat s' y = (if y \<in> ?B then PG_FREE else stat s y)" if "y \<in> on_chip (sp s)" for y
    using that len by (auto simp: stat_def s'_def nb_def on_chip_def block_pages_def split: if_splits)
  have "ftl_inv (Some v) d None (wp_slot s) s'"
    using freed_inv [OF inv s'_def st _ _ _ copied] len by (simp add: nb_def)
  moreover have same: "wp_slot s' = wp_slot s" "room s' = room s" "sp s' = sp s" "maptbl s' = maptbl s"
    by (simp_all add: s'_def wp_slot_def room_def)
  moreover have "kept v s s'"
    using same st by (auto simp: kept_def block_pages_def line_of_def)
  moreover have "pages_in (stat s') (line_pages (sp s) v - d) PG_VALID = pages_in (stat s) (line_pages (sp s) v - d) PG_VALID"
    using copied line_pages_on_chip [OF v(1)] st by (intro pages_in_cong) auto
  ultimately show ?thesis using run st by (simp add: slack_def)
qed

definition collecting :: "nat \<Rightarrow> loc set \<Rightarrow> ssd \<Rightarrow> loc set \<Rightarrow> ssd \<Rightarrow> bool" where
  "collecting v d s d' s' \<longleftrightarrow> ftl_inv (Some v) d' None (wp_slot s') s' \<and> kept v s s' \<and>
     slack v d' s' = slack v d s \<and> erased v d' s'"

lemma gc_block_ok:
  assumes inv: "ftl_inv (Some v) d None (wp_slot s) s" and a: "ppa_blk ppa = v" "c < nchs (sp s)" "l < luns_per_ch (sp s)"
    and d: "d \<inter> block_pages (sp s) (c, l, v) = {}" "erased v d s" and r: "0 < slack v d s"
  shows "\<exists>s' ppa'. gc_block (c, l) (s, ppa) = Some (s', ppa') \<and> ppa_blk ppa' = v \<and>
    collecting v d s (d \<union> block_pages (sp s) (c, l, v)) s'"
proof -
  let ?ppa = "set_pl 0 (set_lun l (set_ch c ppa))" and ?B = "block_pages (sp s) (c, l, v)" and ?d = "d \<union> block_pages (sp s) (c, l, v)"
  have g: "geom (sp s)" "v < blks_per_pl (sp s)" using inv by (auto simp: ftl_inv_def shape_def lines_ok_def)
  have addr: "block_addr ?ppa (c, l, v)" using a g by (simp add: block_addr_def geom_def)
  from clean_one_block_ok [OF inv addr a(2,3) d(1) r] obtain s1 ppa1 where
    s1: "clean_one_block s ?ppa = Some (s1, ppa1)" "block_addr ppa1 (c, l, v)" "copying v d s ?d s1" by blast
  have sp1: "sp s1 = sp s" using s1(3) by (simp add: copying_def kept_def)
  with s1 a mark_block_free_ok [of v ?d s1 ppa1 c l] obtain s2 where
    s2: "mark_block_free s1 ppa1 = Some s2" "ftl_inv (Some v) ?d None (wp_slot s2) s2" "kept v s1 s2"
      "slack v ?d s2 = slack v ?d s1"
      "\<forall>y\<in>on_chip (sp s). stat s2 y = (if y \<in> ?B then PG_FREE else stat s1 y)" by (auto simp: copying_def)
  have at: "ppa_ch ppa1 < nchs (sp s)" "ppa_lun ppa1 < luns_per_ch (sp s)" "sp s2 = sp s"
    using s1(2) a s2(3) sp1 by (simp_all add: block_addr_def kept_def)
  obtain s3 where s3: "gc_delay NAND_ERASE s2 ppa1 = Some s3" "same_but_timing s2 s3"
    using gc_delay_ok [of ppa1 s2] at by metis
  obtain s4 where s4: "set_gc_endtime s3 ppa1 = Some s4" "same_but_timing s3 s4"
    using set_gc_endtime_ok [of ppa1 s3] at same_but_timingD(2) [OF s3(2)] by metis
  note e = timing_trans [OF s3(2) s4(2)]
  have sub: "?d \<subseteq> line_pages (sp s) v" using d(2) a g by (auto simp: erased_def block_pages_def line_pages_def)
  then have on: "?d \<subseteq> on_chip (sp s)" using line_pages_on_chip [OF g(2)] by blast
  have "stat s2 y = PG_FREE" if "y \<in> ?d" for y
  proof (cases "y \<in> ?B")
    case False
    with that have "y \<in> d" by blast
    then have "stat s y = PG_FREE" "stat s1 y = stat s y" using d(2) s1(3) sub by (auto simp: erased_def copying_def)
    then show ?thesis using s2(5) False subsetD [OF on that] by simp
  qed (use s2(5) subsetD [OF on that] in simp)
  then have "erased v ?d s4" using sub same_but_timingD [OF e] at(3) by (simp add: erased_def)
  moreover have "kept v s s4"
    using kept_trans [OF kept_trans [of v s s1 s2] timing_kept(1) [OF e]] s1(3) s2(3) by (simp add: copying_def)
  ultimately have "collecting v d s ?d s4"
    using s2(2,4) s1(3) same_but_timingD [OF e] timing_kept(2) [OF e] by (simp add: collecting_def copying_def)
  moreover have "gc_block (c, l) (s, ppa) = Some (s4, ppa1)"
    using s1(1) s2(1) s3(1) s4(1) addr a(2,3) by (simp add: gc_block_def Let_def get_lun_def block_addr_def)
  ultimately show ?thesis using s1(2) by (auto simp: block_addr_def)
qed

lemma gc_blocks_ok:
  assumes "ftl_inv (Some v) d None (wp_slot s) s" "ppa_blk ppa = v" "0 < slack v d s" "erased v d s"
    "set ks \<subseteq> {0..<nchs (sp s)} \<times> {0..<luns_per_ch (sp s)}" "distinct ks"
    "\<forall>(c, l)\<in>set ks. d \<inter> block_pages (sp s) (c, l, v) = {}"
  shows "\<exists>s' ppa'. ofold gc_block ks (s, ppa) = Some (s', ppa') \<and> ppa_blk ppa' = v \<and>
    collecting v d s (d \<union> (\<Union>(c, l)\<in>set ks. block_pages (sp s) (c, l, v))) s'"
  using assms
proof (induction ks arbitrary: s ppa d)
  case Nil
  then show ?case by (simp add: collecting_def)
next
  case (Cons k ks)
  obtain c l where k: "k = (c, l)" by force
  let ?d = "d \<union> block_pages (sp s) (c, l, v)"
  from Cons.prems k gc_block_ok [of v d s ppa c l] obtain s1 ppa1 where
    s1: "gc_block (c, l) (s, ppa) = Some (s1, ppa1)" "ppa_blk ppa1 = v" "collecting v d s ?d s1" by auto
  have sp: "sp s1 = sp s" using s1(3) by (simp add: collecting_def kept_def)
  have "\<forall>(c', l')\<in>set ks. ?d \<inter> block_pages (sp s) (c', l', v) = {}"
    using Cons.prems(6,7) k by (auto simp: block_pages_def)
  with Cons.IH [of ?d s1 ppa1] Cons.prems s1 sp obtain s2 ppa2 where
    s2: "ofold gc_block ks (s1, ppa1) = Some (s2, ppa2)" "ppa_blk ppa2 = v"
      "collecting v ?d s1 (?d \<union> (\<Union>(c, l)\<in>set ks. block_pages (sp s) (c, l, v))) s2"
    by (auto simp: collecting_def)
  have "?d \<union> (\<Union>(c, l)\<in>set ks. block_pages (sp s) (c, l, v)) = d \<union> (\<Union>(c, l)\<in>set (k # ks). block_pages (sp s) (c, l, v))"
    using k by auto
  moreover have "kept v s s2" using kept_trans s1(3) s2(3) unfolding collecting_def by metis
  ultimately have "collecting v d s (d \<union> (\<Union>(c, l)\<in>set (k # ks). block_pages (sp s) (c, l, v))) s2"
    using s1(3) s2(3) by (simp add: collecting_def)
  then show ?case using s1(1) s2(1,2) k by simp
qed

section \<open>Collecting a line\<close>

lemma stat_lm [simp]: "stat (s\<lparr>lm := m\<rparr>) = stat s"
  by (simp add: stat_def fun_eq_iff)

lemma select_victim_line_ok:
  assumes ok: "ssd_ok s"
  obtains (none) "select_victim_line s force = Some (None, s)" "force \<Longrightarrow> victim_set s = {}"
    | (victim) v s' where "select_victim_line s force = Some (Some v, s')" "v \<in> victim_set s"
        "ftl_inv (Some v) {} None (wp_slot s') s'" "sp s' = sp s" "maptbl s' = maptbl s" "stat s' = stat s"
        "room s' = room s" "l_id (the_line s' v) = v"
        "\<not> force \<Longrightarrow> int (pgs_per_line (sp s) div 8) \<le> l_ipc (the_line s v)"
proof -
  let ?q = "victim_line_pq (lm s)"
  have inv: "ftl_inv None {} None (wp_slot s) s" using ok by (simp add: ssd_ok_def)
  note l = inv [unfolded ftl_inv_def lines_ok_def]
  have q: "pq_ok ?q (the_line s)" "q_ops ?q = victim_ops" using l by simp_all
  show thesis
  proof (cases "q_size ?q = 1")
    case True
    then have "size (pq_items ?q) = 0" using pq_items_distinct(2) [OF q(1)] by simp
    then show thesis using True by (intro none) (simp_all add: select_victim_line_def pqueue_peek_def)
  next
    case False
    from vq.pop_ok [OF q False] obtain v q' ls where
      v: "pqueue_pop ?q (the_line s) = Some (Some v, q', ls)" "v \<in># pq_items ?q" and "vq.removed ?q (the_line s) v q' ls"
      by blast
    then have rem: "q_ops q' = victim_ops" "pq_ok q' ls" "line_frame (the_line s) ls" "q_avail q' = q_avail ?q"
      "pq_items q' = pq_items ?q - {#v#}" by (simp_all add: vq.removed_def)
    have peek: "pqueue_peek ?q = Some (Some v)" using vq.peek_pop [OF q] v(1) by simp
    show thesis
    proof (cases "\<not> force \<and> l_ipc (the_line s v) < int (pgs_per_line (sp s) div 8)")
      case True
      then show thesis using peek by (intro none) (auto simp: select_victim_line_def)
    next
      case select: False
      define s' where "s' = s\<lparr>lm := (lm s)\<lparr>victim_line_pq := q', lm_lines := ls,
        victim_line_cnt := victim_line_cnt (lm s) - 1\<rparr>\<rparr>"
      have run: "select_victim_line s force = Some (Some v, s')"
        using peek v(1) select by (auto simp: select_victim_line_def s'_def)
      have same: "sp s' = sp s" "wp s' = wp s" "maptbl s' = maptbl s" "rmap s' = rmap s" "stat s' = stat s" "wp_slot s' = wp_slot s"
        "room s' = room s" "blocks s' = blocks s" "free_line_list (lm s') = free_line_list (lm s)"
        "full_line_list (lm s') = full_line_list (lm s)"
        by (simp_all add: s'_def stat_def wp_slot_def room_def fun_eq_iff)
      have "pq_items ?q = mset_set (victim_set s)" using pq_items_distinct(1) [OF q(1)] .
      moreover have "mset_set (victim_set s - {v}) = mset_set (victim_set s) - mset_set {v}"
        using v(2) by (intro mset_set_Diff) simp_all
      ultimately have "pq_items q' = mset_set (victim_set s - {v})" using rem(5) by simp
      then have vs: "victim_set s' = victim_set s - {v}" by (simp add: s'_def)
      have sz: "size (pq_items q') = size (pq_items ?q) - 1" using rem(5) v(2) by (simp add: size_Diff_singleton)
      have vn: "v \<noteq> curline (wp s)" "v \<notin> free_set s" "v \<notin> full_set s" "v < blks_per_pl (sp s)" using l v(2) by auto
      have "0 < size (pq_items ?q)" using v(2) by (metis empty_not_add_mset multi_member_split nonempty_has_size)
      then have "victim_line_cnt (lm s') = int (size (pq_items (victim_line_pq (lm s'))))"
        using l sz by (simp add: s'_def)
      then have "lines_ok (Some v) s'" unfolding lines_ok_def same vs
        using l rem vn by (auto simp: s'_def line_frame_def)
      moreover have "pages_ok (wp_slot s') s'" using l vs by (simp add: pages_ok_def same)
      moreover have "counts_ok (Some v) s'" using l rem(3) by (auto simp: counts_ok_def same s'_def line_frame_def)
      moreover have "shape s'" "wp_ok s'" using l by (auto simp: shape_def wp_ok_def s'_def)
      moreover have "blk_counts_ok s'" "map_ok {} None s'" using l unfolding blk_counts_ok_def map_ok_def same by simp_all
      ultimately have "ftl_inv (Some v) {} None (wp_slot s') s'" by (simp add: ftl_inv_def)
      moreover have "l_id (the_line s' v) = v" using l vn(4) rem(3) by (simp add: s'_def line_frame_def)
      ultimately show thesis using run v(2) same select by (intro victim) auto
    qed
  qed
qed

lemma mark_line_free_ok:
  assumes inv: "ftl_inv (Some v) (line_pages (sp s) v) None (wp_slot s) s" and e: "erased v (line_pages (sp s) v) s"
    and a: "ppa_blk ppa = v"
  shows "\<exists>s'. mark_line_free s ppa = Some s' \<and> ssd_ok s' \<and> sp s' = sp s \<and> maptbl s' = maptbl s \<and> stat s' = stat s \<and>
    free_line_list (lm s') = free_line_list (lm s) @ [v] \<and> room s' = room s + pgs_per_line (sp s)"
proof -
  define s' where "s' = s\<lparr>lm := (lm s)\<lparr>lm_lines := (the_line s)(v := (the_line s v)\<lparr>l_ipc := 0, l_vpc := 0\<rparr>),
    free_line_list := free_line_list (lm s) @ [v], free_line_cnt := free_line_cnt (lm s) + 1\<rparr>\<rparr>"
  note l = inv [unfolded ftl_inv_def lines_ok_def]
  have v: "v < blks_per_pl (sp s)" "geom (sp s)" "v \<noteq> curline (wp s)" "v \<notin> free_set s \<union> full_set s \<union> victim_set s"
    using l by (auto simp: shape_def)
  have run: "mark_line_free s ppa = Some s'"
    using l a v(1) by (simp add: mark_line_free_def get_line_def s'_def shape_def)
  have same: "sp s' = sp s" "wp s' = wp s" "maptbl s' = maptbl s" "rmap s' = rmap s" "stat s' = stat s" "wp_slot s' = wp_slot s"
    "blocks s' = blocks s" "free_line_list (lm s') = free_line_list (lm s) @ [v]" "victim_line_pq (lm s') = victim_line_pq (lm s)"
    "full_line_list (lm s') = full_line_list (lm s)"
    by (simp_all add: s'_def stat_def wp_slot_def fun_eq_iff)
  have free: "stat s y = PG_FREE" if "y \<in> line_pages (sp s) v" for y using e that by (simp add: erased_def)
  have "lines_ok None s'"
  proof -
    have "pq_ok (victim_line_pq (lm s)) (the_line s')"
      using l v(4) pq_items_slots(2) [of "victim_line_pq (lm s)"]
      by (auto simp: pq_ok_def s'_def victim_defs)
    then show ?thesis unfolding lines_ok_def same using l v by (auto simp: s'_def)
  qed
  moreover have "pages_ok (wp_slot s') s'"
    using l v free line_pages_on_chip [OF v(1)] unfolding pages_ok_def same by auto
  moreover have "counts_ok None s'"
    unfolding counts_ok_def
  proof (intro allI impI)
    fix b assume b: "b < blks_per_pl (sp s')"
    show "l_vpc (the_line s' b) = pages_in (stat s') (line_pages (sp s') b) PG_VALID \<and>
        l_ipc (the_line s' b) = pages_in (stat s') (line_pages (sp s') b) PG_INVALID \<and>
        (b \<in> full_set s' \<longleftrightarrow> l_vpc (the_line s' b) = int (pgs_per_line (sp s')) \<and> b \<noteq> curline (wp s'))"
    proof (cases "b = v")
      case True
      have "pages_in (stat s) (line_pages (sp s) v) PG_VALID = 0" "pages_in (stat s) (line_pages (sp s) v) PG_INVALID = 0"
        using pages_in_zero [OF finite_pages(2)] free by auto
      moreover have "0 < pgs_per_line (sp s)" using v(2) by (simp add: geom_def)
      ultimately show ?thesis using True v by (auto simp: same) (auto simp: s'_def)
    next
      case False
      have "counts_ok (Some v) s" using l by simp
      moreover have "the_line s' b = the_line s b" using False by (simp add: s'_def)
      ultimately show ?thesis using False b unfolding counts_ok_def same by simp
    qed
  qed
  moreover have "map_ok {} None s'"
  proof -
    have m: "map_ok (line_pages (sp s) v) None s" using l by simp
    have "y \<notin> line_pages (sp s) v" if "stat s y = PG_VALID" for y using free that by fastforce
    then show ?thesis using m unfolding map_ok_def same by blast
  qed
  moreover have "shape s'" "wp_ok s'" using l by (auto simp: shape_def wp_ok_def s'_def)
  moreover have "blk_counts_ok s'" using l unfolding blk_counts_ok_def same by simp
  ultimately have "ssd_ok s'" by (simp add: ssd_ok_def ftl_inv_def)
  then show ?thesis using run same by (simp add: room_def)
qed

lemma line_blocks:
  "(\<Union>(c, l)\<in>set (List.product [0..<nchs spp] [0..<luns_per_ch spp]). block_pages spp (c, l, v)) = line_pages spp v"
  by (auto simp: block_pages_def line_pages_def)

lemma victim_not_full:
  assumes "ssd_ok s" "v \<in> victim_set s"
  shows "l_vpc (the_line s v) < int (pgs_per_line (sp s))" "v < blks_per_pl (sp s)"
proof -
  have l: "lines_ok None s" "counts_ok None s" "geom (sp s)" using assms(1) by (simp_all add: ssd_ok_def ftl_inv_def shape_def)
  show v: "v < blks_per_pl (sp s)" using l(1) assms(2) unfolding lines_ok_def by fastforce
  have "v \<notin> full_set s" "v \<noteq> curline (wp s)" using l(1) assms(2) by (auto simp: lines_ok_def)
  then have "l_vpc (the_line s v) \<noteq> int (pgs_per_line (sp s))" using l(2) v by (auto simp: counts_ok_def)
  then show "l_vpc (the_line s v) < int (pgs_per_line (sp s))" using vpc_le(1) [OF l(2,3) v] by simp
qed

text \<open>The room after collecting a line tells how many lines are free.\<close>

lemma free_lines_room:
  assumes "pgs_per_line (sp s') = n" "pgs_per_line (sp s) = n" "wp_slot s < n"
    and "room s \<le> room s'"
  shows "length (free_line_list (lm s)) \<le> length (free_line_list (lm s'))"
proof (rule ccontr)
  let ?a = "length (free_line_list (lm s))" and ?b = "length (free_line_list (lm s'))"
  assume "\<not> ?a \<le> ?b"
  then have "n * (?b + 1) \<le> n * ?a" by (intro mult_le_mono2) simp
  moreover have "room s' \<le> n + n * ?b" "n * ?a < room s" using assms(1-3) by (auto simp: room_def)
  ultimately show False using assms(4) by simp
qed

lemma do_gc_ok:
  assumes ok: "ssd_ok s" and free: "free_line_list (lm s) \<noteq> []"
  obtains (none) "do_gc junk s force = Some (- 1, s)" "force \<Longrightarrow> victim_set s = {}"
    | (collected) v s' where "do_gc junk s force = Some (0, s')" "ssd_ok s'" "v \<in> victim_set s" "kept v s s'"
        "int (room s') = int (room s) + int (pgs_per_line (sp s)) - l_vpc (the_line s v)" "v \<in> free_set s'"
        "length (free_line_list (lm s)) \<le> length (free_line_list (lm s'))"
proof -
  let ?ks = "List.product [0..<nchs (sp s)] [0..<luns_per_ch (sp s)]"
  show thesis
  proof (cases rule: select_victim_line_ok [OF ok, of force, case_names none victim])
    case none
    then show thesis by (intro that(1)) (simp_all add: do_gc_def)
  next
    case (victim v s1)
    note v = victim_not_full [OF ok victim(2)]
    have sl: "wp_slot s < pgs_per_line (sp s)" using ok wp_slot_bound by (simp add: ssd_ok_def)
    have vpc: "l_vpc (the_line s v) = pages_in (stat s) (line_pages (sp s) v) PG_VALID"
      using ok v(2) by (simp add: ssd_ok_def ftl_inv_def counts_ok_def)
    have "pgs_per_line (sp s) * 1 \<le> pgs_per_line (sp s) * length (free_line_list (lm s))"
      using free by (intro mult_le_mono2) (simp add: Suc_leI)
    then have "pgs_per_line (sp s) < room s" using sl unfolding room_def by linarith
    then have slack: "0 < slack v {} s1" "slack v {} s1 = int (room s) - l_vpc (the_line s v)"
      using v(1) vpc victim(4,6,7) by (simp_all add: slack_def)
    have blk: "ppa_blk (set_blk (l_id (the_line s1 v)) junk) = v"
      using victim(3,8) v(2) victim(4) by (simp add: ftl_inv_def shape_def geom_def)
    have ks: "set ?ks \<subseteq> {0..<nchs (sp s1)} \<times> {0..<luns_per_ch (sp s1)}" "distinct ?ks"
      using victim(4) by (auto simp: distinct_product)
    obtain s2 ppa where s2: "ofold gc_block ?ks (s1, set_blk (l_id (the_line s1 v)) junk) = Some (s2, ppa)" "ppa_blk ppa = v"
      and c: "collecting v {} s1 (line_pages (sp s) v) s2"
      using gc_blocks_ok [OF victim(3) blk slack(1) _ ks] victim(4) line_blocks [where spp = "sp s" and v = v]
      by (auto simp: erased_def)
    have sp2: "sp s2 = sp s" and k2: "kept v s1 s2" using c victim(4) by (simp_all add: collecting_def kept_def)
    from mark_line_free_ok [of v s2 ppa] c sp2 s2(2) obtain s3 where
      s3: "mark_line_free s2 ppa = Some s3" "ssd_ok s3" "sp s3 = sp s" "maptbl s3 = maptbl s2" "stat s3 = stat s2"
        "free_line_list (lm s3) = free_line_list (lm s2) @ [v]" "room s3 = room s2 + pgs_per_line (sp s)"
      by (auto simp: collecting_def)
    have "int (room s2) = int (room s) - l_vpc (the_line s v)"
      using c slack(2) sp2 by (simp add: collecting_def slack_def pages_in_def)
    then have room: "int (room s3) = int (room s) + int (pgs_per_line (sp s)) - l_vpc (the_line s v)" using s3(7) by simp
    have "kept v s s3" using k2 s3(3-5) victim(4-6) by (simp add: kept_def)
    moreover have "length (free_line_list (lm s)) \<le> length (free_line_list (lm s3))"
      using free_lines_room [OF _ refl sl, of s3] s3(3) room v(1) by simp
    moreover have "do_gc junk s force = Some (0, s3)"
      using victim(1,4) s2(1) s3(1) by (simp add: do_gc_def)
    moreover have "v \<in> free_set s3" using s3(6) by simp
    ultimately show thesis using s3(2) victim(2) room by (intro that(2)) simp_all
  qed
qed

section \<open>Collecting until enough lines are free\<close>

lemma room_bound:
  assumes "ssd_ok s"
  shows "room s \<le> pgs_per_line (sp s) * blks_per_pl (sp s)"
proof -
  have l: "lines_ok None s" using assms by (simp add: ssd_ok_def ftl_inv_def)
  have "card (insert (curline (wp s)) (free_set s)) \<le> card {0..<blks_per_pl (sp s)}"
    using l unfolding lines_ok_def by (intro card_mono) auto
  moreover have "card (insert (curline (wp s)) (free_set s)) = length (free_line_list (lm s)) + 1"
    using l by (simp add: lines_ok_def distinct_card)
  ultimately have "length (free_line_list (lm s)) + 1 \<le> blks_per_pl (sp s)" by simp
  then have "pgs_per_line (sp s) * (length (free_line_list (lm s)) + 1) \<le> pgs_per_line (sp s) * blks_per_pl (sp s)"
    by (intro mult_le_mono2)
  then show ?thesis by (simp add: room_def)
qed

definition relocated :: "ssd \<Rightarrow> ssd \<Rightarrow> bool" where
  "relocated s s' \<longleftrightarrow> sp s' = sp s \<and> (\<forall>j<tt_pgs (sp s). mapped_ppa (maptbl s' ! j) \<longleftrightarrow> mapped_ppa (maptbl s ! j))"

lemma gc_loop_ok:
  assumes "ssd_ok s" "free_line_list (lm s) \<noteq> []"
  shows "\<exists>s'. gc_loop junk s = Some s' \<and> ssd_ok s' \<and> relocated s s' \<and> room s \<le> room s' \<and>
    length (free_line_list (lm s)) \<le> length (free_line_list (lm s')) \<and> (should_gc_high s' \<longrightarrow> victim_set s' = {})"
  using assms
proof (induction "pgs_per_line (sp s) * blks_per_pl (sp s) - room s" arbitrary: s rule: less_induct)
  case less
  show ?case
  proof (cases "should_gc_high s")
    case False
    then show ?thesis using less.prems by (simp add: gc_loop.simps relocated_def)
  next
    case high: True
    show ?thesis
    proof (cases rule: do_gc_ok [OF less.prems, of junk True, case_names none collected])
      case none
      then show ?thesis using less.prems high by (simp add: gc_loop.simps relocated_def)
    next
      case (collected v s1)
      have sp: "sp s1 = sp s" "relocated s s1" using collected(4) by (simp_all add: kept_def relocated_def)
      have "room s < room s1" using collected(5) victim_not_full(1) [OF less.prems(1) collected(3)] by linarith
      moreover have "room s1 \<le> pgs_per_line (sp s) * blks_per_pl (sp s)" using room_bound [OF collected(2)] sp(1) by simp
      ultimately have "pgs_per_line (sp s1) * blks_per_pl (sp s1) - room s1 < pgs_per_line (sp s) * blks_per_pl (sp s) - room s"
        using sp(1) by simp
      from less.hyps [OF this collected(2)] collected(6) obtain s2 where
        "gc_loop junk s1 = Some s2" "ssd_ok s2" "relocated s1 s2" "room s1 \<le> room s2"
        "length (free_line_list (lm s1)) \<le> length (free_line_list (lm s2))" "should_gc_high s2 \<longrightarrow> victim_set s2 = {}"
        by (metis length_pos_if_in_set list.size(3) less_irrefl)
      then show ?thesis using collected(1,7) high sp \<open>room s < room s1\<close>
        by (subst gc_loop.simps) (auto simp: relocated_def)
    qed
  qed
qed

end
