(* ===== verification/Ftl_Request.thy ===== *)
theory Ftl_Request
  imports Ftl_Gc
begin

text \<open>
  The requests of the flash translation layer.  The pages are counted: the valid pages are the
  mapped logical pages, the free pages are the room in front of the write pointer.  As long as
  the host keeps two lines more than the threshold of foreground collection unused, every
  write finds a free line, so the thread never runs into the abort of the write pointer; when
  the host uses all logical pages, the write of the last one aborts.
\<close>

section \<open>Counting pages\<close>

definition mapped_set :: "ssd \<Rightarrow> nat set" where
  "mapped_set s = {i. i < tt_pgs (sp s) \<and> mapped_ppa (maptbl s ! i)}"

lemma mapped_set_finite [simp]: "finite (mapped_set s)"
  by (simp add: mapped_set_def)

lemma mapped_entry:
  assumes "ssd_ok s" "i \<in> mapped_set s"
  shows "loc_of (maptbl s ! i) \<in> on_chip (sp s)" "stat s (loc_of (maptbl s ! i)) = PG_VALID"
    "unat (rmap s ! page_no (sp s) (loc_of (maptbl s ! i))) = i" "valid_ppa (sp s) (maptbl s ! i)"
proof -
  have m: "map_ok {} None s" and g: "geom (sp s)" using assms(1) by (simp_all add: ssd_ok_def ftl_inv_def shape_def)
  show v: "valid_ppa (sp s) (maptbl s ! i)" "stat s (loc_of (maptbl s ! i)) = PG_VALID"
    using m assms(2) by (simp_all add: map_ok_def mapped_set_def)
  show "loc_of (maptbl s ! i) \<in> on_chip (sp s)" using v(1) by (simp add: valid_ppa_def loc_of_def on_chip_def)
  have "rmap s ! page_no (sp s) (loc_of (maptbl s ! i)) = of_nat i" using m assms(2) by (simp add: map_ok_def mapped_set_def)
  then show "unat (rmap s ! page_no (sp s) (loc_of (maptbl s ! i))) = i"
    using unat_lpn [OF g] assms(2) by (simp add: mapped_set_def)
qed

lemma mapped_valid_bij:
  assumes "ssd_ok s"
  shows "bij_betw (\<lambda>i. loc_of (maptbl s ! i)) (mapped_set s) {x \<in> on_chip (sp s). stat s x = PG_VALID}"
proof (rule bij_betw_imageI)
  show "inj_on (\<lambda>i. loc_of (maptbl s ! i)) (mapped_set s)"
    using mapped_entry(3) [OF assms] by (intro inj_onI) metis
  have m: "map_ok {} None s" using assms by (simp add: ssd_ok_def ftl_inv_def)
  have "\<exists>i\<in>mapped_set s. x = loc_of (maptbl s ! i)" if "x \<in> on_chip (sp s)" "stat s x = PG_VALID" for x
    using m that unfolding map_ok_def mapped_set_def by blast
  then have "{x \<in> on_chip (sp s). stat s x = PG_VALID} \<subseteq> (\<lambda>i. loc_of (maptbl s ! i)) ` mapped_set s" by blast
  then show "(\<lambda>i. loc_of (maptbl s ! i)) ` mapped_set s = {x \<in> on_chip (sp s). stat s x = PG_VALID}"
    using mapped_entry(1,2) [OF assms] by blast
qed

lemma mapped_count:
  assumes "ssd_ok s"
  shows "pages_in (stat s) (on_chip (sp s)) PG_VALID = int (card (mapped_set s))"
  using bij_betw_same_card [OF mapped_valid_bij [OF assms]] by (simp add: pages_in_def)

lemma chip_lines: "on_chip spp = (\<Union>b\<in>{0..<blks_per_pl spp}. line_pages spp b)"
  by (auto simp: on_chip_def line_pages_def)

lemma pages_by_line: "pages_in f (on_chip spp) st = (\<Sum>b\<in>{0..<blks_per_pl spp}. pages_in f (line_pages spp b) st)"
proof -
  have "{x \<in> on_chip spp. f x = st} = (\<Union>b\<in>{0..<blks_per_pl spp}. {x \<in> line_pages spp b. f x = st})"
    by (auto simp: chip_lines)
  moreover have "card (\<Union>b\<in>{0..<blks_per_pl spp}. {x \<in> line_pages spp b. f x = st})
      = (\<Sum>b\<in>{0..<blks_per_pl spp}. card {x \<in> line_pages spp b. f x = st})"
    by (rule card_UN_disjoint) (auto simp: line_pages_def)
  ultimately show ?thesis by (simp add: pages_in_def)
qed

lemma card_on_chip: "geom spp \<Longrightarrow> card (on_chip spp) = tt_pgs spp"
  by (simp add: on_chip_def geom_def)

text \<open>Slots number the pages of a line without a gap.\<close>

lemma slots_bij:
  assumes "geom spp" "b < blks_per_pl spp"
  shows "bij_betw (slot_of spp) (line_pages spp b) {0..<pgs_per_line spp}"
proof -
  have i: "inj_on (slot_of spp) (line_pages spp b)"
    using slot_inj [OF assms(1)] line_pages_on_chip [OF assms(2)] by (auto intro!: inj_onI)
  have "slot_of spp ` line_pages spp b \<subseteq> {0..<pgs_per_line spp}"
    using slot_bound [OF assms(1)] line_pages_on_chip [OF assms(2)] by auto
  then have "slot_of spp ` line_pages spp b = {0..<pgs_per_line spp}"
    using card_image [OF i] card_line_pages [OF assms(1)] by (intro card_subset_eq) auto
  with i show ?thesis by (simp add: bij_betw_def)
qed

lemma free_in_line:
  assumes ok: "ssd_ok s" and b: "b < blks_per_pl (sp s)"
  shows "pages_in (stat s) (line_pages (sp s) b) PG_FREE =
    (if b \<in> free_set s then int (pgs_per_line (sp s))
     else if b = curline (wp s) then int (pgs_per_line (sp s) - wp_slot s) else 0)"
proof -
  have p: "pages_ok (wp_slot s) s" "lines_ok None s" "geom (sp s)" using ok by (simp_all add: ssd_ok_def ftl_inv_def shape_def)
  note on = line_pages_on_chip [OF b]
  consider (free) "b \<in> free_set s" | (cur) "b \<notin> free_set s" "b = curline (wp s)"
    | (used) "b \<notin> free_set s" "b \<noteq> curline (wp s)" "b \<in> full_set s \<union> victim_set s"
    using p(2) b unfolding lines_ok_def by fastforce
  then show ?thesis
  proof cases
    case free
    then have "\<forall>x\<in>line_pages (sp s) b. stat s x = PG_FREE" using p(1) on by (auto simp: pages_ok_def)
    then have "pages_in (stat s) (line_pages (sp s) b) PG_FREE = int (card (line_pages (sp s) b))"
      using pages_in_full [OF finite_pages(2)] by blast
    then show ?thesis using free card_line_pages [OF p(3)] by simp
  next
    case cur
    note bij = slots_bij [OF p(3) b]
    have "{x \<in> line_pages (sp s) b. stat s x = PG_FREE} = {x \<in> line_pages (sp s) b. wp_slot s \<le> slot_of (sp s) x}"
      using p(1) on cur(2) by (auto simp: pages_ok_def)
    moreover have "slot_of (sp s) ` {x \<in> line_pages (sp s) b. wp_slot s \<le> slot_of (sp s) x} = {wp_slot s..<pgs_per_line (sp s)}"
    proof -
      have "slot_of (sp s) ` {x \<in> line_pages (sp s) b. wp_slot s \<le> slot_of (sp s) x}
          = slot_of (sp s) ` line_pages (sp s) b \<inter> {wp_slot s..}" by auto
      also have "\<dots> = {0..<pgs_per_line (sp s)} \<inter> {wp_slot s..}" using bij by (simp add: bij_betw_def)
      finally show ?thesis by auto
    qed
    moreover have "inj_on (slot_of (sp s)) {x \<in> line_pages (sp s) b. wp_slot s \<le> slot_of (sp s) x}"
      using bij by (auto simp: bij_betw_def inj_on_def)
    ultimately have "card {x \<in> line_pages (sp s) b. stat s x = PG_FREE} = pgs_per_line (sp s) - wp_slot s"
      using card_image by fastforce
    then show ?thesis using cur by (simp add: pages_in_def)
  next
    case used
    then have "\<forall>x\<in>line_pages (sp s) b. stat s x \<noteq> PG_FREE" using p(1) on by (auto simp: pages_ok_def)
    then show ?thesis using used pages_in_zero [OF finite_pages(2)] by simp
  qed
qed

lemma room_free_pages:
  assumes ok: "ssd_ok s"
  shows "int (room s) = pages_in (stat s) (on_chip (sp s)) PG_FREE"
proof -
  have l: "lines_ok None s" using ok by (simp add: ssd_ok_def ftl_inv_def)
  let ?c = "curline (wp s)" and ?n = "pgs_per_line (sp s)" and ?A = "{0..<blks_per_pl (sp s)}"
  have cur: "?c \<in> ?A - free_set s" and sub: "free_set s \<subseteq> ?A" using l unfolding lines_ok_def by auto
  have "pages_in (stat s) (on_chip (sp s)) PG_FREE =
      (\<Sum>b\<in>?A. if b \<in> free_set s then int ?n else if b = ?c then int (?n - wp_slot s) else 0)"
    using free_in_line [OF ok] by (simp add: pages_by_line)
  also have "\<dots> = (\<Sum>b\<in>free_set s. int ?n) + (\<Sum>b\<in>?A - free_set s. if b = ?c then int (?n - wp_slot s) else 0)"
    using sub by (subst sum.subset_diff [OF sub]) (simp_all add: add.commute)
  also have "\<dots> = int (length (free_line_list (lm s))) * int ?n + int (?n - wp_slot s)"
    using cur l by (simp add: lines_ok_def distinct_card)
  finally show ?thesis by (simp add: room_def algebra_simps)
qed

lemma page_partition:
  assumes "geom spp"
  shows "pages_in f (on_chip spp) PG_FREE + pages_in f (on_chip spp) PG_VALID + pages_in f (on_chip spp) PG_INVALID = int (tt_pgs spp)"
proof -
  let ?S = "\<lambda>st. {x \<in> on_chip spp. f x = st}"
  have "on_chip spp = ?S PG_FREE \<union> (?S PG_VALID \<union> ?S PG_INVALID)" using pg_status.exhaust by blast
  then have "card (on_chip spp) = card (?S PG_FREE \<union> (?S PG_VALID \<union> ?S PG_INVALID))" by simp
  also have "\<dots> = card (?S PG_FREE) + (card (?S PG_VALID) + card (?S PG_INVALID))"
    by (subst card_Un_disjoint; (subst card_Un_disjoint)?) auto
  finally show ?thesis using card_on_chip [OF assms] by (simp add: pages_in_def)
qed

section \<open>Free lines\<close>

text \<open>When no victim is left, the lines that are neither free nor current hold valid pages only.\<close>

lemma free_lines_no_victim:
  assumes ok: "ssd_ok s" and v: "victim_set s = {}" and cap: "card (mapped_set s) \<le> k * pgs_per_line (sp s)"
  shows "blks_per_pl (sp s) \<le> length (free_line_list (lm s)) + 1 + k"
proof -
  have l: "lines_ok None s" "counts_ok None s" "geom (sp s)" using ok by (simp_all add: ssd_ok_def ftl_inv_def shape_def)
  let ?A = "{0..<blks_per_pl (sp s)}" and ?n = "pgs_per_line (sp s)"
  have sub: "full_set s \<subseteq> ?A" using l(1) unfolding lines_ok_def by auto
  have "int (length (full_line_list (lm s)) * ?n) = (\<Sum>b\<in>full_set s. int ?n)"
    using l(1) by (simp add: lines_ok_def distinct_card)
  also have "\<dots> = (\<Sum>b\<in>full_set s. pages_in (stat s) (line_pages (sp s) b) PG_VALID)"
    using l(2) sub by (intro sum.cong) (auto simp: counts_ok_def)
  also have "\<dots> \<le> (\<Sum>b\<in>?A. pages_in (stat s) (line_pages (sp s) b) PG_VALID)"
    using sub by (intro sum_mono2) auto
  also have "\<dots> = int (card (mapped_set s))" using mapped_count [OF ok] by (simp add: pages_by_line)
  finally have "length (full_line_list (lm s)) * ?n \<le> k * ?n" using cap by linarith
  then have full: "length (full_line_list (lm s)) \<le> k" using l(3) by (simp add: geom_def)
  have "?A = insert (curline (wp s)) (free_set s \<union> full_set s)" using l(1) v unfolding lines_ok_def by auto
  then have "card ?A \<le> 1 + card (free_set s \<union> full_set s)" by (metis Suc_eq_plus1_left card_insert_le_m1 card_insert_if finite_Un List.finite_set le_SucI order_refl)
  also have "\<dots> \<le> 1 + (card (free_set s) + card (full_set s))" using card_Un_le by simp
  also have "\<dots> \<le> 1 + (length (free_line_list (lm s)) + length (full_line_list (lm s)))"
    using card_length add_mono by (metis add_left_mono)
  finally show ?thesis using full by simp
qed

text \<open>The host leaves the lines below the threshold and two more unused.\<close>

definition spare :: "ssdparams \<Rightarrow> nat \<Rightarrow> bool" where
  "spare spp n \<longleftrightarrow> (\<exists>k. n \<le> k * pgs_per_line spp \<and> k + gc_thres_lines_high spp + 2 \<le> blks_per_pl spp)"

lemma gc_loop_frees:
  assumes ok: "ssd_ok s" "free_line_list (lm s) \<noteq> []" and cap: "spare (sp s) (card (mapped_set s))"
  shows "\<exists>s'. gc_loop junk s = Some s' \<and> ssd_ok s' \<and> sp s' = sp s \<and> mapped_set s' = mapped_set s \<and>
    gc_thres_lines_high (sp s) < length (free_line_list (lm s'))"
proof -
  obtain s' where s': "gc_loop junk s = Some s'" "ssd_ok s'" "relocated s s'" "should_gc_high s' \<longrightarrow> victim_set s' = {}"
    using gc_loop_ok [OF ok] by blast
  have same: "sp s' = sp s" "mapped_set s' = mapped_set s" using s'(3) by (auto simp: relocated_def mapped_set_def)
  have cnt: "free_line_cnt (lm s') = int (length (free_line_list (lm s')))" using s'(2) by (simp add: ssd_ok_def ftl_inv_def lines_ok_def)
  have "gc_thres_lines_high (sp s) < length (free_line_list (lm s'))"
  proof (cases "should_gc_high s'")
    case True
    obtain k where k: "card (mapped_set s) \<le> k * pgs_per_line (sp s)" "k + gc_thres_lines_high (sp s) + 2 \<le> blks_per_pl (sp s)"
      using cap by (auto simp: spare_def)
    from free_lines_no_victim [OF s'(2), of k] s'(4) True k same show ?thesis by simp
  next
    case False
    then show ?thesis using cnt same(1) by (simp add: should_gc_high_def)
  qed
  with s' same show ?thesis by blast
qed

section \<open>Requests\<close>

definition first_lpn :: "ssdparams \<Rightarrow> nvme_request \<Rightarrow> nat" where
  "first_lpn spp req = unat (slba req) div secs_per_pg spp"

definition last_lpn :: "ssdparams \<Rightarrow> nvme_request \<Rightarrow> nat" where
  "last_lpn spp req = (unat (slba req) + unat (nlb req) - 1) div secs_per_pg spp"

definition write_fits :: "ssdparams \<Rightarrow> nvme_request \<Rightarrow> bool" where
  "write_fits spp req \<longleftrightarrow> 0 < unat (nlb req) \<and> unat (slba req) + unat (nlb req) \<le> tt_pgs spp * secs_per_pg spp \<and>
     last_lpn spp req < first_lpn spp req + pgs_per_line spp"

definition read_fits :: "ssdparams \<Rightarrow> nvme_request \<Rightarrow> bool" where
  "read_fits spp req \<longleftrightarrow> unat (slba req) + unat (nlb req) < tt_pgs spp * secs_per_pg spp"

definition touched :: "ssdparams \<Rightarrow> nvme_request \<Rightarrow> nat set" where
  "touched spp req = (if is_write req = 1 then {first_lpn spp req..last_lpn spp req} else {})"

definition req_fits :: "ssdparams \<Rightarrow> nvme_request \<Rightarrow> bool" where
  "req_fits spp req \<longleftrightarrow> (is_write req = 1 \<longrightarrow> write_fits spp req) \<and> (is_write req = 0 \<longrightarrow> read_fits spp req)"

lemma sectors_bound: "geom spp \<Longrightarrow> tt_pgs spp * secs_per_pg spp \<le> 2 ^ 55"
proof -
  assume g: "geom spp"
  have "tt_pgs spp = pgs_per_blk spp * blks_per_pl spp * luns_per_ch spp * nchs spp" using g by (simp add: geom_def)
  also have "\<dots> \<le> 65536 * 65536 * 256 * 128" using g by (intro mult_le_mono) (simp_all add: geom_def)
  finally have "tt_pgs spp * secs_per_pg spp \<le> (65536 * 65536 * 256 * 128) * 256"
    using g by (intro mult_le_mono) (simp_all add: geom_def)
  then show ?thesis by simp
qed

lemma unat_secs: "geom spp \<Longrightarrow> unat (of_nat (secs_per_pg spp) :: u64) = secs_per_pg spp \<and> (of_nat (secs_per_pg spp) :: u64) \<noteq> 0"
proof -
  assume "geom spp"
  then have s: "0 < secs_per_pg spp" "secs_per_pg spp \<le> 256" by (simp_all add: geom_def)
  then have "unat (of_nat (secs_per_pg spp) :: u64) = secs_per_pg spp" by (simp add: unat_of_nat)
  with s(1) show ?thesis by (metis less_irrefl unsigned_0)
qed

lemma div_bound: "0 < n \<Longrightarrow> a < m * n \<Longrightarrow> a div n < (m :: nat)"
  by (simp add: div_less_iff_less_mult)

lemma unat_end:
  assumes "unat (slba req) + unat (nlb req) \<le> 2 ^ 55"
  shows "unat (slba req + ucast (nlb req)) = unat (slba req) + unat (nlb req)"
    "0 < unat (nlb req) \<Longrightarrow> unat (slba req + ucast (nlb req) - 1) = unat (slba req) + unat (nlb req) - 1"
proof -
  have "unat (nlb req) < 65536" using unsigned_less [of "nlb req"] by simp
  then have n: "unat (ucast (nlb req) :: u64) = unat (nlb req)" by (simp add: unsigned_ucast_eq take_bit_nat_eq_self)
  then have "unat (slba req) + unat (ucast (nlb req) :: u64) < 2 ^ LENGTH(64)" using assms by simp
  then show sum: "unat (slba req + ucast (nlb req)) = unat (slba req) + unat (nlb req)"
    using unat_add_lem n by metis
  assume pos: "0 < unat (nlb req)"
  have "slba req + ucast (nlb req) \<noteq> 0" using sum pos by (metis add_gr_0 less_irrefl unsigned_0)
  then show "unat (slba req + ucast (nlb req) - 1) = unat (slba req) + unat (nlb req) - 1"
    using sum by (simp add: unat_minus_one)
qed

lemma write_range:
  assumes "geom (sp s)" "write_fits (sp s) req"
  shows "ssd_write junk s req = do {
      s1 \<leftarrow> gc_loop junk s;
      (s', maxlat) \<leftarrow> ofold (write_page (stime req)) [first_lpn (sp s) req..<last_lpn (sp s) req + 1] (s1, 0);
      Some (maxlat, s') }"
    "first_lpn (sp s) req \<le> last_lpn (sp s) req" "last_lpn (sp s) req < tt_pgs (sp s)"
proof -
  note w = assms(2) [unfolded write_fits_def] and u = unat_secs [OF assms(1)]
  have b: "unat (slba req) + unat (nlb req) \<le> 2 ^ 55" using w sectors_bound [OF assms(1)] by linarith
  have "unat (slba req div of_nat (secs_per_pg (sp s))) = first_lpn (sp s) req"
    "unat ((slba req + ucast (nlb req) - 1) div of_nat (secs_per_pg (sp s))) = last_lpn (sp s) req"
    using u unat_end(2) [OF b] w by (simp_all add: unat_div_distrib first_lpn_def last_lpn_def)
  then show "ssd_write junk s req = do {
      s1 \<leftarrow> gc_loop junk s;
      (s', maxlat) \<leftarrow> ofold (write_page (stime req)) [first_lpn (sp s) req..<last_lpn (sp s) req + 1] (s1, 0);
      Some (maxlat, s') }"
    using u by (simp add: ssd_write_def udiv_def)
  show "first_lpn (sp s) req \<le> last_lpn (sp s) req" using w by (auto simp: first_lpn_def last_lpn_def intro: div_le_mono)
  show "last_lpn (sp s) req < tt_pgs (sp s)"
    using w assms(1) unfolding last_lpn_def by (intro div_bound) (auto simp: geom_def)
qed

definition serving :: "ssd \<Rightarrow> bool" where
  "serving s \<longleftrightarrow> ssd_ok s \<and> free_line_list (lm s) \<noteq> []"

lemma ssd_write_ok:
  assumes sv: "serving s" and f: "write_fits (sp s) req" and cap: "spare (sp s) (card (mapped_set s))"
    and th: "0 < gc_thres_lines_high (sp s)"
  shows "\<exists>lat s'. ssd_write junk s req = Some (lat, s') \<and> serving s' \<and> sp s' = sp s \<and>
    mapped_set s' = mapped_set s \<union> {first_lpn (sp s) req..last_lpn (sp s) req}"
proof -
  let ?a = "first_lpn (sp s) req" and ?b = "last_lpn (sp s) req + 1" and ?n = "pgs_per_line (sp s)"
  have ok: "ssd_ok s" "free_line_list (lm s) \<noteq> []" and g: "geom (sp s)" using sv by (simp_all add: serving_def ssd_ok_def ftl_inv_def shape_def)
  note w = write_range [OF g f]
  obtain s1 where s1: "gc_loop junk s = Some s1" "ssd_ok s1" "sp s1 = sp s" "mapped_set s1 = mapped_set s"
    "2 \<le> length (free_line_list (lm s1))"
    using gc_loop_frees [OF ok cap, of junk] th by fastforce
  have sl: "wp_slot s1 < ?n" using wp_slot_bound s1(2,3) by (metis ssd_ok_def)
  have "?n * 2 \<le> ?n * length (free_line_list (lm s1))" using s1(5) by (intro mult_le_mono2)
  then have room: "?n + ?n < room s1" using sl unfolding room_def s1(3) by linarith
  have len: "?b - ?a \<le> ?n" using f unfolding write_fits_def by linarith
  obtain s' m where s': "ofold (write_page (stime req)) [?a..<?b] (s1, 0) = Some (s', m)" "ssd_ok s'" "sp s' = sp s"
    "room s' = room s1 - (?b - ?a)" "\<forall>i\<in>{?a..<?b}. mapped_ppa (maptbl s' ! i)" "\<forall>j. j \<notin> {?a..<?b} \<longrightarrow> maptbl s' ! j = maptbl s1 ! j"
  proof -
    have "?a \<le> ?b" "?b \<le> tt_pgs (sp s1)" "?b - ?a < room s1" using w(2,3) s1(3) room len by simp_all
    from write_pages_ok [OF s1(2) this, of "stime req" 0] s1(3) show thesis using that by auto
  qed
  have "?n < room s'" using s'(4) room len by simp
  then have "free_line_list (lm s') \<noteq> []" using s'(3) by (auto simp: room_def)
  moreover have "mapped_set s' = mapped_set s \<union> {?a..last_lpn (sp s) req}"
  proof -
    have "i \<in> mapped_set s' \<longleftrightarrow> i \<in> mapped_set s1 \<or> i \<in> {?a..<?b}" for i
      using s'(3,5,6) s1(3) w(3) by (cases "i \<in> {?a..<?b}") (auto simp: mapped_set_def)
    then show ?thesis using s1(4) by auto
  qed
  ultimately show ?thesis using w(1) s1(1) s' by (simp add: serving_def)
qed

lemma read_page_ok:
  assumes ok: "ssd_ok s" and i: "i < tt_pgs (sp s)"
  shows "\<exists>s' m'. read_page st i (s, m) = Some (s', m') \<and> same_but_timing s s'"
proof -
  have sh: "geom (sp s)" "length (maptbl s) = tt_pgs (sp s)" using ok by (simp_all add: ssd_ok_def ftl_inv_def shape_def)
  have e: "get_maptbl_ent s (of_nat i) = Some (maptbl s ! i)" using i sh unat_lpn by (simp add: get_maptbl_ent_def)
  show ?thesis
  proof (cases "mapped_ppa (maptbl s ! i) \<and> valid_ppa (sp s) (maptbl s ! i)")
    case True
    then obtain lat s' where "ssd_advance_status s (maptbl s ! i) \<lparr>nc_type = USER_IO, nc_cmd = NAND_READ, nc_stime = st\<rparr>
        = Some (lat, s')" "same_but_timing s s'"
      using advance_status_ok [of "maptbl s ! i" s] unfolding valid_ppa_def by metis
    then show ?thesis using e True by (simp add: read_page_def)
  qed (use e in \<open>auto simp: read_page_def\<close>)
qed

lemma timing_ok: "same_but_timing s s' \<Longrightarrow> ssd_ok s' \<longleftrightarrow> ssd_ok s"
  using same_but_timingD by (simp add: ssd_ok_def)

lemma read_pages_ok:
  assumes "ssd_ok s" "\<forall>i\<in>set is. i < tt_pgs (sp s)"
  shows "\<exists>s' m'. ofold (read_page st) is (s, m) = Some (s', m') \<and> same_but_timing s s'"
  using assms
proof (induction "is" arbitrary: s m)
  case (Cons i "is")
  obtain s1 m1 where s1: "read_page st i (s, m) = Some (s1, m1)" "same_but_timing s s1"
    using read_page_ok [OF Cons.prems(1)] Cons.prems(2) by (metis list.set_intros(1))
  have "ssd_ok s1" "\<forall>i\<in>set is. i < tt_pgs (sp s1)"
    using Cons.prems timing_ok [OF s1(2)] same_but_timingD(2) [OF s1(2)] by simp_all
  from Cons.IH [OF this, of m1] obtain s2 m2 where
    s2: "ofold (read_page st) is (s1, m1) = Some (s2, m2)" "same_but_timing s1 s2" by blast
  then show ?case using s1(1) timing_trans [OF s1(2) s2(2)] by simp
qed simp

lemma read_range:
  assumes "geom (sp s)" "unat (slba req) + unat (nlb req) \<le> tt_pgs (sp s) * secs_per_pg (sp s)"
  shows "ssd_read s req = do {
      (s', maxlat) \<leftarrow> ofold (read_page (stime req))
        [first_lpn (sp s) req..<(unat (slba req) + unat (nlb req)) div secs_per_pg (sp s) + 1] (s, 0);
      Some (maxlat, s') }"
proof -
  note u = unat_secs [OF assms(1)]
  have b: "unat (slba req) + unat (nlb req) \<le> 2 ^ 55" using assms(2) sectors_bound [OF assms(1)] by linarith
  have "unat (slba req div of_nat (secs_per_pg (sp s))) = first_lpn (sp s) req"
    "unat ((slba req + ucast (nlb req)) div of_nat (secs_per_pg (sp s))) = (unat (slba req) + unat (nlb req)) div secs_per_pg (sp s)"
    using u unat_end(1) [OF b] by (simp_all add: unat_div_distrib first_lpn_def)
  then show ?thesis using u by (simp add: ssd_read_def udiv_def)
qed

lemma ssd_read_ok:
  assumes ok: "ssd_ok s" and f: "read_fits (sp s) req"
  shows "\<exists>lat s'. ssd_read s req = Some (lat, s') \<and> same_but_timing s s'"
proof -
  have g: "geom (sp s)" using ok by (simp add: ssd_ok_def ftl_inv_def shape_def)
  let ?e = "(unat (slba req) + unat (nlb req)) div secs_per_pg (sp s)"
  have "?e < tt_pgs (sp s)" using f g by (intro div_bound) (simp_all add: read_fits_def geom_def)
  then have "\<forall>i\<in>set [first_lpn (sp s) req..<?e + 1]. i < tt_pgs (sp s)" by auto
  from read_pages_ok [OF ok this, of "stime req" 0] f read_range [OF g, of req] show ?thesis
    by (auto simp: read_fits_def)
qed

section \<open>The thread\<close>

lemma spare_mono: "spare spp n \<Longrightarrow> m \<le> n \<Longrightarrow> spare spp m"
  unfolding spare_def using le_trans by blast

lemma timing_serving:
  assumes "same_but_timing s s'"
  shows "serving s' = serving s" "sp s' = sp s" "mapped_set s' = mapped_set s"
  using same_but_timingD [OF assms] by (simp_all add: serving_def ssd_ok_def mapped_set_def)

lemma background_gc:
  assumes "serving s"
  shows "\<exists>s'. (if should_gc s then map_option snd (do_gc junk s False) else Some s) = Some s' \<and> serving s' \<and>
    sp s' = sp s \<and> mapped_set s' = mapped_set s"
proof -
  have ok: "ssd_ok s" "free_line_list (lm s) \<noteq> []" using assms by (simp_all add: serving_def)
  show ?thesis
  proof (cases rule: do_gc_ok [OF ok, of junk False, case_names none collected])
    case none
    then show ?thesis using assms by simp
  next
    case (collected v s')
    then have "serving s'" "sp s' = sp s" "mapped_set s' = mapped_set s"
      using ok(2) by (auto simp: serving_def kept_def mapped_set_def)
    with collected(1) assms show ?thesis by auto
  qed
qed

lemma ftl_serve_ok:
  assumes sv: "serving s" and f: "req_fits (sp s) req" and cap: "spare (sp s) (card (mapped_set s))"
    and th: "0 < gc_thres_lines_high (sp s)"
  shows "\<exists>s' lat done. ftl_serve junk (s, lat0) req = Some ((s', lat), done) \<and> serving s' \<and> sp s' = sp s \<and>
    mapped_set s' = mapped_set s \<union> touched (sp s) req"
proof -
  have "\<exists>lat s1. (if is_write req = 1 then ssd_write junk s req else if is_write req = 0 then ssd_read s req else Some (lat0, s))
      = Some (lat, s1) \<and> serving s1 \<and> sp s1 = sp s \<and> mapped_set s1 = mapped_set s \<union> touched (sp s) req"
  proof -
    consider "is_write req = 1" | "is_write req = 0" | "is_write req \<noteq> 0" "is_write req \<noteq> 1" by blast
    then show ?thesis
    proof cases
      case 1
      then show ?thesis using ssd_write_ok [OF sv _ cap th, of req junk] f by (simp add: req_fits_def touched_def)
    next
      case 2
      then obtain lat s1 where "ssd_read s req = Some (lat, s1)" "same_but_timing s s1"
        using ssd_read_ok [of s req] sv f by (auto simp: serving_def req_fits_def)
      then show ?thesis using 2 timing_serving [of s s1] sv by (simp add: touched_def)
    qed (use sv in \<open>simp add: touched_def\<close>)
  qed
  then obtain lat s1 where s1: "(if is_write req = 1 then ssd_write junk s req else if is_write req = 0 then ssd_read s req
      else Some (lat0, s)) = Some (lat, s1)" "serving s1" "sp s1 = sp s" "mapped_set s1 = mapped_set s \<union> touched (sp s) req"
    by blast
  obtain s2 where "(if should_gc s1 then map_option snd (do_gc junk s1 False) else Some s1) = Some s2" "serving s2"
    "sp s2 = sp s1" "mapped_set s2 = mapped_set s1"
    using background_gc [OF s1(2)] by blast
  with s1 show ?thesis unfolding ftl_serve_def by simp
qed

lemma ftl_thread_ok:
  assumes "serving s" "\<forall>r\<in>set rs. req_fits (sp s) (snd r)" "0 < gc_thres_lines_high (sp s)"
    "spare (sp s) (card (mapped_set s \<union> (\<Union>r\<in>set rs. touched (sp s) (snd r))))"
  shows "\<exists>s' lat out. ftl_thread rs (s, lat0) = Some ((s', lat), out) \<and> serving s' \<and> sp s' = sp s \<and>
    mapped_set s' = mapped_set s \<union> (\<Union>r\<in>set rs. touched (sp s) (snd r)) \<and> length out = length rs"
  using assms
proof (induction rs arbitrary: s lat0)
  case (Cons r rs)
  have fin: "finite (touched (sp s) q)" for q by (simp add: touched_def)
  have "spare (sp s) (card (mapped_set s))"
    by (rule spare_mono [OF Cons.prems(4)], rule card_mono) (use fin in auto)
  then obtain s1 lat1 d where s1: "ftl_serve (fst r) (s, lat0) (snd r) = Some ((s1, lat1), d)" "serving s1" "sp s1 = sp s"
    "mapped_set s1 = mapped_set s \<union> touched (sp s) (snd r)"
    using ftl_serve_ok [OF Cons.prems(1) _ _ Cons.prems(3), of "snd r" "fst r" lat0] Cons.prems(2) by auto
  have "mapped_set s1 \<union> (\<Union>r\<in>set rs. touched (sp s) (snd r)) = mapped_set s \<union> (\<Union>r\<in>set (r # rs). touched (sp s) (snd r))"
    using s1(4) by auto
  with Cons.IH [OF s1(2), of lat1] Cons.prems s1(3) obtain s2 lat2 out where
    "ftl_thread rs (s1, lat1) = Some ((s2, lat2), out)" "serving s2" "sp s2 = sp s"
    "mapped_set s2 = mapped_set s \<union> (\<Union>r\<in>set (r # rs). touched (sp s) (snd r))" "length out = length rs" by auto
  with s1(1) show ?case by simp
qed simp

section \<open>Initialisation\<close>

lemma ssd_layout_ok:
  assumes g: "geom spp"
  shows "\<exists>s. ssd_layout mem clk ok spp = Some s \<and> ssd_ok s \<and> sp s = spp \<and> mapped_set s = {} \<and>
    free_line_list (lm s) = [1..<blks_per_pl spp] \<and> wp_slot s = 0"
proof -
  have B: "0 < blks_per_pl spp" "tt_lines spp = blks_per_pl spp" using g by (simp_all add: geom_def)
  have up: "[0..<blks_per_pl spp] = 0 # [1..<blks_per_pl spp]" using B(1) by (simp add: upt_rec)
  obtain s where s: "ssd_layout mem clk ok spp = Some s" "sp s = spp" "wp s = \<lparr>curline = 0, wp_ch = 0, wp_lun = 0, wp_pg = 0, wp_blk = 0, wp_pl = 0\<rparr>"
      "free_line_list (lm s) = [1..<blks_per_pl spp]" "full_line_list (lm s) = []" "lm_tt_lines (lm s) = blks_per_pl spp"
      "free_line_cnt (lm s) = int (blks_per_pl spp) - 1" "full_line_cnt (lm s) = 0" "victim_line_cnt (lm s) = 0"
      "victim_line_pq (lm s) = \<lparr>q_size = 1, q_avail = blks_per_pl spp + 1, q_step = blks_per_pl spp + 1, q_ops = victim_ops,
         q_d = map mem [0..<blks_per_pl spp + 1]\<rparr>"
      "the_line s = (\<lambda>i. \<lparr>l_id = (if i < blks_per_pl spp then i else 0), l_ipc = 0, l_vpc = 0, l_pos = 0\<rparr>)"
      "maptbl s = ssd_init_maptbl spp" "rmap s = ssd_init_rmap spp" "blocks s = (\<lambda>_. ssd_init_nand_blk spp)"
    using up B(2) by (simp add: ssd_layout_def ssd_init_lines_def ssd_init_write_pointer_def pqueue_init_def del: upt_Suc)
  have "tl (take (Suc 0) xs) = []" for xs :: "nat list" by (cases xs) simp_all
  then have items: "pq_items (victim_line_pq (lm s)) = {#}" by (simp add: s pq_items_def del: upt_Suc)
  have stat: "stat s x = PG_FREE" if "x \<in> on_chip spp" for x
    using that by (auto simp: stat_def s ssd_init_nand_blk_def ssd_init_nand_page_def on_chip_def)
  have none: "pages_in (stat s) A st = 0" if "A \<subseteq> on_chip spp" "st \<noteq> PG_FREE" for A st
  proof -
    have e: "{x \<in> A. stat s x = st} = {}" using that stat by auto
    show ?thesis unfolding pages_in_def e by simp
  qed
  have line: "line_pages spp b \<subseteq> on_chip spp" if "b < blks_per_pl spp" for b using that by (auto simp: line_pages_def on_chip_def)
  have blk: "block_pages spp (c, l, b) \<subseteq> on_chip spp" if "c < nchs spp" "l < luns_per_ch spp" "b < blks_per_pl spp" for c l b
    using that by (auto simp: block_pages_def on_chip_def)
  have unmapped: "\<not> mapped_ppa (maptbl s ! i)" if "i < tt_pgs spp" for i
    using that by (simp add: s ssd_init_maptbl_def mapped_ppa_def)
  have "shape s" using g by (simp add: shape_def s ssd_init_maptbl_def ssd_init_rmap_def ssd_init_nand_blk_def)
  moreover have "wp_ok s" using g by (simp add: wp_ok_def s geom_def)
  moreover have "lines_ok None s"
    unfolding lines_ok_def items using B(1) by (auto simp: s pq_ok_def simp del: upt_Suc)
  moreover have "pages_ok (wp_slot s) s"
    using stat unfolding pages_ok_def items by (auto simp: s wp_slot_def slot_no_def)
  moreover have "counts_ok None s"
    using none [OF line] g by (simp add: counts_ok_def s geom_def)
  moreover have "blk_counts_ok s"
    using none [OF blk] unfolding blk_counts_ok_def s(2) by (simp add: s(14) ssd_init_nand_blk_def)
  moreover have "map_ok {} None s" using unmapped stat by (auto simp: map_ok_def s(2))
  ultimately have "ssd_ok s" by (simp add: ssd_ok_def ftl_inv_def)
  moreover have "mapped_set s = {}" using unmapped s(2) by (auto simp: mapped_set_def)
  moreover have "wp_slot s = 0" by (simp add: s wp_slot_def slot_no_def)
  ultimately show ?thesis using s(1,2,4) by blast
qed

lemma init_params:
  "geom ssd_init_params" "0 < gc_thres_lines_high ssd_init_params" "spare ssd_init_params n \<longleftrightarrow> n \<le> 3964928"
proof -
  show "geom ssd_init_params" "0 < gc_thres_lines_high ssd_init_params" by (simp_all add: geom_def ssd_init_params_def Let_def)
  have p: "pgs_per_line ssd_init_params = 16384" "blks_per_pl ssd_init_params = 256" "gc_thres_lines_high ssd_init_params = 12"
    by (simp_all add: ssd_init_params_def Let_def)
  show "spare ssd_init_params n \<longleftrightarrow> n \<le> 3964928"
  proof
    assume "spare ssd_init_params n"
    then show "n \<le> 3964928" unfolding spare_def p by auto
  next
    assume "n \<le> 3964928"
    then show "spare ssd_init_params n" unfolding spare_def p by (intro exI [of _ 242]) simp
  qed
qed

section \<open>A full device\<close>

lemma last_page_room:
  assumes ok: "ssd_ok s" and i: "i < tt_pgs (sp s)" "mapped_set s = {0..<tt_pgs (sp s)} - {i}"
  shows "room s = 1"
proof -
  have g: "geom (sp s)" using ok by (simp add: ssd_ok_def ftl_inv_def shape_def)
  have "card (mapped_set s) = tt_pgs (sp s) - 1" using i by simp
  then have "int (room s) + pages_in (stat s) (on_chip (sp s)) PG_INVALID = 1"
    using page_partition [OF g, of "stat s"] room_free_pages [OF ok] mapped_count [OF ok] i(1) by simp
  moreover have "0 < room s"
    using wp_slot_bound [OF ok [unfolded ssd_ok_def]] unfolding room_def by simp
  ultimately show ?thesis using pages_in_nonneg [of "stat s" "on_chip (sp s)" PG_INVALID] by linarith
qed

lemma write_page_full:
  assumes ok: "ssd_ok s" and i: "i < tt_pgs (sp s)" and r: "room s = 1"
  shows "write_page st i (s, m) = None"
proof -
  obtain s1 where s1: "invalidate_old s (of_nat i) = Some s1" "ftl_inv None {} (Some i) (wp_slot s1) s1" "sp s1 = sp s" "room s1 = 1"
    using invalidate_ok [OF ok [unfolded ssd_ok_def] i] r by auto
  have i1: "i < tt_pgs (sp s1)" using i s1(3) by simp
  have "room (programmed i s1) = 1" using s1(4) by (simp add: room_def wp_slot_def)
  then have "program_page s1 (of_nat i) = None"
    using advance_out_of_lines [OF programmed_inv [OF s1(2) i1]] programmed_eq [OF s1(2) i1] by simp
  then show ?thesis using s1(1) by (simp add: write_page_def)
qed

lemma ssd_init_ok:
  assumes "ssd_init mem clk ok = Some s"
  shows "ssd_ok s" "sp s = ssd_init_params" "mapped_set s = {}" "free_line_list (lm s) = [1..<256]"
proof -
  have "blks_per_pl ssd_init_params = 256" by (simp add: ssd_init_params_def Let_def)
  then show "ssd_ok s" "sp s = ssd_init_params" "mapped_set s = {}" "free_line_list (lm s) = [1..<256]"
    using ssd_layout_ok [OF init_params(1), of mem clk ok] assms by (auto simp: ssd_init_def)
qed

lemma ssd_init_some: "\<exists>s. ssd_init mem clk ok = Some s"
  using ssd_layout_ok [OF init_params(1), of mem clk ok] by (auto simp: ssd_init_def)

lemma init_param_vals:
  "secs_per_pg ssd_init_params = 8" "tt_pgs ssd_init_params = 4194304" "pgs_per_line ssd_init_params = 16384"
  by (simp_all add: ssd_init_params_def Let_def)

text \<open>A device with lines of two pages, for concrete states.\<close>

definition tiny_params :: "nat \<Rightarrow> ssdparams" where
  "tiny_params n = ssd_init_params\<lparr>secs_per_pg := 1, pgs_per_blk := 2, blks_per_pl := n, luns_per_ch := 1, nchs := 1,
     pgs_per_pl := 2 * n, pgs_per_lun := 2 * n, pgs_per_ch := 2 * n, tt_pgs := 2 * n, pgs_per_line := 2, tt_lines := n\<rparr>"

lemma tiny_vals [simp]:
  "pgs_per_line (tiny_params n) = 2" "tt_pgs (tiny_params n) = 2 * n" "blks_per_pl (tiny_params n) = n"
  by (simp_all add: tiny_params_def)

lemma tiny_start:
  assumes "0 < n" "n \<le> 65536"
  shows "\<exists>s. ssd_ok s \<and> sp s = tiny_params n \<and> mapped_set s = {} \<and> room s = 2 * n"
proof -
  have "geom (tiny_params n)" using assms by (simp add: tiny_params_def geom_def ssd_init_params_def Let_def)
  from ssd_layout_ok [OF this, of "\<lambda>_. 0" "\<lambda>_. 1" True] obtain s where
    "ssd_ok s" "sp s = tiny_params n" "mapped_set s = {}" "free_line_list (lm s) = [1..<n]" "wp_slot s = 0" by auto
  moreover from this have "room s = 2 * n" using assms(1) by (simp add: room_def)
  ultimately show ?thesis by blast
qed

lemma tiny_write:
  assumes "ssd_ok s" "i < tt_pgs (sp s)" "1 < room s"
  shows "\<exists>s'. ssd_ok s' \<and> sp s' = sp s \<and> mapped_set s' = insert i (mapped_set s) \<and> room s' = room s - 1"
proof -
  obtain s' m where s': "ssd_ok s'" "sp s' = sp s" "room s' = room s - 1" "mapped_ppa (maptbl s' ! i)"
      "\<forall>j. j \<noteq> i \<longrightarrow> maptbl s' ! j = maptbl s ! j"
    using write_page_ok [OF assms, of 1 0] by blast
  have "mapped_set s' = insert i (mapped_set s)" using s'(2,4,5) assms(2) by (auto simp: mapped_set_def)
  with s' show ?thesis by blast
qed

lemma tiny_written: "\<exists>s. ssd_ok s \<and> tt_pgs (sp s) = 2 \<and> mapped_set s = {0}"
proof -
  obtain s where s: "ssd_ok s" "sp s = tiny_params 1" "mapped_set s = {}" "room s = 2" using tiny_start [of 1] by auto
  with tiny_write [of s 0] obtain s' where "ssd_ok s'" "sp s' = sp s" "mapped_set s' = {0}" by auto
  with s(2) show ?thesis by auto
qed

text \<open>When the current line is empty, an invalid page is in a victim line.\<close>

lemma garbage_victim:
  assumes ok: "ssd_ok s" and w: "wp_slot s = 0" and x: "x \<in> on_chip (sp s)" "stat s x = PG_INVALID"
  shows "line_of x \<in> victim_set s"
proof -
  have p: "pages_ok (wp_slot s) s" "lines_ok None s" "counts_ok None s" "geom (sp s)"
    using ok by (simp_all add: ssd_ok_def ftl_inv_def shape_def)
  have b: "line_of x < blks_per_pl (sp s)" using x(1) by (auto simp: on_chip_def line_of_def)
  have "line_of x \<notin> free_set s" "line_of x \<noteq> curline (wp s)" using p(1) x w by (auto simp: pages_ok_def)
  moreover have "line_of x \<notin> full_set s"
  proof
    assume "line_of x \<in> full_set s"
    then have "l_vpc (the_line s (line_of x)) = int (pgs_per_line (sp s))" using p(3) b by (simp add: counts_ok_def)
    moreover have "x \<in> line_pages (sp s) (line_of x)" using line_pages_on_chip [OF b] x(1) by blast
    ultimately show False using vpc_le(2) [OF p(3,4) b] x(2) by auto
  qed
  moreover have "line_of x \<in> insert (curline (wp s)) (free_set s \<union> full_set s \<union> victim_set s)"
    using p(2) b by (auto simp: lines_ok_def)
  ultimately show ?thesis by blast
qed

lemma tiny_garbage:
  "\<exists>s. ssd_ok s \<and> free_line_list (lm s) \<noteq> [] \<and> victim_set s \<noteq> {} \<and> mapped_set s = {0} \<and> wp_slot s = 0 \<and> pgs_per_line (sp s) = 2"
proof -
  obtain s where s: "ssd_ok s" "sp s = tiny_params 3" "mapped_set s = {}" "room s = 6" using tiny_start [of 3] by auto
  with tiny_write [of s 0] obtain s1 where s1: "ssd_ok s1" "sp s1 = sp s" "mapped_set s1 = {0}" "room s1 = 5" by auto
  with tiny_write [of s1 0] s(2) obtain s2 where s2: "ssd_ok s2" "sp s2 = sp s" "mapped_set s2 = {0}" "room s2 = 4" by auto
  have g: "geom (sp s2)" and slot: "wp_slot s2 < 2" using s2(1,2) s(2) wp_slot_bound [of None "{}" None "wp_slot s2" s2]
    by (simp_all add: ssd_ok_def ftl_inv_def shape_def)
  have "4 = 2 - wp_slot s2 + 2 * length (free_line_list (lm s2))" using s2(2,4) s(2) by (simp add: room_def)
  with slot have w: "wp_slot s2 = 0" "length (free_line_list (lm s2)) = 1" by presburger+
  have "pages_in (stat s2) (on_chip (sp s2)) PG_INVALID = 1"
    using page_partition [OF g, of "stat s2"] room_free_pages [OF s2(1)] mapped_count [OF s2(1)] s2(2,3,4) s(2) by simp
  then have "\<not> (\<forall>x\<in>on_chip (sp s2). stat s2 x \<noteq> PG_INVALID)" using pages_in_zero [OF finite_pages(1), of "stat s2" "sp s2" PG_INVALID] by linarith
  then have "victim_set s2 \<noteq> {}" using garbage_victim [OF s2(1) w(1)] by blast
  moreover have "free_line_list (lm s2) \<noteq> []" "pgs_per_line (sp s2) = 2" using w(2) s2(2) s(2) by auto
  ultimately show ?thesis using s2(1,3) w(1) by blast
qed

lemma tiny_victim_page:
  assumes ok: "ssd_ok s" and w: "wp_slot s = 0" and m: "mapped_set s = {0}" and n: "pgs_per_line (sp s) = 2"
  shows "line_of (loc_of (maptbl s ! 0)) \<in> victim_set s"
proof -
  let ?x = "loc_of (maptbl s ! 0)"
  have p: "pages_ok (wp_slot s) s" "lines_ok None s" "counts_ok None s"
    using ok by (simp_all add: ssd_ok_def ftl_inv_def)
  have x: "?x \<in> on_chip (sp s)" "stat s ?x = PG_VALID" using mapped_entry(1,2) [OF ok, of 0] m by simp_all
  have b: "line_of ?x < blks_per_pl (sp s)" using x(1) by (auto simp: on_chip_def line_of_def)
  have "line_of ?x \<notin> free_set s" "line_of ?x \<noteq> curline (wp s)" using p(1) x w by (auto simp: pages_ok_def)
  moreover have "line_of ?x \<notin> full_set s"
  proof
    assume "line_of ?x \<in> full_set s"
    then have "2 = pages_in (stat s) (line_pages (sp s) (line_of ?x)) PG_VALID" using p(3) b n by (simp add: counts_ok_def)
    also have "\<dots> \<le> (\<Sum>b\<in>{0..<blks_per_pl (sp s)}. pages_in (stat s) (line_pages (sp s) b) PG_VALID)"
      using b by (intro member_le_sum) auto
    also have "\<dots> = 1" using mapped_count [OF ok] m by (simp add: pages_by_line)
    finally show False by simp
  qed
  moreover have "line_of ?x \<in> insert (curline (wp s)) (free_set s \<union> full_set s \<union> victim_set s)"
    using p(2) b by (auto simp: lines_ok_def)
  ultimately show ?thesis by blast
qed

text \<open>A mapped logical page of a consistent device.\<close>

lemma mapped_page:
  assumes ok: "ssd_ok s" and i: "i \<in> mapped_set s"
  shows "get_rmap_ent s (maptbl s ! i) = Some (of_nat i)" "\<exists>pg. get_pg s (maptbl s ! i) = Some pg \<and> pg_stat pg = PG_VALID"
proof -
  note e = mapped_entry [OF ok i]
  have sh: "shape s" "geom (sp s)" using ok by (simp_all add: ssd_ok_def ftl_inv_def shape_def)
  have v: "ppa_ch (maptbl s ! i) < nchs (sp s)" "ppa_lun (maptbl s ! i) < luns_per_ch (sp s)" "ppa_pl (maptbl s ! i) = 0"
    "ppa_blk (maptbl s ! i) < blks_per_pl (sp s)" "ppa_pg (maptbl s ! i) < pgs_per_blk (sp s)" "pls_per_lun (sp s) = 1"
    using e(4) sh(2) by (auto simp: valid_ppa_def geom_def)
  have "map_ok {} None s" using ok by (simp add: ssd_ok_def ftl_inv_def)
  then have "rmap s ! page_no (sp s) (loc_of (maptbl s ! i)) = of_nat i" using i by (simp add: map_ok_def mapped_set_def)
  then show "get_rmap_ent s (maptbl s ! i) = Some (of_nat i)"
    using page_no_bound [OF sh(2) e(1)] sh(1) v(3) by (simp add: get_rmap_ent_def ppa_index shape_def)
  show "\<exists>pg. get_pg s (maptbl s ! i) = Some pg \<and> pg_stat pg = PG_VALID"
    using e(2) v sh(1) by (simp add: get_pg_def get_blk_def stat_def loc_of_def shape_def)
qed

section \<open>Properties\<close>



text \<open>C33. The device has as many logical as physical pages: from any consistent state in which
  all logical pages but one are mapped, the write of the last one aborts in the write pointer
  instead of completing.\<close>

theorem full_device_aborts:
  assumes "ssd_ok s" "i < tt_pgs (sp s)" "mapped_set s = {0..<tt_pgs (sp s)} - {i}"
  shows "write_page st i (s, m) = None"
  using write_page_full [OF assms(1,2) last_page_room [OF assms]] .

theorem full_device_aborts_witness:
  "\<exists>s. ssd_ok s \<and> tt_pgs (sp s) = 2 \<and> mapped_set s = {0} \<and> write_page 1 1 (s, 0) = None"
proof -
  obtain s where s: "ssd_ok s" "tt_pgs (sp s) = 2" "mapped_set s = {0}" using tiny_written by blast
  have "{0} = {0..<2} - {1 :: nat}" by auto
  then have "1 < tt_pgs (sp s)" "mapped_set s = {0..<tt_pgs (sp s)} - {1}" using s(2,3) by simp_all
  from full_device_aborts [OF s(1) this] s show ?thesis by blast
qed

text \<open>C6. The loop that collects garbage before a write ends from every consistent state with a
  free line, whatever the threshold: each round frees at least one page more than it uses.
  When it ends with few lines free, there is no victim left.  The logical pages that
  are mapped stay mapped, and no line is lost.\<close>

theorem gc_loop_terminates:
  assumes "ssd_ok s" "free_line_list (lm s) \<noteq> []"
  shows "\<exists>s'. gc_loop junk s = Some s' \<and> ssd_ok s' \<and> mapped_set s' = mapped_set s \<and> room s \<le> room s' \<and>
    (should_gc_high s' \<longrightarrow> victim_set s' = {})"
  using gc_loop_ok [OF assms, of junk] by (auto simp: relocated_def mapped_set_def)

theorem gc_loop_terminates_witness:
  "\<exists>s s'. ssd_init (\<lambda>_. 0) (\<lambda>_. 1) True = Some s \<and> gc_loop 0 s = Some s' \<and> mapped_set s' = {}"
proof -
  obtain s where s: "ssd_init (\<lambda>_. 0) (\<lambda>_. 1) True = Some s" using ssd_init_some by blast
  note i = ssd_init_ok [OF s]
  have "free_line_list (lm s) \<noteq> []" unfolding i(4) by simp
  from gc_loop_terminates [OF i(1) this, of 0] s i(3) show ?thesis by auto
qed

text \<open>C7. A forced collection of a device with a free line and a victim returns success.  Some
  victim \<open>v\<close> becomes free; the pages of other lines keep their place, every mapped logical
  page stays mapped, and the number of free pages grows by the pages of the line that were not valid.\<close>

theorem do_gc_collects:
  assumes "ssd_ok s" "free_line_list (lm s) \<noteq> []" "victim_set s \<noteq> {}"
  shows "\<exists>v s'. do_gc junk s True = Some (0, s') \<and> ssd_ok s' \<and> v \<in> victim_set s \<and> v \<in> free_set s' \<and>
    mapped_set s' = mapped_set s \<and>
    (\<forall>i\<in>mapped_set s. line_of (loc_of (maptbl s ! i)) \<noteq> v \<longrightarrow> maptbl s' ! i = maptbl s ! i) \<and>
    int (room s') = int (room s) + int (pgs_per_line (sp s)) - l_vpc (the_line s v)"
proof (cases rule: do_gc_ok [OF assms(1,2), of junk True, case_names none collected])
  case none
  then show ?thesis using assms(3) by simp
next
  case (collected v s')
  have "mapped_set s' = mapped_set s" using collected(4) by (auto simp: kept_def mapped_set_def)
  moreover have "\<forall>i\<in>mapped_set s. line_of (loc_of (maptbl s ! i)) \<noteq> v \<longrightarrow> maptbl s' ! i = maptbl s ! i"
    using collected(4) by (auto simp: kept_def mapped_set_def)
  ultimately show ?thesis using collected(1,2,3,5,6) by blast
qed

theorem do_gc_collects_witness:
  "\<exists>s s' v. victim_set s \<noteq> {} \<and> do_gc 0 s True = Some (0, s') \<and> v \<in> victim_set s \<and> v \<in> free_set s' \<and> mapped_set s' = {0}"
proof -
  obtain s where s: "ssd_ok s" "free_line_list (lm s) \<noteq> []" "victim_set s \<noteq> {}" "mapped_set s = {0}" using tiny_garbage by blast
  from do_gc_collects [OF s(1-3), of 0] s(3,4) show ?thesis by metis
qed

text \<open>C34. A read that ends exactly at the end of the device looks up one logical page too many:
  the last page is computed without subtracting one, so the loop reads the mapping table past
  its end.\<close>

theorem read_at_end_overruns:
  assumes "ssd_ok s" "unat (slba req) + unat (nlb req) = tt_pgs (sp s) * secs_per_pg (sp s)"
  shows "ssd_read s req = None"
proof -
  have g: "geom (sp s)" and len: "length (maptbl s) = tt_pgs (sp s)"
    using assms(1) by (simp_all add: ssd_ok_def ftl_inv_def shape_def)
  let ?a = "first_lpn (sp s) req" and ?n = "tt_pgs (sp s)"
  have e: "(unat (slba req) + unat (nlb req)) div secs_per_pg (sp s) = ?n" using assms(2) g by (simp add: geom_def)
  have "?a \<le> ?n" unfolding first_lpn_def e [symmetric] by (simp add: div_le_mono)
  then have l: "[?a..<?n + 1] = [?a..<?n] @ [?n]" by simp
  obtain s' m where s': "ofold (read_page (stime req)) [?a..<?n] (s, 0) = Some (s', m)" "same_but_timing s s'"
    using read_pages_ok [OF assms(1), of "[?a..<?n]" "stime req" 0] by auto
  have "unat (of_nat ?n :: u64) = ?n" using tt_pgs_bound [OF g] by (simp add: unat_of_nat)
  then have "read_page (stime req) ?n (s', m) = None"
    using same_but_timingD(5) [OF s'(2)] len by (simp add: read_page_def get_maptbl_ent_def aget_def)
  then have "ofold (read_page (stime req)) [?a..<?n + 1] (s, 0) = None" unfolding l ofold_append using s'(1) by simp
  then show ?thesis unfolding read_range [OF g eq_refl [OF assms(2)]] e by (simp del: upt_Suc)
qed

theorem read_at_end_overruns_witness:
  "\<exists>s. ssd_init (\<lambda>_. 0) (\<lambda>_. 1) True = Some s \<and>
    ssd_read s \<lparr>slba = 33554424, nlb = 8, is_write = 0, stime = 9, reqlat = 0, expire_time = 0\<rparr> = None"
proof -
  obtain s where s: "ssd_init (\<lambda>_. 0) (\<lambda>_. 1) True = Some s" using ssd_init_some by blast
  note i = ssd_init_ok [OF s]
  have "ssd_read s \<lparr>slba = 33554424, nlb = 8, is_write = 0, stime = 9, reqlat = 0, expire_time = 0\<rparr> = None"
    using read_at_end_overruns [OF i(1)] i(2) by (simp add: init_param_vals)
  with s show ?thesis by blast
qed

text \<open>C4. In every state that the thread reaches from initialisation by such requests the two
  tables are inverse to each other: the physical page of a mapped logical page is on the
  device, is marked valid and is mapped back to the logical page, so that no two logical
  pages share a physical one.\<close>

theorem tables_inverse:
  assumes "ssd_init mem clk ok = Some s" "\<forall>r\<in>set rs. req_fits ssd_init_params (snd r)"
    "card (\<Union>r\<in>set rs. touched ssd_init_params (snd r)) \<le> 3964928" "ftl_thread rs (s, 0) = Some ((s', lat), out)"
  shows "inj_on (\<lambda>i. maptbl s' ! i) (mapped_set s') \<and>
    (\<forall>i\<in>mapped_set s'. valid_ppa ssd_init_params (maptbl s' ! i) \<and> get_rmap_ent s' (maptbl s' ! i) = Some (of_nat i) \<and>
      (\<exists>pg. get_pg s' (maptbl s' ! i) = Some pg \<and> pg_stat pg = PG_VALID))"
proof -
  note i = ssd_init_ok [OF assms(1)]
  have "serving s" using i(1,4) by (simp add: serving_def)
  from ftl_thread_ok [OF this, of rs 0] i assms(2-4) init_params(2,3) have ok: "ssd_ok s'" "sp s' = ssd_init_params"
    by (auto simp: serving_def)
  have "inj_on (\<lambda>i. maptbl s' ! i) (mapped_set s')"
    using bij_betw_imp_inj_on [OF mapped_valid_bij [OF ok(1)]] by (auto simp: inj_on_def)
  then show ?thesis using mapped_page [OF ok(1)] mapped_entry(4) [OF ok(1)] ok(2) by auto
qed

theorem tables_inverse_witness:
  "\<exists>s s' lat out. ssd_init (\<lambda>_. 0) (\<lambda>_. 1) True = Some s \<and>
    ftl_thread [(0, \<lparr>slba = 4, nlb = 8, is_write = 1, stime = 7, reqlat = 0, expire_time = 0\<rparr>)] (s, 0) = Some ((s', lat), out) \<and>
    mapped_set s' = {0, 1} \<and> maptbl s' ! 0 \<noteq> maptbl s' ! 1"
proof -
  let ?w = "\<lparr>slba = 4, nlb = 8, is_write = 1, stime = 7, reqlat = 0, expire_time = 0\<rparr>"
  obtain s where s: "ssd_init (\<lambda>_. 0) (\<lambda>_. 1) True = Some s" using ssd_init_some by blast
  note i = ssd_init_ok [OF s]
  have u: "(\<Union>r\<in>set [(0 :: u64, ?w)]. touched ssd_init_params (snd r)) = {0, 1}"
    by (auto simp: touched_def first_lpn_def last_lpn_def init_param_vals)
  have f: "\<forall>r\<in>set [(0 :: u64, ?w)]. req_fits ssd_init_params (snd r)"
    by (simp add: req_fits_def write_fits_def first_lpn_def last_lpn_def init_param_vals)
  have c: "card (\<Union>r\<in>set [(0 :: u64, ?w)]. touched ssd_init_params (snd r)) \<le> 3964928" unfolding u by simp
  have sv: "serving s" using i(1,4) by (simp add: serving_def)
  have "\<exists>s' lat out. ftl_thread [(0, ?w)] (s, 0) = Some ((s', lat), out) \<and> serving s' \<and> sp s' = sp s \<and>
      mapped_set s' = mapped_set s \<union> (\<Union>r\<in>set [(0 :: u64, ?w)]. touched (sp s) (snd r)) \<and> length out = length [(0 :: u64, ?w)]"
    by (rule ftl_thread_ok [OF sv]) (use f c i init_params in \<open>simp_all add: u\<close>)
  then obtain s' lat out where t: "ftl_thread [(0, ?w)] (s, 0) = Some ((s', lat), out)" "mapped_set s' = {0, 1}"
    using i(2,3) unfolding i(2) u by auto
  have "inj_on (\<lambda>i. maptbl s' ! i) {0, 1}" using tables_inverse [OF s f c t(1)] t(2) by simp
  then have "maptbl s' ! 0 \<noteq> maptbl s' ! 1" by (auto simp: inj_on_def)
  with s t show ?thesis by blast
qed

text \<open>A NAND command waits for its LUN: when no time stamp overflows, it starts when the LUN
  is available, or at its own start time if that is later, takes the latency of its kind, and
  its reported latency is the time from its start time to its end.  The LUN is busy until
  then; the times of the other LUNs do not change.\<close>

theorem nand_command_waits:
  assumes "ppa_ch ppa < nchs (sp s)" "ppa_lun ppa < luns_per_ch (sp s)" "nc_stime cmd \<noteq> 0"
    and "(nc_cmd cmd, op) \<in> {(NAND_READ, pg_rd_lat (sp s)), (NAND_WRITE, pg_wr_lat (sp s)), (NAND_ERASE, blk_er_lat (sp s))}"
    and "start = max (unat (nc_stime cmd)) (unat (next_lun_avail_time (luns s (ppa_ch ppa, ppa_lun ppa))))"
    and "start + op < 2 ^ 64"
  shows "\<exists>lat s'. ssd_advance_status s ppa cmd = Some (lat, s') \<and> unat lat = start + op - unat (nc_stime cmd) \<and>
    unat (next_lun_avail_time (luns s' (ppa_ch ppa, ppa_lun ppa))) = start + op \<and>
    (\<forall>k. k \<noteq> (ppa_ch ppa, ppa_lun ppa) \<longrightarrow> luns s' k = luns s k)"
proof -
  let ?k = "(ppa_ch ppa, ppa_lun ppa)"
  let ?av = "next_lun_avail_time (luns s ?k)"
  define b where "b = (if ?av < nc_stime cmd then nc_stime cmd else ?av)"
  have b: "unat b = start" using assms(5) by (auto simp: b_def word_less_nat_alt)
  have op: "unat (of_nat op :: u64) = op" using assms(6) by (simp add: unat_of_nat)
  then have sum: "unat (b + of_nat op) = start + op" using unat_add_lem [of b "of_nat op"] b assms(6) by simp
  have "nc_stime cmd \<le> b + of_nat op" using sum assms(5) by (simp add: word_le_nat_alt)
  then have lat: "unat (b + of_nat op - nc_stime cmd) = start + op - unat (nc_stime cmd)" using sum by (simp add: unat_sub)
  have "ssd_advance_status s ppa cmd = Some (b + of_nat op - nc_stime cmd,
      s\<lparr>luns := (luns s)(?k := (luns s ?k)\<lparr>next_lun_avail_time := b + of_nat op\<rparr>)\<rparr>)"
    using assms(1-4) by (auto simp: ssd_advance_status_def get_lun_def b_def Let_def NAND_READ_def NAND_WRITE_def NAND_ERASE_def)
  with lat sum show ?thesis by simp
qed

theorem nand_command_waits_witness:
  "\<exists>s lat s'. ssd_init (\<lambda>_. 0) (\<lambda>_. 1) True = Some s \<and>
    ssd_advance_status s 0 \<lparr>nc_type = USER_IO, nc_cmd = NAND_READ, nc_stime = 100\<rparr> = Some (lat, s') \<and> unat lat = 40000"
proof -
  obtain s where s: "ssd_init (\<lambda>_. 0) (\<lambda>_. 1) True = Some s" using ssd_init_some by blast
  have p: "sp s = ssd_init_params" "luns s = (\<lambda>_. ssd_init_nand_lun)"
    using s by (auto simp: ssd_init_def ssd_layout_def split: Option.bind_splits prod.splits)
  have z: "ppa_ch 0 = 0" "ppa_lun 0 = 0" by (simp_all add: ppa_field_defs get_bits_def)
  let ?c = "\<lparr>nc_type = USER_IO, nc_cmd = NAND_READ, nc_stime = 100\<rparr> :: nand_cmd"
  have v: "ppa_ch 0 < nchs (sp s)" "ppa_lun 0 < luns_per_ch (sp s)" "pg_rd_lat (sp s) = 40000"
    using z p(1) by (simp_all add: ssd_init_params_def Let_def NAND_READ_LATENCY_def)
  have "nc_stime ?c \<noteq> 0" "(nc_cmd ?c, 40000) \<in> {(NAND_READ, pg_rd_lat (sp s)), (NAND_WRITE, pg_wr_lat (sp s)), (NAND_ERASE, blk_er_lat (sp s))}"
    "100 = max (unat (nc_stime ?c)) (unat (next_lun_avail_time (luns s (ppa_ch 0, ppa_lun 0))))" "100 + 40000 < (2 :: nat) ^ 64"
    using v(3) p(2) by (simp_all add: ssd_init_nand_lun_def)
  from nand_command_waits [OF v(1,2) this] s show ?thesis by auto
qed

text \<open>Invalidating a page of a line that waits in the victim queue lowers the line's number of
  valid pages, which is its priority in the queue, but leaves the queue as it is: the line is
  not moved, so the queue may be out of order afterwards and the collector may not pick the line with
  the fewest valid pages.\<close>

theorem invalidation_keeps_queue:
  assumes "ssd_ok s" "i \<in> mapped_set s" "line_of (loc_of (maptbl s ! i)) = v" "v \<in> victim_set s"
  shows "\<exists>s'. mark_page_invalid s (maptbl s ! i) = Some s' \<and> victim_line_pq (lm s') = victim_line_pq (lm s) \<and>
    l_vpc (the_line s' v) = l_vpc (the_line s v) - 1"
proof -
  note e = mapped_entry [OF assms(1,2)]
  have sh: "shape s" "geom (sp s)" using assms(1) by (simp_all add: ssd_ok_def ftl_inv_def shape_def)
  have v: "ppa_ch (maptbl s ! i) < nchs (sp s)" "ppa_lun (maptbl s ! i) < luns_per_ch (sp s)" "ppa_pl (maptbl s ! i) = 0"
    "ppa_blk (maptbl s ! i) = v" "v < blks_per_pl (sp s)" "ppa_pg (maptbl s ! i) < pgs_per_blk (sp s)"
    using e(4) sh(2) assms(3) by (auto simp: valid_ppa_def geom_def line_of_def loc_of_def)
  have blk: "get_blk s (maptbl s ! i) = Some (ppa_ch (maptbl s ! i), ppa_lun (maptbl s ! i), 0, v)"
    using v sh(2) by (simp add: get_blk_def geom_def)
  have "ppa_pg (maptbl s ! i) < length (b_pg (blocks s (ppa_ch (maptbl s ! i), ppa_lun (maptbl s ! i), 0, v)))"
    using v sh(1) by (simp add: shape_def)
  then obtain b where "set_pg_status (ppa_pg (maptbl s ! i)) PG_INVALID (blocks s (ppa_ch (maptbl s ! i), ppa_lun (maptbl s ! i), 0, v)) = Some b"
    using set_pg_status_in by blast
  moreover have "get_line s (maptbl s ! i) = Some v" using v sh(1) by (simp add: get_line_def shape_def)
  moreover have "l_vpc (the_line s v) \<noteq> int (pgs_per_line (sp s))" using victim_not_full(1) [OF assms(1,4)] by simp
  ultimately show ?thesis using blk by (simp add: mark_page_invalid_def Let_def)
qed

theorem invalidation_keeps_queue_witness:
  "\<exists>s s' v. ssd_ok s \<and> v \<in> victim_set s \<and> mark_page_invalid s (maptbl s ! 0) = Some s' \<and>
    victim_line_pq (lm s') = victim_line_pq (lm s) \<and> l_vpc (the_line s' v) < l_vpc (the_line s v)"
proof -
  obtain s where s: "ssd_ok s" "mapped_set s = {0}" "wp_slot s = 0" "pgs_per_line (sp s) = 2" using tiny_garbage by blast
  have "0 \<in> mapped_set s" using s(2) by simp
  from invalidation_keeps_queue [OF s(1) this refl tiny_victim_page [OF s(1,3,2,4)]] obtain s' where
    "mark_page_invalid s (maptbl s ! 0) = Some s'" "victim_line_pq (lm s') = victim_line_pq (lm s)"
    "l_vpc (the_line s' (line_of (loc_of (maptbl s ! 0)))) = l_vpc (the_line s (line_of (loc_of (maptbl s ! 0)))) - 1" by blast
  with s(1) tiny_victim_page [OF s(1,3,2,4)] show ?thesis by fastforce
qed

end
