(* ===== verification/Pblk_Rl.thy ===== *)
theory Pblk_Rl
  imports Prelude
begin

text \<open>
  The rate limiter of pblk (\<open>pblk-rl.c\<close>): how many entries of a write buffer user writes may
  take and how many are kept for the garbage collector, as a function of the free blocks.
  The configuration is the one of the sources: \<open>CONFIG_PBLK_MULTIMAP\<close>, \<open>CONFIG_PBLK_DFTL\<close> and
  \<open>CONFIG_NVM_DEBUG\<close> on (without the last, \<open>pblk_update_map_cache\<close> does not compile),
  \<open>OP_RATE\<close> 25.

  An \<open>int\<close> of C is an \<^typ>\<open>int\<close>, the conversions between \<open>int\<close>, \<open>unsigned int\<close> and
  \<open>unsigned long\<close> are written out.  A shift by a negative amount is undefined and is
  \<^const>\<open>None\<close>.  The lemmas show that the two shares of a buffer add up to it, where the
  shares are defined at all, and that the collector is started exactly below the threshold.
\<close>

section \<open>Constants\<close>

definition PBLK_MAX_REQ_ADDRS :: int where "PBLK_MAX_REQ_ADDRS = 16"
definition PBLK_MAX_REQ_ADDRS_PW :: nat where "PBLK_MAX_REQ_ADDRS_PW = 4"
definition RWB_BUFFER :: int where "RWB_BUFFER = 32"
definition RESERVED_SPACE :: u32 where "RESERVED_SPACE = 16 + 5"
definition PBLK_USER_HIGH_THRS :: u64 where "PBLK_USER_HIGH_THRS = 53"
definition PBLK_USER_LOW_THRS :: u64 where "PBLK_USER_LOW_THRS = 67"
definition PBLK_GC_RSV_LINE :: int where "PBLK_GC_RSV_LINE = 1"

definition PBLK_RL_HIGH :: u32 where "PBLK_RL_HIGH = 1"
definition PBLK_RL_MID :: u32 where "PBLK_RL_MID = 2"
definition PBLK_RL_LOW :: u32 where "PBLK_RL_LOW = 3"

text \<open>The results of the write path, constants of the light-NVM interface of the kernel.  The
  code relies on \<open>NVM_IO_OK\<close> being the only one that is zero.\<close>

datatype nvm_io = NVM_IO_OK | NVM_IO_REQUEUE | NVM_IO_DONE | NVM_IO_ERR

section \<open>State\<close>

record pblk_rl =
  high :: u32
  low :: u32
  high_pw :: u32
  rb_windows_pw :: int
  rb_budget :: int
  rb_user_max :: int
  rb_gc_max :: int
  rb_state :: u32
  rb_max_io :: int
  rsv_blocks :: int
  total_blocks :: u64
  free_blocks :: int

record pblk_rl_per_rb =
  rb_space :: int
  rb_user_cnt :: int
  rb_gc_cnt :: int
  rb_user_active :: bool
  rb_gc_active :: bool
  u_timer :: bool

text \<open>What the limiter asks of the garbage collector.\<close>

datatype gc_msg = Gc_should_start | Gc_should_stop

section \<open>Admission\<close>

definition pblk_rl_kick_u_timer :: "pblk_rl_per_rb \<Rightarrow> pblk_rl_per_rb" where
  "pblk_rl_kick_u_timer r = r\<lparr>u_timer := True\<rparr>"

definition pblk_rl_is_limit :: "pblk_rl_per_rb \<Rightarrow> bool" where
  "pblk_rl_is_limit r = (rb_space r = 0)"

definition pblk_rl_user_may_insert :: "pblk_rl \<Rightarrow> pblk_rl_per_rb \<Rightarrow> int \<Rightarrow> nvm_io" where
  "pblk_rl_user_may_insert rl r nr_entries =
    (if rb_space r \<ge> 0 \<and> rb_space r - nr_entries < 0 then NVM_IO_ERR
     else if rb_user_cnt r \<ge> rb_user_max rl then NVM_IO_REQUEUE
     else NVM_IO_OK)"

definition pblk_rl_inserted :: "pblk_rl_per_rb \<Rightarrow> int \<Rightarrow> pblk_rl_per_rb" where
  "pblk_rl_inserted r nr_entries =
    (if rb_space r \<ge> 0 then r\<lparr>rb_space := rb_space r - nr_entries\<rparr> else r)"

definition pblk_rl_gc_may_insert :: "pblk_rl \<Rightarrow> pblk_rl_per_rb \<Rightarrow> int \<Rightarrow> bool" where
  "pblk_rl_gc_may_insert rl r nr_entries = (\<not> (rb_gc_cnt r \<ge> rb_gc_max rl \<and> rb_user_active r))"

definition pblk_rl_user_in :: "pblk_rl_per_rb \<Rightarrow> int \<Rightarrow> pblk_rl_per_rb" where
  "pblk_rl_user_in r nr_entries =
    pblk_rl_kick_u_timer (r\<lparr>rb_user_cnt := rb_user_cnt r + nr_entries, rb_user_active := True\<rparr>)"

definition pblk_rl_gc_in :: "pblk_rl_per_rb \<Rightarrow> int \<Rightarrow> pblk_rl_per_rb" where
  "pblk_rl_gc_in r nr_entries = r\<lparr>rb_gc_cnt := rb_gc_cnt r + nr_entries\<rparr>"

definition pblk_rl_out :: "pblk_rl_per_rb \<Rightarrow> int \<Rightarrow> int \<Rightarrow> pblk_rl_per_rb" where
  "pblk_rl_out r nr_user nr_gc =
    r\<lparr>rb_user_cnt := rb_user_cnt r - nr_user, rb_gc_cnt := rb_gc_cnt r - nr_gc\<rparr>"

definition pblk_rl_u_timer :: "pblk_rl_per_rb \<Rightarrow> pblk_rl_per_rb" where
  "pblk_rl_u_timer r = r\<lparr>u_timer := False, rb_user_active := False\<rparr>"

definition pblk_rl_free :: "pblk_rl_per_rb \<Rightarrow> pblk_rl_per_rb" where
  "pblk_rl_free r = r\<lparr>u_timer := False\<rparr>"

section \<open>Rates\<close>

text \<open>Conversion of an \<open>unsigned long\<close> to \<open>int\<close>.\<close>

definition to_int :: "u64 \<Rightarrow> int" where
  "to_int x = sint (ucast x :: u32)"

definition pblk_rl_nr_free_blks :: "pblk_rl \<Rightarrow> u64" where
  "pblk_rl_nr_free_blks rl = word_of_int (free_blocks rl)"

definition pblk_rl_update_rates :: "pblk_rl \<Rightarrow> u64 \<Rightarrow> (u32 \<times> pblk_rl) option" where
  "pblk_rl_update_rates rl max_entries = (let fb = pblk_rl_nr_free_blks rl in
    if fb \<ge> ucast (high rl) then
      Some (PBLK_RL_HIGH, rl\<lparr>rb_user_max := to_int max_entries, rb_gc_max := 0, rb_state := PBLK_RL_HIGH\<rparr>)
    else do {
      let shift = sint (high_pw rl - word_of_int (rb_windows_pw rl));
      ensure (0 \<le> shift \<and> shift < 64);
      let user_windows = to_int (drop_bit (nat shift) fb);
      ensure (0 \<le> user_windows \<and> user_windows * 2 ^ PBLK_MAX_REQ_ADDRS_PW < 2 ^ 31);
      let user_max = user_windows * 2 ^ PBLK_MAX_REQ_ADDRS_PW;
      let rl1 = rl\<lparr>rb_user_max := user_max, rb_gc_max := to_int (max_entries - word_of_int user_max)\<rparr>;
      let rl2 = (if fb \<le> word_of_int (rsv_blocks rl) then rl1\<lparr>rb_user_max := 0, rb_gc_max := to_int max_entries\<rparr> else rl1);
      Some (PBLK_RL_LOW, rl2\<lparr>rb_state := PBLK_RL_LOW\<rparr>)
    })"

definition rates_msg :: "u32 \<Rightarrow> gc_msg" where
  "rates_msg ret = (if ret = (PBLK_RL_MID OR PBLK_RL_LOW) then Gc_should_start else Gc_should_stop)"

definition pblk_rl_free_lines_inc :: "pblk_rl \<Rightarrow> int \<Rightarrow> (gc_msg \<times> pblk_rl) option" where
  "pblk_rl_free_lines_inc rl blk_in_line = do {
    (ret, rl') \<leftarrow> pblk_rl_update_rates (rl\<lparr>free_blocks := free_blocks rl + blk_in_line\<rparr>) (word_of_int (rb_budget rl));
    Some (rates_msg ret, rl')
  }"

definition pblk_rl_free_lines_dec :: "pblk_rl \<Rightarrow> int \<Rightarrow> pblk_rl" where
  "pblk_rl_free_lines_dec rl blk_in_line = rl\<lparr>free_blocks := free_blocks rl - blk_in_line\<rparr>"

definition pblk_gc_should_kick :: "pblk_rl \<Rightarrow> (gc_msg \<times> pblk_rl) option" where
  "pblk_gc_should_kick rl = do {
    (ret, rl') \<leftarrow> pblk_rl_update_rates rl (word_of_int (rb_budget rl));
    Some (rates_msg ret, rl')
  }"

definition pblk_rl_high_thrs :: "pblk_rl \<Rightarrow> int" where "pblk_rl_high_thrs rl = sint (high rl)"
definition pblk_rl_low_thrs :: "pblk_rl \<Rightarrow> int" where "pblk_rl_low_thrs rl = sint (low rl)"
definition pblk_rl_sysfs_rate_show :: "pblk_rl \<Rightarrow> int" where "pblk_rl_sysfs_rate_show rl = rb_user_max rl"
definition pblk_rl_max_io :: "pblk_rl \<Rightarrow> int" where "pblk_rl_max_io rl = rb_max_io rl"

section \<open>Initialisation\<close>

text \<open>\<open>fls\<close> and \<open>get_count_order\<close> of the kernel: the position of the highest bit and the
  logarithm rounded up.\<close>

fun fls :: "nat \<Rightarrow> nat" where
  "fls n = (if n = 0 then 0 else Suc (fls (n div 2)))"

declare fls.simps [simp del]

definition get_count_order :: "u32 \<Rightarrow> int" where
  "get_count_order c =
    int (fls (unat c)) - 1 + (if c AND (c - 1) \<noteq> 0 then 1 else 0)"

definition blank_rb_rl :: "pblk_rl_per_rb \<Rightarrow> pblk_rl_per_rb" where
  "blank_rb_rl r = r\<lparr>rb_user_cnt := 0, rb_gc_cnt := 0, rb_user_active := False, rb_gc_active := False,
    rb_space := - 1, u_timer := False\<rparr>"

definition pblk_rl_init :: "u32 \<Rightarrow> pblk_rl \<Rightarrow> int \<Rightarrow> pblk_rl_per_rb list \<Rightarrow> pblk_rl \<times> pblk_rl_per_rb list" where
  "pblk_rl_init blk_per_line rl budget ctxs = (let
      min_blocks = sint (blk_per_line * word_of_int PBLK_GC_RSV_LINE);
      low0 = ucast (total_blocks rl div PBLK_USER_LOW_THRS);
      low1 = (if low0 < word_of_int min_blocks then word_of_int min_blocks else low0);
      rb_windows = word_of_int (cdiv budget PBLK_MAX_REQ_ADDRS)
    in (rl\<lparr>high := RESERVED_SPACE, high_pw := word_of_int (get_count_order RESERVED_SPACE), low := low1,
          rsv_blocks := min_blocks, rb_windows_pw := get_count_order rb_windows,
          rb_budget := budget, rb_user_max := budget, rb_max_io := drop_bit 1 budget, rb_gc_max := 0,
          rb_state := PBLK_RL_HIGH\<rparr>,
        map blank_rb_rl ctxs))"

section \<open>Lemmas\<close>

lemma fls_power: "fls (2 ^ k) = Suc k"
  by (induction k) (simp_all add: fls.simps)

lemma power_and_pred: "(2 :: 'a::len word) ^ k AND (2 ^ k - 1) = 0"
  by (rule bit_eqI) (auto simp: bit_and_iff bit_exp_iff bit_mask_iff simp flip: mask_eq_exp_minus_1)

lemma unat_exp_eq: "k < LENGTH('a::len) \<Longrightarrow> unat ((2 :: 'a word) ^ k) = 2 ^ k"
  using unat_of_nat [where 'a = 'a, of "2 ^ k"] by simp

lemma get_count_order_power: "k < 32 \<Longrightarrow> get_count_order (2 ^ k) = int k"
  by (simp add: get_count_order_def power_and_pred unat_exp_eq fls_power)

lemma get_count_order_reserved: "get_count_order RESERVED_SPACE = 5"
  by code_simp

lemma to_int_of_int [simp]: assumes "0 \<le> n" "n < 2 ^ 31" shows "to_int (word_of_int n) = n"
proof -
  have "(ucast (word_of_int n :: u64) :: u32) = word_of_int n"
    by (rule bit_word_eqI) (simp add: bit_ucast_iff bit_word_of_int_iff)
  then show ?thesis
    using assms by (simp add: to_int_def sint_sbintrunc' signed_take_bit_int_eq_self)
qed

lemma windows_power:
  assumes "4 \<le> p" "p \<le> 30"
  shows "get_count_order (word_of_int (cdiv (2 ^ p) PBLK_MAX_REQ_ADDRS)) = int p - 4"
proof -
  have "(2 :: int) ^ p = 2 ^ 4 * 2 ^ (p - 4)"
    using assms by (simp only: flip: power_add) simp
  then have "cdiv (2 ^ p) PBLK_MAX_REQ_ADDRS = 2 ^ (p - 4)"
    by (simp add: PBLK_MAX_REQ_ADDRS_def)
  moreover have "(word_of_int (2 ^ (p - 4)) :: u32) = 2 ^ (p - 4)"
    by simp
  ultimately show ?thesis
    using assms get_count_order_power [of "p - 4"] by simp
qed


text \<open>Comparisons of an \<open>unsigned long\<close> made from a small \<open>int\<close>.\<close>

lemma uint_small: "0 \<le> n \<Longrightarrow> n < 2 ^ 31 \<Longrightarrow> uint (word_of_int n :: u64) = n"
  by (simp add: uint_word_of_int_eq take_bit_int_eq_self)

lemma drop_bit_small:
  assumes "0 \<le> n" "n < 2 ^ 31"
  shows "drop_bit k (word_of_int n :: u64) = word_of_int (n div 2 ^ k)"
proof (rule word_uint_eqI)
  have "n div 2 ^ k \<le> n div 1" using assms by (intro zdiv_mono2) simp_all
  then have "0 \<le> n div 2 ^ k" "n div 2 ^ k < 2 ^ 64"
    using assms by (simp_all add: pos_imp_zdiv_nonneg_iff)
  then show "uint (drop_bit k (word_of_int n :: u64)) = uint (word_of_int (n div 2 ^ k) :: u64)"
    using assms
    by (simp only: unsigned_drop_bit_eq uint_word_of_int_eq) (simp add: take_bit_int_eq_self drop_bit_eq_div)
qed

lemma user_max_bounds:
  assumes "4 \<le> p" "p \<le> 9" "0 \<le> f" "f < (21 :: int)"
  shows "0 \<le> f div 2 ^ (9 - p) * 16" "f div 2 ^ (9 - p) * 16 \<le> 2 ^ p - 16"
proof -
  have "p = 4 \<or> p = 5 \<or> p = 6 \<or> p = 7 \<or> p = 8 \<or> p = 9"
    using assms by presburger
  then show "f div 2 ^ (9 - p) * 16 \<le> 2 ^ p - 16"
  proof (elim disjE)
    assume "p = 4" then show ?thesis using assms(3,4) by simp
  next
    assume "p = 5" then show ?thesis using assms(3,4) zdiv_mono1 [of f 20 16] by simp
  next
    assume "p = 6" then show ?thesis using assms(3,4) zdiv_mono1 [of f 20 8] by simp
  next
    assume "p = 7" then show ?thesis using assms(3,4) zdiv_mono1 [of f 20 4] by simp
  next
    assume "p = 8" then show ?thesis using assms(3,4) zdiv_mono1 [of f 20 2] by simp
  next
    assume "p = 9" then show ?thesis using assms(3,4) by simp
  qed
  show "0 \<le> f div 2 ^ (9 - p) * 16"
    using assms(3) by (simp add: pos_imp_zdiv_nonneg_iff)
qed

text \<open>The two shares where the shift is defined: a buffer of \<open>2 ^ p\<close> entries has \<open>2 ^ (p - 4)\<close>
  windows, and the free blocks, fewer than the threshold, are scaled to them.\<close>

lemma update_rates_low:
  assumes p: "4 \<le> p" "p \<le> 9" and fb: "0 \<le> free_blocks rl" "free_blocks rl < 21"
    and rl: "high rl = 21" "high_pw rl = 5" "rb_windows_pw rl = int p - 4"
  defines "um \<equiv> free_blocks rl div 2 ^ (9 - p) * 16"
  shows "pblk_rl_update_rates rl (word_of_int (2 ^ p)) = Some (PBLK_RL_LOW,
      if pblk_rl_nr_free_blks rl \<le> word_of_int (rsv_blocks rl)
      then rl\<lparr>rb_user_max := 0, rb_gc_max := 2 ^ p, rb_state := PBLK_RL_LOW\<rparr>
      else rl\<lparr>rb_user_max := um, rb_gc_max := 2 ^ p - um, rb_state := PBLK_RL_LOW\<rparr>)"
proof -
  note bounds = user_max_bounds [OF p fb, folded um_def]
  have pw: "(2 :: int) ^ p \<le> 2 ^ 9"
    using p by (intro power_increasing) simp_all
  have below: "\<not> (21 :: u64) \<le> word_of_int (free_blocks rl)"
    using fb by (simp add: word_le_def uint_small)
  have shift: "sint (5 - word_of_int (int p - 4) :: u32) = int (9 - p)"
  proof -
    have "(5 - word_of_int (int p - 4) :: u32) = word_of_int (int (9 - p))"
      using p by (simp add: of_nat_diff)
    moreover have "sint (word_of_int (int (9 - p)) :: u32) = int (9 - p)"
      using p by (simp only: sint_sbintrunc') (simp add: signed_take_bit_int_eq_self)
    ultimately show ?thesis by simp
  qed
  have um: "free_blocks rl div 2 ^ (9 - p) * 16 = um" by (simp add: um_def)
  have q: "0 \<le> free_blocks rl div 2 ^ (9 - p)" "free_blocks rl div 2 ^ (9 - p) < 2 ^ 27" "9 - p < 64"
    using bounds pw unfolding um_def by simp_all
  have rest: "(word_of_int (2 ^ p) - word_of_int um :: u64) = word_of_int (2 ^ p - um)"
    by simp
  show ?thesis
    using fb bounds pw q
    by (simp add: pblk_rl_update_rates_def Let_def rl pblk_rl_nr_free_blks_def below shift drop_bit_small um
        PBLK_MAX_REQ_ADDRS_PW_def rest del: of_int_power of_int_diff wi_hom_syms)
qed


lemma update_rates_high:
  assumes "high rl = 21" "21 \<le> free_blocks rl" "free_blocks rl < 2 ^ 31" "0 \<le> m" "m < 2 ^ 31"
  shows "pblk_rl_update_rates rl (word_of_int m) =
    Some (PBLK_RL_HIGH, rl\<lparr>rb_user_max := m, rb_gc_max := 0, rb_state := PBLK_RL_HIGH\<rparr>)"
proof -
  have "(21 :: u64) \<le> word_of_int (free_blocks rl)"
    using assms by (simp add: word_le_def uint_small)
  then show ?thesis
    using assms by (simp add: pblk_rl_update_rates_def Let_def pblk_rl_nr_free_blks_def)
qed

lemma update_rates_shift_negative:
  assumes p: "10 \<le> p" "p \<le> 30" and fb: "0 \<le> free_blocks rl" "free_blocks rl < 21"
    and rl: "high rl = 21" "high_pw rl = 5" "rb_windows_pw rl = int p - 4"
  shows "pblk_rl_update_rates rl m = None"
proof -
  have below: "\<not> (21 :: u64) \<le> word_of_int (free_blocks rl)"
    using fb by (simp add: word_le_def uint_small)
  have "(5 - word_of_int (int p - 4) :: u32) = word_of_int (9 - int p)"
    by simp
  moreover have "sint (word_of_int (9 - int p) :: u32) = 9 - int p"
    using p by (simp only: sint_sbintrunc') (simp add: signed_take_bit_int_eq_self)
  ultimately have "sint (5 - word_of_int (int p - 4) :: u32) < 0"
    using p by simp
  then show ?thesis
    by (simp add: pblk_rl_update_rates_def Let_def rl pblk_rl_nr_free_blks_def below ensure_def)
qed

lemma init_fields:
  assumes "4 \<le> p" "p \<le> 30" "rl0 = fst (pblk_rl_init bpl rl (2 ^ p) ctxs)"
  shows "high rl0 = 21" "high_pw rl0 = 5" "rb_windows_pw rl0 = int p - 4" "free_blocks rl0 = free_blocks rl"
    "rb_budget rl0 = 2 ^ p" "rsv_blocks rl0 = sint bpl"
  using assms
  by (simp_all add: pblk_rl_init_def Let_def get_count_order_reserved windows_power PBLK_GC_RSV_LINE_def)
    (simp_all add: RESERVED_SPACE_def)

lemma sint_eq_uint_small: assumes "unat (w :: u32) < 2 ^ 31" shows "sint w = int (unat w)"
proof -
  have "sint w = signed_take_bit 31 (uint w)"
    using sint_sbintrunc' [of "uint w", where 'a = 32] by simp
  moreover have "- (2 ^ 31) \<le> uint w"
    by (rule order_trans [OF _ uint_ge_0]) simp
  moreover have "uint w < 2 ^ 31"
    unfolding uint_nat [of w] using assms by (simp only: of_nat_less_numeral_power_cancel_iff)
  ultimately have "sint w = uint w"
    by (simp only: signed_take_bit_int_eq_self)
  then show ?thesis
    using uint_nat [of w] by linarith
qed

lemma rates_msg_start: "rates_msg ret = Gc_should_start \<longleftrightarrow> ret = PBLK_RL_LOW"
proof -
  have "PBLK_RL_MID OR PBLK_RL_LOW = PBLK_RL_LOW" by code_simp
  then show ?thesis by (simp add: rates_msg_def)
qed

section \<open>Properties\<close>

text \<open>C31. Share of the write buffer.  On a limiter set up for a buffer of \<open>2 ^ p\<close> entries with
  \<open>4 \<le> p \<le> 9\<close>, a check of the rates returns; the shares of user writes and of the collector are
  not negative and add up to the buffer; with at least 21 free blocks user writes have all of it
  and the collector is told to stop, with fewer the collector keeps at least one request of 16
  entries and is told to start; and with no more free blocks than one line has, user writes have
  nothing.\<close>

theorem rates_share_budget:
  assumes "4 \<le> p" "p \<le> 9" "0 \<le> free_blocks rl" "free_blocks rl < 2 ^ 31" "unat bpl < 2 ^ 31"
    and "rl0 = fst (pblk_rl_init bpl rl (2 ^ p) ctxs)"
  shows "\<exists>msg rl'. pblk_gc_should_kick rl0 = Some (msg, rl') \<and>
    0 \<le> rb_user_max rl' \<and> 0 \<le> rb_gc_max rl' \<and> rb_user_max rl' + rb_gc_max rl' = 2 ^ p \<and>
    (if free_blocks rl \<ge> 21 then msg = Gc_should_stop \<and> rb_user_max rl' = 2 ^ p
     else msg = Gc_should_start \<and> rb_gc_max rl' \<ge> 16 \<and>
       (free_blocks rl \<le> int (unat bpl) \<longrightarrow> rb_user_max rl' = 0))"
proof -
  have p30: "p \<le> 30" using assms(2) by simp
  note f = init_fields [OF assms(1) p30 assms(6)]
  show ?thesis
proof (cases "free_blocks rl \<ge> 21")
  case True
  have p: "(2 :: int) ^ p < 2 ^ 31"
    using assms(1,2) by (intro power_strict_increasing) simp_all
  have "pblk_rl_update_rates rl0 (word_of_int (2 ^ p)) =
      Some (PBLK_RL_HIGH, rl0\<lparr>rb_user_max := 2 ^ p, rb_gc_max := 0, rb_state := PBLK_RL_HIGH\<rparr>)"
    by (rule update_rates_high) (use True assms(4) p in \<open>simp_all add: f\<close>)
  moreover have "rates_msg PBLK_RL_HIGH = Gc_should_stop"
    by code_simp
  ultimately show ?thesis
    using True by (simp add: pblk_gc_should_kick_def f(5) del: of_int_power)
next
  case False
  define um where "um = free_blocks rl div 2 ^ (9 - p) * 16"
  have um: "0 \<le> um" "um \<le> 2 ^ p - 16"
    unfolding um_def using user_max_bounds [OF assms(1-3)] False by simp_all
  have sint: "sint bpl = int (unat bpl)"
    using assms(5) by (simp add: sint_eq_uint_small)
  have low: "pblk_rl_update_rates rl0 (word_of_int (2 ^ p)) = Some (PBLK_RL_LOW,
      if pblk_rl_nr_free_blks rl0 \<le> word_of_int (rsv_blocks rl0)
      then rl0\<lparr>rb_user_max := 0, rb_gc_max := 2 ^ p, rb_state := PBLK_RL_LOW\<rparr>
      else rl0\<lparr>rb_user_max := um, rb_gc_max := 2 ^ p - um, rb_state := PBLK_RL_LOW\<rparr>)"
    using update_rates_low [of p rl0, OF assms(1,2)] assms(3) False unfolding um_def f by simp
  have rsv: "pblk_rl_nr_free_blks rl0 \<le> word_of_int (rsv_blocks rl0) \<longleftrightarrow> free_blocks rl \<le> int (unat bpl)"
  proof -
    have "uint (word_of_int (int (unat bpl)) :: u64) = int (unat bpl)"
      using assms(5) by (intro uint_small) (simp_all only: of_nat_0_le_iff of_nat_less_numeral_power_cancel_iff)
    moreover have "uint (word_of_int (free_blocks rl) :: u64) = free_blocks rl"
      using assms(3,4) by (rule uint_small)
    ultimately show ?thesis
      by (simp only: pblk_rl_nr_free_blks_def f sint word_le_def)
  qed
  have "(16 :: int) \<le> 2 ^ p"
    using power_increasing [of 4 p "2 :: int"] assms(1) by simp
  with um False show ?thesis
    using rates_msg_start [of PBLK_RL_LOW]
    by (simp add: pblk_gc_should_kick_def f(5) low rsv del: of_int_power)
qed
qed

theorem rates_share_budget_witness:
  "\<exists>rl'. pblk_gc_should_kick (fst (pblk_rl_init 4 \<lparr>high = 0, low = 0, high_pw = 0, rb_windows_pw = 0,
      rb_budget = 0, rb_user_max = 0, rb_gc_max = 0, rb_state = 0, rb_max_io = 0, rsv_blocks = 0,
      total_blocks = 100, free_blocks = 3\<rparr> (2 ^ 5) [])) = Some (Gc_should_start, rl') \<and>
    rb_user_max rl' = 0 \<and> rb_gc_max rl' = 32"
proof -
  have bpl: "unat (4 :: u32) = 4" by simp
  show ?thesis
    using rates_share_budget [of 5 "\<lparr>high = 0, low = 0, high_pw = 0, rb_windows_pw = 0, rb_budget = 0,
        rb_user_max = 0, rb_gc_max = 0, rb_state = 0, rb_max_io = 0, rsv_blocks = 0, total_blocks = 100,
        free_blocks = 3\<rparr>" 4, OF _ _ _ _ _ refl, of "[]"]
    by (auto simp: bpl)
qed

text \<open>A rate that is not defined.  For a buffer of 1024 entries or more the number of windows
  exceeds the threshold rounded up to a power of two, and with fewer than 21 free blocks the
  amount of the shift is negative.\<close>

theorem rates_undefined_for_large_buffers:
  assumes "10 \<le> p" "p \<le> 30" "0 \<le> free_blocks rl" "free_blocks rl < 21"
  shows "pblk_gc_should_kick (fst (pblk_rl_init bpl rl (2 ^ p) ctxs)) = None"
proof -
  have "4 \<le> p" using assms(1) by simp
  note f = init_fields [OF this assms(2) refl]
  show ?thesis
    using update_rates_shift_negative [OF assms(1,2), of "fst (pblk_rl_init bpl rl (2 ^ p) ctxs)"] assms(3,4)
    by (simp add: pblk_gc_should_kick_def f)
qed

theorem rates_undefined_for_large_buffers_witness:
  "pblk_gc_should_kick (fst (pblk_rl_init 4 \<lparr>high = 0, low = 0, high_pw = 0, rb_windows_pw = 0,
      rb_budget = 0, rb_user_max = 0, rb_gc_max = 0, rb_state = 0, rb_max_io = 0, rsv_blocks = 0,
      total_blocks = 100, free_blocks = 3\<rparr> (2 ^ 10) [])) = None"
  by (rule rates_undefined_for_large_buffers) simp_all

end
