(* ===== verification/Pblk_Rb.thy ===== *)
theory Pblk_Rb
  imports Pblk_Rl
begin

text \<open>
  The write buffer of pblk (\<open>pblk-rb.c\<close>), one ring of entries per stream.  Four positions run
  around the ring: entries are reserved at \<open>mem\<close>, handed to the device at \<open>subm\<close>, known to be
  on the media up to \<open>sync\<close>, and their addresses are written to the map up to \<open>l2p_update\<close>.

  The calls a function makes into other parts of pblk (the map, the lines, the threads) are the
  values of type \<open>rb_event\<close> it returns, in the order of the calls.  The spin locks of the ring
  are taken and released inside one operation, which is therefore one step; a loop that waits
  for another thread is \<^const>\<open>None\<close>.  What \<open><linux/lightnvm.h>\<close> declares, the bit fields of an
  address and the empty address, is the argument \<open>nvm\<close>; the content of an entry is of any type.
  The counters that are only shown to the user are left out.

  The lemmas refine the four positions to four counters that never wrap.
\<close>

section \<open>Data\<close>

definition PBLK_IOTYPE_USER :: u32 where "PBLK_IOTYPE_USER = 1"
definition PBLK_IOTYPE_GC :: u32 where "PBLK_IOTYPE_GC = 2"
definition PBLK_FLUSH_ENTRY :: u32 where "PBLK_FLUSH_ENTRY = 4"
definition PBLK_WRITTEN_DATA :: u32 where "PBLK_WRITTEN_DATA = 8"
definition PBLK_SUBMITTED_ENTRY :: u32 where "PBLK_SUBMITTED_ENTRY = 16"
definition PBLK_WRITABLE_ENTRY :: u32 where "PBLK_WRITABLE_ENTRY = 32"
definition PBLK_RESERVED_ENTRY :: u32 where "PBLK_RESERVED_ENTRY = 64"
definition PBLK_WAITREAD_ENTRY :: u32 where "PBLK_WAITREAD_ENTRY = 128"
definition PBLK_INVALIDATE_ENTRY :: u32 where "PBLK_INVALIDATE_ENTRY = 256"

definition EMPTY_ENTRY :: u32 where "EMPTY_ENTRY = NOT 0"

text \<open>\<open>flags & bit\<close>.\<close>

definition has :: "u32 \<Rightarrow> u32 \<Rightarrow> bool" where
  "has flags b = (flags AND b \<noteq> 0)"

record nvm =
  ADDR_EMPTY :: u64
  c_line :: "u64 \<Rightarrow> u32"
  c_nrb :: "u64 \<Rightarrow> u8"
  c_is_cached :: "u64 \<Rightarrow> bool"
  c_is_reserved :: "u64 \<Rightarrow> bool"
  set_c_line :: "u32 \<Rightarrow> u64 \<Rightarrow> u64"
  set_c_nrb :: "u32 \<Rightarrow> u64 \<Rightarrow> u64"
  set_c_is_cached :: "bool \<Rightarrow> u64 \<Rightarrow> u64"
  set_c_is_reserved :: "bool \<Rightarrow> u64 \<Rightarrow> u64"
  g_blk :: "u64 \<Rightarrow> nat"

record pblk_w_ctx =
  w_bios :: "nat list"
  w_lba :: u64
  w_ppa :: u64
  w_flags :: u32
  w_submit_flags :: u32

record 'd pblk_rb_entry =
  cacheline :: u64
  e_data :: 'd
  e_ctx :: pblk_w_ctx

record 'd pblk_rb =
  rb_index :: u8
  entries :: "'d pblk_rb_entry list"
  mem :: u32
  subm :: u32
  sync :: u32
  sync_point :: u32
  l2p_update :: u32
  nr_entries :: u32
  seg_size :: u32
  submit_point :: u32
  nr_user :: u32
  inflight_sync_point :: int

datatype rb_event =
    Update_map_dev u64 u64 u64
  | Line_put u64
  | Update_map_cache u64 u64
  | Update_map_gc u64 u64
  | Map_invalidate u64
  | Cache_map_set u64 u64
  | Invalid_line nat
  | Bio_endio nat
  | Write_kick

definition pblk_ppa_empty :: "nvm \<Rightarrow> u64 \<Rightarrow> bool" where
  "pblk_ppa_empty nv p = (p = ADDR_EMPTY nv)"

definition pblk_addr_in_cache :: "nvm \<Rightarrow> u64 \<Rightarrow> bool" where
  "pblk_addr_in_cache nv p = (p \<noteq> ADDR_EMPTY nv \<and> c_is_cached nv p)"

definition pblk_cacheline_to_addr :: "nvm \<Rightarrow> u64 \<Rightarrow> u32 \<Rightarrow> u32 \<Rightarrow> u64" where
  "pblk_cacheline_to_addr nv junk addr nrb =
    set_c_is_cached nv True (set_c_nrb nv nrb (set_c_line nv addr junk))"

section \<open>Choice of a ring\<close>

text \<open>The ring with the most room.\<close>

fun remain_loop :: "pblk_rl \<Rightarrow> pblk_rl_per_rb list \<Rightarrow> int \<Rightarrow> nat \<Rightarrow> int \<Rightarrow> nat list \<Rightarrow> nat option" where
  "remain_loop rl ctxs nr_ent nrb remain_max [] = Some nrb"
| "remain_loop rl ctxs nr_ent nrb remain_max (i # is) = do {
    r \<leftarrow> aget ctxs nrb;
    let remain_cnt = rb_user_max rl - rb_user_cnt r;
    if remain_max \<ge> nr_ent \<and> remain_max < remain_cnt
    then remain_loop rl ctxs nr_ent i remain_cnt is
    else remain_loop rl ctxs nr_ent nrb remain_max is
  }"

definition pblk_rb_remain_max :: "pblk_rl \<Rightarrow> pblk_rl_per_rb list \<Rightarrow> int \<Rightarrow> nat \<Rightarrow> nat option" where
  "pblk_rb_remain_max rl ctxs nr_ent nr_rwb = do {
    r \<leftarrow> aget ctxs 0;
    remain_loop rl ctxs nr_ent 0 (rb_user_max rl - rb_user_cnt r) [1..<nr_rwb]
  }"

fun gc_remain_loop :: "pblk_rl \<Rightarrow> pblk_rl_per_rb list \<Rightarrow> int \<Rightarrow> nat \<Rightarrow> int \<Rightarrow> nat list \<Rightarrow> nat option" where
  "gc_remain_loop rl ctxs nr_ent nrb remain_max [] = Some nrb"
| "gc_remain_loop rl ctxs nr_ent nrb remain_max (i # is) = do {
    r \<leftarrow> aget ctxs nrb;
    let remain_cnt = rb_gc_max rl - rb_gc_cnt r;
    if remain_max \<ge> nr_ent \<and> remain_max < remain_cnt
    then gc_remain_loop rl ctxs nr_ent i remain_cnt is
    else gc_remain_loop rl ctxs nr_ent nrb remain_max is
  }"

definition pblk_rb_gc_remain_max :: "pblk_rl \<Rightarrow> pblk_rl_per_rb list \<Rightarrow> int \<Rightarrow> nat \<Rightarrow> nat option" where
  "pblk_rb_gc_remain_max rl ctxs nr_ent nr_rwb = do {
    r \<leftarrow> aget ctxs 0;
    gc_remain_loop rl ctxs nr_ent 0 (rb_gc_max rl - rb_gc_cnt r) [1..<nr_rwb]
  }"

section \<open>Initialisation\<close>

text \<open>One page set fills \<open>2 ^ order\<close> entries, from the entry \<open>init_entry\<close> on; \<open>fresh\<close> is the
  content of the new pages.  Only the entries after the first have their list of bios
  initialised.\<close>

fun init_entries :: "nvm \<Rightarrow> u64 \<Rightarrow> u32 \<Rightarrow> (nat \<Rightarrow> 'd) \<Rightarrow> nat \<Rightarrow> nat \<Rightarrow> bool \<Rightarrow>
    'd pblk_rb_entry list \<Rightarrow> 'd pblk_rb_entry list option" where
  "init_entries nv junk nrb fresh k 0 b es = Some es"
| "init_entries nv junk nrb fresh k (Suc n) b es = do {
    e \<leftarrow> aget es k;
    es' \<leftarrow> aset es k (e\<lparr>e_data := fresh k, cacheline := pblk_cacheline_to_addr nv junk (of_nat k) nrb,
      e_ctx := (e_ctx e)\<lparr>w_flags := PBLK_WRITABLE_ENTRY, w_bios := (if b then [] else w_bios (e_ctx e))\<rparr>\<rparr>);
    init_entries nv junk nrb fresh (Suc k) n True es'
  }"

datatype rb_alloc = Alloc_ok | No_page_set | No_pages

text \<open>The loop over the page sets, with \<open>pblk_rb_lock\<close> held.  When the pages of a set cannot be
  allocated, \<open>pblk_rb_data_free\<close> takes that lock a second time and never returns.\<close>

fun init_sets :: "nvm \<Rightarrow> u64 \<Rightarrow> u32 \<Rightarrow> (nat \<Rightarrow> 'd) \<Rightarrow> nat \<Rightarrow> nat \<Rightarrow> rb_alloc list \<Rightarrow>
    'd pblk_rb_entry list \<Rightarrow> ('d pblk_rb_entry list + 'd pblk_rb_entry list) option" where
  "init_sets nv junk nrb fresh order k [] es = Some (Inr es)"
| "init_sets nv junk nrb fresh order k (a # as) es = (case a of
    No_page_set \<Rightarrow> Some (Inl es)
  | No_pages \<Rightarrow> None
  | Alloc_ok \<Rightarrow> do {
      es' \<leftarrow> init_entries nv junk nrb fresh k (2 ^ order) False es;
      init_sets nv junk nrb fresh order (k + 2 ^ order) as es'
    })"

text \<open>The number of page sets for a given size, and the order of each.\<close>

definition set_order :: "nat \<Rightarrow> nat \<Rightarrow> nat" where
  "set_order max_order power_size = (if power_size \<ge> max_order then max_order else power_size)"

definition set_iter :: "nat \<Rightarrow> nat \<Rightarrow> nat" where
  "set_iter max_order power_size = (if power_size \<ge> max_order then 2 ^ (power_size - max_order) else 1)"

definition pblk_rb_init :: "nvm \<Rightarrow> u64 \<Rightarrow> nat \<Rightarrow> (nat \<Rightarrow> rb_alloc) \<Rightarrow> (nat \<Rightarrow> 'd) \<Rightarrow> u32 \<Rightarrow>
    pblk_rl \<Rightarrow> pblk_rl_per_rb list \<Rightarrow> 'd pblk_rb \<Rightarrow> u32 \<Rightarrow> 'd pblk_rb_entry list \<Rightarrow> nat \<Rightarrow> nat \<Rightarrow>
    ('d pblk_rb + 'd pblk_rb \<times> pblk_rl \<times> pblk_rl_per_rb list) option" where
  "pblk_rb_init nv junk max_order alloc fresh bpl rl ctxs rb nrb rb_entry_base power_size power_seg_sz = do {
    let rb1 = rb\<lparr>rb_index := ucast nrb, seg_size := push_bit power_seg_sz 1, nr_entries := push_bit power_size 1,
      mem := 0, subm := 0, sync := 0, l2p_update := 0, sync_point := EMPTY_ENTRY, submit_point := 0, nr_user := 0\<rparr>;
    r \<leftarrow> init_sets nv junk nrb fresh (set_order max_order power_size) 0
      (map alloc [0..<set_iter max_order power_size]) rb_entry_base;
    Some (case r of Inl es \<Rightarrow> Inl (rb1\<lparr>entries := es\<rparr>)
      | Inr es \<Rightarrow> Inr (rb1\<lparr>entries := es, inflight_sync_point := 0\<rparr>,
          pblk_rl_init bpl rl (sint (nr_entries rb1)) ctxs))
  }"

definition pblk_rb_calculate_size :: "u32 \<Rightarrow> u32" where
  "pblk_rb_calculate_size n = push_bit (nat (max (get_count_order n) 7)) 1"

section \<open>Positions\<close>

text \<open>\<open>CIRC_CNT\<close> and \<open>CIRC_SPACE\<close> of the kernel: the entries between two positions, and the room
  left when one entry is kept free.\<close>

definition pblk_rb_ring_count :: "u32 \<Rightarrow> u32 \<Rightarrow> u32 \<Rightarrow> u32" where
  "pblk_rb_ring_count head tail sz = (head - tail) AND (sz - 1)"

definition pblk_rb_ring_space :: "u32 \<Rightarrow> u32 \<Rightarrow> u32 \<Rightarrow> u32" where
  "pblk_rb_ring_space head tail sz = pblk_rb_ring_count tail (head + 1) sz"

definition pblk_rb_space :: "'d pblk_rb \<Rightarrow> u32" where
  "pblk_rb_space rb = pblk_rb_ring_space (mem rb) (sync rb) (nr_entries rb)"

definition pblk_rb_read_count :: "'d pblk_rb \<Rightarrow> u32" where
  "pblk_rb_read_count rb = pblk_rb_ring_count (mem rb) (subm rb) (nr_entries rb)"

definition pblk_rb_sync_count :: "'d pblk_rb \<Rightarrow> u32" where
  "pblk_rb_sync_count rb = pblk_rb_ring_count (mem rb) (sync rb) (nr_entries rb)"

definition pblk_rb_wrap_pos :: "'d pblk_rb \<Rightarrow> u32 \<Rightarrow> u32" where
  "pblk_rb_wrap_pos rb pos = pos AND (nr_entries rb - 1)"

definition pblk_rb_read_commit :: "'d pblk_rb \<Rightarrow> u32 \<Rightarrow> u32 \<times> 'd pblk_rb" where
  "pblk_rb_read_commit rb n = (subm rb, rb\<lparr>subm := (subm rb + n) AND (nr_entries rb - 1)\<rparr>)"

definition pblk_rb_sync_advance :: "'d pblk_rb \<Rightarrow> u32 \<Rightarrow> u32 \<times> 'd pblk_rb" where
  "pblk_rb_sync_advance rb n =
    (let s = ((\<lambda>s. (s + 1) AND (nr_entries rb - 1)) ^^ unat n) (sync rb) in (s, rb\<lparr>sync := s\<rparr>))"

definition pblk_rb_sync_point_count :: "'d pblk_rb \<Rightarrow> u32" where
  "pblk_rb_sync_point_count rb = (if sync_point rb = EMPTY_ENTRY then 0
    else pblk_rb_ring_count (sync_point rb) (subm rb) (nr_entries rb) + 1)"

definition set_entry :: "'d pblk_rb \<Rightarrow> u32 \<Rightarrow> 'd pblk_rb_entry \<Rightarrow> 'd pblk_rb" where
  "set_entry rb pos e = rb\<lparr>entries := (entries rb)[unat pos := e]\<rparr>"

section \<open>From the cache to the device address\<close>

text \<open>The entry is waited for until it has been handed to the device.\<close>

definition clean_wctx :: "nvm \<Rightarrow> pblk_w_ctx \<Rightarrow> pblk_w_ctx option" where
  "clean_wctx nv w = do {
    ensure (has (w_submit_flags w) PBLK_SUBMITTED_ENTRY);
    Some (w\<lparr>w_flags := PBLK_WRITABLE_ENTRY, w_submit_flags := PBLK_WRITABLE_ENTRY,
      w_ppa := ADDR_EMPTY nv, w_lba := ADDR_EMPTY nv\<rparr>)
  }"

fun l2p_loop :: "nvm \<Rightarrow> nat \<Rightarrow> 'd pblk_rb \<Rightarrow> u32 \<Rightarrow> nat \<Rightarrow> nat \<Rightarrow>
    (rb_event list \<times> 'd pblk_rb \<times> u32 \<times> nat \<times> nat) option" where
  "l2p_loop nv 0 rb pos user_io gc_io = Some ([], rb, pos, user_io, gc_io)"
| "l2p_loop nv (Suc n) rb pos user_io gc_io = do {
    e \<leftarrow> aget (entries rb) (unat pos);
    let w = e_ctx e;
    let user_io' = (if has (w_flags w) PBLK_IOTYPE_USER then Suc user_io else user_io);
    let gc_io' = (if \<not> has (w_flags w) PBLK_IOTYPE_USER \<and> has (w_flags w) PBLK_IOTYPE_GC then Suc gc_io else gc_io);
    w' \<leftarrow> clean_wctx nv w;
    (ev, r) \<leftarrow> l2p_loop nv n (set_entry rb pos (e\<lparr>e_ctx := w'\<rparr>)) ((pos + 1) AND (nr_entries rb - 1)) user_io' gc_io';
    Some (Update_map_dev (w_lba w) (w_ppa w) (cacheline e) # Line_put (w_ppa w) # ev, r)
  }"

definition pblk_rb_update_l2p_n :: "nvm \<Rightarrow> 'd pblk_rb \<Rightarrow> pblk_rl_per_rb \<Rightarrow> u32 \<Rightarrow>
    (rb_event list \<times> 'd pblk_rb \<times> pblk_rl_per_rb) option" where
  "pblk_rb_update_l2p_n nv rb rb_rl to_update = do {
    (ev, rb', pos, user_io, gc_io) \<leftarrow> l2p_loop nv (unat to_update) rb (l2p_update rb) 0 0;
    Some (ev, rb'\<lparr>l2p_update := pos\<rparr>, pblk_rl_out rb_rl (int user_io) (int gc_io))
  }"

definition pblk_rb_update_l2p :: "nvm \<Rightarrow> 'd pblk_rb \<Rightarrow> pblk_rl_per_rb \<Rightarrow> u32 \<Rightarrow>
    (rb_event list \<times> 'd pblk_rb \<times> pblk_rl_per_rb) option" where
  "pblk_rb_update_l2p nv rb rb_rl n = (let space = pblk_rb_ring_space (mem rb) (l2p_update rb) (nr_entries rb) in
    if space > n then Some ([], rb, rb_rl) else pblk_rb_update_l2p_n nv rb rb_rl (n - space))"

definition pblk_rb_sync_l2p :: "nvm \<Rightarrow> 'd pblk_rb \<Rightarrow> pblk_rl_per_rb \<Rightarrow>
    (rb_event list \<times> 'd pblk_rb \<times> pblk_rl_per_rb) option" where
  "pblk_rb_sync_l2p nv rb rb_rl =
    pblk_rb_update_l2p_n nv rb rb_rl (pblk_rb_ring_count (sync rb) (l2p_update rb) (nr_entries rb))"

section \<open>Writing entries\<close>

definition pblk_rb_write_entry :: "'d \<Rightarrow> pblk_w_ctx \<Rightarrow> 'd pblk_rb_entry \<Rightarrow> 'd pblk_rb_entry" where
  "pblk_rb_write_entry d w e = e\<lparr>e_data := d, e_ctx := (e_ctx e)\<lparr>w_lba := w_lba w, w_ppa := w_ppa w\<rparr>\<rparr>"

definition set_flags :: "u32 \<Rightarrow> 'd pblk_rb_entry \<Rightarrow> 'd pblk_rb_entry" where
  "set_flags f e = e\<lparr>e_ctx := (e_ctx e)\<lparr>w_flags := f\<rparr>\<rparr>"

definition pblk_rb_write_entry_user :: "'d pblk_rb \<Rightarrow> 'd \<Rightarrow> pblk_w_ctx \<Rightarrow> u32 \<Rightarrow>
    (rb_event list \<times> 'd pblk_rb) option" where
  "pblk_rb_write_entry_user rb d w ring_pos = do {
    e \<leftarrow> aget (entries rb) (unat ring_pos);
    ensure (has (w_flags (e_ctx e)) PBLK_WRITABLE_ENTRY);
    Some ([Update_map_cache (w_lba w) (cacheline e)],
      set_entry rb ring_pos (set_flags (w_flags w OR PBLK_WRITTEN_DATA) (pblk_rb_write_entry d w e)))
  }"

text \<open>\<open>moved\<close> is the result of \<open>pblk_update_map_gc\<close>: whether the sector still was where the
  collector read it.\<close>

definition pblk_rb_write_entry_gc :: "nvm \<Rightarrow> bool \<Rightarrow> 'd pblk_rb \<Rightarrow> 'd \<Rightarrow> pblk_w_ctx \<Rightarrow> u32 \<Rightarrow>
    (rb_event list \<times> 'd pblk_rb) option" where
  "pblk_rb_write_entry_gc nv moved rb d w ring_pos = do {
    e \<leftarrow> aget (entries rb) (unat ring_pos);
    ensure (has (w_flags (e_ctx e)) PBLK_WRITABLE_ENTRY);
    let e1 = pblk_rb_write_entry d w e;
    let e2 = (if w_lba w = ADDR_EMPTY nv \<or> \<not> moved
      then e1\<lparr>e_ctx := (e_ctx e1)\<lparr>w_lba := ADDR_EMPTY nv\<rparr>\<rparr> else e1);
    Some (if w_lba w = ADDR_EMPTY nv then [] else [Update_map_gc (w_lba w) (cacheline e)],
      set_entry rb ring_pos (set_flags (w_flags w OR PBLK_WRITTEN_DATA) e2))
  }"

section \<open>Admission\<close>

definition pblk_rb_sync_point_set :: "'d pblk_rb \<Rightarrow> nat option \<Rightarrow> u32 \<Rightarrow> (bool \<times> 'd pblk_rb) option" where
  "pblk_rb_sync_point_set rb bio pos = (let rb0 = rb\<lparr>inflight_sync_point := inflight_sync_point rb + 1\<rparr> in
    if pos = subm rb0 then Some (False, rb0)
    else do {
      let sp = (if pos = 0 then nr_entries rb0 - 1 else pos - 1);
      e \<leftarrow> aget (entries rb0) (unat sp);
      let e1 = set_flags (w_flags (e_ctx e) OR PBLK_FLUSH_ENTRY) e;
      let rb1 = (set_entry rb0 sp e1)\<lparr>sync_point := sp\<rparr>;
      case bio of
        None \<Rightarrow> Some (False, rb1)
      | Some b \<Rightarrow> Some (True, set_entry rb1 sp (e1\<lparr>e_ctx := (e_ctx e1)\<lparr>w_bios := w_bios (e_ctx e1) @ [b]\<rparr>\<rparr>))
    })"

text \<open>The result is the position granted, if any.\<close>

definition pblk_rb_may_write_at :: "nvm \<Rightarrow> 'd pblk_rb \<Rightarrow> pblk_rl_per_rb \<Rightarrow> u32 \<Rightarrow>
    (u32 option \<times> rb_event list \<times> 'd pblk_rb \<times> pblk_rl_per_rb) option" where
  "pblk_rb_may_write_at nv rb rb_rl n =
    (if pblk_rb_ring_space (mem rb) (sync rb) (nr_entries rb) < n then Some (None, [], rb, rb_rl)
     else do {
       (ev, rb', rb_rl') \<leftarrow> pblk_rb_update_l2p nv rb rb_rl n;
       Some (Some (mem rb), ev, rb', rb_rl')
     })"

definition pblk_rb_may_write :: "nvm \<Rightarrow> 'd pblk_rb \<Rightarrow> pblk_rl_per_rb \<Rightarrow> u32 \<Rightarrow>
    (u32 option \<times> rb_event list \<times> 'd pblk_rb \<times> pblk_rl_per_rb) option" where
  "pblk_rb_may_write nv rb rb_rl n = do {
    (p, ev, rb', rb_rl') \<leftarrow> pblk_rb_may_write_at nv rb rb_rl n;
    Some (case p of None \<Rightarrow> (None, ev, rb', rb_rl')
      | Some pos \<Rightarrow> (Some pos, ev, rb'\<lparr>mem := (pos + n) AND (nr_entries rb' - 1)\<rparr>, rb_rl'))
  }"

definition pblk_rb_may_write_flush :: "nvm \<Rightarrow> 'd pblk_rb \<Rightarrow> pblk_rl_per_rb \<Rightarrow> u32 \<Rightarrow>
    (u32 option \<times> rb_event list \<times> 'd pblk_rb \<times> pblk_rl_per_rb) option" where
  "pblk_rb_may_write_flush nv rb rb_rl n = do {
    (p, ev, rb', rb_rl') \<leftarrow> pblk_rb_may_write_at nv rb rb_rl n;
    Some (case p of None \<Rightarrow> (None, ev, rb', rb_rl')
      | Some pos \<Rightarrow> (Some pos, ev, rb'\<lparr>nr_user := nr_user rb' + n, mem := (pos + n) AND (nr_entries rb' - 1)\<rparr>, rb_rl'))
  }"

definition pblk_rb_may_write_user :: "nvm \<Rightarrow> pblk_rl \<Rightarrow> 'd pblk_rb \<Rightarrow> pblk_rl_per_rb \<Rightarrow> u32 \<Rightarrow>
    (nvm_io \<times> u32 option \<times> rb_event list \<times> 'd pblk_rb \<times> pblk_rl_per_rb) option" where
  "pblk_rb_may_write_user nv rl rb rb_rl n = (let io_ret = pblk_rl_user_may_insert rl rb_rl (sint n) in
    if io_ret \<noteq> NVM_IO_OK then Some (io_ret, None, [], rb, rb_rl)
    else do {
      (p, r) \<leftarrow> pblk_rb_may_write_flush nv rb rb_rl n;
      Some (if p = None then NVM_IO_REQUEUE else NVM_IO_DONE, p, r)
    })"

definition pblk_rb_may_write_gc :: "nvm \<Rightarrow> pblk_rl \<Rightarrow> 'd pblk_rb \<Rightarrow> pblk_rl_per_rb \<Rightarrow> u32 \<Rightarrow>
    (u32 option \<times> rb_event list \<times> 'd pblk_rb \<times> pblk_rl_per_rb) option" where
  "pblk_rb_may_write_gc nv rl rb rb_rl n =
    (if \<not> pblk_rl_gc_may_insert rl rb_rl (sint n) then Some (None, [], rb, rb_rl)
     else do {
       (p, ev, rb', rb_rl') \<leftarrow> pblk_rb_may_write nv rb rb_rl n;
       Some (p, ev, rb', if p = None then rb_rl' else pblk_rl_gc_in rb_rl' (sint n))
     })"

definition pblk_write_should_kick :: "int \<Rightarrow> 'd pblk_rb \<Rightarrow> rb_event list" where
  "pblk_write_should_kick min_write_pgs rb =
    (if pblk_rb_read_count rb \<ge> word_of_int min_write_pgs then [Write_kick] else [])"

definition pblk_rb_flush :: "int \<Rightarrow> 'd pblk_rb \<Rightarrow> (rb_event list \<times> 'd pblk_rb) option" where
  "pblk_rb_flush min_write_pgs rb = do {
    (b, rb') \<leftarrow> pblk_rb_sync_point_set rb None (mem rb);
    Some (if b then [] else pblk_write_should_kick min_write_pgs rb', rb')
  }"

section \<open>Reading entries\<close>

text \<open>Outcome of the calls that add a page to a bio: \<open>page i\<close> for the page of the \<open>i\<close>-th entry,
  \<open>pad\<close> for the padding.\<close>

record bio_outcome =
  page :: "nat \<Rightarrow> bool"
  pad :: bool

record pblk_c_ctx =
  sentry :: u32
  nr_valid :: u32
  nr_padded :: u32

text \<open>The writer thread takes the entries in the order of the ring.  An entry that is not written
  yet is waited for; one that is only reserved is a \<open>BUG\<close>.\<close>

definition submit_flags_of :: "u32 \<Rightarrow> u32" where
  "submit_flags_of f = (f AND NOT PBLK_WRITTEN_DATA) OR PBLK_SUBMITTED_ENTRY"

definition submit_entry :: "'d pblk_rb \<Rightarrow> u32 \<Rightarrow> 'd pblk_rb_entry \<Rightarrow> 'd pblk_rb" where
  "submit_entry rb pos e = (let
      f = w_flags (e_ctx e) AND NOT PBLK_RESERVED_ENTRY;
      flush = has f PBLK_FLUSH_ENTRY;
      rb1 = (if flush then rb\<lparr>sync_point := (if sync_point rb = pos then EMPTY_ENTRY else sync_point rb),
          inflight_sync_point := inflight_sync_point rb - 1\<rparr> else rb);
      f1 = (if flush then f AND NOT PBLK_FLUSH_ENTRY else f)
    in set_entry (rb1\<lparr>submit_point := pos\<rparr>) pos
      (e\<lparr>e_ctx := (e_ctx e)\<lparr>w_flags := submit_flags_of f1, w_submit_flags := PBLK_SUBMITTED_ENTRY\<rparr>\<rparr>))"

fun read_loop :: "(nat \<Rightarrow> bool) \<Rightarrow> nat \<Rightarrow> nat \<Rightarrow> u32 \<Rightarrow> 'd pblk_rb \<Rightarrow> (bool \<times> 'd list \<times> 'd pblk_rb) option" where
  "read_loop add i 0 pos rb = Some (True, [], rb)"
| "read_loop add i (Suc n) pos rb = do {
    e \<leftarrow> aget (entries rb) (unat pos);
    let f = w_flags (e_ctx e);
    ensure (has f PBLK_WRITTEN_DATA \<or> has f PBLK_INVALIDATE_ENTRY);
    if \<not> add i
    then Some (False, [], set_entry rb pos (set_flags (submit_flags_of (f AND NOT PBLK_RESERVED_ENTRY)) e))
    else do {
      (ok, ds, rb') \<leftarrow> read_loop add (Suc i) n ((pos + 1) AND (nr_entries rb - 1)) (submit_entry rb pos e);
      Some (ok, e_data e # ds, rb')
    }
  }"

definition pblk_rb_read_to_bio :: "bio_outcome \<Rightarrow> 'd pblk_rb \<Rightarrow> u32 \<Rightarrow> u32 \<Rightarrow> u32 \<Rightarrow>
    (nvm_io \<times> pblk_c_ctx \<times> 'd list \<times> 'd pblk_rb) option" where
  "pblk_rb_read_to_bio out rb pos n avail = do {
    let padn = (if avail < n then n - avail else 0);
    let to_read = (if avail < n then avail else n);
    let c = \<lparr>sentry = pos, nr_valid = to_read, nr_padded = padn\<rparr>;
    (ok, ds, rb') \<leftarrow> read_loop (page out) 0 (unat to_read) pos rb;
    Some (if ok \<and> (padn \<noteq> 0 \<longrightarrow> pad out) then NVM_IO_OK else NVM_IO_ERR, c, ds, rb')
  }"

text \<open>A read that found its sector in the cache: the data is copied if the map still points to
  the entry (\<open>l2p\<close> is what \<open>pblk_trans_map_get\<close> returns) and the entry still holds the sector.\<close>

definition pblk_rb_copy_to_bio :: "nvm \<Rightarrow> 'd pblk_rb \<Rightarrow> u64 \<Rightarrow> u64 \<Rightarrow> u64 \<Rightarrow> 'd option option" where
  "pblk_rb_copy_to_bio nv rb l2p lba ppa = do {
    let pos = c_line nv ppa;
    ensure (\<not> pos \<ge> nr_entries rb);
    e \<leftarrow> aget (entries rb) (unat pos);
    Some (if l2p \<noteq> ppa \<or> w_lba (e_ctx e) \<noteq> lba \<or> has (w_flags (e_ctx e)) PBLK_WRITABLE_ENTRY
      then None else Some (e_data e))
  }"

definition pblk_rb_w_ctx :: "'d pblk_rb \<Rightarrow> u32 \<Rightarrow> 'd pblk_rb_entry option" where
  "pblk_rb_w_ctx rb pos = aget (entries rb) (unat (pos AND (nr_entries rb - 1)))"

text \<open>The search for the entry of a failed address walks from \<open>sync\<close> to \<open>subm\<close> and looks at
  nothing.\<close>

definition pblk_rb_sync_scan_entry :: "'d pblk_rb \<Rightarrow> u64 \<Rightarrow> 'd pblk_rb_entry option" where
  "pblk_rb_sync_scan_entry rb ppa = (let n = pblk_rb_ring_count (subm rb) (sync rb) (nr_entries rb);
      s = ((\<lambda>s. (s + 1) AND (nr_entries rb - 1)) ^^ unat n) (sync rb) in None)"

section \<open>Reserved entries\<close>

text \<open>A page of four sectors is reserved in the ring of its stream before it is written.  An
  entry that moved from another ring gives its device address to the new one.\<close>

definition move_flags :: "u32 \<Rightarrow> u32 \<Rightarrow> u32" where
  "move_flags drop_bits f = (((f AND NOT drop_bits) OR PBLK_INVALIDATE_ENTRY) OR PBLK_WRITTEN_DATA)"

definition pblk_rb_write_entry_user_to_rrwb :: "nvm \<Rightarrow> 'd pblk_rb \<Rightarrow> 'd \<Rightarrow> pblk_w_ctx \<Rightarrow> u32 \<Rightarrow>
    (rb_event list \<times> 'd pblk_rb) option" where
  "pblk_rb_write_entry_user_to_rrwb nv rb d w ring_pos = do {
    e \<leftarrow> aget (entries rb) (unat ring_pos);
    ensure (has (w_flags (e_ctx e)) PBLK_WRITABLE_ENTRY);
    ensure (w_lba (e_ctx e) = w_lba w);
    let l2p_ppa = w_ppa (e_ctx e);
    Some ((if \<not> pblk_addr_in_cache nv l2p_ppa \<and> \<not> pblk_ppa_empty nv l2p_ppa then [Map_invalidate l2p_ppa] else [])
        @ [Cache_map_set (w_lba w) (cacheline e)],
      set_entry rb ring_pos (set_flags ((w_flags w OR PBLK_WRITTEN_DATA) AND NOT PBLK_RESERVED_ENTRY)
        (pblk_rb_write_entry d w e)))
  }"

definition pblk_rb_write_read_data_to_rrwb :: "nvm \<Rightarrow> 'd pblk_rb \<Rightarrow> 'd option \<Rightarrow> pblk_w_ctx \<Rightarrow> u32 \<Rightarrow>
    (rb_event list \<times> 'd pblk_rb) option" where
  "pblk_rb_write_read_data_to_rrwb nv rb d w ring_pos = do {
    e \<leftarrow> aget (entries rb) (unat ring_pos);
    let f = w_flags (e_ctx e);
    let l2p_ppa = w_ppa (e_ctx e);
    if \<not> has f PBLK_WAITREAD_ENTRY then Some ([], rb)
    else Some ((if \<not> pblk_addr_in_cache nv l2p_ppa \<and> \<not> pblk_ppa_empty nv l2p_ppa then [Map_invalidate l2p_ppa] else [])
        @ [Cache_map_set (w_lba w) (cacheline e)],
      set_entry rb ring_pos (e\<lparr>e_ctx := (e_ctx e)\<lparr>w_ppa := ADDR_EMPTY nv,
          w_flags := (f OR PBLK_WRITTEN_DATA) AND NOT PBLK_WAITREAD_ENTRY\<rparr>,
        e_data := (case d of None \<Rightarrow> e_data e | Some x \<Rightarrow> x)\<rparr>))
  }"

definition nth_entry :: "'d pblk_rb list \<Rightarrow> nat \<Rightarrow> u32 \<Rightarrow> 'd pblk_rb_entry option" where
  "nth_entry rbs n pos = do { rb \<leftarrow> aget rbs n; aget (entries rb) (unat pos) }"

definition put_entry :: "'d pblk_rb list \<Rightarrow> nat \<Rightarrow> u32 \<Rightarrow> 'd pblk_rb_entry \<Rightarrow> 'd pblk_rb list" where
  "put_entry rbs n pos e = rbs[n := set_entry (rbs ! n) pos e]"

text \<open>\<open>rbs\<close> are all rings, \<open>l2p_ppa\<close> is the mapped address of the sector.  The entry itself and the
  old entry may be the same.\<close>

definition pblk_rb_reserved_entry :: "nvm \<Rightarrow> u64 \<Rightarrow> 'd pblk_rb list \<Rightarrow> nat \<Rightarrow> pblk_w_ctx \<Rightarrow> u32 \<Rightarrow>
    (rb_event list \<times> 'd pblk_rb list) option" where
  "pblk_rb_reserved_entry nv l2p_ppa rbs n w ring_pos = do {
    e0 \<leftarrow> nth_entry rbs n ring_pos;
    ensure (has (w_flags (e_ctx e0)) PBLK_WRITABLE_ENTRY);
    let f = PBLK_WRITABLE_ENTRY OR w_flags w;
    let rbs1 = put_entry rbs n ring_pos (e0\<lparr>e_ctx := (e_ctx e0)\<lparr>w_lba := w_lba w, w_ppa := l2p_ppa\<rparr>\<rparr>);
    (ev, f1, rbs2) \<leftarrow>
      (if \<not> pblk_addr_in_cache nv l2p_ppa then Some ([Invalid_line (g_blk nv l2p_ppa)], f, rbs1)
       else do {
         let m = unat (c_nrb nv l2p_ppa);
         orb \<leftarrow> aget rbs1 m;
         let old_pos = pblk_rb_wrap_pos orb (c_line nv l2p_ppa);
         old \<leftarrow> nth_entry rbs1 m old_pos;
         let old_flags = w_flags (e_ctx old);
         if has old_flags PBLK_INVALIDATE_ENTRY then Some ([], f, rbs1)
         else if has old_flags PBLK_WRITTEN_DATA \<or> has old_flags PBLK_SUBMITTED_ENTRY then do {
           e \<leftarrow> nth_entry rbs1 n ring_pos;
           Some ([], f OR PBLK_WRITTEN_DATA,
             put_entry rbs1 n ring_pos (pblk_rb_write_entry (e_data old) (w\<lparr>w_ppa := ADDR_EMPTY nv\<rparr>) e))
         }
         else if has old_flags PBLK_RESERVED_ENTRY \<or> has old_flags PBLK_WAITREAD_ENTRY then do {
           e \<leftarrow> nth_entry rbs1 n ring_pos;
           let rbs' = put_entry rbs1 n ring_pos (e\<lparr>e_ctx := (e_ctx e)\<lparr>w_ppa := w_ppa (e_ctx old)\<rparr>\<rparr>);
           old' \<leftarrow> nth_entry rbs' m old_pos;
           Some ([], f, put_entry rbs' m old_pos (old'\<lparr>e_ctx := (e_ctx old')\<lparr>w_ppa := ADDR_EMPTY nv,
             w_flags := move_flags (if has old_flags PBLK_RESERVED_ENTRY then PBLK_RESERVED_ENTRY OR PBLK_WRITABLE_ENTRY
               else PBLK_WAITREAD_ENTRY) old_flags\<rparr>\<rparr>))
         }
         else None
       });
    e \<leftarrow> nth_entry rbs2 n ring_pos;
    ensure (\<not> pblk_addr_in_cache nv (w_ppa (e_ctx e)));
    Some (ev @ [Cache_map_set (w_lba w) (set_c_is_reserved nv True (cacheline e))],
      put_entry rbs2 n ring_pos (set_flags (f1 OR PBLK_RESERVED_ENTRY) e))
  }"

text \<open>The collector found a sector of a page-mapped stream: it is filled in where an entry waits
  for it.  The result is whether the sector must be written as a sector (\<open>SECTOR_MAP\<close>).\<close>

definition waits_for_line :: "nvm \<Rightarrow> nat \<Rightarrow> u64 \<Rightarrow> bool" where
  "waits_for_line nv line_id ppa =
    (\<not> pblk_addr_in_cache nv ppa \<and> \<not> pblk_ppa_empty nv ppa \<and> g_blk nv ppa = line_id)"

definition pblk_rb_gc_data_to_rrwb :: "nvm \<Rightarrow> u64 \<Rightarrow> nat \<Rightarrow> 'd pblk_rb list \<Rightarrow> 'd \<Rightarrow> pblk_w_ctx \<Rightarrow>
    (bool \<times> rb_event list \<times> 'd pblk_rb list) option" where
  "pblk_rb_gc_data_to_rrwb nv l2p_ppa gc_line rbs d w =
    (if pblk_ppa_empty nv l2p_ppa then Some (False, [], rbs)
     else if \<not> pblk_addr_in_cache nv l2p_ppa then Some (g_blk nv l2p_ppa = gc_line, [], rbs)
     else do {
       let m = unat (c_nrb nv l2p_ppa);
       rb \<leftarrow> aget rbs m;
       let pos = pblk_rb_wrap_pos rb (c_line nv l2p_ppa);
       e \<leftarrow> nth_entry rbs m pos;
       let f = w_flags (e_ctx e);
       let ppa = w_ppa (e_ctx e);
       if has f PBLK_WRITTEN_DATA \<or> has f PBLK_INVALIDATE_ENTRY then Some (False, [], rbs)
       else if has f PBLK_RESERVED_ENTRY then
         (if waits_for_line nv gc_line ppa
          then Some (False, [Map_invalidate ppa], put_entry rbs m pos (e\<lparr>e_data := d,
            e_ctx := (e_ctx e)\<lparr>w_ppa := ADDR_EMPTY nv, w_flags := f OR PBLK_WRITTEN_DATA\<rparr>\<rparr>))
          else Some (False, [], rbs))
       else if has f PBLK_WAITREAD_ENTRY then
         (if waits_for_line nv gc_line ppa
          then Some (False, [Map_invalidate ppa, Cache_map_set (w_lba w) (cacheline e)],
            put_entry rbs m pos (e\<lparr>e_data := d, e_ctx := (e_ctx e)\<lparr>w_ppa := ADDR_EMPTY nv,
              w_flags := (f OR PBLK_WRITTEN_DATA) AND NOT PBLK_WAITREAD_ENTRY\<rparr>\<rparr>))
          else Some (False, [], rbs))
       else if has f PBLK_SUBMITTED_ENTRY then Some (\<not> pblk_ppa_empty nv ppa \<and> g_blk nv ppa = gc_line, [], rbs)
       else Some (False, [], rbs)
     })"

section \<open>The ring as four counters\<close>

text \<open>\<open>ring_at rb k l s b m\<close>: the ring has \<open>2 ^ k\<close> entries, and its positions are the counters \<open>l\<close>
  (address update), \<open>s\<close> (synced), \<open>b\<close> (submitted) and \<open>m\<close> (reserved) modulo the size; the counters
  are ordered and less than one round apart.\<close>

definition at :: "nat \<Rightarrow> u32 \<Rightarrow> nat \<Rightarrow> bool" where
  "at k p x = (p = of_nat (x mod 2 ^ k))"

definition ring_at :: "'d pblk_rb \<Rightarrow> nat \<Rightarrow> nat \<Rightarrow> nat \<Rightarrow> nat \<Rightarrow> nat \<Rightarrow> bool" where
  "ring_at rb k l s b m \<longleftrightarrow> k < 32 \<and> nr_entries rb = 2 ^ k \<and> length (entries rb) = 2 ^ k \<and>
    at k (l2p_update rb) l \<and> at k (sync rb) s \<and> at k (subm rb) b \<and> at k (mem rb) m \<and>
    l \<le> s \<and> s \<le> b \<and> b \<le> m \<and> m < l + 2 ^ k"

text \<open>Arithmetic on the positions, read as integers modulo the size.\<close>

lemma uint_and_mask: "uint ((w :: u32) AND (2 ^ k - 1)) = uint w mod 2 ^ k"
proof -
  have "w AND (2 ^ k - 1) = take_bit k w"
    by (simp add: take_bit_eq_mask flip: mask_eq_exp_minus_1)
  then show ?thesis
    by (simp add: unsigned_take_bit_eq flip: take_bit_eq_mod)
qed

lemma uint_arith_mod:
  assumes "k \<le> 32"
  shows "uint (a + b :: u32) mod 2 ^ k = (uint a + uint b) mod 2 ^ k"
    and "uint (a - b :: u32) mod 2 ^ k = (uint a - uint b) mod 2 ^ k"
proof -
  have "(2 :: int) ^ k dvd 2 ^ LENGTH(32)"
    using assms by (intro le_imp_power_dvd) simp
  then show "uint (a + b) mod 2 ^ k = (uint a + uint b) mod 2 ^ k"
    and "uint (a - b) mod 2 ^ k = (uint a - uint b) mod 2 ^ k"
    unfolding uint_word_ariths by (simp_all only: mod_mod_cancel)
qed

lemma at_unat:
  assumes "k < 32"
  shows "at k p x \<longleftrightarrow> unat p = x mod 2 ^ k"
proof -
  have "(2 :: nat) ^ k \<le> 2 ^ 32"
    using assms by (intro power_increasing) simp_all
  then have "x mod 2 ^ k < 2 ^ 32"
    by (rule order_less_le_trans [rotated]) simp
  then have "unat (of_nat (x mod 2 ^ k) :: u32) = x mod 2 ^ k"
    by (simp add: unat_of_nat)
  then show ?thesis
    unfolding at_def by (auto simp: word_unat_eq_iff)
qed

lemma at_uint:
  assumes "k < 32"
  shows "at k p x \<longleftrightarrow> uint p = int x mod 2 ^ k"
proof -
  have "int (x mod 2 ^ k) = int x mod 2 ^ k" by (simp add: zmod_int)
  then show ?thesis
    unfolding at_unat [OF assms] uint_nat [of p] by (metis of_nat_eq_iff)
qed

lemma uint_ring_count:
  assumes "k < 32"
  shows "uint (pblk_rb_ring_count h t (2 ^ k)) = (uint h - uint t) mod 2 ^ k"
  using assms by (simp add: pblk_rb_ring_count_def uint_and_mask uint_arith_mod)

lemma count_at:
  assumes "k < 32" "at k h x" "at k t y" "y \<le> x" "x < y + 2 ^ k"
  shows "unat (pblk_rb_ring_count h t (2 ^ k)) = x - y"
proof -
  have "uint (pblk_rb_ring_count h t (2 ^ k)) = (uint h - uint t) mod 2 ^ k"
    using assms(1) by (rule uint_ring_count)
  also have "\<dots> = (int x - int y) mod 2 ^ k"
    using assms(1-3) by (simp add: at_uint mod_diff_eq)
  also have "\<dots> = int (x - y) mod 2 ^ k"
    using assms(4) by (simp add: of_nat_diff)
  finally have "at k (pblk_rb_ring_count h t (2 ^ k)) (x - y)"
    using assms(1) by (simp add: at_uint)
  then show ?thesis
    using assms by (simp add: at_unat)
qed

lemma advance_at:
  assumes "k < 32" "at k p x"
  shows "at k ((p + n) AND (2 ^ k - 1)) (x + unat n)"
proof -
  have "uint ((p + n) AND (2 ^ k - 1)) = (int x mod 2 ^ k + uint n) mod 2 ^ k"
    using assms by (simp add: uint_and_mask uint_arith_mod at_uint)
  then show ?thesis
    using assms(1) by (simp add: at_uint mod_simps)
qed

lemma space_at:
  assumes "k < 32" "at k h x" "at k t y" "y \<le> x" "x < y + 2 ^ k"
  shows "unat (pblk_rb_ring_space h t (2 ^ k)) = 2 ^ k - 1 - (x - y)"
proof -
  have "uint (pblk_rb_ring_space h t (2 ^ k)) = (uint t - uint (h + 1) mod 2 ^ k) mod 2 ^ k"
    unfolding pblk_rb_ring_space_def uint_ring_count [OF assms(1)] by (simp add: mod_diff_right_eq)
  also have "\<dots> = (int y mod 2 ^ k - (int x mod 2 ^ k + 1)) mod 2 ^ k"
    using assms(1-3) by (simp add: uint_arith_mod at_uint mod_diff_right_eq)
  also have "\<dots> = (int y - (int x + 1)) mod 2 ^ k"
    by (rule mod_diff_cong) (simp_all add: mod_add_left_eq)
  also have "\<dots> = (int y - (int x + 1) + 2 ^ k) mod 2 ^ k"
    by simp
  also have "int y - (int x + 1) + 2 ^ k = int (2 ^ k - 1 - (x - y))"
  proof -
    have "(2 ^ k - 1 - (x - y)) + (x + 1) = 2 ^ k + y" using assms(4,5) by linarith
    then have "int (2 ^ k - 1 - (x - y)) + int (x + 1) = int (2 ^ k + y)" by (simp only: flip: of_nat_add)
    then show ?thesis by simp
  qed
  finally have "at k (pblk_rb_ring_space h t (2 ^ k)) (2 ^ k - 1 - (x - y))"
    using assms(1) by (simp add: at_uint)
  then show ?thesis
    using assms(1) by (simp add: at_unat)
qed

lemma step_at: "k < 32 \<Longrightarrow> at k p x \<Longrightarrow> at k ((p + 1) AND (2 ^ k - 1)) (Suc x)"
  using advance_at [of k p x 1] by simp

lemma steps_at: "k < 32 \<Longrightarrow> at k p x \<Longrightarrow> at k (((\<lambda>s. (s + 1) AND (2 ^ k - 1)) ^^ n) p) (x + n)"
  by (induction n) (simp_all add: step_at)

text \<open>The entry of an absolute position.\<close>

definition ent :: "'d pblk_rb \<Rightarrow> nat \<Rightarrow> nat \<Rightarrow> 'd pblk_rb_entry" where
  "ent rb k x = entries rb ! (x mod 2 ^ k)"

lemma mod_eq_near:
  assumes "x mod n = y mod n" "a \<le> x" "x < a + n" "a \<le> y" "y < a + n"
  shows "x = (y :: nat)"
proof (rule ccontr)
  have dvd: "n dvd q - p" if "p mod n = q mod n" "p \<le> q" for p q
    using that mod_eq_dvd_iff_nat [of p q n] by simp
  assume "x \<noteq> y"
  then consider "x < y" | "y < x" by linarith
  then show False
  proof cases
    case 1
    then show False using dvd [OF assms(1)] nat_dvd_not_less [of "y - x" n] assms by simp
  next
    case 2
    then show False using dvd [OF assms(1) [symmetric]] nat_dvd_not_less [of "x - y" n] assms by simp
  qed
qed

text \<open>A function applied to the entries of the positions \<open>x\<close> to \<open>x + n - 1\<close>.\<close>

definition covers :: "nat \<Rightarrow> nat \<Rightarrow> nat \<Rightarrow> nat \<Rightarrow> bool" where
  "covers k x n j = (\<exists>y. x \<le> y \<and> y < x + n \<and> y mod 2 ^ k = j)"

definition upd :: "nat \<Rightarrow> ('e \<Rightarrow> 'e) \<Rightarrow> nat \<Rightarrow> nat \<Rightarrow> 'e list \<Rightarrow> 'e list" where
  "upd k f x n es = map (\<lambda>j. if covers k x n j then f (es ! j) else es ! j) [0..<length es]"

lemma covers_0 [simp]: "\<not> covers k x 0 j"
  by (auto simp: covers_def)

lemma covers_in: "x \<le> z \<Longrightarrow> z < x + n \<Longrightarrow> covers k x n (z mod 2 ^ k)"
  by (auto simp: covers_def)

lemma covers_out: "x + n \<le> z \<Longrightarrow> z < x + 2 ^ k \<Longrightarrow> \<not> covers k x n (z mod 2 ^ k)"
  unfolding covers_def using mod_eq_near [of _ "2 ^ k" z x] by fastforce

lemma covers_Suc: "covers k x (Suc n) j \<longleftrightarrow> x mod 2 ^ k = j \<or> covers k (Suc x) n j"
proof
  assume "covers k x (Suc n) j"
  then obtain y where y: "x \<le> y" "y < x + Suc n" "y mod 2 ^ k = j" by (auto simp: covers_def)
  show "x mod 2 ^ k = j \<or> covers k (Suc x) n j"
  proof (cases "y = x")
    case False
    with y have "Suc x \<le> y" "y < Suc x + n" by simp_all
    with y(3) show ?thesis unfolding covers_def by blast
  qed (use y in simp)
next
  assume "x mod 2 ^ k = j \<or> covers k (Suc x) n j"
  then show "covers k x (Suc n) j"
    unfolding covers_def by (metis Suc_leD add_Suc_right add_Suc_shift less_add_Suc1 order_refl)
qed

lemma length_upd [simp]: "length (upd k f x n es) = length es"
  by (simp add: upd_def)

lemma upd_0 [simp]: "upd k f x 0 es = es"
  by (rule nth_equalityI) (simp_all add: upd_def)

lemma upd_in:
  assumes "length es = 2 ^ k" "x \<le> z" "z < x + n"
  shows "upd k f x n es ! (z mod 2 ^ k) = f (es ! (z mod 2 ^ k))"
  using assms by (simp add: upd_def covers_in)

lemma upd_out:
  assumes "length es = 2 ^ k" "x + n \<le> z" "z < x + 2 ^ k"
  shows "upd k f x n es ! (z mod 2 ^ k) = es ! (z mod 2 ^ k)"
  using assms by (simp add: upd_def covers_out)

lemma upd_Suc:
  assumes "length es = 2 ^ k" "n < 2 ^ k"
  shows "upd k f x (Suc n) es = upd k f (Suc x) n (es[x mod 2 ^ k := f (es ! (x mod 2 ^ k))])"
proof (rule nth_equalityI)
  fix j assume "j < length (upd k f x (Suc n) es)"
  then have j: "j < 2 ^ k" using assms by simp
  have "\<not> covers k (Suc x) n (x mod 2 ^ k)"
    using covers_out [of "Suc x" n "x + 2 ^ k" k] assms(2) by simp
  then show "upd k f x (Suc n) es ! j = upd k f (Suc x) n (es[x mod 2 ^ k := f (es ! (x mod 2 ^ k))]) ! j"
    using j assms(1) by (cases "x mod 2 ^ k = j") (simp_all add: upd_def covers_Suc nth_list_update)
qed (simp add: assms)


section \<open>Loops over the ring\<close>

text \<open>What the address update does to an entry, and the calls it makes for it.\<close>

definition clean_entry :: "nvm \<Rightarrow> 'd pblk_rb_entry \<Rightarrow> 'd pblk_rb_entry" where
  "clean_entry nv e = e\<lparr>e_ctx := (e_ctx e)\<lparr>w_flags := PBLK_WRITABLE_ENTRY, w_submit_flags := PBLK_WRITABLE_ENTRY,
      w_ppa := ADDR_EMPTY nv, w_lba := ADDR_EMPTY nv\<rparr>\<rparr>"

definition l2p_events :: "'d pblk_rb_entry \<Rightarrow> rb_event list" where
  "l2p_events e = [Update_map_dev (w_lba (e_ctx e)) (w_ppa (e_ctx e)) (cacheline e), Line_put (w_ppa (e_ctx e))]"

definition submitted :: "'d pblk_rb_entry \<Rightarrow> bool" where
  "submitted e = has (w_submit_flags (e_ctx e)) PBLK_SUBMITTED_ENTRY"

definition is_user :: "'d pblk_rb_entry \<Rightarrow> bool" where
  "is_user e = has (w_flags (e_ctx e)) PBLK_IOTYPE_USER"

definition is_gc :: "'d pblk_rb_entry \<Rightarrow> bool" where
  "is_gc e = (\<not> is_user e \<and> has (w_flags (e_ctx e)) PBLK_IOTYPE_GC)"

definition ents :: "'d pblk_rb \<Rightarrow> nat \<Rightarrow> nat \<Rightarrow> nat \<Rightarrow> 'd pblk_rb_entry list" where
  "ents rb k x n = map (ent rb k) [x..<x + n]"

lemma ents_Suc: "ents rb k x (Suc n) = ent rb k x # ents rb k (Suc x) n"
  by (simp add: ents_def upt_conv_Cons del: upt_Suc)

lemma ents_0 [simp]: "ents rb k x 0 = []"
  by (simp add: ents_def)

text \<open>Changing the entry of a position leaves the entries of the next \<open>n\<close> positions.\<close>

lemma ent_set_entry:
  assumes "length (entries rb) = 2 ^ k" "k < 32" "at k pos x"
  shows "ent (set_entry rb pos e) k y = (if y mod 2 ^ k = x mod 2 ^ k then e else ent rb k y)"
  using assms by (simp add: ent_def set_entry_def at_unat nth_list_update)

lemma ents_set_entry:
  assumes "length (entries rb) = 2 ^ k" "k < 32" "at k pos x" "n < 2 ^ k"
  shows "ents (set_entry rb pos e) k (Suc x) n = ents rb k (Suc x) n"
proof -
  have ne: "y mod 2 ^ k \<noteq> x mod 2 ^ k" if "Suc x \<le> y" "y < Suc x + n" for y
    using mod_eq_near [of y "2 ^ k" x x] that assms(4) by auto
  show ?thesis
    unfolding ents_def
  proof (rule list.map_cong0)
    fix y assume "y \<in> set [Suc x..<Suc x + n]"
    then have "Suc x \<le> y" "y < Suc x + n" by (simp_all only: set_upt atLeastLessThan_iff)
    from ne [OF this] show "ent (set_entry rb pos e) k y = ent rb k y"
      unfolding ent_set_entry [OF assms(1-3)] by (rule if_not_P)
  qed
qed

lemma l2p_loop_ok:
  assumes "k < 32" "nr_entries rb = 2 ^ k" "length (entries rb) = 2 ^ k" "at k pos x" "n \<le> 2 ^ k"
    and "\<And>e. e \<in> set (ents rb k x n) \<Longrightarrow> submitted e"
  shows "\<exists>pos'. at k pos' (x + n) \<and> l2p_loop nv n rb pos u g = Some (concat (map l2p_events (ents rb k x n)),
      rb\<lparr>entries := upd k (clean_entry nv) x n (entries rb)\<rparr>, pos',
      u + length (filter is_user (ents rb k x n)), g + length (filter is_gc (ents rb k x n)))"
  using assms
proof (induction n arbitrary: rb pos x u g)
  case 0
  then show ?case by auto
next
  case (Suc n)
  let ?e = "ent rb k x" and ?rb = "set_entry rb pos (clean_entry nv (ent rb k x))"
  have e: "aget (entries rb) (unat pos) = Some ?e"
    using Suc.prems by (simp add: ent_def at_unat)
  have "submitted ?e" using Suc.prems(6) by (simp add: ents_Suc)
  then have clean: "clean_wctx nv (e_ctx ?e) = Some (e_ctx (clean_entry nv ?e))" "?e\<lparr>e_ctx := e_ctx (clean_entry nv ?e)\<rparr> = clean_entry nv ?e"
    by (simp_all add: clean_wctx_def clean_entry_def submitted_def)
  have same: "ents ?rb k (Suc x) n = ents rb k (Suc x) n"
    using Suc.prems by (intro ents_set_entry) simp_all
  have fields: "nr_entries ?rb = 2 ^ k" "length (entries ?rb) = 2 ^ k" "n \<le> 2 ^ k"
    using Suc.prems by (simp_all add: set_entry_def)
  have sub: "submitted a" if "a \<in> set (ents ?rb k (Suc x) n)" for a
    using that Suc.prems(6) unfolding same by (simp add: ents_Suc)
  have upd: "upd k (clean_entry nv) x (Suc n) (entries rb) = upd k (clean_entry nv) (Suc x) n (entries ?rb)"
    using Suc.prems by (simp add: upd_Suc set_entry_def at_unat ent_def)
  have pos: "at k ((pos + 1) AND (nr_entries rb - 1)) (Suc x)"
    using Suc.prems by (simp add: step_at)
  have rb: "?rb\<lparr>entries := es\<rparr> = rb\<lparr>entries := es\<rparr>" for es by (simp add: set_entry_def)
  obtain pos' where pos': "at k pos' (Suc x + n)"
    and loop: "l2p_loop nv n ?rb ((pos + 1) AND (nr_entries rb - 1))
        (if is_user ?e then Suc u else u) (if is_gc ?e then Suc g else g) =
      Some (concat (map l2p_events (ents rb k (Suc x) n)), rb\<lparr>entries := upd k (clean_entry nv) x (Suc n) (entries rb)\<rparr>, pos',
      (if is_user ?e then Suc u else u) + length (filter is_user (ents rb k (Suc x) n)),
      (if is_gc ?e then Suc g else g) + length (filter is_gc (ents rb k (Suc x) n)))"
    using Suc.IH [OF Suc.prems(1) fields(1,2) pos fields(3) sub] unfolding same rb upd by blast
  show ?case
  proof (intro exI conjI)
    show "at k pos' (x + Suc n)" using pos' by simp
    show "l2p_loop nv (Suc n) rb pos u g = Some (concat (map l2p_events (ents rb k x (Suc n))),
      rb\<lparr>entries := upd k (clean_entry nv) x (Suc n) (entries rb)\<rparr>, pos',
      u + length (filter is_user (ents rb k x (Suc n))), g + length (filter is_gc (ents rb k x (Suc n))))"
      using loop
      by (simp add: e clean Let_def ents_Suc l2p_events_def is_user_def is_gc_def)
  qed
qed


text \<open>What handing an entry to the device does to it; the pointers of the ring stay.\<close>

definition sub_entry :: "'d pblk_rb_entry \<Rightarrow> 'd pblk_rb_entry" where
  "sub_entry e = e\<lparr>e_ctx := (e_ctx e)\<lparr>w_flags := submit_flags_of
      (let f = w_flags (e_ctx e) AND NOT PBLK_RESERVED_ENTRY in if has f PBLK_FLUSH_ENTRY then f AND NOT PBLK_FLUSH_ENTRY else f),
      w_submit_flags := PBLK_SUBMITTED_ENTRY\<rparr>\<rparr>"

definition readable :: "'d pblk_rb_entry \<Rightarrow> bool" where
  "readable e = (has (w_flags (e_ctx e)) PBLK_WRITTEN_DATA \<or> has (w_flags (e_ctx e)) PBLK_INVALIDATE_ENTRY)"

definition same_ptrs :: "'d pblk_rb \<Rightarrow> 'd pblk_rb \<Rightarrow> bool" where
  "same_ptrs rb rb' \<longleftrightarrow> mem rb' = mem rb \<and> subm rb' = subm rb \<and> sync rb' = sync rb \<and> l2p_update rb' = l2p_update rb \<and>
    nr_entries rb' = nr_entries rb \<and> nr_user rb' = nr_user rb \<and> rb_index rb' = rb_index rb"

lemma submit_entry_entries: "entries (submit_entry rb pos e) = (entries rb)[unat pos := sub_entry e]"
  by (simp add: submit_entry_def sub_entry_def set_entry_def Let_def)

lemma submit_entry_ptrs: "same_ptrs rb (submit_entry rb pos e)"
  by (simp add: submit_entry_def same_ptrs_def set_entry_def Let_def)

lemma same_ptrs_trans: "same_ptrs a b \<Longrightarrow> same_ptrs b c \<Longrightarrow> same_ptrs a c"
  by (simp add: same_ptrs_def)

lemma ents_cong: "entries rb' = entries rb \<Longrightarrow> ents rb' k x n = ents rb k x n"
  by (simp add: ents_def ent_def)

lemma ents_submit_entry:
  assumes "length (entries rb) = 2 ^ k" "k < 32" "at k pos x" "n < 2 ^ k"
  shows "ents (submit_entry rb pos e) k (Suc x) n = ents rb k (Suc x) n"
proof -
  have "ents (submit_entry rb pos e) k (Suc x) n = ents (set_entry rb pos (sub_entry e)) k (Suc x) n"
    by (rule ents_cong) (simp add: submit_entry_entries set_entry_def)
  also have "\<dots> = ents rb k (Suc x) n" by (rule ents_set_entry [OF assms])
  finally show ?thesis .
qed

lemma read_loop_ok:
  assumes "k < 32" "nr_entries rb = 2 ^ k" "length (entries rb) = 2 ^ k" "at k pos x" "n \<le> 2 ^ k"
    and "\<And>e. e \<in> set (ents rb k x n) \<Longrightarrow> readable e" and add: "\<And>j. i \<le> j \<Longrightarrow> j < i + n \<Longrightarrow> add j"
  shows "\<exists>rb'. read_loop add i n pos rb = Some (True, map e_data (ents rb k x n), rb') \<and>
      entries rb' = upd k sub_entry x n (entries rb) \<and> same_ptrs rb rb'"
  using assms
proof (induction n arbitrary: rb pos x i)
  case 0
  then show ?case by (simp add: same_ptrs_def)
next
  case (Suc n)
  let ?e = "ent rb k x" and ?rb = "submit_entry rb pos (ent rb k x)"
  have e: "aget (entries rb) (unat pos) = Some ?e"
    using Suc.prems by (simp add: ent_def at_unat)
  have r: "readable ?e" using Suc.prems(6) by (simp add: ents_Suc)
  have a: "add i" using Suc.prems(7) by simp
  have same: "ents ?rb k (Suc x) n = ents rb k (Suc x) n"
    using Suc.prems by (intro ents_submit_entry) simp_all
  have ptrs: "same_ptrs rb ?rb" by (rule submit_entry_ptrs)
  have fields: "nr_entries ?rb = 2 ^ k" "length (entries ?rb) = 2 ^ k" "n \<le> 2 ^ k"
    using Suc.prems ptrs by (simp_all add: submit_entry_entries same_ptrs_def)
  have rd: "readable b" if "b \<in> set (ents ?rb k (Suc x) n)" for b
    using that Suc.prems(6) unfolding same by (simp add: ents_Suc)
  have ad: "add j" if "Suc i \<le> j" "j < Suc i + n" for j
    using that Suc.prems(7) by simp
  have upd: "upd k sub_entry x (Suc n) (entries rb) = upd k sub_entry (Suc x) n (entries ?rb)"
    using Suc.prems by (simp add: upd_Suc submit_entry_entries at_unat ent_def)
  have pos: "at k ((pos + 1) AND (nr_entries rb - 1)) (Suc x)"
    using Suc.prems by (simp add: step_at)
  obtain rb' where loop: "read_loop add (Suc i) n ((pos + 1) AND (nr_entries rb - 1)) ?rb =
      Some (True, map e_data (ents rb k (Suc x) n), rb')"
    and rb': "entries rb' = upd k sub_entry x (Suc n) (entries rb)" "same_ptrs ?rb rb'"
    using Suc.IH [OF Suc.prems(1) fields(1,2) pos fields(3) rd ad] unfolding same upd by blast
  have "read_loop add i (Suc n) pos rb = Some (True, map e_data (ents rb k x (Suc n)), rb')"
    using r a loop by (simp add: e readable_def ents_Suc)
  then show ?case
    using rb'(1) same_ptrs_trans [OF ptrs rb'(2)] by blast
qed

section \<open>The invariant of a ring\<close>

text \<open>The positions as counters, the entries between the address update and the submission have
  been handed to the device, and the free entries are writable.\<close>

definition ring_ok :: "'d pblk_rb \<Rightarrow> nat \<Rightarrow> nat \<Rightarrow> nat \<Rightarrow> nat \<Rightarrow> nat \<Rightarrow> bool" where
  "ring_ok rb k l s b m \<longleftrightarrow> ring_at rb k l s b m \<and>
    (\<forall>x. l \<le> x \<and> x < b \<longrightarrow> submitted (ent rb k x)) \<and>
    (\<forall>x. m \<le> x \<and> x < l + 2 ^ k \<longrightarrow> w_flags (e_ctx (ent rb k x)) = PBLK_WRITABLE_ENTRY)"

lemma ring_okD:
  assumes "ring_ok rb k l s b m"
  shows "k < 32" "nr_entries rb = 2 ^ k" "length (entries rb) = 2 ^ k" "at k (l2p_update rb) l" "at k (sync rb) s"
    "at k (subm rb) b" "at k (mem rb) m" "l \<le> s" "s \<le> b" "b \<le> m" "m < l + 2 ^ k"
    "\<And>x. l \<le> x \<Longrightarrow> x < b \<Longrightarrow> submitted (ent rb k x)"
    "\<And>x. m \<le> x \<Longrightarrow> x < l + 2 ^ k \<Longrightarrow> w_flags (e_ctx (ent rb k x)) = PBLK_WRITABLE_ENTRY"
  using assms unfolding ring_ok_def ring_at_def by blast+

lemma ring_okI:
  assumes "k < 32" "nr_entries rb = 2 ^ k" "length (entries rb) = 2 ^ k" "at k (l2p_update rb) l" "at k (sync rb) s"
    "at k (subm rb) b" "at k (mem rb) m" "l \<le> s" "s \<le> b" "b \<le> m" "m < l + 2 ^ k"
    "\<And>x. l \<le> x \<Longrightarrow> x < b \<Longrightarrow> submitted (ent rb k x)"
    "\<And>x. m \<le> x \<Longrightarrow> x < l + 2 ^ k \<Longrightarrow> w_flags (e_ctx (ent rb k x)) = PBLK_WRITABLE_ENTRY"
  shows "ring_ok rb k l s b m"
  using assms unfolding ring_ok_def ring_at_def by blast


lemma ent_upd_in: "length (entries rb) = 2 ^ k \<Longrightarrow> x \<le> z \<Longrightarrow> z < x + n \<Longrightarrow> entries rb' = upd k f x n (entries rb) \<Longrightarrow>
    ent rb' k z = f (ent rb k z)"
  by (simp add: ent_def upd_in)

lemma ent_upd_out: "length (entries rb) = 2 ^ k \<Longrightarrow> x + n \<le> z \<Longrightarrow> z < x + 2 ^ k \<Longrightarrow> entries rb' = upd k f x n (entries rb) \<Longrightarrow>
    ent rb' k z = ent rb k z"
  by (simp add: ent_def upd_out)

lemma ent_round: "ent rb k (x + 2 ^ k) = ent rb k x"
  by (simp add: ent_def)

lemma clean_entry_flags [simp]: "w_flags (e_ctx (clean_entry nv e)) = PBLK_WRITABLE_ENTRY"
  by (simp add: clean_entry_def)

lemma sub_entry_submitted [simp]: "submitted (sub_entry e)"
  by (simp add: submitted_def sub_entry_def has_def PBLK_SUBMITTED_ENTRY_def)

lemma ring_ok_clean:
  assumes ok: "ring_ok rb k l s b m" and n: "l + n \<le> s" and p: "at k p (l + n)"
    and rb': "rb' = rb\<lparr>entries := upd k (clean_entry nv) l n (entries rb), l2p_update := p\<rparr>"
  shows "ring_ok rb' k (l + n) s b m"
proof (rule ring_okI)
  note D = ring_okD [OF ok]
  have es: "entries rb' = upd k (clean_entry nv) l n (entries rb)" by (simp add: rb')
  fix x
  show "submitted (ent rb' k x)" if "l + n \<le> x" "x < b"
    using ent_upd_out [OF D(3) that(1) _ es] that D by simp
  show "w_flags (e_ctx (ent rb' k x)) = PBLK_WRITABLE_ENTRY" if x: "m \<le> x" "x < l + n + 2 ^ k"
  proof (cases "x < l + 2 ^ k")
    case True
    then have "ent rb' k x = ent rb k x"
      using ent_upd_out [OF D(3) _ True es] x n D(9,10) by simp
    then show ?thesis using D(13) [OF x(1) True] by simp
  next
    case False
    then obtain y where y: "x = y + 2 ^ k" "l \<le> y" "y < l + n"
      using x(2) that [of "x - 2 ^ k"] by simp
    then have "ent rb' k x = clean_entry nv (ent rb k y)"
      using ent_upd_in [OF D(3) y(2,3) es] by (simp add: ent_round)
    then show ?thesis by simp
  qed
qed (use ring_okD [OF ok] n p in \<open>simp_all add: rb'\<close>)

lemma update_l2p_n_ok:
  assumes ok: "ring_ok rb k l s b m" and n: "l + unat n \<le> s"
  shows "\<exists>p. at k p (l + unat n) \<and> pblk_rb_update_l2p_n nv rb r n =
    Some (concat (map l2p_events (ents rb k l (unat n))),
      rb\<lparr>entries := upd k (clean_entry nv) l (unat n) (entries rb), l2p_update := p\<rparr>,
      pblk_rl_out r (int (length (filter is_user (ents rb k l (unat n))))) (int (length (filter is_gc (ents rb k l (unat n))))))"
proof -
  note D = ring_okD [OF ok]
  have le: "unat n \<le> 2 ^ k" using n D by linarith
  have sub: "submitted e" if "e \<in> set (ents rb k l (unat n))" for e
  proof -
    from that obtain x where "l \<le> x" "x < l + unat n" "e = ent rb k x"
      unfolding ents_def by (auto simp only: set_map set_upt atLeastLessThan_iff image_iff)
    then show ?thesis using D(12) [of x] n D(9) by simp
  qed
  show ?thesis
    using l2p_loop_ok [OF D(1-4) le sub, where nv = nv and u = 0 and g = 0]
    by (auto simp: pblk_rb_update_l2p_n_def)
qed


text \<open>How far the address update must go to make room for \<open>n\<close> entries.\<close>

definition overwritten :: "nat \<Rightarrow> nat \<Rightarrow> nat \<Rightarrow> nat \<Rightarrow> nat" where
  "overwritten k l m n = (m + n + 1) - (l + 2 ^ k)"

text \<open>The grant rule: \<open>n\<close> entries are granted exactly when they fit between \<open>sync\<close> and \<open>mem\<close> with one
  entry left free, and then only synced entries are overwritten, after their addresses have been
  written to the map.\<close>

lemma may_write_at_refused:
  assumes "ring_ok rb k l s b m" "m + unat n \<ge> s + 2 ^ k"
  shows "pblk_rb_may_write_at nv rb r n = Some (None, [], rb, r)"
proof -
  note D = ring_okD [OF assms(1)]
  have "unat (pblk_rb_ring_space (mem rb) (sync rb) (nr_entries rb)) = 2 ^ k - 1 - (m - s)"
    unfolding D(2) using D by (intro space_at) simp_all
  then have "pblk_rb_ring_space (mem rb) (sync rb) (nr_entries rb) < n"
    unfolding word_less_nat_alt using assms(2) D(8-11) by linarith
  then show ?thesis by (simp add: pblk_rb_may_write_at_def)
qed

lemma may_write_at_granted:
  assumes ok: "ring_ok rb k l s b m" and fits: "m + unat n < s + 2 ^ k"
  defines "c \<equiv> overwritten k l m (unat n)"
  shows "\<exists>p. at k p (l + c) \<and> pblk_rb_may_write_at nv rb r n =
    Some (Some (mem rb), concat (map l2p_events (ents rb k l c)),
      rb\<lparr>entries := upd k (clean_entry nv) l c (entries rb), l2p_update := p\<rparr>,
      pblk_rl_out r (int (length (filter is_user (ents rb k l c)))) (int (length (filter is_gc (ents rb k l c)))))"
proof -
  note D = ring_okD [OF ok]
  have "unat (pblk_rb_ring_space (mem rb) (sync rb) (nr_entries rb)) = 2 ^ k - 1 - (m - s)"
    unfolding D(2) using D by (intro space_at) simp_all
  then have room: "\<not> pblk_rb_ring_space (mem rb) (sync rb) (nr_entries rb) < n"
    unfolding word_less_nat_alt using fits D(8-11) by linarith
  let ?sp = "pblk_rb_ring_space (mem rb) (l2p_update rb) (nr_entries rb)"
  have sp: "unat ?sp = 2 ^ k - 1 - (m - l)"
    unfolding D(2) using D by (intro space_at) simp_all
  show ?thesis
  proof (cases "?sp > n")
    case True
    then have "c = 0"
      unfolding word_less_nat_alt sp c_def overwritten_def using D(8-11) by linarith
    then show ?thesis
      using True room D(4)
      by (intro exI [of _ "l2p_update rb"]) (simp add: pblk_rb_may_write_at_def pblk_rb_update_l2p_def pblk_rl_out_def)
  next
    case False
    then have "unat (n - ?sp) = unat n - unat ?sp"
      by (intro unat_sub) (simp add: not_less)
    then have c: "unat (n - ?sp) = c"
      unfolding sp c_def overwritten_def using D(8-11) by linarith
    have "l + unat (n - ?sp) \<le> s"
      unfolding c c_def overwritten_def using fits D(8-11) by linarith
    from update_l2p_n_ok [OF ok this, unfolded c, of nv r]
    show ?thesis
      using False room by (auto simp: pblk_rb_may_write_at_def pblk_rb_update_l2p_def Let_def)
  qed
qed

text \<open>The ring after a grant, and the entries that were granted.\<close>

lemma ring_ok_grant:
  assumes ok: "ring_ok rb k l s b m" and fits: "m + unat n < s + 2 ^ k" and p: "at k p (l + c)"
    and c: "c = overwritten k l m (unat n)"
    and rb': "entries rb' = upd k (clean_entry nv) l c (entries rb)" "l2p_update rb' = p"
      "mem rb' = (mem rb + n) AND (nr_entries rb - 1)" "nr_entries rb' = nr_entries rb" "subm rb' = subm rb" "sync rb' = sync rb"
  shows "ring_ok rb' k (l + c) s b (m + unat n)"
    and "\<And>x. m \<le> x \<Longrightarrow> x < m + unat n \<Longrightarrow> w_flags (e_ctx (ent rb' k x)) = PBLK_WRITABLE_ENTRY"
proof -
  note D = ring_okD [OF ok]
  let ?rb = "rb\<lparr>entries := upd k (clean_entry nv) l c (entries rb), l2p_update := p\<rparr>"
  have cs: "l + c \<le> s" "m + unat n < l + c + 2 ^ k"
    unfolding c overwritten_def using fits D(8-11) by linarith+
  note E = ring_okD [OF ring_ok_clean [OF ok cs(1) p refl, of nv]]
  have ent: "ent rb' k x = ent ?rb k x" for x by (simp add: ent_def rb')
  have m: "at k (mem rb') (m + unat n)"
    unfolding rb' D(2) by (rule advance_at [OF D(1,7)])
  show "ring_ok rb' k (l + c) s b (m + unat n)"
  proof (rule ring_okI)
    fix x
    show "submitted (ent rb' k x)" if "l + c \<le> x" "x < b"
      unfolding ent using E(12) that .
    show "w_flags (e_ctx (ent rb' k x)) = PBLK_WRITABLE_ENTRY" if "m + unat n \<le> x" "x < l + c + 2 ^ k"
      unfolding ent using E(13) [of x] that by simp
  qed (use D E m cs p in \<open>simp_all add: rb'\<close>)
  show "w_flags (e_ctx (ent rb' k x)) = PBLK_WRITABLE_ENTRY" if "m \<le> x" "x < m + unat n" for x
    unfolding ent using E(13) [of x] that cs(2) by simp
qed


section \<open>A new ring\<close>

definition fresh_entry :: "nvm \<Rightarrow> u64 \<Rightarrow> u32 \<Rightarrow> nat \<Rightarrow> 'd pblk_rb_entry \<Rightarrow> bool" where
  "fresh_entry nv junk nrb j e \<longleftrightarrow> w_flags (e_ctx e) = PBLK_WRITABLE_ENTRY \<and>
    cacheline e = pblk_cacheline_to_addr nv junk (of_nat j) nrb"

lemma init_entries_ok:
  assumes "i + n \<le> length es" "\<And>j. j < i \<Longrightarrow> fresh_entry nv junk nrb j (es ! j)"
  shows "\<exists>es'. init_entries nv junk nrb fresh i n b es = Some es' \<and> length es' = length es \<and>
    (\<forall>j < i + n. fresh_entry nv junk nrb j (es' ! j))"
  using assms
proof (induction n arbitrary: i b es)
  case 0
  then show ?case by simp
next
  case (Suc n)
  let ?e = "(es ! i)\<lparr>e_data := fresh i, cacheline := pblk_cacheline_to_addr nv junk (of_nat i) nrb,
    e_ctx := (e_ctx (es ! i))\<lparr>w_flags := PBLK_WRITABLE_ENTRY, w_bios := (if b then [] else w_bios (e_ctx (es ! i)))\<rparr>\<rparr>"
  have i: "i < length es" using Suc.prems(1) by simp
  have "Suc i + n \<le> length (es[i := ?e])" using Suc.prems(1) by simp
  moreover have "fresh_entry nv junk nrb j (es[i := ?e] ! j)" if "j < Suc i" for j
    using that i Suc.prems(2) [of j] by (cases "j = i") (simp_all add: fresh_entry_def)
  ultimately obtain es' where "init_entries nv junk nrb fresh (Suc i) n True (es[i := ?e]) = Some es'"
    "length es' = length es" "\<forall>j < Suc i + n. fresh_entry nv junk nrb j (es' ! j)"
    using Suc.IH [of "Suc i" "es[i := ?e]" True] by auto
  then show ?case using i by simp
qed

lemma init_sets_ok:
  assumes "i + length as * 2 ^ order \<le> length es" "\<And>j. j < i \<Longrightarrow> fresh_entry nv junk nrb j (es ! j)"
    and "\<And>a. a \<in> set as \<Longrightarrow> a = Alloc_ok"
  shows "\<exists>es'. init_sets nv junk nrb fresh order i as es = Some (Inr es') \<and> length es' = length es \<and>
    (\<forall>j < i + length as * 2 ^ order. fresh_entry nv junk nrb j (es' ! j))"
  using assms
proof (induction as arbitrary: i es)
  case Nil
  then show ?case by simp
next
  case (Cons a as)
  have "i + 2 ^ order \<le> length es" using Cons.prems(1) by simp
  from init_entries_ok [OF this Cons.prems(2), of fresh False]
  obtain es1 where es1: "init_entries nv junk nrb fresh i (2 ^ order) False es = Some es1" "length es1 = length es"
    "\<forall>j < i + 2 ^ order. fresh_entry nv junk nrb j (es1 ! j)" by auto
  have "i + 2 ^ order + length as * 2 ^ order \<le> length es1"
    using Cons.prems(1) es1(2) by simp
  from Cons.IH [OF this] es1 Cons.prems(3)
  obtain es' where "init_sets nv junk nrb fresh order (i + 2 ^ order) as es1 = Some (Inr es')" "length es' = length es"
    "\<forall>j < i + 2 ^ order + length as * 2 ^ order. fresh_entry nv junk nrb j (es' ! j)" by auto
  then show ?case using es1(1) Cons.prems(3) [of a] by (simp add: add.assoc)
qed

lemma set_iter_order: "set_iter mo p * 2 ^ set_order mo p = 2 ^ p"
  by (simp add: set_iter_def set_order_def flip: power_add)

lemma push_bit_one: "push_bit p 1 = (2 :: 'a::len word) ^ p"
  by (simp add: push_bit_eq_mult)

lemma pblk_rb_init_ok:
  assumes "p < 32" "length base = 2 ^ p" "\<And>i. alloc i = Alloc_ok"
  shows "\<exists>rb'. pblk_rb_init nv junk mo alloc fresh bpl rl ctxs rb nrb base p sz =
      Some (Inr (rb', pblk_rl_init bpl rl (sint (2 ^ p :: u32)) ctxs)) \<and> ring_ok rb' p 0 0 0 0 \<and>
      sync_point rb' = EMPTY_ENTRY \<and> nr_user rb' = 0 \<and>
      (\<forall>j < 2 ^ p. cacheline (entries rb' ! j) = pblk_cacheline_to_addr nv junk (of_nat j) nrb)"
proof -
  have all: "a = Alloc_ok" if "a \<in> set (map alloc [0..<set_iter mo p])" for a
    using that assms(3) by auto
  obtain es where es: "init_sets nv junk nrb fresh (set_order mo p) 0 (map alloc [0..<set_iter mo p]) base = Some (Inr es)"
    "length es = 2 ^ p" "\<forall>j < 2 ^ p. fresh_entry nv junk nrb j (es ! j)"
    using init_sets_ok [of 0 "map alloc [0..<set_iter mo p]" "set_order mo p" base nv junk nrb fresh] all
    by (auto simp: set_iter_order assms(2))
  let ?rb = "rb\<lparr>rb_index := ucast nrb, seg_size := push_bit sz 1, nr_entries := push_bit p 1,
      mem := 0, subm := 0, sync := 0, l2p_update := 0, sync_point := EMPTY_ENTRY, submit_point := 0, nr_user := 0,
      entries := es, inflight_sync_point := 0\<rparr>"
  have "ring_ok ?rb p 0 0 0 0"
    by (rule ring_okI) (use assms(1) es in \<open>simp_all add: at_def ent_def fresh_entry_def push_bit_one\<close>)
  moreover have "pblk_rb_init nv junk mo alloc fresh bpl rl ctxs rb nrb base p sz =
      Some (Inr (?rb, pblk_rl_init bpl rl (sint (2 ^ p :: u32)) ctxs))"
    using es(1) by (simp add: pblk_rb_init_def push_bit_one)
  ultimately show ?thesis using es by (auto simp: fresh_entry_def)
qed

section \<open>Properties\<close>

text \<open>Admission to the write buffer.  A request of \<open>n\<close> entries that the rate limiter lets pass is
  granted exactly when the entries between \<open>sync\<close> and \<open>mem\<close> and the new ones leave one entry free,
  otherwise it is put back; the grant is the position \<open>mem\<close>, \<open>mem\<close> moves by \<open>n\<close>, and the entries
  granted are writable.  The entries that the new ones will overwrite are the oldest ones, all of
  them already on the media; the map is given the address of each, in the order of the ring, and
  the limiter is credited with them.\<close>

theorem may_write_user_grants:
  assumes ok: "ring_ok rb k l s b m" and rate: "pblk_rl_user_may_insert rl r (sint n) = NVM_IO_OK"
  shows "if m + unat n < s + 2 ^ k
    then \<exists>rb' c. pblk_rb_may_write_user nv rl rb r n = Some (NVM_IO_DONE, Some (mem rb), concat (map l2p_events (ents rb k l c)), rb',
        pblk_rl_out r (int (length (filter is_user (ents rb k l c)))) (int (length (filter is_gc (ents rb k l c))))) \<and>
      l + c = max l (m + unat n + 1 - 2 ^ k) \<and> l + c \<le> s \<and> ring_ok rb' k (l + c) s b (m + unat n) \<and>
      nr_user rb' = nr_user rb + n \<and>
      (\<forall>x. m \<le> x \<and> x < m + unat n \<longrightarrow> w_flags (e_ctx (ent rb' k x)) = PBLK_WRITABLE_ENTRY)
    else pblk_rb_may_write_user nv rl rb r n = Some (NVM_IO_REQUEUE, None, [], rb, r)"
proof (cases "m + unat n < s + 2 ^ k")
  case True
  note D = ring_okD [OF ok]
  define c where "c = overwritten k l m (unat n)"
  obtain p where p: "at k p (l + c)" and g: "pblk_rb_may_write_at nv rb r n =
    Some (Some (mem rb), concat (map l2p_events (ents rb k l c)),
      rb\<lparr>entries := upd k (clean_entry nv) l c (entries rb), l2p_update := p\<rparr>,
      pblk_rl_out r (int (length (filter is_user (ents rb k l c)))) (int (length (filter is_gc (ents rb k l c)))))"
    using may_write_at_granted [OF ok True, of nv r] unfolding c_def by blast
  let ?rb = "rb\<lparr>entries := upd k (clean_entry nv) l c (entries rb), l2p_update := p, nr_user := nr_user rb + n,
    mem := (mem rb + n) AND (nr_entries rb - 1)\<rparr>"
  have "pblk_rb_may_write_user nv rl rb r n = Some (NVM_IO_DONE, Some (mem rb), concat (map l2p_events (ents rb k l c)), ?rb,
      pblk_rl_out r (int (length (filter is_user (ents rb k l c)))) (int (length (filter is_gc (ents rb k l c)))))"
    using rate by (simp add: pblk_rb_may_write_user_def pblk_rb_may_write_flush_def g)
  moreover have "l + c = max l (m + unat n + 1 - 2 ^ k)" "l + c \<le> s"
    unfolding c_def overwritten_def using True D(8-11) by linarith+
  moreover note ring_ok_grant [OF ok True p c_def, of ?rb nv]
  ultimately show ?thesis using True by auto
next
  case False
  then have "pblk_rb_may_write_at nv rb r n = Some (None, [], rb, r)"
    by (intro may_write_at_refused [OF ok]) simp
  with False rate show ?thesis
    by (simp add: pblk_rb_may_write_user_def pblk_rb_may_write_flush_def)
qed

text \<open>A ring of two entries, for the examples.\<close>

definition small_nvm :: nvm where
  "small_nvm = \<lparr>ADDR_EMPTY = - 1, c_line = (\<lambda>a. ucast (take_bit 8 a)), c_nrb = (\<lambda>a. ucast (take_bit 8 (drop_bit 8 a))),
    c_is_cached = (\<lambda>a. bit a 63), c_is_reserved = (\<lambda>a. bit a 62),
    set_c_line = (\<lambda>n a. ucast (take_bit 8 n) OR (a AND NOT 255)), set_c_nrb = (\<lambda>n a. a OR ucast (push_bit 8 (take_bit 8 n))),
    set_c_is_cached = (\<lambda>b a. if b then set_bit 63 a else unset_bit 63 a),
    set_c_is_reserved = (\<lambda>b a. if b then set_bit 62 a else unset_bit 62 a), g_blk = (\<lambda>a. unat (take_bit 16 a))\<rparr>"

definition small_entry :: "nat pblk_rb_entry" where
  "small_entry = \<lparr>cacheline = 0, e_data = 0, e_ctx = \<lparr>w_bios = [], w_lba = 0, w_ppa = 0, w_flags = 0, w_submit_flags = 0\<rparr>\<rparr>"

definition small_rb0 :: "nat pblk_rb" where
  "small_rb0 = \<lparr>rb_index = 0, entries = [], mem = 0, subm = 0, sync = 0, sync_point = 0, l2p_update = 0, nr_entries = 0,
    seg_size = 0, submit_point = 0, nr_user = 0, inflight_sync_point = 0\<rparr>"

definition small_rl :: pblk_rl where
  "small_rl = \<lparr>high = 0, low = 0, high_pw = 0, rb_windows_pw = 0, rb_budget = 0, rb_user_max = 2, rb_gc_max = 0,
    rb_state = 0, rb_max_io = 0, rsv_blocks = 0, total_blocks = 0, free_blocks = 9\<rparr>"

definition small_rb_rl :: pblk_rl_per_rb where
  "small_rb_rl = \<lparr>rb_space = - 1, rb_user_cnt = 0, rb_gc_cnt = 0, rb_user_active = False, rb_gc_active = False, u_timer = False\<rparr>"

text \<open>A new ring is well formed.  When every allocation succeeds, the initialisation of a ring of
  \<open>2 ^ p\<close> entries returns a ring whose positions are all zero and whose entries are writable, each
  with its own cache address, and no flush is pending.\<close>

theorem pblk_rb_init_ring:
  assumes "p < 32" "length base = 2 ^ p" "\<And>i. alloc i = Alloc_ok"
  shows "\<exists>rb' rl'. pblk_rb_init nv junk mo alloc fresh bpl rl ctxs rb nrb base p sz = Some (Inr (rb', rl')) \<and>
      ring_ok rb' p 0 0 0 0 \<and> sync_point rb' = EMPTY_ENTRY \<and>
      (\<forall>j < 2 ^ p. cacheline (entries rb' ! j) = pblk_cacheline_to_addr nv junk (of_nat j) nrb)"
  using pblk_rb_init_ok [OF assms(1,2), of alloc nv junk mo fresh bpl rl ctxs rb nrb sz] assms(3) by blast

theorem pblk_rb_init_ring_witness:
  "\<exists>rb' rl'. pblk_rb_init small_nvm 0 10 (\<lambda>_. Alloc_ok) (\<lambda>i. i) 4 small_rl [small_rb_rl] small_rb0 0 (replicate 4 small_entry) 2 12 =
      Some (Inr (rb', rl')) \<and> ring_ok rb' 2 0 0 0 0"
  using pblk_rb_init_ring [of 2 "replicate 4 small_entry" "\<lambda>_. Alloc_ok" small_nvm 0 10 "\<lambda>i. i" 4 small_rl "[small_rb_rl]" small_rb0 0 12]
  by auto

text \<open>A ring of four entries made by the initialisation.\<close>

definition small_rb :: "nat pblk_rb" where
  "small_rb = (case pblk_rb_init small_nvm 0 10 (\<lambda>_. Alloc_ok) (\<lambda>i. i) 4 small_rl [small_rb_rl] small_rb0 0 (replicate 4 small_entry) 2 12 of
    Some (Inr (rb, _)) \<Rightarrow> rb | _ \<Rightarrow> small_rb0)"

lemma small_rb_ok: "ring_ok small_rb 2 0 0 0 0"
  using pblk_rb_init_ok [of 2 "replicate 4 small_entry" "\<lambda>_. Alloc_ok" small_nvm 0 10 "\<lambda>i. i" 4 small_rl "[small_rb_rl]" small_rb0 0 12]
  by (auto simp: small_rb_def)

theorem may_write_user_grants_witness:
  "\<exists>rb' r'. pblk_rb_may_write_user small_nvm small_rl small_rb small_rb_rl 3 =
      Some (NVM_IO_DONE, Some (mem small_rb), [], rb', r') \<and> ring_ok rb' 2 0 0 0 3"
proof -
  have "pblk_rl_user_may_insert small_rl small_rb_rl (sint (3 :: u32)) = NVM_IO_OK"
    by (simp add: pblk_rl_user_may_insert_def small_rl_def small_rb_rl_def)
  from may_write_user_grants [OF small_rb_ok this, of small_nvm] show ?thesis
    by auto
qed

lemma remain_loop_stays: "ctxs \<noteq> [] \<Longrightarrow> remain_loop rl ctxs n 0 (rb_user_max rl - rb_user_cnt (ctxs ! 0)) is = Some 0"
  by (induction "is") (simp_all add: Let_def)

lemma gc_remain_loop_stays: "ctxs \<noteq> [] \<Longrightarrow> gc_remain_loop rl ctxs n 0 (rb_gc_max rl - rb_gc_cnt (ctxs ! 0)) is = Some 0"
  by (induction "is") (simp_all add: Let_def)

text \<open>The choice of the emptiest ring.  Both searches compare ring 0 with itself, so they return
  ring 0 whatever the rings hold.\<close>

theorem remain_max_is_zero:
  assumes "ctxs \<noteq> []"
  shows "pblk_rb_remain_max rl ctxs n nr = Some 0 \<and> pblk_rb_gc_remain_max rl ctxs n nr = Some 0"
  using assms by (simp add: pblk_rb_remain_max_def pblk_rb_gc_remain_max_def remain_loop_stays gc_remain_loop_stays)

theorem remain_max_is_zero_witness:
  "pblk_rb_remain_max small_rl [small_rb_rl\<lparr>rb_user_cnt := 2\<rparr>, small_rb_rl] 1 2 = Some 0"
  using remain_max_is_zero [of "[small_rb_rl\<lparr>rb_user_cnt := 2\<rparr>, small_rb_rl]" small_rl 1 2] by simp

end
