(* ===== verification/Pblk_Write.thy ===== *)
theory Pblk_Write
  imports Pblk_Rb
begin

text \<open>
  The write path of pblk from the write buffer to the media (\<open>pblk-write.c\<close>, with
  \<open>pblk_calc_secs\<close> of \<open>pblk-core.c\<close>, \<open>pblk_map_rq\<close> of \<open>pblk-map.c\<close> and \<open>pblk_recov_setup_rq\<close> of
  \<open>pblk-recovery.c\<close>): the writer thread takes entries from a ring and sends them as a request, and
  requests complete in any order.

  The outcomes of the allocations and of the calls into the device layer are arguments, and so are
  the physical addresses that the line allocation gives to the sectors of a request.  The last
  part is a transition system of all the users of one ring, interleaved in any way, and shows that
  no operation fails, that the device receives the data in the order in which the room for it was
  reserved, and that \<open>sync\<close> always is the start of the oldest request still at the device.
\<close>

section \<open>Submission\<close>

definition MAX_PSTREAM :: u8 where "MAX_PSTREAM = 4 + 4"
definition GC_NRB :: u8 where "GC_NRB = MAX_PSTREAM - 2"

record wcfg =
  min_write_pgs :: int
  max_write_pgs :: int
  sec_per_write :: int

definition pblk_calc_secs :: "wcfg \<Rightarrow> u64 \<Rightarrow> u64 \<Rightarrow> int option" where
  "pblk_calc_secs cfg secs_avail secs_to_flush =
    (if secs_avail \<ge> word_of_int (sec_per_write cfg) then Some (sec_per_write cfg)
     else if secs_avail \<ge> word_of_int (min_write_pgs cfg) then do {
       q \<leftarrow> udiv secs_avail (word_of_int (min_write_pgs cfg));
       Some (to_int (word_of_int (min_write_pgs cfg) * q))
     }
     else if secs_to_flush \<noteq> 0 then Some (min_write_pgs cfg)
     else Some 0)"

definition pblk_calc_secs_to_sync :: "wcfg \<Rightarrow> u32 \<Rightarrow> u32 \<Rightarrow> int option" where
  "pblk_calc_secs_to_sync cfg secs_avail secs_to_flush = pblk_calc_secs cfg (ucast secs_avail) (ucast secs_to_flush)"

text \<open>The addresses of the sectors of a request are stored in the entries, a page of \<open>mn\<close> sectors at a
  time; in the last page only the valid sectors have an entry.\<close>

definition map_secs :: "nat \<Rightarrow> nat \<Rightarrow> nat \<Rightarrow> nat" where
  "map_secs mn valid i = (if i + mn > valid then valid mod mn else mn)"

definition map_sector :: "(nat \<Rightarrow> u64) \<Rightarrow> u32 \<Rightarrow> nat \<Rightarrow> 'd pblk_rb \<Rightarrow> 'd pblk_rb option" where
  "map_sector addr sent i rb = do {
    e \<leftarrow> pblk_rb_w_ctx rb (sent + of_nat i);
    Some (set_entry rb (pblk_rb_wrap_pos rb (sent + of_nat i)) (e\<lparr>e_ctx := (e_ctx e)\<lparr>w_ppa := addr i\<rparr>\<rparr>))
  }"

definition pblk_map_page_data :: "(nat \<Rightarrow> u64) \<Rightarrow> u32 \<Rightarrow> nat \<Rightarrow> nat \<Rightarrow> 'd pblk_rb \<Rightarrow> 'd pblk_rb option" where
  "pblk_map_page_data addr sent i valid_secs rb = ofold (map_sector addr sent) [i..<i + valid_secs] rb"

definition pblk_map_rq :: "(nat \<Rightarrow> u64) \<Rightarrow> u32 \<Rightarrow> nat \<Rightarrow> nat \<Rightarrow> nat \<Rightarrow> nat \<Rightarrow> 'd pblk_rb \<Rightarrow> 'd pblk_rb option" where
  "pblk_map_rq addr sent nr_ppas valid_secs off mn rb = do {
    ensure (0 < mn);
    ofold (\<lambda>i. pblk_map_page_data addr sent i (map_secs mn valid_secs i))
      (map (\<lambda>q. off + q * mn) [0..<(nr_ppas - off + mn - 1) div mn]) rb
  }"

text \<open>Outcome of \<open>pblk_submit_io_set\<close>: no memory before the addresses are assigned, a failed call to
  the device layer after that, or success.\<close>

datatype set_outcome = Set_no_memory | Set_io_error | Set_ok

record w_outcome =
  rqd_ok :: bool
  bio_ok :: bool
  pages :: bio_outcome
  io_set :: set_outcome
  addr_of :: "nat \<Rightarrow> u64"

datatype 'd sent = Idle | Failed | Sent pblk_c_ctx "'d list"

definition pblk_submit_io_set :: "wcfg \<Rightarrow> w_outcome \<Rightarrow> pblk_c_ctx \<Rightarrow> 'd pblk_rb \<Rightarrow> (bool \<times> 'd pblk_rb) option" where
  "pblk_submit_io_set cfg out c rb = (if io_set out = Set_no_memory then Some (False, rb)
    else do {
      rb' \<leftarrow> pblk_map_rq (addr_of out) (sentry c) (unat (nr_valid c + nr_padded c)) (unat (nr_valid c)) 0 (nat (min_write_pgs cfg)) rb;
      Some (io_set out = Set_ok, rb')
    })"

definition send_entries :: "wcfg \<Rightarrow> w_outcome \<Rightarrow> 'd pblk_rb \<Rightarrow> u32 \<Rightarrow> u32 \<Rightarrow> u32 \<Rightarrow> ('d sent \<times> 'd pblk_rb) option" where
  "send_entries cfg out rb pos secs_to_sync secs_avail = do {
    (ret, c, ds, rb') \<leftarrow> pblk_rb_read_to_bio (pages out) rb pos secs_to_sync secs_avail;
    if ret \<noteq> NVM_IO_OK then Some (Failed, rb') else do {
      (ok, rb'') \<leftarrow> pblk_submit_io_set cfg out c rb';
      Some (if ok then Sent c ds else Failed, rb'')
    }
  }"

text \<open>The request is dereferenced before the test whether it could be allocated.\<close>

definition pblk_submit_write :: "wcfg \<Rightarrow> u64 \<Rightarrow> int \<Rightarrow> w_outcome \<Rightarrow> u8 \<Rightarrow> 'd pblk_rb \<Rightarrow> ('d sent \<times> 'd pblk_rb) option" where
  "pblk_submit_write cfg nr_free_blks inflight_ws out nrb rb =
    (if pblk_rb_read_count rb = 0 then Some (Idle, rb) else
     let secs_to_flush = pblk_rb_sync_point_count rb;
         rc = pblk_rb_read_count rb;
         secs_avail = (if rc > nr_user rb then rc - nr_user rb else 0)
     in if secs_avail < word_of_int (min_write_pgs cfg + 8) then Some (Idle, rb)
     else if nrb \<noteq> GC_NRB \<and> nr_free_blks \<le> word_of_int (1 + inflight_ws) then Some (Idle, rb)
     else do {
       ensure (rqd_ok out);
       if \<not> bio_ok out then Some (Failed, rb) else do {
         sts \<leftarrow> pblk_calc_secs_to_sync cfg secs_avail secs_to_flush;
         let secs_to_sync = (word_of_int sts :: u32);
         if secs_to_sync > word_of_int (max_write_pgs cfg) then Some (Failed, rb) else do {
           let secs_to_com = (if secs_to_sync > secs_avail then secs_avail else secs_to_sync);
           let (pos, rb1) = pblk_rb_read_commit rb secs_to_com;
           send_entries cfg out rb1 pos secs_to_sync secs_avail
         }
       }
     })"

section \<open>Completion\<close>

fun end_bios :: "nat \<Rightarrow> u32 \<Rightarrow> 'd pblk_rb \<Rightarrow> (rb_event list \<times> 'd pblk_rb) option" where
  "end_bios 0 pos rb = Some ([], rb)"
| "end_bios (Suc n) pos rb = do {
    e \<leftarrow> pblk_rb_w_ctx rb pos;
    (ev, rb') \<leftarrow> end_bios n (pos + 1) (set_entry rb (pblk_rb_wrap_pos rb pos) (e\<lparr>e_ctx := (e_ctx e)\<lparr>w_bios := []\<rparr>\<rparr>));
    Some (map Bio_endio (w_bios (e_ctx e)) @ ev, rb')
  }"

text \<open>The loop over the entries runs at least once.\<close>

definition pblk_end_w_bio :: "'d pblk_rb \<Rightarrow> pblk_c_ctx \<Rightarrow> (rb_event list \<times> u32 \<times> 'd pblk_rb) option" where
  "pblk_end_w_bio rb c = do {
    (ev, rb') \<leftarrow> end_bios (max 1 (unat (nr_valid c))) (sentry c) rb;
    Some (ev, pblk_rb_sync_advance rb' (nr_valid c))
  }"

text \<open>The requests that completed early are looked through again after every one that ended.\<close>

function drain :: "'d pblk_rb \<Rightarrow> pblk_c_ctx list \<Rightarrow> u32 \<Rightarrow> (rb_event list \<times> 'd pblk_rb \<times> pblk_c_ctx list) option" where
  "drain rb cl pos = (case find (\<lambda>c. sentry c = pos) cl of
      None \<Rightarrow> Some ([], rb, cl)
    | Some c \<Rightarrow> do {
        (ev, pos', rb') \<leftarrow> pblk_end_w_bio rb c;
        (ev', r) \<leftarrow> drain rb' (remove1 c cl) pos';
        Some (ev @ ev', r)
      })"
  by pat_completeness auto
termination
proof (relation "measure (\<lambda>(rb, cl, pos). length cl)")
  fix cl :: "pblk_c_ctx list" and pos :: u32 and c rb' pos' and rb :: "'d pblk_rb"
  assume "find (\<lambda>c. sentry c = pos) cl = Some c"
  then have "c \<in> set cl" by (auto simp: find_Some_iff)
  then show "((rb', remove1 c cl, pos'), rb, cl, pos) \<in> measure (\<lambda>(rb, cl, pos). length cl)"
    using length_pos_if_in_set [of c cl] by (simp add: length_remove1)
qed simp

declare drain.simps [simp del]

definition pblk_complete_write :: "'d pblk_rb \<Rightarrow> pblk_c_ctx list \<Rightarrow> pblk_c_ctx \<Rightarrow>
    (rb_event list \<times> 'd pblk_rb \<times> pblk_c_ctx list) option" where
  "pblk_complete_write rb cl c =
    (if sync rb = sentry c then do {
       (ev, pos, rb') \<leftarrow> pblk_end_w_bio rb c;
       (ev', r) \<leftarrow> drain rb' cl pos;
       Some (ev @ ev', r)
     } else Some ([], rb, cl @ [c]))"

text \<open>A request that failed: what was written stays with the request, the rest goes to a new one.\<close>

definition pblk_recov_setup_rq :: "'d pblk_rb \<Rightarrow> pblk_c_ctx \<Rightarrow> u32 \<Rightarrow> pblk_c_ctx \<times> pblk_c_ctx" where
  "pblk_recov_setup_rq rb c ndone = (let rec_sentry = pblk_rb_wrap_pos rb (sentry c + ndone) in
    if ndone \<ge> nr_valid c
    then (c\<lparr>nr_padded := ndone - nr_valid c\<rparr>, \<lparr>sentry = rec_sentry, nr_valid = 0, nr_padded = nr_valid c + nr_padded c - ndone\<rparr>)
    else (c\<lparr>nr_valid := ndone, nr_padded := 0\<rparr>, \<lparr>sentry = rec_sentry, nr_valid = nr_valid c - ndone, nr_padded = nr_padded c\<rparr>))"

text \<open>\<open>failed\<close> are the sectors of the request that failed, in ascending order.  The result tells the
  request to recover, if any.\<close>

fun scan_failed :: "'d pblk_rb \<Rightarrow> pblk_c_ctx \<Rightarrow> (nat \<Rightarrow> u64) \<Rightarrow> nat list \<Rightarrow> bool" where
  "scan_failed rb c addr [] = True"
| "scan_failed rb c addr (b # bs) = (if b > unat (nr_valid c) then False
    else case pblk_rb_sync_scan_entry rb (addr b) of None \<Rightarrow> False | Some e \<Rightarrow> scan_failed rb c addr bs)"

definition pblk_end_w_fail :: "bool \<Rightarrow> (nat \<Rightarrow> u64) \<Rightarrow> nat list \<Rightarrow> 'd pblk_rb \<Rightarrow> pblk_c_ctx list \<Rightarrow> pblk_c_ctx \<Rightarrow>
    (pblk_c_ctx option \<times> rb_event list \<times> 'd pblk_rb \<times> pblk_c_ctx list) option" where
  "pblk_end_w_fail recovery_ok addr failed rb cl c = (if \<not> recovery_ok then Some (None, [], rb, cl)
    else let (c', rec) = (if scan_failed rb c addr failed
        then let (c', rec) = pblk_recov_setup_rq rb c (case failed of [] \<Rightarrow> nr_valid c + nr_padded c | b # _ \<Rightarrow> of_nat b) in (c', Some rec)
        else (c, None))
    in do {
      (ev, r) \<leftarrow> pblk_complete_write rb cl c';
      Some (rec, ev, r)
    })"

definition pblk_end_io_write :: "bool \<Rightarrow> bool \<Rightarrow> (nat \<Rightarrow> u64) \<Rightarrow> nat list \<Rightarrow> 'd pblk_rb \<Rightarrow> pblk_c_ctx list \<Rightarrow> pblk_c_ctx \<Rightarrow>
    (pblk_c_ctx option \<times> rb_event list \<times> 'd pblk_rb \<times> pblk_c_ctx list) option" where
  "pblk_end_io_write error recovery_ok addr failed rb cl c = (if error then pblk_end_w_fail recovery_ok addr failed rb cl c
    else do {
      (ev, r) \<leftarrow> pblk_complete_write rb cl c;
      Some (None, ev, r)
    })"

section \<open>Lemmas\<close>

text \<open>What the ring's invariant and its data depend on: everything of an entry but its bios and its
  physical address.\<close>

definition core :: "'d pblk_rb_entry \<Rightarrow> u64 \<times> 'd \<times> u64 \<times> u32 \<times> u32" where
  "core e = (cacheline e, e_data e, w_lba (e_ctx e), w_flags (e_ctx e), w_submit_flags (e_ctx e))"

definition same_core :: "'d pblk_rb \<Rightarrow> 'd pblk_rb \<Rightarrow> bool" where
  "same_core rb rb' \<longleftrightarrow> length (entries rb') = length (entries rb) \<and>
    (\<forall>j < length (entries rb). core (entries rb' ! j) = core (entries rb ! j)) \<and> same_ptrs rb rb'"

lemma same_core_refl [simp]: "same_core rb rb"
  by (simp add: same_core_def same_ptrs_def)

lemma same_core_trans: "same_core a b \<Longrightarrow> same_core b c \<Longrightarrow> same_core a c"
  by (simp add: same_core_def same_ptrs_def)

lemma same_core_ent:
  assumes "same_core rb rb'" "length (entries rb) = 2 ^ k"
  shows "core (ent rb' k x) = core (ent rb k x)"
  using assms by (simp add: same_core_def ent_def)

lemma ring_ok_core:
  assumes ok: "ring_ok rb k l s b m" and same: "same_core rb rb'"
  shows "ring_ok rb' k l s b m"
proof -
  note D = ring_okD [OF ok]
  have e: "core (ent rb' k x) = core (ent rb k x)" for x
    using same_core_ent [OF same D(3)] .
  have f: "w_flags (e_ctx (ent rb' k x)) = w_flags (e_ctx (ent rb k x))" "submitted (ent rb' k x) = submitted (ent rb k x)" for x
    using e [of x] by (simp_all add: core_def submitted_def)
  show ?thesis
    by (rule ring_okI) (use D same in \<open>simp_all add: f same_core_def same_ptrs_def\<close>)
qed

lemma set_entry_core:
  assumes "unat pos < length (entries rb)" "core e = core (entries rb ! unat pos)"
  shows "same_core rb (set_entry rb pos e)"
  using assms by (simp add: same_core_def same_ptrs_def set_entry_def nth_list_update)

lemma wrap_unat:
  assumes "k < 32" "nr_entries rb = 2 ^ k"
  shows "unat (pblk_rb_wrap_pos rb pos) < 2 ^ k"
proof -
  have "uint (pblk_rb_wrap_pos rb pos) < 2 ^ k"
    using assms by (simp add: pblk_rb_wrap_pos_def uint_and_mask)
  then show ?thesis
    unfolding uint_nat by (simp only: of_nat_less_numeral_power_cancel_iff)
qed

lemma w_ctx_ok:
  assumes "k < 32" "nr_entries rb = 2 ^ k" "length (entries rb) = 2 ^ k"
  shows "pblk_rb_w_ctx rb pos = Some (entries rb ! unat (pblk_rb_wrap_pos rb pos))"
  using wrap_unat [OF assms(1,2)] assms(3) unfolding pblk_rb_w_ctx_def pblk_rb_wrap_pos_def by simp

lemma end_bios_ok:
  assumes "k < 32" "nr_entries rb = 2 ^ k" "length (entries rb) = 2 ^ k"
  shows "\<exists>ev rb'. end_bios n pos rb = Some (ev, rb') \<and> same_core rb rb'"
  using assms(2,3)
proof (induction n arbitrary: pos rb)
  case 0
  then show ?case by simp
next
  case (Suc n)
  let ?p = "pblk_rb_wrap_pos rb pos" and ?e = "entries rb ! unat (pblk_rb_wrap_pos rb pos)"
  let ?rb = "set_entry rb ?p (?e\<lparr>e_ctx := (e_ctx ?e)\<lparr>w_bios := []\<rparr>\<rparr>)"
  have core: "same_core rb ?rb"
    using wrap_unat [OF assms(1) Suc.prems(1)] Suc.prems(2) by (intro set_entry_core) (simp_all add: core_def)
  have "nr_entries ?rb = 2 ^ k" "length (entries ?rb) = 2 ^ k"
    using Suc.prems by (simp_all add: set_entry_def)
  from Suc.IH [OF this, of "pos + 1"] obtain ev rb' where r: "end_bios n (pos + 1) ?rb = Some (ev, rb')" "same_core ?rb rb'"
    by auto
  then show ?case
    using w_ctx_ok [OF assms(1) Suc.prems] same_core_trans [OF core r(2)] by simp
qed

lemma sync_advance_ok:
  assumes ok: "ring_ok rb k l s b m" and n: "s + unat n \<le> b"
  shows "\<exists>rb'. pblk_rb_sync_advance rb n = (sync rb', rb') \<and> ring_ok rb' k l (s + unat n) b m \<and>
    entries rb' = entries rb \<and> mem rb' = mem rb \<and> subm rb' = subm rb \<and> nr_user rb' = nr_user rb"
proof -
  note D = ring_okD [OF ok]
  define p where "p = ((\<lambda>s. (s + 1) AND (2 ^ k - 1)) ^^ unat n) (sync rb)"
  have p: "at k p (s + unat n)" unfolding p_def by (rule steps_at [OF D(1,5)])
  have "ring_ok (rb\<lparr>sync := p\<rparr>) k l (s + unat n) b m"
    by (rule ring_okI) (use D n p in \<open>simp_all add: ent_def\<close>)
  moreover have "pblk_rb_sync_advance rb n = (p, rb\<lparr>sync := p\<rparr>)"
    by (simp add: pblk_rb_sync_advance_def p_def D(2) Let_def)
  ultimately show ?thesis by simp
qed

text \<open>The end of the oldest request: \<open>sync\<close> moves over it, nothing else changes.\<close>

definition same_data :: "nat \<Rightarrow> 'd pblk_rb \<Rightarrow> 'd pblk_rb \<Rightarrow> bool" where
  "same_data k rb rb' \<longleftrightarrow> (\<forall>x. core (ent rb' k x) = core (ent rb k x)) \<and> mem rb' = mem rb \<and> subm rb' = subm rb \<and>
    nr_user rb' = nr_user rb"

lemma same_data_trans: "same_data k a b \<Longrightarrow> same_data k b c \<Longrightarrow> same_data k a c"
  by (simp add: same_data_def)

lemma end_w_bio_ok:
  assumes ok: "ring_ok rb k l s b m" and n: "s + unat (nr_valid c) \<le> b"
  shows "\<exists>ev rb'. pblk_end_w_bio rb c = Some (ev, sync rb', rb') \<and> ring_ok rb' k l (s + unat (nr_valid c)) b m \<and> same_data k rb rb'"
proof -
  note D = ring_okD [OF ok]
  obtain ev rb1 where e: "end_bios (max 1 (unat (nr_valid c))) (sentry c) rb = Some (ev, rb1)" and core: "same_core rb rb1"
    using end_bios_ok [OF D(1-3)] by blast
  obtain rb2 where adv: "pblk_rb_sync_advance rb1 (nr_valid c) = (sync rb2, rb2)" "ring_ok rb2 k l (s + unat (nr_valid c)) b m"
    "entries rb2 = entries rb1" "mem rb2 = mem rb1" "subm rb2 = subm rb1" "nr_user rb2 = nr_user rb1"
    using sync_advance_ok [OF ring_ok_core [OF ok core] n] by blast
  have "same_data k rb rb2"
    using same_core_ent [OF core D(3)] core adv(3-6) by (simp add: same_data_def same_core_def same_ptrs_def ent_def)
  then show ?thesis using e adv(1,2) by (simp add: pblk_end_w_bio_def)
qed


text \<open>Requests one after the other, from the position \<open>x\<close> to the position \<open>y\<close>.\<close>

fun chain :: "nat \<Rightarrow> nat \<Rightarrow> pblk_c_ctx list \<Rightarrow> nat \<Rightarrow> bool" where
  "chain k x [] y = (x = y)"
| "chain k x (c # cs) y = (at k (sentry c) x \<and> 0 < unat (nr_valid c) \<and> chain k (x + unat (nr_valid c)) cs y)"

lemma chain_le: "chain k x cs y \<Longrightarrow> x \<le> y"
  by (induction cs arbitrary: x) (auto dest: add_leD1)

lemma chain_start: "chain k x cs y \<Longrightarrow> c \<in> set cs \<Longrightarrow> \<exists>z. x \<le> z \<and> z < y \<and> at k (sentry c) z"
proof (induction cs arbitrary: x)
  case (Cons d cs)
  show ?case
  proof (cases "c = d")
    case True
    then show ?thesis using Cons.prems chain_le [of k "x + unat (nr_valid d)" cs y] by (intro exI [of _ x]) simp
  next
    case False
    then obtain z where "x + unat (nr_valid d) \<le> z" "z < y" "at k (sentry c) z"
      using Cons.IH [of "x + unat (nr_valid d)"] Cons.prems by auto
    then show ?thesis by (intro exI [of _ z]) simp
  qed
qed simp

lemma chain_append: "chain k x (cs @ ds) z \<longleftrightarrow> (\<exists>y. chain k x cs y \<and> chain k y ds z)"
  by (induction cs arbitrary: x) auto

lemma chain_head_unique:
  assumes "k < 32" "chain k x (c # cs) y" "y < x + 2 ^ k" "d \<in> set cs"
  shows "sentry d \<noteq> sentry c"
proof -
  obtain z where z: "x + unat (nr_valid c) \<le> z" "z < y" "at k (sentry d) z"
    using chain_start [of k _ cs y d] assms(2,4) by auto
  have "z mod 2 ^ k \<noteq> x mod 2 ^ k"
    using mod_eq_near [of z "2 ^ k" x x] z(1,2) assms(2,3) by auto
  then show ?thesis
    using z(3) assms(1,2) at_unat [OF assms(1)] by auto
qed

lemma at_same: "at k p x \<Longrightarrow> at k q x \<Longrightarrow> p = q"
  by (simp add: at_def)

text \<open>The head of the chain is the only request that starts at \<open>sync\<close>.\<close>

lemma chain_head_iff:
  assumes ok: "ring_ok rb k l s b m" and ch: "chain k s cs b" and c: "c \<in> set cs"
  shows "sentry c = sync rb \<longleftrightarrow> c = hd cs"
proof -
  note D = ring_okD [OF ok]
  obtain h r where cs: "cs = h # r" using c by (cases cs) auto
  have h: "sentry h = sync rb" using ch cs D(5) at_same [of k _ s] by auto
  have "b < s + 2 ^ k" using D(8-11) by linarith
  then show ?thesis
    using chain_head_unique [OF D(1) ch [unfolded cs], of c] c h cs by auto
qed

lemma drain_ok:
  assumes "ring_ok rb k l s b m" "chain k s cs b" "mset cl \<subseteq># mset cs"
  shows "\<exists>ev rb' cl' s' ended cs'. drain rb cl (sync rb) = Some (ev, rb', cl') \<and> ring_ok rb' k l s' b m \<and> same_data k rb rb' \<and>
    cs = ended @ cs' \<and> mset cl = mset ended + mset cl' \<and> chain k s' cs' b \<and> (cs' \<noteq> [] \<longrightarrow> hd cs' \<notin> set cl')"
  using assms
proof (induction cs arbitrary: rb cl s)
  case Nil
  then have "cl = []" by simp
  then show ?case
    using Nil.prems by (intro exI [of _ "[]"] exI [of _ rb] exI [of _ s]) (simp add: drain.simps same_data_def)
next
  case (Cons c cs)
  have sub: "d \<in> set (c # cs)" if "d \<in> set cl" for d
    using that Cons.prems(3) by (metis mset_subset_eqD set_mset_mset)
  have head: "sentry d = sync rb \<longleftrightarrow> d = c" if "d \<in> set cl" for d
    using chain_head_iff [OF Cons.prems(1,2) sub [OF that]] by simp
  show ?case
  proof (cases "c \<in> set cl")
    case False
    then have "find (\<lambda>d. sentry d = sync rb) cl = None"
      using head by (auto simp: find_None_iff)
    then have "drain rb cl (sync rb) = Some ([], rb, cl)" by (simp add: drain.simps)
    then show ?thesis
      using Cons.prems False by (intro exI [of _ "[]"] exI [of _ rb] exI [of _ cl] exI [of _ s] exI [of _ "c # cs"]) (simp add: same_data_def)
  next
    case True
    obtain d where d: "find (\<lambda>d. sentry d = sync rb) cl = Some d"
      using True head by (cases "find (\<lambda>d. sentry d = sync rb) cl") (auto simp: find_None_iff)
    then have f: "find (\<lambda>d. sentry d = sync rb) cl = Some c"
      using head by (auto simp: find_Some_iff)
    have n: "s + unat (nr_valid c) \<le> b" and ch: "chain k (s + unat (nr_valid c)) cs b"
      using Cons.prems(2) chain_le by auto
    obtain ev rb1 where e: "pblk_end_w_bio rb c = Some (ev, sync rb1, rb1)" "ring_ok rb1 k l (s + unat (nr_valid c)) b m" "same_data k rb rb1"
      using end_w_bio_ok [OF Cons.prems(1) n] by blast
    have "mset (remove1 c cl) \<subseteq># mset cs"
      using Cons.prems(3) by (simp add: subset_eq_diff_conv)
    from Cons.IH [OF e(2) ch this] obtain ev' rb' cl' s' ended cs' where
      r: "drain rb1 (remove1 c cl) (sync rb1) = Some (ev', rb', cl')" "ring_ok rb' k l s' b m" "same_data k rb1 rb'"
      "cs = ended @ cs'" "mset (remove1 c cl) = mset ended + mset cl'" "chain k s' cs' b" "cs' \<noteq> [] \<longrightarrow> hd cs' \<notin> set cl'"
      by blast
    have "drain rb cl (sync rb) = Some (ev @ ev', rb', cl')"
      unfolding drain.simps [of rb cl] using f e(1) r(1) by simp
    moreover have "mset cl = mset (c # ended) + mset cl'"
      using True r(5) by (simp add: insert_DiffM2 flip: r(5))
    ultimately show ?thesis
      using r same_data_trans [OF e(3) r(3)] by (intro exI [of _ "ev @ ev'"] exI [of _ rb'] exI [of _ cl'] exI [of _ s'] exI [of _ "c # ended"] exI [of _ cs']) simp
  qed
qed


text \<open>The requests at the device (\<open>infl\<close>) and those that completed early (\<open>cl\<close>) are, in some order, a chain
  from \<open>sync\<close> to \<open>subm\<close>, and the oldest is still at the device.\<close>

definition outstanding :: "nat \<Rightarrow> nat \<Rightarrow> nat \<Rightarrow> pblk_c_ctx list \<Rightarrow> pblk_c_ctx list \<Rightarrow> bool" where
  "outstanding k s b infl cl \<longleftrightarrow> (\<exists>cs. chain k s cs b \<and> mset cs = mset infl + mset cl \<and> (cs \<noteq> [] \<longrightarrow> hd cs \<notin> set cl))"

lemma complete_write_ok:
  assumes ok: "ring_ok rb k l s b m" and out: "outstanding k s b infl cl" and c: "c \<in> set infl"
  shows "\<exists>ev rb' cl' s'. pblk_complete_write rb cl c = Some (ev, rb', cl') \<and> ring_ok rb' k l s' b m \<and> same_data k rb rb' \<and>
    outstanding k s' b (remove1 c infl) cl'"
proof -
  obtain cs where ch: "chain k s cs b" and ms: "mset cs = mset infl + mset cl" and hd: "cs \<noteq> [] \<longrightarrow> hd cs \<notin> set cl"
    using out unfolding outstanding_def by blast
  have "c \<in># mset cs" using c by (simp add: ms)
  then have cin: "c \<in> set cs" by simp
  note iff = chain_head_iff [OF ok ch cin]
  show ?thesis
  proof (cases "sync rb = sentry c")
    case False
    have "hd cs \<noteq> c" using False iff by auto
    moreover have "mset cs = mset (remove1 c infl) + mset (cl @ [c])"
      using c by (simp add: ms)
    ultimately have "outstanding k s b (remove1 c infl) (cl @ [c])"
      unfolding outstanding_def using ch hd by (intro exI [of _ cs]) auto
    then show ?thesis
      using False ok by (auto simp: pblk_complete_write_def same_data_def)
  next
    case True
    then obtain r where cs: "cs = c # r" using iff cin by (cases cs) auto
    have n: "s + unat (nr_valid c) \<le> b" and chr: "chain k (s + unat (nr_valid c)) r b"
      using ch cs chain_le by auto
    have mr: "mset r = mset (remove1 c infl) + mset cl"
      using ms c cs by (simp add: mset_remove1) (metis add_mset_remove_trivial insert_DiffM set_mset_mset union_mset_add_mset_left)
    obtain ev rb1 where e: "pblk_end_w_bio rb c = Some (ev, sync rb1, rb1)" "ring_ok rb1 k l (s + unat (nr_valid c)) b m" "same_data k rb rb1"
      using end_w_bio_ok [OF ok n] by blast
    have "mset cl \<subseteq># mset r" by (simp add: mr)
    from drain_ok [OF e(2) chr this] obtain ev' rb' cl' s' ended cs' where
      r: "drain rb1 cl (sync rb1) = Some (ev', rb', cl')" "ring_ok rb' k l s' b m" "same_data k rb1 rb'"
      "r = ended @ cs'" "mset cl = mset ended + mset cl'" "chain k s' cs' b" "cs' \<noteq> [] \<longrightarrow> hd cs' \<notin> set cl'"
      by blast
    have "mset cs' = mset (remove1 c infl) + mset cl'"
      using mr r(4,5) by simp
    then have "outstanding k s' b (remove1 c infl) cl'"
      unfolding outstanding_def using r(6,7) by blast
    then show ?thesis
      using True e r same_data_trans [OF e(3) r(3)] by (auto simp: pblk_complete_write_def)
  qed
qed

text \<open>Assigning the addresses.\<close>

lemma map_sector_ok:
  assumes "k < 32" "nr_entries rb = 2 ^ k" "length (entries rb) = 2 ^ k"
  shows "\<exists>rb'. map_sector addr sent i rb = Some rb' \<and> same_core rb rb'"
proof -
  let ?p = "pblk_rb_wrap_pos rb (sent + of_nat i)"
  have "same_core rb (set_entry rb ?p ((entries rb ! unat ?p)\<lparr>e_ctx := (e_ctx (entries rb ! unat ?p))\<lparr>w_ppa := addr i\<rparr>\<rparr>))"
    using wrap_unat [OF assms(1,2)] assms(3) by (intro set_entry_core) (simp_all add: core_def)
  then show ?thesis by (simp add: map_sector_def w_ctx_ok [OF assms])
qed

lemma same_core_size: "same_core rb rb' \<Longrightarrow> nr_entries rb' = nr_entries rb \<and> length (entries rb') = length (entries rb)"
  by (simp add: same_core_def same_ptrs_def)

lemma map_rq_ok:
  assumes "k < 32" "nr_entries rb = 2 ^ k" "length (entries rb) = 2 ^ k" "0 < mn"
  shows "\<exists>rb'. pblk_map_rq addr sent nr valid off mn rb = Some rb' \<and> same_core rb rb'"
proof -
  have sector: "\<exists>rb2. map_sector addr sent i rb1 = Some rb2 \<and> same_core rb rb2" if "same_core rb rb1" for i rb1
    using map_sector_ok [of k rb1 addr sent i] assms(1-3) same_core_size [OF that] same_core_trans [OF that] by auto
  have page: "\<exists>rb2. pblk_map_page_data addr sent i v rb1 = Some rb2 \<and> same_core rb rb2" if "same_core rb rb1" for i v rb1
    unfolding pblk_map_page_data_def
    by (rule ofold_invariant [where I = "same_core rb"]) (use that sector in blast)+
  have "\<exists>rb'. ofold (\<lambda>i. pblk_map_page_data addr sent i (map_secs mn valid i))
      (map (\<lambda>q. off + q * mn) [0..<(nr - off + mn - 1) div mn]) rb = Some rb' \<and> same_core rb rb'"
    by (rule ofold_invariant [where I = "same_core rb"]) (use page in auto)
  then show ?thesis using assms(4) by (simp add: pblk_map_rq_def)
qed


text \<open>The limits of a configuration, and a device layer that accepts what it is given.\<close>

definition cfg_ok :: "wcfg \<Rightarrow> bool" where
  "cfg_ok cfg \<longleftrightarrow> 0 < min_write_pgs cfg \<and> min_write_pgs cfg \<le> sec_per_write cfg \<and>
    sec_per_write cfg \<le> max_write_pgs cfg \<and> max_write_pgs cfg < 2 ^ 30"

definition out_ok :: "w_outcome \<Rightarrow> bool" where
  "out_ok out \<longleftrightarrow> rqd_ok out \<and> bio_ok out \<and> (\<forall>i. page (pages out) i) \<and> io_set out = Set_ok"

lemma unat_word_of_int: "0 \<le> n \<Longrightarrow> n < 2 ^ 31 \<Longrightarrow> unat (word_of_int n :: u32) = nat n"
proof -
  assume "0 \<le> n" "n < 2 ^ 31"
  then have "uint (word_of_int n :: u32) = n"
    by (simp add: uint_word_of_int_eq take_bit_int_eq_self)
  then have "int (unat (word_of_int n :: u32)) = n" by (simp only: uint_nat)
  then show ?thesis by linarith
qed

lemma calc_secs_ok:
  assumes cfg: "cfg_ok cfg" and a: "min_write_pgs cfg \<le> int (unat a)"
  shows "\<exists>sts. pblk_calc_secs_to_sync cfg a f = Some sts \<and> 0 < sts \<and> sts \<le> int (unat a) \<and> sts \<le> sec_per_write cfg"
proof -
  define mn and mx where "mn = min_write_pgs cfg" and "mx = sec_per_write cfg"
  have c: "0 < mn" "mn \<le> mx" "mx < 2 ^ 30" using cfg by (simp_all add: cfg_ok_def mn_def mx_def)
  have ua: "uint (ucast a :: u64) = int (unat a)"
  proof -
    have "unat a < 2 ^ 64" using unsigned_less [of a, where ?'a = nat] by simp
    then have "unat (ucast a :: u64) = unat a" by (simp add: unsigned_ucast_eq take_bit_nat_eq_self)
    then show ?thesis by (simp only: uint_nat)
  qed
  have ule: "word_of_int n \<le> (ucast a :: u64) \<longleftrightarrow> n \<le> int (unat a)" if "0 \<le> n" "n < 2 ^ 31" for n
    using that by (simp only: word_le_def ua uint_small)
  show ?thesis
  proof (cases "mx \<le> int (unat a)")
    case True
    then show ?thesis
      using c ule [of mx] by (simp add: pblk_calc_secs_to_sync_def pblk_calc_secs_def flip: mx_def)
  next
    case False
    define q where "q = int (unat a) div mn"
    have q: "mn * q \<le> int (unat a)" "0 < q" "mn * q < 2 ^ 31"
    proof -
      show le: "mn * q \<le> int (unat a)"
        unfolding q_def using c(1) by (metis mult.commute minus_mod_eq_mult_div Euclidean_Rings.pos_mod_sign diff_le_self le_add_same_cancel1 mult_div_mod_eq)
      show "0 < q" unfolding q_def using a c(1) by (simp add: mn_def pos_imp_zdiv_pos_iff)
      show "mn * q < 2 ^ 31" using le False c(3) by simp
    qed
    have umn: "uint (word_of_int mn :: u64) = mn" using c by (intro uint_small) simp_all
    have mnz: "(word_of_int mn :: u64) \<noteq> 0"
    proof
      assume "(word_of_int mn :: u64) = 0"
      then have "uint (word_of_int mn :: u64) = 0" by (simp only: unsigned_0)
      then show False using umn c(1) by simp
    qed
    have "uint (ucast a div word_of_int mn :: u64) = q"
      unfolding q_def uint_div_distrib umn ua by (rule refl)
    then have "(ucast a div word_of_int mn :: u64) = word_of_int q"
      by (metis word_of_int_uint)
    then have div: "word_of_int mn * (ucast a div word_of_int mn) = (word_of_int (mn * q) :: u64)"
      by simp
    have "pblk_calc_secs_to_sync cfg a f = Some (mn * q)"
      using False a c ule [of mx] ule [of mn] mnz q(1,3) c(1) q(2)
      by (simp add: pblk_calc_secs_to_sync_def pblk_calc_secs_def div flip: mx_def mn_def del: of_int_mult)
    moreover have "mn * q < mx" using q(1) False by linarith
    ultimately show ?thesis using q c by (simp add: mx_def)
  qed
qed


text \<open>An entry that is not written is waited for.\<close>

lemma read_loop_waits:
  assumes "k < 32" "nr_entries rb = 2 ^ k" "length (entries rb) = 2 ^ k" "at k pos x" "n \<le> 2 ^ k" "\<And>j. add j"
    and "read_loop add i n pos rb = Some r" and "e \<in> set (ents rb k x n)"
  shows "readable e"
  using assms(2-5,7,8)
proof (induction n arbitrary: rb pos x i r)
  case (Suc n)
  let ?e = "ent rb k x"
  have e: "aget (entries rb) (unat pos) = Some ?e"
    using Suc.prems assms(1) by (simp add: ent_def at_unat)
  have r: "readable ?e"
    using Suc.prems(5) by (cases "readable ?e") (simp_all add: e readable_def ensure_def)
  then obtain r' where loop: "read_loop add (Suc i) n ((pos + 1) AND (nr_entries rb - 1)) (submit_entry rb pos ?e) = Some r'"
    using Suc.prems(5) assms(6) [of i] by (auto simp: e readable_def split: Option.bind_splits)
  have same: "ents (submit_entry rb pos ?e) k (Suc x) n = ents rb k (Suc x) n"
    using Suc.prems assms(1) by (intro ents_submit_entry) simp_all
  have "readable e" if "e \<in> set (ents rb k (Suc x) n)"
  proof (rule Suc.IH [OF _ _ _ _ loop])
    show "nr_entries (submit_entry rb pos ?e) = 2 ^ k" "length (entries (submit_entry rb pos ?e)) = 2 ^ k"
      using Suc.prems submit_entry_ptrs [of rb pos ?e] by (simp_all add: submit_entry_entries same_ptrs_def)
    show "at k ((pos + 1) AND (nr_entries rb - 1)) (Suc x)"
      using Suc.prems assms(1) by (simp add: step_at)
  qed (use that same Suc.prems(4) in simp_all)
  then show ?case using r Suc.prems(6) by (auto simp: ents_Suc)
qed simp

lemma sub_entry_data [simp]: "e_data (sub_entry e) = e_data e"
  by (simp add: sub_entry_def)

text \<open>The ring after the entries from \<open>b\<close> to \<open>b + n - 1\<close> have been handed to the device.\<close>

lemma ring_ok_submit:
  assumes ok: "ring_ok rb k l s b m" and n: "b + n \<le> m"
    and rb': "entries rb' = upd k sub_entry b n (entries rb)" "at k (subm rb') (b + n)" "mem rb' = mem rb" "sync rb' = sync rb"
      "l2p_update rb' = l2p_update rb" "nr_entries rb' = nr_entries rb"
  shows "ring_ok rb' k l s (b + n) m" and "\<And>x. b + n \<le> x \<Longrightarrow> x < m \<Longrightarrow> ent rb' k x = ent rb k x"
proof -
  note D = ring_okD [OF ok]
  have out: "ent rb' k x = ent rb k x" if "b + n \<le> x" "x < b + 2 ^ k" for x
    using ent_upd_out [OF D(3) that rb'(1)] .
  have old: "ent rb' k x = ent rb k x" if "l \<le> x" "x < b" for x
    using out [of "x + 2 ^ k"] that n D(11) by (simp add: ent_round)
  show "ring_ok rb' k l s (b + n) m"
  proof (rule ring_okI)
    fix x
    show "submitted (ent rb' k x)" if "l \<le> x" "x < b + n"
    proof (cases "x < b")
      case True
      then show ?thesis using old that D(12) by simp
    next
      case False
      then show ?thesis using ent_upd_in [OF D(3) _ _ rb'(1), of x] that by simp
    qed
    show "w_flags (e_ctx (ent rb' k x)) = PBLK_WRITABLE_ENTRY" if "m \<le> x" "x < l + 2 ^ k"
      using out [of x] that n D by simp
  qed (use D rb' n in simp_all)
  show "ent rb' k x = ent rb k x" if "b + n \<le> x" "x < m" for x
    using out [of x] that D(8-11) by simp
qed

lemma commit_at:
  assumes ok: "ring_ok rb k l s b m" and rc: "pblk_rb_read_commit rb n = (pos, rb1)"
  shows "pos = subm rb" "entries rb1 = entries rb" "at k (subm rb1) (b + unat n)" "mem rb1 = mem rb" "sync rb1 = sync rb"
    "l2p_update rb1 = l2p_update rb" "nr_entries rb1 = nr_entries rb" "nr_user rb1 = nr_user rb"
  using rc advance_at [OF ring_okD(1) [OF ok] ring_okD(6) [OF ok], of n] ring_okD(2) [OF ok] by (auto simp: pblk_rb_read_commit_def)


lemma send_entries_ok:
  assumes ok: "ring_ok rb k l s b m" and cfg: "cfg_ok cfg" and out: "out_ok out"
    and rc1: "pblk_rb_read_commit rb w = (pos, rb1)" and w: "unat w = n" and n: "b + n \<le> m" and av: "\<not> av < w"
  shows "if \<forall>e \<in> set (ents rb k b n). readable e
    then \<exists>c rb'. send_entries cfg out rb1 pos w av = Some (Sent c (map e_data (ents rb k b n)), rb') \<and>
      at k (sentry c) b \<and> unat (nr_valid c) = n \<and> ring_ok rb' k l s (b + n) m \<and> nr_user rb' = nr_user rb \<and>
      (\<forall>x. b + n \<le> x \<and> x < m \<longrightarrow> core (ent rb' k x) = core (ent rb k x))
    else send_entries cfg out rb1 pos w av = None"
proof -
  note D = ring_okD [OF ok]
  note C = commit_at [OF ok rc1, unfolded w]
  have add: "page (pages out) j" for j using out by (simp add: out_ok_def)
  have pos: "at k pos b" using C(1) D(6) by simp
  have size: "nr_entries rb1 = 2 ^ k" "length (entries rb1) = 2 ^ k" using C D by simp_all
  have n2: "n \<le> 2 ^ k" using n D by linarith
  have ents: "ents rb1 k b n = ents rb k b n" by (rule ents_cong) (rule C(2))
  show ?thesis
  proof (cases "\<forall>e \<in> set (ents rb k b n). readable e")
    case False
    then have "read_loop (page (pages out)) 0 n pos rb1 = None"
      using read_loop_waits [OF D(1) size pos n2 add, unfolded ents] by (cases "read_loop (page (pages out)) 0 n pos rb1") auto
    then show ?thesis
      using False av w by (simp add: send_entries_def pblk_rb_read_to_bio_def)
  next
    case True
    then obtain rb2 where r: "read_loop (page (pages out)) 0 n pos rb1 = Some (True, map e_data (ents rb k b n), rb2)"
      "entries rb2 = upd k sub_entry b n (entries rb)" "same_ptrs rb1 rb2"
      using read_loop_ok [OF D(1) size pos n2, of 0 "page (pages out)"] add unfolding ents C(2) by blast
    have p2: "at k (subm rb2) (b + n)" "mem rb2 = mem rb" "sync rb2 = sync rb" "l2p_update rb2 = l2p_update rb"
      "nr_entries rb2 = nr_entries rb" "nr_user rb2 = nr_user rb"
      using r(3) C by (simp_all add: same_ptrs_def)
    note S = ring_ok_submit [OF ok n r(2) p2(1-5)]
    let ?c = "\<lparr>sentry = pos, nr_valid = w, nr_padded = 0\<rparr>"
    obtain rb3 where m3: "pblk_map_rq (addr_of out) pos n n 0 (nat (min_write_pgs cfg)) rb2 = Some rb3" "same_core rb2 rb3"
      using map_rq_ok [OF D(1) ring_okD(2) [OF S(1)] ring_okD(3) [OF S(1)], of "nat (min_write_pgs cfg)" "addr_of out" pos n n 0] cfg
      by (auto simp: cfg_ok_def)
    have "send_entries cfg out rb1 pos w av = Some (Sent ?c (map e_data (ents rb k b n)), rb3)"
      using av w r(1) out m3(1)
      by (simp add: send_entries_def pblk_rb_read_to_bio_def pblk_submit_io_set_def out_ok_def)
    moreover have "core (ent rb3 k x) = core (ent rb k x)" if "b + n \<le> x" "x < m" for x
      using same_core_ent [OF m3(2) ring_okD(3) [OF S(1)], of x] S(2) [OF that] by simp
    moreover have "nr_user rb3 = nr_user rb"
      using m3(2) p2(6) by (simp add: same_core_def same_ptrs_def)
    ultimately show ?thesis
      using True pos w ring_ok_core [OF S(1) m3(2)] by auto
  qed
qed

text \<open>A run of the writer thread: it finds nothing to do, or it waits for an entry that is not written
  yet, or it sends the next \<open>n\<close> entries.\<close>

lemma submit_write_cases:
  assumes ok: "ring_ok rb k l s b m" and cfg: "cfg_ok cfg" and out: "out_ok out"
  shows "pblk_submit_write cfg fb ws out nrb rb = Some (Idle, rb) \<or>
    (\<exists>n. 0 < n \<and> b + n \<le> m \<and>
      (if \<forall>e \<in> set (ents rb k b n). readable e
       then \<exists>c rb'. pblk_submit_write cfg fb ws out nrb rb = Some (Sent c (map e_data (ents rb k b n)), rb') \<and>
         at k (sentry c) b \<and> unat (nr_valid c) = n \<and> ring_ok rb' k l s (b + n) m \<and> nr_user rb' = nr_user rb \<and>
         (\<forall>x. b + n \<le> x \<and> x < m \<longrightarrow> core (ent rb' k x) = core (ent rb k x))
       else pblk_submit_write cfg fb ws out nrb rb = None))"
proof -
  note D = ring_okD [OF ok]
  define rc where "rc = pblk_rb_read_count rb"
  define av where "av = (if rc > nr_user rb then rc - nr_user rb else 0)"
  have rc: "unat rc = m - b"
    unfolding rc_def pblk_rb_read_count_def D(2) using D by (intro count_at) simp_all
  have av: "unat av \<le> m - b"
    using rc unat_sub [of "nr_user rb" rc] by (auto simp: av_def order_less_imp_le)
  show ?thesis
  proof (cases "rc = 0 \<or> av < word_of_int (min_write_pgs cfg + 8) \<or> (nrb \<noteq> GC_NRB \<and> fb \<le> word_of_int (1 + ws))")
    case True
    then have "pblk_submit_write cfg fb ws out nrb rb = Some (Idle, rb)"
      unfolding pblk_submit_write_def Let_def rc_def [symmetric] av_def [symmetric] by auto
    then show ?thesis ..
  next
    case False
    have mn: "0 < min_write_pgs cfg" "min_write_pgs cfg + 8 < 2 ^ 31" "sec_per_write cfg < 2 ^ 30" "sec_per_write cfg \<le> max_write_pgs cfg"
      "max_write_pgs cfg < 2 ^ 31"
      using cfg unfolding cfg_ok_def by simp_all
    have "nat (min_write_pgs cfg + 8) \<le> unat av"
    proof -
      have "word_of_int (min_write_pgs cfg + 8) \<le> av" using False by (meson not_less)
      moreover have "unat (word_of_int (min_write_pgs cfg + 8) :: u32) = nat (min_write_pgs cfg + 8)"
        using mn(1,2) by (intro unat_word_of_int) simp_all
      ultimately show ?thesis unfolding word_le_nat_alt by simp
    qed
    then have avmin: "min_write_pgs cfg \<le> int (unat av)" using mn(1) by linarith
    from calc_secs_ok [OF cfg this, of "pblk_rb_sync_point_count rb"] obtain sts where
      calc: "pblk_calc_secs_to_sync cfg av (pblk_rb_sync_point_count rb) = Some sts"
      and sts: "0 < sts" "sts \<le> int (unat av)" "sts \<le> sec_per_write cfg" by blast
    define n where "n = nat sts"
    define w where "w = (word_of_int sts :: u32)"
    have w: "unat w = n" unfolding w_def n_def using sts mn by (intro unat_word_of_int) simp_all
    have "n \<le> unat av" using sts(1,2) n_def by linarith
    then have le: "\<not> w > word_of_int (max_write_pgs cfg)" "\<not> w > av" "\<not> av < w"
      using sts(1,3) mn w unfolding word_less_nat_alt by (simp_all add: unat_word_of_int n_def)
    have n: "0 < n" "b + n \<le> m" using sts av n_def D(10) by linarith+
    then have n2: "n \<le> 2 ^ k" using D by linarith
    obtain pos rb1 where rc1: "pblk_rb_read_commit rb w = (pos, rb1)" by fastforce
    have sw: "pblk_submit_write cfg fb ws out nrb rb = send_entries cfg out rb1 pos w av"
      using False out calc rc1 le unfolding pblk_submit_write_def Let_def rc_def [symmetric] av_def [symmetric]
      by (simp add: out_ok_def flip: w_def) blast
    show ?thesis
      unfolding sw using n send_entries_ok [OF ok cfg out rc1 w n(2) le(3)] by blast
  qed
qed


section \<open>One ring and its users as a transition system\<close>

text \<open>The ring with its limiter, the requests at the device and those that completed early; and, for the
  statements, the entries that are granted and not yet written (ring position and counter), the
  data written to every counter, the data sent to the device so far and the counter of \<open>mem\<close>.\<close>

record 'd wsys =
  ring :: "'d pblk_rb"
  limit :: pblk_rl_per_rb
  infl :: "pblk_c_ctx list"
  compl :: "pblk_c_ctx list"
  pend :: "(u32 \<times> nat) list"
  w_log :: "nat \<Rightarrow> 'd option"
  sent_data :: "'d list"
  cnt :: nat

definition grant :: "'d wsys \<Rightarrow> u32 option \<Rightarrow> u32 \<Rightarrow> 'd pblk_rb \<Rightarrow> pblk_rl_per_rb \<Rightarrow> 'd wsys" where
  "grant S p n rb' r' = (case p of
      None \<Rightarrow> S\<lparr>ring := rb', limit := r'\<rparr>
    | Some pos \<Rightarrow> S\<lparr>ring := rb', limit := r',
        pend := pend S @ map (\<lambda>i. (pblk_rb_wrap_pos rb' (pos + of_nat i), cnt S + i)) [0..<unat n],
        cnt := cnt S + unat n\<rparr>)"

definition put :: "'d wsys \<Rightarrow> u32 \<Rightarrow> nat \<Rightarrow> 'd \<Rightarrow> 'd pblk_rb \<Rightarrow> 'd wsys" where
  "put S p x d rb' = S\<lparr>ring := rb', pend := remove1 (p, x) (pend S), w_log := (w_log S)(x \<mapsto> d)\<rparr>"

definition send :: "'d wsys \<Rightarrow> 'd sent \<Rightarrow> 'd pblk_rb \<Rightarrow> 'd wsys" where
  "send S r rb' = (case r of
      Sent c ds \<Rightarrow> S\<lparr>ring := rb', infl := infl S @ [c], sent_data := sent_data S @ ds\<rparr>
    | _ \<Rightarrow> S\<lparr>ring := rb'\<rparr>)"

text \<open>The steps: a user write or the collector asks for entries; a granted entry is written; the count of
  entries in writing and the limiter change in any way; a flush; a run of the writer thread with a
  device layer that accepts its request; the completion of any request; the update of all
  addresses.\<close>

inductive wstep :: "nvm \<Rightarrow> wcfg \<Rightarrow> 'd wsys \<Rightarrow> 'd wsys \<Rightarrow> bool" for nv cfg where
  user: "pblk_rb_may_write_user nv rl (ring S) (limit S) n = Some (io, p, ev, rb', r') \<Longrightarrow> wstep nv cfg S (grant S p n rb' r')"
| gc: "pblk_rb_may_write_gc nv rl (ring S) (limit S) n = Some (p, ev, rb', r') \<Longrightarrow> wstep nv cfg S (grant S p n rb' r')"
| write_user: "(p, x) \<in> set (pend S) \<Longrightarrow> w_flags w = PBLK_IOTYPE_USER \<Longrightarrow>
    pblk_rb_write_entry_user (ring S) d w p = Some (ev, rb') \<Longrightarrow> wstep nv cfg S (put S p x d rb')"
| write_gc: "(p, x) \<in> set (pend S) \<Longrightarrow> w_flags w = PBLK_IOTYPE_GC \<Longrightarrow>
    pblk_rb_write_entry_gc nv moved (ring S) d w p = Some (ev, rb') \<Longrightarrow> wstep nv cfg S (put S p x d rb')"
| finish: "wstep nv cfg S (S\<lparr>ring := (ring S)\<lparr>nr_user := n\<rparr>, limit := r\<rparr>)"
| flush: "pblk_rb_flush mn (ring S) = Some (ev, rb') \<Longrightarrow> wstep nv cfg S (S\<lparr>ring := rb'\<rparr>)"
| submit: "out_ok out \<Longrightarrow> pblk_submit_write cfg fb ws out nrb (ring S) = Some (r, rb') \<Longrightarrow> wstep nv cfg S (send S r rb')"
| complete: "c \<in> set (infl S) \<Longrightarrow> pblk_complete_write (ring S) (compl S) c = Some (ev, rb', cl') \<Longrightarrow>
    wstep nv cfg S (S\<lparr>ring := rb', infl := remove1 c (infl S), compl := cl'\<rparr>)"
| sync: "pblk_rb_sync_l2p nv (ring S) (limit S) = Some (ev, rb', r') \<Longrightarrow> wstep nv cfg S (S\<lparr>ring := rb', limit := r'\<rparr>)"

inductive_cases wstepE: "wstep nv cfg S S'"

inductive wreach :: "nvm \<Rightarrow> wcfg \<Rightarrow> 'd wsys \<Rightarrow> bool" for nv cfg where
  init: "p < 32 \<Longrightarrow> length base = 2 ^ p \<Longrightarrow> (\<And>i. alloc i = Alloc_ok) \<Longrightarrow>
    pblk_rb_init nv junk mo alloc fresh bpl rl ctxs rb0 nrb base p sz = Some (Inr (rb, rls)) \<Longrightarrow>
    wreach nv cfg \<lparr>ring = rb, limit = r, infl = [], compl = [], pend = [], w_log = (\<lambda>_. None), sent_data = [], cnt = 0\<rparr>"
| step: "wreach nv cfg S \<Longrightarrow> wstep nv cfg S S' \<Longrightarrow> wreach nv cfg S'"

text \<open>The invariant.\<close>

definition waiting :: "'d pblk_rb_entry \<Rightarrow> bool" where
  "waiting e \<longleftrightarrow> has (w_flags (e_ctx e)) PBLK_WRITABLE_ENTRY \<and> \<not> readable e"

definition pend_ok :: "nat \<Rightarrow> nat \<Rightarrow> nat \<Rightarrow> 'd pblk_rb \<Rightarrow> (u32 \<times> nat) list \<Rightarrow> (nat \<Rightarrow> 'd option) \<Rightarrow> bool" where
  "pend_ok k b m rb ps lg \<longleftrightarrow> distinct (map snd ps) \<and>
    (\<forall>p x. (p, x) \<in> set ps \<longrightarrow> at k p x \<and> b \<le> x \<and> x < m \<and> waiting (ent rb k x)) \<and>
    (\<forall>x. b \<le> x \<and> x < m \<and> x \<notin> snd ` set ps \<longrightarrow> readable (ent rb k x) \<and> lg x = Some (e_data (ent rb k x)))"

definition wok_at :: "'d wsys \<Rightarrow> nat \<Rightarrow> nat \<Rightarrow> nat \<Rightarrow> nat \<Rightarrow> bool" where
  "wok_at S k l s b \<longleftrightarrow> ring_ok (ring S) k l s b (cnt S) \<and> outstanding k s b (infl S) (compl S) \<and>
    pend_ok k b (cnt S) (ring S) (pend S) (w_log S) \<and> map Some (sent_data S) = map (w_log S) [0..<b]"

lemma has_or: "has (f OR g) c \<longleftrightarrow> has f c \<or> has g c"
proof -
  have "(f OR g) AND c = (f AND c) OR (g AND c)" by (rule bit.conj_disj_distrib2)
  then show ?thesis by (simp add: has_def or_eq_0_iff)
qed

lemma waiting_writable: "w_flags (e_ctx e) = PBLK_WRITABLE_ENTRY \<Longrightarrow> waiting e"
  by (simp add: waiting_def readable_def has_def PBLK_WRITABLE_ENTRY_def PBLK_WRITTEN_DATA_def PBLK_INVALIDATE_ENTRY_def)


lemma core_reads:
  assumes "core e' = core e"
  shows "readable e' = readable e" "waiting e' = waiting e" "e_data e' = e_data e"
  using assms by (simp_all add: core_def readable_def waiting_def)

lemma pend_okD:
  assumes "pend_ok k b m rb ps lg"
  shows "distinct (map snd ps)" "\<And>p x. (p, x) \<in> set ps \<Longrightarrow> at k p x \<and> b \<le> x \<and> x < m \<and> waiting (ent rb k x)"
    "\<And>x. b \<le> x \<Longrightarrow> x < m \<Longrightarrow> x \<notin> snd ` set ps \<Longrightarrow> readable (ent rb k x) \<and> lg x = Some (e_data (ent rb k x))"
  using assms unfolding pend_ok_def by blast+

lemma pend_ok_same:
  assumes ok: "pend_ok k b m rb ps lg"
    and same: "\<And>x. b \<le> x \<Longrightarrow> x < m \<Longrightarrow> readable (ent rb' k x) = readable (ent rb k x) \<and>
      waiting (ent rb' k x) = waiting (ent rb k x) \<and> e_data (ent rb' k x) = e_data (ent rb k x)"
  shows "pend_ok k b m rb' ps lg"
  unfolding pend_ok_def
proof (intro conjI allI impI)
  fix p x assume "(p, x) \<in> set ps"
  from pend_okD(2) [OF ok this] show "at k p x" "b \<le> x" "x < m" "waiting (ent rb' k x)"
    using same [of x] by simp_all
next
  fix x assume "b \<le> x \<and> x < m \<and> x \<notin> snd ` set ps"
  with pend_okD(3) [OF ok, of x] show "readable (ent rb' k x)" "lg x = Some (e_data (ent rb' k x))"
    using same [of x] by simp_all
qed (rule pend_okD(1) [OF ok])

lemma pend_ok_core:
  assumes "pend_ok k b m rb ps lg" "\<And>x. b \<le> x \<Longrightarrow> x < m \<Longrightarrow> core (ent rb' k x) = core (ent rb k x)"
  shows "pend_ok k b m rb' ps lg"
  using assms(1) by (rule pend_ok_same) (simp add: core_reads [OF assms(2)])

lemma pend_ok_submit:
  assumes ok: "pend_ok k b m rb ps lg" and rd: "\<forall>e \<in> set (ents rb k b n). readable e" and n: "b + n \<le> m"
    and core: "\<And>x. b + n \<le> x \<Longrightarrow> x < m \<Longrightarrow> core (ent rb' k x) = core (ent rb k x)"
  shows "pend_ok k (b + n) m rb' ps lg" "map Some (map e_data (ents rb k b n)) = map lg [b..<b + n]"
proof -
  have readable: "readable (ent rb k x)" if "b \<le> x" "x < b + n" for x
    using rd that unfolding ents_def set_map set_upt by (simp only: ball_simps) (metis atLeastLessThan_iff)
  have out: "x \<notin> snd ` set ps" if "b \<le> x" "x < b + n" for x
    using pend_okD(2) [OF ok] readable [OF that] by (force simp: waiting_def)
  have later: "b + n \<le> x" if "(p, x) \<in> set ps" for p x
    using pend_okD(2) [OF ok that] out [of x] that by (force simp: not_less)
  have "pend_ok k (b + n) m rb ps lg"
    unfolding pend_ok_def using pend_okD [OF ok] later by (meson add_leD1)
  then show "pend_ok k (b + n) m rb' ps lg" using core by (rule pend_ok_core)
  have "map (\<lambda>x. Some (e_data (ent rb k x))) [b..<b + n] = map lg [b..<b + n]"
  proof (rule list.map_cong0)
    fix x assume "x \<in> set [b..<b + n]"
    then have x: "b \<le> x" "x < b + n" by (simp_all only: set_upt atLeastLessThan_iff)
    show "Some (e_data (ent rb k x)) = lg x"
      using pend_okD(3) [OF ok, of x] x n out [OF x] by simp
  qed
  then show "map Some (map e_data (ents rb k b n)) = map lg [b..<b + n]"
    by (simp add: ents_def comp_def)
qed

lemma pend_ok_put:
  assumes ok: "pend_ok k b m rb ps lg" and px: "(p, x) \<in> set ps"
    and e: "readable (ent rb' k x)" "e_data (ent rb' k x) = d"
    and others: "\<And>y. b \<le> y \<Longrightarrow> y < m \<Longrightarrow> y \<noteq> x \<Longrightarrow> ent rb' k y = ent rb k y"
  shows "pend_ok k b m rb' (remove1 (p, x) ps) (lg(x \<mapsto> d))"
proof -
  note P = pend_okD [OF ok]
  have dist: "distinct ps" using P(1) by (simp add: distinct_map)
  have only: "q = p" if "(q, x) \<in> set ps" for q
    using inj_onD [of snd "set ps" "(q, x)" "(p, x)"] P(1) px that by (simp add: distinct_map)
  have set: "set (remove1 (p, x) ps) = set ps - {(p, x)}" using dist by (rule set_remove1_eq)
  have snd: "snd ` set (remove1 (p, x) ps) = snd ` set ps - {x}"
    unfolding set using only by force
  show ?thesis
    unfolding pend_ok_def snd
  proof (intro conjI allI impI)
    show "distinct (map snd (remove1 (p, x) ps))"
      using P(1) dist set by (auto simp: distinct_map inj_on_def distinct_remove1)
  next
    fix q y assume "(q, y) \<in> set (remove1 (p, x) ps)"
    then have y: "(q, y) \<in> set ps" "y \<noteq> x" using set only by auto
    then show "at k q y" "b \<le> y" "y < m" "waiting (ent rb' k y)"
      using P(2) [OF y(1)] others [of y] by simp_all
  next
    fix y assume y: "b \<le> y \<and> y < m \<and> y \<notin> snd ` set ps - {x}"
    then show "readable (ent rb' k y)" "(lg(x \<mapsto> d)) y = Some (e_data (ent rb' k y))"
      using P(3) [of y] e others [of y] by (cases "y = x"; simp)+
  qed
qed

lemma pend_ok_grant:
  assumes ok: "pend_ok k b m rb ps lg" and bm: "b \<le> m"
    and old: "\<And>x. b \<le> x \<Longrightarrow> x < m \<Longrightarrow> ent rb' k x = ent rb k x"
    and new: "\<And>x. m \<le> x \<Longrightarrow> x < m + n \<Longrightarrow> waiting (ent rb' k x)" and pos: "\<And>i. i < n \<Longrightarrow> at k (f i) (m + i)"
  shows "pend_ok k b (m + n) rb' (ps @ map (\<lambda>i. (f i, m + i)) [0..<n]) lg"
proof -
  note P = pend_okD [OF ok]
  have fresh: "y < m" if "(q, y) \<in> set ps" for q y using P(2) [OF that] by simp
  have new_snd: "snd ` set (map (\<lambda>i. (f i, m + i)) [0..<n]) = {m..<m + n}"
    by (auto simp: image_image)
  show ?thesis
    unfolding pend_ok_def
  proof (intro conjI allI impI)
    show "distinct (map snd (ps @ map (\<lambda>i. (f i, m + i)) [0..<n]))"
      using P(1) by (auto simp: distinct_map inj_on_def dest: fresh)
  next
    fix p x assume "(p, x) \<in> set (ps @ map (\<lambda>i. (f i, m + i)) [0..<n])"
    then consider "(p, x) \<in> set ps" | i where "i < n" "p = f i" "x = m + i" by auto
    then show "at k p x" "b \<le> x" "x < m + n" "waiting (ent rb' k x)"
      by (cases; use P(2) [of p x] old [of x] new [of x] pos bm in force)+
  next
    fix x assume x: "b \<le> x \<and> x < m + n \<and> x \<notin> snd ` set (ps @ map (\<lambda>i. (f i, m + i)) [0..<n])"
    then have "x \<notin> snd ` set ps" "x < m" using new_snd by (auto simp: image_Un)
    then show "readable (ent rb' k x)" "lg x = Some (e_data (ent rb' k x))"
      using P(3) [of x] old [of x] x by simp_all
  qed
qed


text \<open>Changing one entry between \<open>subm\<close> and \<open>mem\<close>.\<close>

lemma ring_ok_set:
  assumes ok: "ring_ok rb k l s b m" and x: "b \<le> x" "x < m" and p: "at k p x"
    and rb': "entries rb' = (entries rb)[unat p := e]" "same_ptrs rb rb'"
  shows "ring_ok rb' k l s b m" "ent rb' k x = e" "\<And>y. b \<le> y \<Longrightarrow> y < m \<Longrightarrow> y \<noteq> x \<Longrightarrow> ent rb' k y = ent rb k y"
proof -
  note D = ring_okD [OF ok]
  have ent: "ent rb' k y = (if y mod 2 ^ k = x mod 2 ^ k then e else ent rb k y)" for y
    using D(1,3) p by (simp add: ent_def rb' at_unat nth_list_update)
  have other: "ent rb' k y = ent rb k y" if "l \<le> y" "y < l + 2 ^ k" "y \<noteq> x" for y
  proof -
    have "y mod 2 ^ k \<noteq> x mod 2 ^ k"
      using mod_eq_near [of y "2 ^ k" x l] that x D(8-11) by auto
    then show ?thesis unfolding ent by (rule if_not_P)
  qed
  show "ring_ok rb' k l s b m"
    by (rule ring_okI) (use D rb' x other in \<open>simp_all add: same_ptrs_def\<close>)
  show "ent rb' k x = e" by (simp add: ent)
  show "ent rb' k y = ent rb k y" if "b \<le> y" "y < m" "y \<noteq> x" for y
    using other [of y] that D(8-11) by simp
qed

lemma same_ptrs_set_entry: "same_ptrs rb (set_entry rb p e)"
  by (simp add: same_ptrs_def set_entry_def)

text \<open>A grant, for a user write or the collector.\<close>

lemma may_write_cases:
  assumes ok: "ring_ok rb k l s b m"
  shows "pblk_rb_may_write_at nv rb r n = Some (None, [], rb, r) \<or>
    (\<exists>c p ev r'. pblk_rb_may_write_at nv rb r n = Some (Some (mem rb), ev,
        rb\<lparr>entries := upd k (clean_entry nv) l c (entries rb), l2p_update := p\<rparr>, r') \<and>
      m + unat n < s + 2 ^ k \<and> at k p (l + c) \<and> c = overwritten k l m (unat n))"
  using may_write_at_refused [OF ok, of n nv r] may_write_at_granted [OF ok, of n nv r]
  by (cases "m + unat n < s + 2 ^ k") auto

lemma wok_grant:
  assumes ok: "wok_at S k l s b"
    and g: "m + unat n < s + 2 ^ k" "at k p (l + c)" "c = overwritten k l (cnt S) (unat n)" "m = cnt S"
    and rb': "entries rb' = upd k (clean_entry nv) l c (entries (ring S))" "l2p_update rb' = p"
      "mem rb' = (mem (ring S) + n) AND (nr_entries (ring S) - 1)" "nr_entries rb' = nr_entries (ring S)"
      "subm rb' = subm (ring S)" "sync rb' = sync (ring S)"
  shows "\<exists>l'. wok_at (grant S (Some (mem (ring S))) n rb' r') k l' s b"
proof -
  note W = ok [unfolded wok_at_def]
  have R: "ring_ok (ring S) k l s b (cnt S)" using W by blast
  note D = ring_okD [OF R]
  note G = ring_ok_grant [OF R _ g(2,3) rb', folded g(4), OF g(1)]
  have cs: "l + c \<le> s" using g D(8-11) unfolding overwritten_def by linarith
  have old: "ent rb' k x = ent (ring S) k x" if "b \<le> x" "x < cnt S" for x
    using ent_upd_out [OF D(3) _ _ rb'(1), of x] that cs D(8-11) by simp
  have pos: "at k (pblk_rb_wrap_pos rb' (mem (ring S) + of_nat i)) (cnt S + i)" if "i < unat n" for i
  proof -
    have "i < 2 ^ 32" using that unsigned_less [of n, where ?'a = nat] by simp
    then have "unat (of_nat i :: u32) = i" by (simp add: unat_of_nat)
    then show ?thesis
      using advance_at [OF D(1,7), of "of_nat i"] by (simp add: pblk_rb_wrap_pos_def rb' D(2))
  qed
  have "pend_ok k b (cnt S + unat n) rb' (pend S @ map (\<lambda>i. (pblk_rb_wrap_pos rb' (mem (ring S) + of_nat i), cnt S + i)) [0..<unat n]) (w_log S)"
    using W by (intro pend_ok_grant [of k b "cnt S" "ring S"]) (use D(10) old pos G(2) g(4) waiting_writable in \<open>auto simp: g(4)\<close>)
  then have "wok_at (grant S (Some (mem (ring S))) n rb' r') k (l + c) s b"
    using W G(1) by (simp add: wok_at_def grant_def g(4))
  then show ?thesis ..
qed


lemma wok_core:
  assumes "wok_at S k l s b" "ring_ok rb' k l' s b (cnt S)"
    and "\<And>x. b \<le> x \<Longrightarrow> x < cnt S \<Longrightarrow> core (ent rb' k x) = core (ent (ring S) k x)"
  shows "wok_at (S\<lparr>ring := rb', limit := r\<rparr>) k l' s b"
  using assms pend_ok_core [of k b "cnt S" "ring S" "pend S" "w_log S" rb'] by (simp add: wok_at_def)

lemma wok_refused:
  assumes "wok_at S k l s b"
  shows "\<exists>l'. wok_at (grant S None n (ring S) r') k l' s b"
  using wok_core [OF assms, of "ring S" l r'] assms by (auto simp: grant_def wok_at_def)

lemma wok_user:
  assumes ok: "wok_at S k l s b" and st: "pblk_rb_may_write_user nv rl (ring S) (limit S) n = Some (io, p, ev, rb', r')"
  shows "\<exists>l'. wok_at (grant S p n rb' r') k l' s b"
proof (cases "pblk_rl_user_may_insert rl (limit S) (sint n) = NVM_IO_OK")
  case False
  with st have "p = None" "rb' = ring S" by (simp_all add: pblk_rb_may_write_user_def Let_def)
  then show ?thesis using wok_refused [OF ok] by simp
next
  case True
  have R: "ring_ok (ring S) k l s b (cnt S)" using ok by (simp add: wok_at_def)
  from may_write_cases [OF R, of nv "limit S" n] show ?thesis
  proof (elim disjE exE conjE)
    assume "pblk_rb_may_write_at nv (ring S) (limit S) n = Some (None, [], ring S, limit S)"
    with st True have "p = None" "rb' = ring S"
      by (simp_all add: pblk_rb_may_write_user_def pblk_rb_may_write_flush_def Let_def)
    then show ?thesis using wok_refused [OF ok] by simp
  next
    fix c q ev' r''
    assume "pblk_rb_may_write_at nv (ring S) (limit S) n = Some (Some (mem (ring S)), ev',
        (ring S)\<lparr>entries := upd k (clean_entry nv) l c (entries (ring S)), l2p_update := q\<rparr>, r'')"
      and g: "cnt S + unat n < s + 2 ^ k" "at k q (l + c)" "c = overwritten k l (cnt S) (unat n)"
    with st True have "p = Some (mem (ring S))" and "rb' = (ring S)\<lparr>entries := upd k (clean_entry nv) l c (entries (ring S)),
        l2p_update := q, nr_user := nr_user (ring S) + n, mem := (mem (ring S) + n) AND (nr_entries (ring S) - 1)\<rparr>"
      by (simp_all add: pblk_rb_may_write_user_def pblk_rb_may_write_flush_def Let_def)
    then show ?thesis using wok_grant [OF ok g refl, of rb' nv r'] by simp
  qed
qed

lemma wok_gc:
  assumes ok: "wok_at S k l s b" and st: "pblk_rb_may_write_gc nv rl (ring S) (limit S) n = Some (p, ev, rb', r')"
  shows "\<exists>l'. wok_at (grant S p n rb' r') k l' s b"
proof (cases "pblk_rl_gc_may_insert rl (limit S) (sint n)")
  case False
  with st have "p = None" "rb' = ring S" by (simp_all add: pblk_rb_may_write_gc_def)
  then show ?thesis using wok_refused [OF ok] by simp
next
  case True
  have R: "ring_ok (ring S) k l s b (cnt S)" using ok by (simp add: wok_at_def)
  from may_write_cases [OF R, of nv "limit S" n] show ?thesis
  proof (elim disjE exE conjE)
    assume "pblk_rb_may_write_at nv (ring S) (limit S) n = Some (None, [], ring S, limit S)"
    with st True have "p = None" "rb' = ring S"
      by (simp_all add: pblk_rb_may_write_gc_def pblk_rb_may_write_def)
    then show ?thesis using wok_refused [OF ok] by simp
  next
    fix c q ev' r''
    assume "pblk_rb_may_write_at nv (ring S) (limit S) n = Some (Some (mem (ring S)), ev',
        (ring S)\<lparr>entries := upd k (clean_entry nv) l c (entries (ring S)), l2p_update := q\<rparr>, r'')"
      and g: "cnt S + unat n < s + 2 ^ k" "at k q (l + c)" "c = overwritten k l (cnt S) (unat n)"
    with st True have "p = Some (mem (ring S))" and "rb' = (ring S)\<lparr>entries := upd k (clean_entry nv) l c (entries (ring S)),
        l2p_update := q, mem := (mem (ring S) + n) AND (nr_entries (ring S) - 1)\<rparr>"
      by (simp_all add: pblk_rb_may_write_gc_def pblk_rb_may_write_def)
    then show ?thesis using wok_grant [OF ok g refl, of rb' nv r'] by simp
  qed
qed

lemma wok_put:
  assumes ok: "wok_at S k l s b" and px: "(p, x) \<in> set (pend S)"
    and rb': "rb' = set_entry (ring S) p e" and e: "has (w_flags (e_ctx e)) PBLK_WRITTEN_DATA" "e_data e = d"
  shows "wok_at (put S p x d rb') k l s b"
proof -
  note W = ok [unfolded wok_at_def]
  have R: "ring_ok (ring S) k l s b (cnt S)" and P: "pend_ok k b (cnt S) (ring S) (pend S) (w_log S)"
    using W by blast+
  have x: "at k p x" "b \<le> x" "x < cnt S" using pend_okD(2) [OF P px] by blast+
  have ptrs: "same_ptrs (ring S) rb'" and es: "entries rb' = (entries (ring S))[unat p := e]"
    using same_ptrs_set_entry [of "ring S" p e] by (simp_all add: rb' set_entry_def)
  note E = ring_ok_set [OF R x(2,3,1) es ptrs]
  have "pend_ok k b (cnt S) rb' (remove1 (p, x) (pend S)) ((w_log S)(x \<mapsto> d))"
    by (rule pend_ok_put [OF P px]) (use E e in \<open>simp_all add: readable_def\<close>)
  moreover have "map ((w_log S)(x \<mapsto> d)) [0..<b] = map (w_log S) [0..<b]"
    using x(2) by simp
  ultimately show ?thesis using W E(1) by (simp add: wok_at_def put_def)
qed

lemma has_or_right: "has (f OR PBLK_WRITTEN_DATA) PBLK_WRITTEN_DATA"
  by (simp add: has_or) (simp add: has_def PBLK_WRITTEN_DATA_def)

lemma wok_write_user:
  assumes ok: "wok_at S k l s b" and px: "(p, x) \<in> set (pend S)"
    and st: "pblk_rb_write_entry_user (ring S) d w p = Some (ev, rb')"
  shows "wok_at (put S p x d rb') k l s b"
proof -
  from st obtain e where "rb' = set_entry (ring S) p (set_flags (w_flags w OR PBLK_WRITTEN_DATA) (pblk_rb_write_entry d w e))"
    by (auto simp: pblk_rb_write_entry_user_def split: Option.bind_splits)
  then show ?thesis
    using wok_put [OF ok px] by (simp add: set_flags_def pblk_rb_write_entry_def has_or_right)
qed

lemma wok_write_gc:
  assumes ok: "wok_at S k l s b" and px: "(p, x) \<in> set (pend S)"
    and st: "pblk_rb_write_entry_gc nv moved (ring S) d w p = Some (ev, rb')"
  shows "wok_at (put S p x d rb') k l s b"
proof -
  from st obtain e where "rb' = set_entry (ring S) p (set_flags (w_flags w OR PBLK_WRITTEN_DATA) e)" "e_data e = d"
    by (auto simp: pblk_rb_write_entry_gc_def Let_def pblk_rb_write_entry_def split: Option.bind_splits if_splits)
  then show ?thesis
    using wok_put [OF ok px] by (simp add: set_flags_def has_or_right)
qed


lemma pred_at:
  assumes k: "k < 32" and p: "at k p x" and x: "0 < x"
  shows "at k (if p = 0 then 2 ^ k - 1 else p - 1) (x - 1)"
proof -
  have u: "unat p = x mod 2 ^ k" using p at_unat [OF k] by blast
  obtain y where y: "x = Suc y" using x by (cases x) auto
  show ?thesis
  proof (cases "p = 0")
    case True
    then have "Suc y mod 2 ^ k = 0" using u y by simp
    then have "y mod 2 ^ k = 2 ^ k - 1" by (simp add: mod_Suc split: if_splits)
    moreover have "unat (2 ^ k - 1 :: u32) = 2 ^ k - 1"
      using unat_exp_eq [where 'a = 32, of k] k by (simp add: unat_minus_one)
    ultimately show ?thesis using True y at_unat [OF k] by simp
  next
    case False
    then have "Suc y mod 2 ^ k \<noteq> 0" using u y by (metis unat_eq_zero)
    then have "Suc y mod 2 ^ k = Suc (y mod 2 ^ k)" by (simp add: mod_Suc split: if_splits)
    then show ?thesis using False u y at_unat [OF k] by (simp add: unat_minus_one)
  qed
qed

lemma flush_bit: "has (f OR PBLK_FLUSH_ENTRY) PBLK_WRITTEN_DATA = has f PBLK_WRITTEN_DATA"
    "has (f OR PBLK_FLUSH_ENTRY) PBLK_INVALIDATE_ENTRY = has f PBLK_INVALIDATE_ENTRY"
    "has (f OR PBLK_FLUSH_ENTRY) PBLK_WRITABLE_ENTRY = has f PBLK_WRITABLE_ENTRY"
  unfolding has_or
  by (simp_all add: has_def PBLK_FLUSH_ENTRY_def PBLK_WRITTEN_DATA_def PBLK_INVALIDATE_ENTRY_def PBLK_WRITABLE_ENTRY_def)

lemma sync_point_set_ok:
  assumes ok: "ring_ok rb k l s b m"
  shows "b = m \<and> pblk_rb_sync_point_set rb None (mem rb) = Some (False, rb\<lparr>inflight_sync_point := inflight_sync_point rb + 1\<rparr>) \<or>
    (\<exists>sp rb'. b < m \<and> at k sp (m - 1) \<and> pblk_rb_sync_point_set rb None (mem rb) = Some (False, rb') \<and> same_ptrs rb rb' \<and>
      entries rb' = (entries rb)[unat sp := set_flags (w_flags (e_ctx (ent rb k (m - 1))) OR PBLK_FLUSH_ENTRY) (ent rb k (m - 1))])"
proof -
  note D = ring_okD [OF ok]
  show ?thesis
  proof (cases "b = m")
    case True
    then have "mem rb = subm rb" using D(6,7) at_same by blast
    then show ?thesis using True by (simp add: pblk_rb_sync_point_set_def Let_def)
  next
    case False
    then have bm: "b < m" using D(10) by simp
    have "m mod 2 ^ k \<noteq> b mod 2 ^ k"
      using mod_eq_near [of m "2 ^ k" b b] bm D(8-11) by auto
    then have ne: "mem rb \<noteq> subm rb" using D(1,6,7) at_unat by metis
    define sp where "sp = (if mem rb = 0 then 2 ^ k - 1 else mem rb - 1 :: u32)"
    have sp: "at k sp (m - 1)" unfolding sp_def using pred_at [OF D(1,7)] bm by simp
    have e: "aget (entries rb) (unat sp) = Some (ent rb k (m - 1))"
      using sp D(1,3) by (simp add: ent_def at_unat)
    have "pblk_rb_sync_point_set rb None (mem rb) = Some (False, (set_entry (rb\<lparr>inflight_sync_point := inflight_sync_point rb + 1\<rparr>) sp
        (set_flags (w_flags (e_ctx (ent rb k (m - 1))) OR PBLK_FLUSH_ENTRY) (ent rb k (m - 1))))\<lparr>sync_point := sp\<rparr>)"
      using ne e unfolding sp_def by (cases "mem rb = 0") (simp_all add: pblk_rb_sync_point_set_def Let_def D(2))
    then show ?thesis using bm sp by (auto simp: same_ptrs_def set_entry_def)
  qed
qed

lemma wok_flush:
  assumes ok: "wok_at S k l s b" and st: "pblk_rb_flush mn (ring S) = Some (ev, rb')"
  shows "wok_at (S\<lparr>ring := rb'\<rparr>) k l s b"
proof -
  note W = ok [unfolded wok_at_def]
  have R: "ring_ok (ring S) k l s b (cnt S)" and P: "pend_ok k b (cnt S) (ring S) (pend S) (w_log S)"
    using W by blast+
  from sync_point_set_ok [OF R] show ?thesis
  proof (elim disjE conjE exE)
    assume "pblk_rb_sync_point_set (ring S) None (mem (ring S)) = Some (False, (ring S)\<lparr>inflight_sync_point := inflight_sync_point (ring S) + 1\<rparr>)"
    with st have rb': "rb' = (ring S)\<lparr>inflight_sync_point := inflight_sync_point (ring S) + 1\<rparr>"
      by (simp add: pblk_rb_flush_def)
    have c: "same_core (ring S) rb'" by (simp add: rb' same_core_def same_ptrs_def)
    have "wok_at (S\<lparr>ring := rb', limit := limit S\<rparr>) k l s b"
      by (rule wok_core [OF ok ring_ok_core [OF R c]]) (rule same_core_ent [OF c ring_okD(3) [OF R]])
    then show ?thesis by simp
  next
    fix sp rb1
    let ?e = "ent (ring S) k (cnt S - 1)"
    assume b: "b < cnt S" and sp: "at k sp (cnt S - 1)"
      and "pblk_rb_sync_point_set (ring S) None (mem (ring S)) = Some (False, rb1)"
      and rb1: "same_ptrs (ring S) rb1" "entries rb1 = (entries (ring S))[unat sp := set_flags (w_flags (e_ctx ?e) OR PBLK_FLUSH_ENTRY) ?e]"
    with st have rb': "rb' = rb1" by (simp add: pblk_rb_flush_def)
    have x: "b \<le> cnt S - 1" "cnt S - 1 < cnt S" using b by simp_all
    note E = ring_ok_set [OF R x sp rb1(2,1)]
    have same: "readable (ent rb1 k y) = readable (ent (ring S) k y) \<and> waiting (ent rb1 k y) = waiting (ent (ring S) k y) \<and>
        e_data (ent rb1 k y) = e_data (ent (ring S) k y)" if "b \<le> y" "y < cnt S" for y
      using E(2) E(3) [OF that] by (cases "y = cnt S - 1") (simp_all add: readable_def waiting_def set_flags_def flush_bit)
    have "pend_ok k b (cnt S) rb1 (pend S) (w_log S)"
      by (rule pend_ok_same [OF P]) (use same in blast)
    then show ?thesis using W E(1) by (simp add: wok_at_def rb')
  qed
qed


lemma wok_finish:
  assumes ok: "wok_at S k l s b"
  shows "wok_at (S\<lparr>ring := (ring S)\<lparr>nr_user := n\<rparr>, limit := r\<rparr>) k l s b"
proof (rule wok_core [OF ok])
  have "ring_ok (ring S) k l s b (cnt S)" using ok by (simp add: wok_at_def)
  then show "ring_ok ((ring S)\<lparr>nr_user := n\<rparr>) k l s b (cnt S)"
    by (simp add: ring_ok_def ring_at_def ent_def)
qed (simp add: ent_def)

lemma wok_submit:
  assumes ok: "wok_at S k l s b" and cfg: "cfg_ok cfg" and out: "out_ok out"
    and st: "pblk_submit_write cfg fb ws out nrb (ring S) = Some (r, rb')"
  shows "\<exists>b'. wok_at (send S r rb') k l s b'"
proof -
  note W = ok [unfolded wok_at_def]
  have R: "ring_ok (ring S) k l s b (cnt S)" and P: "pend_ok k b (cnt S) (ring S) (pend S) (w_log S)"
    using W by blast+
  from submit_write_cases [OF R cfg out, of fb ws nrb] show ?thesis
  proof (elim disjE exE conjE)
    assume "pblk_submit_write cfg fb ws out nrb (ring S) = Some (Idle, ring S)"
    then show ?thesis using ok st by (auto simp: send_def)
  next
    fix n
    assume n: "0 < n" "b + n \<le> cnt S"
      and cases: "if \<forall>e \<in> set (ents (ring S) k b n). readable e
       then \<exists>c rb'. pblk_submit_write cfg fb ws out nrb (ring S) = Some (Sent c (map e_data (ents (ring S) k b n)), rb') \<and>
         at k (sentry c) b \<and> unat (nr_valid c) = n \<and> ring_ok rb' k l s (b + n) (cnt S) \<and> nr_user rb' = nr_user (ring S) \<and>
         (\<forall>x. b + n \<le> x \<and> x < cnt S \<longrightarrow> core (ent rb' k x) = core (ent (ring S) k x))
       else pblk_submit_write cfg fb ws out nrb (ring S) = None"
    then have rd: "\<forall>e \<in> set (ents (ring S) k b n). readable e" using st by (auto split: if_splits)
    with cases st obtain c where r: "r = Sent c (map e_data (ents (ring S) k b n))" "at k (sentry c) b" "unat (nr_valid c) = n"
      "ring_ok rb' k l s (b + n) (cnt S)" and core: "\<And>x. b + n \<le> x \<Longrightarrow> x < cnt S \<Longrightarrow> core (ent rb' k x) = core (ent (ring S) k x)"
      by auto
    note Q = pend_ok_submit [OF P rd n(2) core]
    obtain cs where cs: "chain k s cs b" "mset cs = mset (infl S) + mset (compl S)" "cs \<noteq> [] \<longrightarrow> hd cs \<notin> set (compl S)"
      using W unfolding outstanding_def by blast
    have "chain k s (cs @ [c]) (b + n)"
      using cs(1) r(2,3) n(1) by (auto simp: chain_append)
    moreover have "hd (cs @ [c]) \<notin> set (compl S)"
      using cs by (cases cs) auto
    moreover have "mset (cs @ [c]) = mset (infl S @ [c]) + mset (compl S)"
      using cs(2) by simp
    ultimately have "outstanding k s (b + n) (infl S @ [c]) (compl S)"
      unfolding outstanding_def by blast
    moreover have "map Some (sent_data S @ map e_data (ents (ring S) k b n)) = map (w_log S) [0..<b + n]"
      using W Q(2) upt_add_eq_append [of 0 b n] by simp
    ultimately have "wok_at (send S r rb') k l s (b + n)"
      using r(4) Q(1) by (simp add: wok_at_def send_def r(1))
    then show ?thesis ..
  qed
qed

lemma wok_complete:
  assumes ok: "wok_at S k l s b" and c: "c \<in> set (infl S)"
    and st: "pblk_complete_write (ring S) (compl S) c = Some (ev, rb', cl')"
  shows "\<exists>s'. wok_at (S\<lparr>ring := rb', infl := remove1 c (infl S), compl := cl'\<rparr>) k l s' b"
proof -
  note W = ok [unfolded wok_at_def]
  have R: "ring_ok (ring S) k l s b (cnt S)" and out: "outstanding k s b (infl S) (compl S)"
    and P: "pend_ok k b (cnt S) (ring S) (pend S) (w_log S)" using W by blast+
  obtain ev2 rb2 cl2 s' where "pblk_complete_write (ring S) (compl S) c = Some (ev2, rb2, cl2)"
    and r2: "ring_ok rb2 k l s' b (cnt S)" "same_data k (ring S) rb2" "outstanding k s' b (remove1 c (infl S)) cl2"
    using complete_write_ok [OF R out c] by blast
  with st have eq: "rb2 = rb'" "cl2 = cl'" by simp_all
  note s' = r2 [unfolded eq]
  have "core (ent rb' k x) = core (ent (ring S) k x)" for x
    using s'(2) unfolding same_data_def by blast
  then have "pend_ok k b (cnt S) rb' (pend S) (w_log S)"
    by (rule pend_ok_core [OF P])
  then have "wok_at (S\<lparr>ring := rb', infl := remove1 c (infl S), compl := cl'\<rparr>) k l s' b"
    using W s' by (simp add: wok_at_def)
  then show ?thesis ..
qed

lemma sync_l2p_ok:
  assumes ok: "ring_ok rb k l s b m"
  shows "\<exists>p ev r'. at k p s \<and> pblk_rb_sync_l2p nv rb r =
    Some (ev, rb\<lparr>entries := upd k (clean_entry nv) l (s - l) (entries rb), l2p_update := p\<rparr>, r')"
proof -
  note D = ring_okD [OF ok]
  have "unat (pblk_rb_ring_count (sync rb) (l2p_update rb) (nr_entries rb)) = s - l"
    unfolding D(2) using D by (intro count_at) simp_all
  with update_l2p_n_ok [OF ok, of "pblk_rb_ring_count (sync rb) (l2p_update rb) (nr_entries rb)" nv r] D(8)
  show ?thesis by (auto simp: pblk_rb_sync_l2p_def)
qed

lemma wok_sync:
  assumes ok: "wok_at S k l s b" and st: "pblk_rb_sync_l2p nv (ring S) (limit S) = Some (ev, rb', r')"
  shows "wok_at (S\<lparr>ring := rb', limit := r'\<rparr>) k s s b"
proof -
  have R: "ring_ok (ring S) k l s b (cnt S)" using ok by (simp add: wok_at_def)
  note D = ring_okD [OF R]
  obtain p where p: "at k p (l + (s - l))" and rb': "rb' = (ring S)\<lparr>entries := upd k (clean_entry nv) l (s - l) (entries (ring S)), l2p_update := p\<rparr>"
    using sync_l2p_ok [OF R, of nv "limit S"] st D(8) by auto
  have "ring_ok rb' k (l + (s - l)) s b (cnt S)"
    by (rule ring_ok_clean [OF R _ p rb']) (use D(8) in simp)
  moreover have "ent rb' k x = ent (ring S) k x" if "b \<le> x" "x < cnt S" for x
    using ent_upd_out [OF D(3), of l "s - l" x rb' "clean_entry nv"] that D(8-11) by (simp add: rb')
  ultimately show ?thesis using wok_core [OF ok, of rb' s r'] D(8) by simp
qed

lemma wstep_wok:
  assumes "wok_at S k l s b" "cfg_ok cfg" "wstep nv cfg S S'"
  shows "\<exists>l' s' b'. wok_at S' k l' s' b'"
  using assms(3)
proof (cases rule: wstep.cases)
  case user
  then show ?thesis using wok_user [OF assms(1)] by blast
next
  case gc
  then show ?thesis using wok_gc [OF assms(1)] by blast
next
  case write_user
  then show ?thesis using wok_write_user [OF assms(1)] by blast
next
  case write_gc
  then show ?thesis using wok_write_gc [OF assms(1)] by blast
next
  case finish
  then show ?thesis using wok_finish [OF assms(1)] by blast
next
  case flush
  then show ?thesis using wok_flush [OF assms(1)] by blast
next
  case submit
  then show ?thesis using wok_submit [OF assms(1,2)] by blast
next
  case complete
  then show ?thesis using wok_complete [OF assms(1)] by blast
next
  case sync
  then show ?thesis using wok_sync [OF assms(1)] by blast
qed


lemma wreach_ok:
  assumes "wreach nv cfg S" "cfg_ok cfg"
  shows "\<exists>k l s b. wok_at S k l s b"
  using assms
proof (induction rule: wreach.induct)
  case (init p base alloc junk mo fresh bpl rl ctxs rb0 nrb sz rb rls r)
  have "ring_ok rb p 0 0 0 0"
    using pblk_rb_init_ok [OF init(1,2), of alloc nv junk mo fresh bpl rl ctxs rb0 nrb sz] init(3,4) by auto
  moreover have "outstanding p 0 0 [] []"
    unfolding outstanding_def by (intro exI [of _ "[]"]) simp
  ultimately have "wok_at \<lparr>ring = rb, limit = r, infl = [], compl = [], pend = [], w_log = (\<lambda>_. None), sent_data = [], cnt = 0\<rparr> p 0 0 0"
    by (simp add: wok_at_def pend_ok_def)
  then show ?case by blast
next
  case (step S S')
  then show ?case using wstep_wok by blast
qed

text \<open>The operations return on a ring that satisfies the invariant.\<close>

lemma grants_return:
  assumes "ring_ok rb k l s b m"
  shows "pblk_rb_may_write_user nv rl rb r n \<noteq> None" "pblk_rb_may_write_gc nv rl rb r n \<noteq> None"
  using may_write_cases [OF assms, of nv r n]
  by (auto simp: pblk_rb_may_write_user_def pblk_rb_may_write_gc_def pblk_rb_may_write_flush_def pblk_rb_may_write_def Let_def
      simp del: not_None_eq)

lemma writes_return:
  assumes ok: "ring_ok rb k l s b m" and P: "pend_ok k b m rb ps lg" and px: "(p, x) \<in> set ps"
  shows "pblk_rb_write_entry_user rb d w p \<noteq> None" "pblk_rb_write_entry_gc nv moved rb d w p \<noteq> None"
proof -
  note D = ring_okD [OF ok]
  have "at k p x" "waiting (ent rb k x)" using pend_okD(2) [OF P px] by blast+
  then have "aget (entries rb) (unat p) = Some (ent rb k x)" "has (w_flags (e_ctx (ent rb k x))) PBLK_WRITABLE_ENTRY"
    using D(1,3) by (simp_all add: ent_def at_unat waiting_def)
  then show "pblk_rb_write_entry_user rb d w p \<noteq> None" "pblk_rb_write_entry_gc nv moved rb d w p \<noteq> None"
    by (simp_all add: pblk_rb_write_entry_user_def pblk_rb_write_entry_gc_def Let_def)
qed

lemma flush_returns: "ring_ok rb k l s b m \<Longrightarrow> pblk_rb_flush mn rb \<noteq> None"
  using sync_point_set_ok [of rb k l s b m] by (auto simp: pblk_rb_flush_def)

lemma submit_returns:
  assumes ok: "ring_ok rb k l s b m" and P: "pend_ok k b m rb [] lg" and cfg: "cfg_ok cfg" and out: "out_ok out"
  shows "pblk_submit_write cfg fb ws out nrb rb \<noteq> None"
proof -
  have rd: "readable e" if "e \<in> set (ents rb k b n)" "b + n \<le> m" for e n
  proof -
    from that(1) obtain x where "b \<le> x" "x < b + n" "e = ent rb k x"
      unfolding ents_def by (auto simp only: set_map set_upt atLeastLessThan_iff image_iff)
    then show ?thesis using pend_okD(3) [OF P, of x] that(2) by simp
  qed
  from submit_write_cases [OF ok cfg out, of fb ws nrb] show ?thesis
    by (elim disjE exE conjE) (auto simp: rd split: if_splits)
qed

section \<open>Running a sequence of steps\<close>

text \<open>A sequence of operations, for the examples.\<close>

datatype 'd wop = User pblk_rl u32 | Write 'd pblk_w_ctx | Finish u32 pblk_rl_per_rb | Flush | Submit w_outcome | Complete nat | Sync

fun exec1 :: "nvm \<Rightarrow> wcfg \<Rightarrow> 'd wop \<Rightarrow> 'd wsys \<Rightarrow> 'd wsys option" where
  "exec1 nv cfg (User rl n) S = do {
    (io, p, ev, rb', r') \<leftarrow> pblk_rb_may_write_user nv rl (ring S) (limit S) n;
    Some (grant S p n rb' r') }"
| "exec1 nv cfg (Write d w) S = (case pend S of [] \<Rightarrow> None | (p, x) # _ \<Rightarrow> do {
    ensure (w_flags w = PBLK_IOTYPE_USER);
    (ev, rb') \<leftarrow> pblk_rb_write_entry_user (ring S) d w p;
    Some (put S p x d rb') })"
| "exec1 nv cfg (Finish n r) S = Some (S\<lparr>ring := (ring S)\<lparr>nr_user := n\<rparr>, limit := r\<rparr>)"
| "exec1 nv cfg Flush S = do {
    (ev, rb') \<leftarrow> pblk_rb_flush (min_write_pgs cfg) (ring S);
    Some (S\<lparr>ring := rb'\<rparr>) }"
| "exec1 nv cfg (Submit out) S = do {
    (r, rb') \<leftarrow> pblk_submit_write cfg 100 0 out 0 (ring S);
    Some (send S r rb') }"
| "exec1 nv cfg (Complete i) S = do {
    c \<leftarrow> aget (infl S) i;
    (ev, rb', cl') \<leftarrow> pblk_complete_write (ring S) (compl S) c;
    Some (S\<lparr>ring := rb', infl := remove1 c (infl S), compl := cl'\<rparr>) }"
| "exec1 nv cfg Sync S = do {
    (ev, rb', r') \<leftarrow> pblk_rb_sync_l2p nv (ring S) (limit S);
    Some (S\<lparr>ring := rb', limit := r'\<rparr>) }"

lemma exec1_wstep:
  assumes "exec1 nv cfg a S = Some S'" "\<And>out. a = Submit out \<Longrightarrow> out_ok out"
  shows "wstep nv cfg S S'"
proof (cases a)
  case (Write d w)
  then obtain p x ps where ps: "pend S = (p, x) # ps" using assms(1) by (cases "pend S") auto
  with Write assms(1) obtain ev rb' where "w_flags w = PBLK_IOTYPE_USER" "pblk_rb_write_entry_user (ring S) d w p = Some (ev, rb')"
    "S' = put S p x d rb'" by (auto simp: crash_simps split: Option.bind_splits)
  then show ?thesis using wstep.write_user [of p x S w] ps by simp
next
  case (Complete i)
  then show ?thesis using assms(1) by (auto simp: crash_simps split: Option.bind_splits intro: wstep.complete)
qed (use assms in \<open>auto split: Option.bind_splits intro: wstep.intros\<close>)

lemma exec_wreach:
  assumes "wreach nv cfg S" "ofold (exec1 nv cfg) as S = Some S'" "\<And>out. Submit out \<in> set as \<Longrightarrow> out_ok out"
  shows "wreach nv cfg S'"
  using assms
proof (induction as arbitrary: S)
  case (Cons a as)
  then obtain T where T: "exec1 nv cfg a S = Some T" "ofold (exec1 nv cfg) as T = Some S'" by (auto split: Option.bind_splits)
  have "wstep nv cfg S T" by (rule exec1_wstep [OF T(1)]) (use Cons.prems(3) in simp)
  with Cons.prems(1) have "wreach nv cfg T" by (rule wreach.step)
  then show ?case using Cons.IH T(2) Cons.prems(3) by simp
qed simp


section \<open>The properties of the write path\<close>


text \<open>C5. The buffer is a queue.  In every state the operations can reach, the sectors sent to the
  device so far are the data written to the entries, in the order in which the entries were
  granted: the i-th sector sent is what was written to the i-th granted entry.\<close>

theorem device_gets_writes_in_order:
  assumes "wreach nv cfg S" "cfg_ok cfg"
  shows "length (sent_data S) \<le> cnt S \<and> (\<forall>i < length (sent_data S). w_log S i = Some (sent_data S ! i))"
proof -
  obtain k l s b where W: "wok_at S k l s b" using wreach_ok [OF assms] by blast
  then have R: "ring_ok (ring S) k l s b (cnt S)" and L: "map Some (sent_data S) = map (w_log S) [0..<b]"
    by (simp_all add: wok_at_def)
  from L have len: "length (sent_data S) = b" by (metis diff_zero length_map length_upt)
  have "w_log S i = Some (sent_data S ! i)" if "i < b" for i
    using arg_cong [OF L, of "\<lambda>xs. xs ! i"] that len by simp
  moreover have "b \<le> cnt S" using ring_okD [OF R] by linarith
  ultimately show ?thesis using len by simp
qed



text \<open>C37. A flush does not make the writer write.  Whatever sync point is set, the writer returns with nothing
  done while fewer than eight sectors more than the smallest write are in the buffer.\<close>

theorem flush_leaves_entries:
  assumes "ring_ok rb k l s b m" "int (m - b) < min_write_pgs cfg + 8" "min_write_pgs cfg < 2 ^ 30"
  shows "pblk_submit_write cfg fb ws out nrb (rb\<lparr>sync_point := sp\<rparr>) = Some (Idle, rb\<lparr>sync_point := sp\<rparr>)"
proof -
  note D = ring_okD [OF assms(1)]
  let ?rc = "pblk_rb_read_count rb"
  have rc: "unat ?rc = m - b"
    unfolding pblk_rb_read_count_def D(2) using D by (intro count_at) simp_all
  have "unat (word_of_int (min_write_pgs cfg + 8) :: u32) = nat (min_write_pgs cfg + 8)"
    using assms(2,3) by (intro unat_word_of_int) simp_all
  then have "?rc < word_of_int (min_write_pgs cfg + 8)"
    unfolding word_less_nat_alt rc using assms(2) by simp
  then have "(if ?rc > nr_user rb then ?rc - nr_user rb else 0) < word_of_int (min_write_pgs cfg + 8)"
    using le_less_trans [OF word_sub_le [of "nr_user rb" ?rc]] le_less_trans [OF word_zero_le [of ?rc]]
    by (cases "?rc > nr_user rb") (simp_all add: order_less_imp_le del: of_int_add)
  moreover have "pblk_rb_read_count (rb\<lparr>sync_point := sp\<rparr>) = ?rc" by (simp add: pblk_rb_read_count_def)
  ultimately show ?thesis by (cases "?rc > nr_user rb") (simp_all add: pblk_submit_write_def Let_def del: of_int_add)
qed

section \<open>An example run\<close>

text \<open>A ring of sixteen entries: ten writes, a flush and a run of the writer thread that sends four of
  them as one request.\<close>

definition ex_cfg :: wcfg where
  "ex_cfg = \<lparr>min_write_pgs = 1, max_write_pgs = 8, sec_per_write = 4\<rparr>"

definition ex_rl :: pblk_rl where
  "ex_rl = small_rl\<lparr>rb_user_max := 16\<rparr>"

definition ex_ctx :: pblk_w_ctx where
  "ex_ctx = \<lparr>w_bios = [], w_lba = 0, w_ppa = 0, w_flags = PBLK_IOTYPE_USER, w_submit_flags = 0\<rparr>"

definition ex_out :: w_outcome where
  "ex_out = \<lparr>rqd_ok = True, bio_ok = True, pages = \<lparr>page = (\<lambda>_. True), pad = True\<rparr>, io_set = Set_ok, addr_of = (\<lambda>i. of_nat i)\<rparr>"

definition ex_ops :: "nat wop list" where
  "ex_ops = [User ex_rl 10] @ map (\<lambda>i. Write (100 + i) ex_ctx) [0..<10] @ [Finish 0 small_rb_rl, Flush, Submit ex_out]"

definition ex_init :: "nat wsys" where
  "ex_init = (case pblk_rb_init small_nvm 0 10 (\<lambda>_. Alloc_ok) (\<lambda>i. i) 4 ex_rl [small_rb_rl] small_rb0 0 (replicate 16 small_entry) 4 12 of
    Some (Inr (rb, _)) \<Rightarrow> \<lparr>ring = rb, limit = small_rb_rl, infl = [], compl = [], pend = [], w_log = (\<lambda>_. None), sent_data = [], cnt = 0\<rparr>)"

definition ex_state :: "nat wsys" where
  "ex_state = the (ofold (exec1 small_nvm ex_cfg) ex_ops ex_init)"

lemma ex_init_wreach: "wreach small_nvm ex_cfg ex_init"
proof -
  have p: "(4 :: nat) < 32" and len: "length (replicate 16 small_entry) = 2 ^ 4" by simp_all
  obtain rb rls where "pblk_rb_init small_nvm 0 10 (\<lambda>_. Alloc_ok) (\<lambda>i. i) 4 ex_rl [small_rb_rl] small_rb0 0 (replicate 16 small_entry) 4 12 =
      Some (Inr (rb, rls))"
    using pblk_rb_init_ok [OF _ len, of "\<lambda>_. Alloc_ok" small_nvm 0 10 "\<lambda>i. i" 4 ex_rl "[small_rb_rl]" small_rb0 0 12] p by blast
  moreover from wreach.init [OF _ _ _ this] have
    "wreach small_nvm ex_cfg \<lparr>ring = rb, limit = small_rb_rl, infl = [], compl = [], pend = [], w_log = (\<lambda>_. None), sent_data = [], cnt = 0\<rparr>" by simp
  ultimately show ?thesis by (simp add: ex_init_def)
qed

lemma ex_run: "map_option (\<lambda>S. (sent_data S, map sentry (infl S), cnt S, map (w_log S) [0..<11])) (ofold (exec1 small_nvm ex_cfg) ex_ops ex_init) =
    Some ([100, 101, 102, 103], [0], 10, map Some [100..<110] @ [None])"
  by code_simp

lemma ex_state_eq: "ofold (exec1 small_nvm ex_cfg) ex_ops ex_init = Some ex_state"
  using ex_run by (auto simp: ex_state_def)

lemma ex_state_wreach: "wreach small_nvm ex_cfg ex_state"
  by (rule exec_wreach [OF ex_init_wreach ex_state_eq]) (auto simp: ex_ops_def ex_out_def out_ok_def)

lemma ex_cfg_ok: "cfg_ok ex_cfg"
  by (simp add: cfg_ok_def ex_cfg_def)

lemma ex_state_is: "sent_data ex_state = [100, 101, 102, 103]" "map sentry (infl ex_state) = [0]" "cnt ex_state = 10"
  using ex_run by (simp_all add: ex_state_eq upt_conv_Cons)


theorem device_gets_writes_in_order_witness: "w_log ex_state 3 = Some (sent_data ex_state ! 3) \<and> length (sent_data ex_state) = 4"
  using device_gets_writes_in_order [OF ex_state_wreach ex_cfg_ok] by (simp add: ex_state_is)



theorem flush_leaves_entries_witness:
  "pblk_submit_write ex_cfg 100 0 ex_out 0 ((ring ex_state)\<lparr>sync_point := 9\<rparr>) = Some (Idle, (ring ex_state)\<lparr>sync_point := 9\<rparr>) \<and>
    cnt ex_state - length (sent_data ex_state) = 6"
proof -
  obtain k l s b where W: "wok_at ex_state k l s b" using wreach_ok [OF ex_state_wreach ex_cfg_ok] by blast
  then have R: "ring_ok (ring ex_state) k l s b (cnt ex_state)" and L: "map Some (sent_data ex_state) = map (w_log ex_state) [0..<b]"
    by (simp_all add: wok_at_def)
  from arg_cong [OF L, of length] have "b = 4" by (simp add: ex_state_is)
  then have "pblk_submit_write ex_cfg 100 0 ex_out 0 ((ring ex_state)\<lparr>sync_point := 9\<rparr>) = Some (Idle, (ring ex_state)\<lparr>sync_point := 9\<rparr>)"
    by (intro flush_leaves_entries [OF R]) (simp_all add: ex_cfg_def ex_state_is)
  then show ?thesis by (simp add: ex_state_is)
qed

end
