(* ===== verification/Pblk_Dftl.thy ===== *)
theory Pblk_Dftl
  imports Rbtree
begin

text \<open>
  The cached mapping table of pblk (\<open>mstream-pblk/pblk-dftl.c\<close>): which segments of the logical address
  space have their map in memory.  The cache has a budget of map entries, the segments are kept in a
  red-black tree by number and in a list by their last use, and the segment not used for the
  longest time leaves first.

  The layout of \<open>struct pba_addr\<close> is not part of the sources; the fields that are read here are
  those of the record \<open>pba_addr\<close>.  Both containers hold the same objects, so the list is
  represented by the numbers of the segments.  The functions run under \<open>map_lock\<close>.
\<close>

section \<open>Data\<close>

definition NONE_MAP :: int where "NONE_MAP = 0"
definition BLOCK_MAP :: int where "BLOCK_MAP = 1"
definition SECTOR_MAP :: int where "SECTOR_MAP = 2"
definition PAGE_MAP :: int where "PAGE_MAP = 3"

lemmas map_type_defs = NONE_MAP_def BLOCK_MAP_def SECTOR_MAP_def PAGE_MAP_def

record pblk_lstream =
  map_type :: int
  ls_map_size :: int
  ls_log_size :: int

record map_entry =
  lseg :: int
  dirty :: int
  nr_log :: u32
  map_size :: u32

record pblk_cmt_mgt =
  max_res :: u32
  alloc_res :: u32
  root :: "map_entry list"
  map_list :: "int list"
  nr_mapread :: u64
  nr_mapwrite :: u64

text \<open>What the map of the segments holds: the stream, whether a log is allocated, the kind of
  map, and for a page map the same flag of its pages (behind \<open>pointer\<close>).\<close>

record pba_addr =
  m_lstream :: nat
  m_is_cached :: bool
  m_map :: int
  pmap :: "bool list"

text \<open>The surroundings: the map, the streams, the pages of a segment, and whether the pool of entries
  has one left (\<open>mempool_alloc\<close> with \<open>GFP_ATOMIC\<close> may return none, which is not tested).\<close>

record dftl_env =
  trans_map :: "pba_addr list"
  lstream :: "pblk_lstream list"
  pmap_entry_num :: nat
  pool_left :: bool

section \<open>Operations\<close>

definition pblk_search_cmt :: "pblk_cmt_mgt \<Rightarrow> int \<Rightarrow> map_entry option" where
  "pblk_search_cmt c n = rb_search lseg n (root c)"

definition pblk_insert_cmt :: "bool \<Rightarrow> pblk_cmt_mgt \<Rightarrow> int \<Rightarrow> int \<Rightarrow> int \<Rightarrow> int \<Rightarrow> pblk_cmt_mgt option" where
  "pblk_insert_cmt pool c n msize nlog d = (case pblk_search_cmt c n of
      Some me \<Rightarrow> Some c
    | None \<Rightarrow> do {
        ensure pool;
        let me = \<lparr>lseg = n, dirty = d, nr_log = word_of_int nlog, map_size = word_of_int msize\<rparr>;
        Some (c\<lparr>root := rb_link lseg n me (root c), map_list := map_list c @ [n],
          nr_mapread := nr_mapread c + 1, alloc_res := alloc_res c + word_of_int (msize + nlog)\<rparr>)
      })"

definition pblk_delete_cmt :: "pblk_cmt_mgt \<Rightarrow> int \<Rightarrow> pblk_cmt_mgt" where
  "pblk_delete_cmt c n = (case pblk_search_cmt c n of
      None \<Rightarrow> c
    | Some me \<Rightarrow> c\<lparr>map_list := remove1 n (map_list c), root := rb_erase lseg n (root c),
        alloc_res := alloc_res c - map_size me - nr_log me\<rparr>)"

text \<open>\<open>need_res\<close> and \<open>free_res\<close> are signed, \<open>get_res\<close> is not; an empty list is a \<open>BUG\<close>.\<close>

fun evict_loop :: "int \<Rightarrow> int \<Rightarrow> u32 \<Rightarrow> int list \<Rightarrow> pblk_cmt_mgt \<Rightarrow> pblk_cmt_mgt option" where
  "evict_loop need free get [] c = (if need > free then None else Some (c\<lparr>alloc_res := alloc_res c - get, map_list := []\<rparr>))"
| "evict_loop need free get (n # ns) c = (if need > free then do {
      me \<leftarrow> pblk_search_cmt c n;
      evict_loop need (sint (word_of_int free + map_size me + nr_log me :: u32)) (get + (map_size me + nr_log me)) ns
        (c\<lparr>root := rb_erase lseg n (root c), nr_mapwrite := (if dirty me \<noteq> 0 then nr_mapwrite c + 1 else nr_mapwrite c)\<rparr>)
    } else Some (c\<lparr>alloc_res := alloc_res c - get, map_list := n # ns\<rparr>))"

definition pblk_evict_cmt :: "pblk_cmt_mgt \<Rightarrow> int \<Rightarrow> pblk_cmt_mgt option" where
  "pblk_evict_cmt c need = evict_loop need (sint (max_res c - alloc_res c)) 0 (map_list c) c"

text \<open>The size of the entry of a segment that is not cached: its map and its logs.\<close>

definition load_sizes :: "dftl_env \<Rightarrow> pba_addr \<Rightarrow> pblk_lstream \<Rightarrow> (int \<times> int) option" where
  "load_sizes env pba ls = (if map_type ls = PAGE_MAP then do {
      ensure (pmap_entry_num env \<le> length (pmap pba));
      Some (4096, sum_list (map (\<lambda>cached. if cached then ls_log_size ls else 0) (take (pmap_entry_num env) (pmap pba))))
    } else if m_map pba = BLOCK_MAP then Some (ls_log_size ls, 0)
    else Some (4096, 0))"

definition pblk_load_cmt :: "dftl_env \<Rightarrow> pblk_cmt_mgt \<Rightarrow> int \<Rightarrow> int \<Rightarrow> pblk_cmt_mgt option" where
  "pblk_load_cmt env c n d = do {
    ensure (0 \<le> n);
    pba \<leftarrow> aget (trans_map env) (nat n);
    ls \<leftarrow> aget (lstream env) (m_lstream pba);
    if map_type ls = BLOCK_MAP \<and> \<not> m_is_cached pba then Some c
    else case pblk_search_cmt c n of
      Some me \<Rightarrow> Some (c\<lparr>root := (if d \<noteq> 0 then rb_modify lseg n (\<lambda>me. me\<lparr>dirty := 1\<rparr>) (root c) else root c),
          map_list := remove1 n (map_list c) @ [n]\<rparr>)
    | None \<Rightarrow> do {
        (msize, logs) \<leftarrow> load_sizes env pba ls;
        c1 \<leftarrow> (if sint (max_res c - alloc_res c) < msize + logs then pblk_evict_cmt c (msize + logs) else Some c);
        pblk_insert_cmt (pool_left env) c1 n msize logs d
      }
  }"

text \<open>The entry of a segment, loaded if need be.\<close>

definition find_or_load :: "dftl_env \<Rightarrow> pblk_cmt_mgt \<Rightarrow> int \<Rightarrow> pblk_cmt_mgt option" where
  "find_or_load env c n = (case pblk_search_cmt c n of
      Some me \<Rightarrow> Some c
    | None \<Rightarrow> do {
        c1 \<leftarrow> pblk_load_cmt env c n 1;
        ensure (pblk_search_cmt c1 n \<noteq> None);
        Some c1
      })"

text \<open>The logs of a page-mapped segment are counted in its entry, which is held in a pointer while
  other entries are evicted: if it is evicted itself, the pointer is used after the entry was freed.\<close>

definition pblk_alloc_log :: "dftl_env \<Rightarrow> pblk_cmt_mgt \<Rightarrow> int \<Rightarrow> int \<Rightarrow> u32 \<Rightarrow> pblk_cmt_mgt option" where
  "pblk_alloc_log env c n type log_size = do {
    ensure (type = BLOCK_MAP \<or> type = PAGE_MAP);
    c1 \<leftarrow> (if type = PAGE_MAP then find_or_load env c n else Some c);
    c2 \<leftarrow> (if max_res c1 - alloc_res c1 < log_size then pblk_evict_cmt c1 (sint log_size) else Some c1);
    if type = BLOCK_MAP then
      (case pblk_search_cmt c2 n of
         None \<Rightarrow> pblk_insert_cmt (pool_left env) c2 n 0 (sint log_size) 1
       | Some me \<Rightarrow> Some c2)
    else do {
      ensure (pblk_search_cmt c2 n \<noteq> None);
      Some (c2\<lparr>root := rb_modify lseg n (\<lambda>me. me\<lparr>nr_log := nr_log me + log_size, dirty := 1\<rparr>) (root c2),
        alloc_res := alloc_res c2 + log_size\<rparr>)
    }
  }"

definition pblk_free_log :: "dftl_env \<Rightarrow> pblk_cmt_mgt \<Rightarrow> int \<Rightarrow> int \<Rightarrow> u32 \<Rightarrow> pblk_cmt_mgt option" where
  "pblk_free_log env c n type log_size = (if type = BLOCK_MAP then Some (pblk_delete_cmt c n)
    else do {
      ensure (type = PAGE_MAP);
      c1 \<leftarrow> find_or_load env c n;
      Some (c1\<lparr>root := rb_modify lseg n (\<lambda>me. me\<lparr>nr_log := nr_log me - log_size\<rparr>) (root c1),
        alloc_res := alloc_res c1 - log_size\<rparr>)
    })"

definition pblk_change_map :: "dftl_env \<Rightarrow> pblk_cmt_mgt \<Rightarrow> int \<Rightarrow> pblk_cmt_mgt option" where
  "pblk_change_map env c n = pblk_load_cmt env (pblk_delete_cmt c n) n 1"

text \<open>The table at the start (\<open>pblk_l2p_init\<close>): a budget of 64 maps, one of them taken.\<close>

definition cmt_init :: "u64 \<Rightarrow> u64 \<Rightarrow> pblk_cmt_mgt" where
  "cmt_init rd wr = \<lparr>max_res = 64 * 1024, alloc_res = 4096, root = [], map_list = [], nr_mapread = rd, nr_mapwrite = wr\<rparr>"


section \<open>The table as a list of segments by last use\<close>

interpretation cmt: keyed_store lseg "rb_search lseg" "rb_link lseg" "rb_modify lseg" "rb_erase lseg" set "rb_ordered lseg"
  by (rule rbtree_keyed_store)

definition entry_res :: "map_entry \<Rightarrow> nat" where
  "entry_res me = unat (map_size me) + unat (nr_log me)"

definition res :: "map_entry list \<Rightarrow> int \<Rightarrow> nat" where
  "res t n = (case rb_search lseg n t of None \<Rightarrow> 0 | Some me \<Rightarrow> entry_res me)"

definition view :: "map_entry list \<Rightarrow> int list \<Rightarrow> (int \<times> nat) list" where
  "view t ns = map (\<lambda>n. (n, res t n)) ns"

definition cache :: "pblk_cmt_mgt \<Rightarrow> (int \<times> nat) list" where
  "cache c = view (root c) (map_list c)"

definition lru_total :: "(int \<times> nat) list \<Rightarrow> nat" where
  "lru_total xs = sum_list (map snd xs)"

definition same_nodes :: "map_entry list \<Rightarrow> int list \<Rightarrow> bool" where
  "same_nodes t ns \<longleftrightarrow> rb_ordered lseg t \<and> distinct ns \<and> set ns = lseg ` set t"

definition cmt_ok :: "pblk_cmt_mgt \<Rightarrow> bool" where
  "cmt_ok c \<longleftrightarrow> same_nodes (root c) (map_list c) \<and> max_res c = 65536 \<and>
    unat (alloc_res c) = 4096 + lru_total (cache c) \<and> 4096 + lru_total (cache c) \<le> 65536"

text \<open>The specification: segments with their sizes, the one used last at the end.  Room is made by dropping
  the front until the new segment fits.\<close>

fun make_room :: "nat \<Rightarrow> (int \<times> nat) list \<Rightarrow> (int \<times> nat) list option" where
  "make_room need [] = (if 4096 + need \<le> 65536 then Some [] else None)"
| "make_room need (x # xs) = (if 4096 + lru_total (x # xs) + need \<le> 65536 then Some (x # xs) else make_room need xs)"

definition lru_touch :: "int \<Rightarrow> (int \<times> nat) list \<Rightarrow> (int \<times> nat) list" where
  "lru_touch n xs = filter (\<lambda>x. fst x \<noteq> n) xs @ filter (\<lambda>x. fst x = n) xs"

definition lru_load :: "int \<Rightarrow> nat \<Rightarrow> (int \<times> nat) list \<Rightarrow> (int \<times> nat) list option" where
  "lru_load n sz xs = (if n \<in> fst ` set xs then Some (lru_touch n xs)
    else map_option (\<lambda>ys. ys @ [(n, sz)]) (make_room sz xs))"

definition lru_resize :: "int \<Rightarrow> (nat \<Rightarrow> nat) \<Rightarrow> (int \<times> nat) list \<Rightarrow> (int \<times> nat) list" where
  "lru_resize n f xs = map (\<lambda>x. if fst x = n then (n, f (snd x)) else x) xs"

lemma lru_total_simps [simp]: "lru_total [] = 0" "lru_total (x # xs) = snd x + lru_total xs" "lru_total (xs @ ys) = lru_total xs + lru_total ys"
  by (simp_all add: lru_total_def)

lemma view_simps [simp]: "view t [] = []" "view t (n # ns) = (n, res t n) # view t ns" "view t (ns @ ms) = view t ns @ view t ms"
    "map fst (view t ns) = ns" "fst ` set (view t ns) = set ns"
  by (simp_all add: view_def comp_def image_image)

lemma view_cong: "(\<And>n. n \<in> set ns \<Longrightarrow> res t n = res t' n) \<Longrightarrow> view t ns = view t' ns"
  by (simp add: view_def)

lemma same_nodes_search:
  assumes "same_nodes t ns"
  shows "rb_search lseg n t = None \<longleftrightarrow> n \<notin> set ns"
  using assms cmt.search_None [of t n] by (auto simp: same_nodes_def)

lemma res_erase: "rb_ordered lseg t \<Longrightarrow> m \<noteq> n \<Longrightarrow> res (rb_erase lseg n t) m = res t m"
  by (simp add: res_def cmt.search_erase)

lemma res_link: "rb_ordered lseg t \<Longrightarrow> rb_search lseg n t = None \<Longrightarrow> lseg me = n \<Longrightarrow>
    res (rb_link lseg n me t) m = (if m = n then entry_res me else res t m)"
  by (simp add: res_def cmt.search_link)

lemma same_nodes_erase:
  assumes "same_nodes t ns"
  shows "same_nodes (rb_erase lseg n t) (remove1 n ns)"
  using assms by (auto simp: same_nodes_def cmt.inv_erase cmt.nodes_erase)

lemma same_nodes_link:
  assumes "same_nodes t ns" "n \<notin> set ns" "lseg me = n"
  shows "same_nodes (rb_link lseg n me t) (ns @ [n])"
  using assms same_nodes_search [OF assms(1), of n] by (auto simp: same_nodes_def cmt.inv_link cmt.nodes_link)

lemma same_nodes_modify:
  assumes "same_nodes t ns" "\<And>e. lseg e = n \<Longrightarrow> lseg (f e) = n"
  shows "same_nodes (rb_modify lseg n f t) ns"
proof -
  have "lseg ` set (rb_modify lseg n f t) = lseg ` set t"
    unfolding cmt.nodes_modify image_image by (rule image_cong [OF refl]) (use assms(2) in simp)
  with assms show ?thesis by (simp add: same_nodes_def cmt.inv_modify)
qed

lemma res_modify:
  assumes "rb_ordered lseg t" "\<And>e. lseg e = n \<Longrightarrow> lseg (f e) = n"
  shows "res (rb_modify lseg n f t) m = (if m = n then case rb_search lseg n t of None \<Rightarrow> 0 | Some e \<Rightarrow> entry_res (f e) else res t m)"
  using assms by (auto simp: res_def cmt.search_modify split: option.splits)

text \<open>Arithmetic of the budget: no sum wraps.\<close>

lemma sint_small: "0 \<le> n \<Longrightarrow> n < 2147483648 \<Longrightarrow> sint (word_of_int n :: u32) = n"
  by (simp add: sint_sbintrunc' signed_take_bit_int_eq_self)

lemma unat_word_of_int_small: "0 \<le> n \<Longrightarrow> n < 2147483648 \<Longrightarrow> unat (word_of_int n :: u32) = nat n"
  by (simp add: unat_eq_nat_uint uint_word_of_int_eq take_bit_int_eq_self)

lemma sint_unat: "unat k < 2147483648 \<Longrightarrow> sint (k :: u32) = int (unat k)"
proof -
  assume "unat k < 2147483648"
  then have "int (unat k) < 2147483648" by linarith
  from sint_small [OF _ this] show ?thesis by simp
qed

lemma evict_free:
  assumes "lru_total (view t (n # ns)) \<le> 61440" "rb_search lseg n t = Some me"
  shows "sint (word_of_int (61440 - int (lru_total (view t (n # ns)))) + map_size me + nr_log me :: u32) =
    61440 - int (lru_total (view t ns))"
proof -
  have e: "res t n = unat (map_size me) + unat (nr_log me)" using assms(2) by (simp add: res_def entry_res_def)
  have "word_of_int (61440 - int (lru_total (view t (n # ns)))) + map_size me + nr_log me =
      (word_of_int (61440 - int (lru_total (view t (n # ns))) + int (unat (map_size me)) + int (unat (nr_log me))) :: u32)"
    by simp
  also have "61440 - int (lru_total (view t (n # ns))) + int (unat (map_size me)) + int (unat (nr_log me)) = 61440 - int (lru_total (view t ns))"
    using e by simp
  finally show ?thesis using assms(1) by (simp only:) (rule sint_small, simp_all)
qed

text \<open>The eviction drops what the specification drops.\<close>

lemma evict_loop_ok:
  assumes "same_nodes (root c) ns" "max_res c = 65536" "lru_total (view (root c) ns) \<le> 61440"
    and "unat (alloc_res c - get) = 4096 + lru_total (view (root c) ns)" "free = 61440 - int (lru_total (view (root c) ns))"
  shows "case make_room need (view (root c) ns) of
      None \<Rightarrow> evict_loop (int need) free get ns c = None
    | Some ys \<Rightarrow> \<exists>c'. evict_loop (int need) free get ns c = Some c' \<and> cmt_ok c' \<and> cache c' = ys \<and> 4096 + lru_total ys + need \<le> 65536"
  using assms
proof (induction ns arbitrary: c free get)
  case Nil
  then show ?case by (simp add: cmt_ok_def cache_def)
next
  case (Cons n ns)
  have fits: "int need > free \<longleftrightarrow> \<not> 4096 + lru_total (view (root c) (n # ns)) + need \<le> 65536"
    using Cons.prems(3,5) by auto
  show ?case
  proof (cases "int need > free")
    case False
    then show ?thesis using Cons.prems fits by (simp add: cmt_ok_def cache_def)
  next
    case True
    obtain me where me: "rb_search lseg n (root c) = Some me"
      using same_nodes_search [OF Cons.prems(1), of n] by auto
    let ?c = "c\<lparr>root := rb_erase lseg n (root c), nr_mapwrite := (if dirty me \<noteq> 0 then nr_mapwrite c + 1 else nr_mapwrite c)\<rparr>"
    have sn: "same_nodes (root ?c) ns" using same_nodes_erase [OF Cons.prems(1), of n] by simp
    have v: "view (rb_erase lseg n (root c)) ns = view (root c) ns"
      using Cons.prems(1) by (intro view_cong res_erase) (auto simp: same_nodes_def)
    have r: "res (root c) n = unat (map_size me + nr_log me)"
    proof -
      have "unat (map_size me) + unat (nr_log me) < 2 ^ 32"
        using Cons.prems(3) me by (simp add: res_def entry_res_def)
      then show ?thesis using me by (simp add: res_def entry_res_def unat_word_ariths)
    qed
    have al: "unat (alloc_res c - (get + (map_size me + nr_log me))) = 4096 + lru_total (view (root c) ns)"
    proof -
      have "map_size me + nr_log me \<le> alloc_res c - get"
        using Cons.prems(4) r by (simp add: word_le_nat_alt)
      then have "unat (alloc_res c - get - (map_size me + nr_log me)) = unat (alloc_res c - get) - unat (map_size me + nr_log me)"
        by (rule unat_sub)
      then show ?thesis using Cons.prems(4) r by (simp add: algebra_simps)
    qed
    have "case make_room need (view (root ?c) ns) of
        None \<Rightarrow> evict_loop (int need) (61440 - int (lru_total (view (root c) ns))) (get + (map_size me + nr_log me)) ns ?c = None
      | Some ys \<Rightarrow> \<exists>c'. evict_loop (int need) (61440 - int (lru_total (view (root c) ns))) (get + (map_size me + nr_log me)) ns ?c = Some c' \<and>
          cmt_ok c' \<and> cache c' = ys \<and> 4096 + lru_total ys + need \<le> 65536"
      by (rule Cons.IH [OF sn]) (use Cons.prems(2,3) al v in simp_all)
    moreover have "evict_loop (int need) free get (n # ns) c =
        evict_loop (int need) (61440 - int (lru_total (view (root c) ns))) (get + (map_size me + nr_log me)) ns ?c"
      using True me evict_free [OF Cons.prems(3) me] Cons.prems(5) by (simp add: pblk_search_cmt_def)
    ultimately show ?thesis using True fits v
      by (cases "make_room need (view (root c) ns)") (simp_all del: evict_loop.simps)
  qed
qed

lemma free_res:
  assumes "cmt_ok c"
  shows "max_res c - alloc_res c = word_of_nat (61440 - lru_total (cache c))" "sint (max_res c - alloc_res c) = 61440 - int (lru_total (cache c))"
    "unat (max_res c - alloc_res c) = 61440 - lru_total (cache c)"
proof -
  have a: "unat (alloc_res c) = 4096 + lru_total (cache c)" "4096 + lru_total (cache c) \<le> 65536" "max_res c = 65536"
    using assms by (simp_all add: cmt_ok_def)
  have "alloc_res c \<le> max_res c" using a by (simp add: word_le_nat_alt)
  then have u: "unat (max_res c - alloc_res c) = 61440 - lru_total (cache c)" using a by (simp add: unat_sub)
  then show w: "max_res c - alloc_res c = word_of_nat (61440 - lru_total (cache c))" by (metis of_nat_unat ucast_id)
  show "unat (max_res c - alloc_res c) = 61440 - lru_total (cache c)" by (rule u)
  have "sint (word_of_int (61440 - int (lru_total (cache c))) :: u32) = 61440 - int (lru_total (cache c))"
    using a by (intro sint_small) simp_all
  then show "sint (max_res c - alloc_res c) = 61440 - int (lru_total (cache c))" using a(2) by (simp add: w of_nat_diff)
qed

lemma evict_ok:
  assumes "cmt_ok c"
  shows "case make_room need (cache c) of
      None \<Rightarrow> pblk_evict_cmt c (int need) = None
    | Some ys \<Rightarrow> \<exists>c'. pblk_evict_cmt c (int need) = Some c' \<and> cmt_ok c' \<and> cache c' = ys \<and> 4096 + lru_total ys + need \<le> 65536"
  unfolding pblk_evict_cmt_def cache_def [of c]
  by (rule evict_loop_ok) (use assms free_res(2) [OF assms] in \<open>simp_all add: cmt_ok_def cache_def\<close>)

lemma insert_cmt_ok:
  assumes ok: "cmt_ok c" and n: "n \<notin> set (map_list c)" and sz: "0 \<le> ms" "0 \<le> lg" "4096 + lru_total (cache c) + nat (ms + lg) \<le> 65536"
  shows "\<exists>c'. pblk_insert_cmt True c n ms lg d = Some c' \<and> cmt_ok c' \<and> cache c' = cache c @ [(n, nat (ms + lg))]"
proof -
  have sn: "same_nodes (root c) (map_list c)" using ok by (simp add: cmt_ok_def)
  have s: "rb_search lseg n (root c) = None" using same_nodes_search [OF sn] n by simp
  let ?me = "\<lparr>lseg = n, dirty = d, nr_log = word_of_int lg, map_size = word_of_int ms\<rparr>"
  let ?c = "c\<lparr>root := rb_link lseg n ?me (root c), map_list := map_list c @ [n], nr_mapread := nr_mapread c + 1,
      alloc_res := alloc_res c + word_of_int (ms + lg)\<rparr>"
  have u: "unat (word_of_int x :: u32) = nat x" if "0 \<le> x" "x \<le> ms + lg" for x
    using that sz by (simp add: unat_word_of_int_small)
  have e: "entry_res ?me = nat (ms + lg)" using u [of ms] u [of lg] sz by (simp add: entry_res_def)
  have "view (rb_link lseg n ?me (root c)) (map_list c) = view (root c) (map_list c)"
    using n s sn by (intro view_cong) (auto simp: res_link same_nodes_def)
  then have ca: "cache ?c = cache c @ [(n, nat (ms + lg))]"
    using s sn e by (simp add: cache_def res_link same_nodes_def)
  have "unat (alloc_res c + word_of_int (ms + lg)) = unat (alloc_res c) + nat (ms + lg)"
    using ok sz u [of "ms + lg"] by (simp add: cmt_ok_def unat_word_ariths)
  then have "cmt_ok ?c" using ok sz same_nodes_link [OF sn n, of ?me] ca unfolding cmt_ok_def by simp
  with ca s show ?thesis by (simp add: pblk_insert_cmt_def pblk_search_cmt_def Let_def)
qed

lemma filter_view:
  "distinct ns \<Longrightarrow> filter (\<lambda>x. fst x \<noteq> n) (view t ns) = view t (remove1 n ns)"
  "distinct ns \<Longrightarrow> n \<in> set ns \<Longrightarrow> filter (\<lambda>x. fst x = n) (view t ns) = [(n, res t n)]"
  by (induction ns) (auto simp: remove1_idem filter_empty_conv view_def)

lemma total_split: "lru_total xs = lru_total (filter (\<lambda>x. fst x \<noteq> n) xs) + lru_total (filter (\<lambda>x. fst x = n) xs)"
  by (induction xs) simp_all

lemma touch_total: "lru_total (lru_touch n xs) = lru_total xs"
  by (induction xs) (auto simp: lru_touch_def)

lemma touch_ok:
  assumes ok: "cmt_ok c" and n: "n \<in> set (map_list c)"
  shows "\<exists>c'. c' = c\<lparr>root := (if d \<noteq> 0 then rb_modify lseg n (\<lambda>me. me\<lparr>dirty := 1\<rparr>) (root c) else root c),
      map_list := remove1 n (map_list c) @ [n]\<rparr> \<and> cmt_ok c' \<and> cache c' = lru_touch n (cache c)"
proof -
  have sn: "same_nodes (root c) (map_list c)" using ok by (simp add: cmt_ok_def)
  define t where "t = (if d \<noteq> 0 then rb_modify lseg n (\<lambda>me. me\<lparr>dirty := 1\<rparr>) (root c) else root c)"
  have sn': "same_nodes t (map_list c)" using same_nodes_modify [OF sn, of n "\<lambda>me. me\<lparr>dirty := 1\<rparr>"] sn by (simp add: t_def)
  have r: "res t m = res (root c) m" for m
    using res_modify [of "root c" n "\<lambda>me. me\<lparr>dirty := 1\<rparr>" m] sn
    by (auto simp: t_def same_nodes_def res_def entry_res_def split: option.splits)
  let ?c = "c\<lparr>root := t, map_list := remove1 n (map_list c) @ [n]\<rparr>"
  have ca: "cache ?c = lru_touch n (cache c)"
    using sn n by (simp add: cache_def lru_touch_def filter_view same_nodes_def) (simp add: view_def r)
  moreover have "same_nodes t (remove1 n (map_list c) @ [n])" using sn' n by (auto simp: same_nodes_def)
  ultimately have "cmt_ok ?c" using ok unfolding cmt_ok_def by (simp add: touch_total)
  with ca show ?thesis by (simp add: t_def)
qed

lemma delete_ok:
  assumes ok: "cmt_ok c"
  shows "cmt_ok (pblk_delete_cmt c n) \<and> cache (pblk_delete_cmt c n) = filter (\<lambda>x. fst x \<noteq> n) (cache c)"
proof -
  have sn: "same_nodes (root c) (map_list c)" using ok by (simp add: cmt_ok_def)
  show ?thesis
  proof (cases "rb_search lseg n (root c)")
    case None
    then have "n \<notin> set (map_list c)" using same_nodes_search [OF sn] by simp
    then have "filter (\<lambda>x. fst x \<noteq> n) (cache c) = cache c" by (auto simp: cache_def view_def filter_id_conv)
    with None ok show ?thesis by (simp add: pblk_delete_cmt_def pblk_search_cmt_def)
  next
    case (Some me)
    let ?c = "c\<lparr>map_list := remove1 n (map_list c), root := rb_erase lseg n (root c), alloc_res := alloc_res c - map_size me - nr_log me\<rparr>"
    have v: "view (rb_erase lseg n (root c)) (remove1 n (map_list c)) = view (root c) (remove1 n (map_list c))"
      using sn by (intro view_cong res_erase) (auto simp: same_nodes_def)
    then have ca: "cache ?c = filter (\<lambda>x. fst x \<noteq> n) (cache c)" using sn by (simp add: cache_def filter_view same_nodes_def)
    have n: "n \<in> set (map_list c)" using Some same_nodes_search [OF sn] by force
    have tot: "lru_total (cache c) = lru_total (filter (\<lambda>x. fst x \<noteq> n) (cache c)) + entry_res me"
      using total_split [of "cache c" n] n sn Some by (simp add: cache_def filter_view same_nodes_def res_def)
    have "unat (alloc_res c - map_size me - nr_log me) = 4096 + lru_total (filter (\<lambda>x. fst x \<noteq> n) (cache c))"
    proof -
      have "map_size me \<le> alloc_res c" using ok tot by (simp add: cmt_ok_def word_le_nat_alt entry_res_def)
      then have s: "unat (alloc_res c - map_size me) = unat (alloc_res c) - unat (map_size me)" by (rule unat_sub)
      then have "nr_log me \<le> alloc_res c - map_size me" using ok tot by (simp add: cmt_ok_def word_le_nat_alt entry_res_def)
      then have "unat (alloc_res c - map_size me - nr_log me) = unat (alloc_res c - map_size me) - unat (nr_log me)" by (rule unat_sub)
      then show ?thesis using ok tot s by (simp add: cmt_ok_def entry_res_def)
    qed
    then have "cmt_ok ?c" using ok same_nodes_erase [OF sn, of n] ca tot unfolding cmt_ok_def by simp
    with ca Some show ?thesis by (simp add: pblk_delete_cmt_def pblk_search_cmt_def)
  qed
qed

text \<open>A change of the log size of one entry.\<close>

lemma resize_total: "distinct (map fst xs) \<Longrightarrow> (n, k) \<in> set xs \<Longrightarrow> lru_total (lru_resize n f xs) + k = lru_total xs + f k"
proof (induction xs)
  case (Cons x xs)
  show ?case
  proof (cases "fst x = n")
    case True
    then have "n \<notin> fst ` set xs" using Cons.prems(1) by auto
    then have "lru_resize n f xs = xs" unfolding lru_resize_def by (intro map_idI) auto
    moreover have "x = (n, k)" using Cons.prems True \<open>n \<notin> fst ` set xs\<close> by (force simp: image_iff)
    ultimately show ?thesis by (simp add: lru_resize_def)
  next
    case False
    then show ?thesis using Cons by (auto simp: lru_resize_def)
  qed
qed simp

lemma relog_ok:
  assumes ok: "cmt_ok c" and me: "rb_search lseg n (root c) = Some me" and g: "\<And>e. lseg (g e) = lseg e \<and> map_size (g e) = map_size e \<and> nr_log (g e) = h (nr_log e)"
    and h: "unat (h (nr_log me)) = k" and fits: "4096 + lru_total (cache c) + k \<le> 65536 + unat (nr_log me)"
    and al: "unat al + unat (nr_log me) = unat (alloc_res c) + k"
  shows "cmt_ok (c\<lparr>root := rb_modify lseg n g (root c), alloc_res := al\<rparr>) \<and>
    cache (c\<lparr>root := rb_modify lseg n g (root c), alloc_res := al\<rparr>) = lru_resize n (\<lambda>s. s - unat (nr_log me) + k) (cache c)"
proof -
  let ?c = "c\<lparr>root := rb_modify lseg n g (root c), alloc_res := al\<rparr>"
  have sn: "same_nodes (root c) (map_list c)" using ok by (simp add: cmt_ok_def)
  have n: "n \<in> set (map_list c)" using me same_nodes_search [OF sn] by force
  have r: "res (rb_modify lseg n g (root c)) m = (if m = n then res (root c) n - unat (nr_log me) + k else res (root c) m)" for m
    using res_modify [of "root c" n g m] sn me g h by (simp add: same_nodes_def res_def entry_res_def)
  then have ca: "cache ?c = lru_resize n (\<lambda>s. s - unat (nr_log me) + k) (cache c)"
    by (simp add: cache_def lru_resize_def view_def)
  have "(n, entry_res me) \<in> set (cache c)" using n me by (auto simp: cache_def view_def res_def)
  then have tot: "lru_total (cache ?c) + entry_res me = lru_total (cache c) + (entry_res me - unat (nr_log me) + k)"
    unfolding ca using sn by (intro resize_total) (simp_all add: cache_def same_nodes_def)
  have "cmt_ok ?c"
    using ok same_nodes_modify [OF sn, of n g] g tot fits al unfolding cmt_ok_def by (simp add: entry_res_def)
  with ca show ?thesis by blast
qed


text \<open>A segment the table can load: it has a map entry and a stream, and its size is a size.\<close>

definition seg_ok :: "dftl_env \<Rightarrow> int \<Rightarrow> int \<Rightarrow> int \<Rightarrow> bool" where
  "seg_ok env n ms lg \<longleftrightarrow> 0 \<le> n \<and> nat n < length (trans_map env) \<and> m_lstream (trans_map env ! nat n) < length (lstream env) \<and>
    load_sizes env (trans_map env ! nat n) (lstream env ! m_lstream (trans_map env ! nat n)) = Some (ms, lg) \<and>
    0 \<le> ms \<and> 0 \<le> lg \<and> pool_left env"

text \<open>A segment of a block-mapped stream without a log needs no map in memory.\<close>

definition bypassed :: "dftl_env \<Rightarrow> int \<Rightarrow> bool" where
  "bypassed env n \<longleftrightarrow> map_type (lstream env ! m_lstream (trans_map env ! nat n)) = BLOCK_MAP \<and> \<not> m_is_cached (trans_map env ! nat n)"

lemma make_room_fits: "4096 + lru_total xs + need \<le> 65536 \<Longrightarrow> make_room need xs = Some xs"
  by (cases xs) simp_all

lemma make_room_suffix: "make_room need xs = Some ys \<Longrightarrow> \<exists>zs. xs = zs @ ys"
  by (induction xs arbitrary: ys) (auto split: if_splits intro: exI [of _ "[]"] exI [of _ "_ # _"])

lemma cache_keys: "fst ` set (cache c) = set (map_list c)"
  by (simp add: cache_def)

lemma room_ok:
  assumes ok: "cmt_ok c" and b: "b \<longleftrightarrow> 61440 - lru_total (cache c) < need"
  shows "case make_room need (cache c) of
      None \<Rightarrow> (if b then pblk_evict_cmt c (int need) else Some c) = None
    | Some ys \<Rightarrow> \<exists>c'. (if b then pblk_evict_cmt c (int need) else Some c) = Some c' \<and> cmt_ok c' \<and> cache c' = ys \<and> 4096 + lru_total ys + need \<le> 65536"
proof (cases b)
  case True
  then show ?thesis using evict_ok [OF ok, of need] by simp
next
  case False
  then have "4096 + lru_total (cache c) + need \<le> 65536" using b ok unfolding cmt_ok_def by linarith
  then show ?thesis using False ok by (simp add: make_room_fits)
qed

lemma load_ok:
  assumes ok: "cmt_ok c" and seg: "seg_ok env n ms lg" and by': "\<not> bypassed env n"
  shows "case lru_load n (nat (ms + lg)) (cache c) of
      None \<Rightarrow> pblk_load_cmt env c n d = None
    | Some ys \<Rightarrow> \<exists>c'. pblk_load_cmt env c n d = Some c' \<and> cmt_ok c' \<and> cache c' = ys"
proof -
  have sn: "same_nodes (root c) (map_list c)" using ok by (simp add: cmt_ok_def)
  show ?thesis
  proof (cases "n \<in> set (map_list c)")
    case True
    then obtain me where "pblk_search_cmt c n = Some me" using same_nodes_search [OF sn] by (auto simp: pblk_search_cmt_def)
    then show ?thesis using touch_ok [OF ok True, of d] True seg by' by (auto simp: lru_load_def cache_keys pblk_load_cmt_def seg_ok_def bypassed_def)
  next
    case False
    then have s: "pblk_search_cmt c n = None" using same_nodes_search [OF sn] by (simp add: pblk_search_cmt_def)
    have sz: "0 \<le> ms" "0 \<le> lg" using seg by (simp_all add: seg_ok_def)
    let ?b = "sint (max_res c - alloc_res c) < ms + lg"
    let ?r = "if ?b then pblk_evict_cmt c (ms + lg) else Some c"
    have l: "pblk_load_cmt env c n d = do { c1 \<leftarrow> ?r; pblk_insert_cmt True c1 n ms lg d }"
      using seg s by' by (auto simp: pblk_load_cmt_def seg_ok_def bypassed_def)
    have "?b \<longleftrightarrow> 61440 - lru_total (cache c) < nat (ms + lg)"
      using free_res(2) [OF ok] sz ok by (auto simp: cmt_ok_def)
    moreover have i: "int (nat (ms + lg)) = ms + lg" using sz by simp
    ultimately have R: "case make_room (nat (ms + lg)) (cache c) of None \<Rightarrow> ?r = None
      | Some ys \<Rightarrow> \<exists>c'. ?r = Some c' \<and> cmt_ok c' \<and> cache c' = ys \<and> 4096 + lru_total ys + nat (ms + lg) \<le> 65536"
      using room_ok [OF ok, of ?b "nat (ms + lg)"] by (simp only:)
    show ?thesis
    proof (cases "make_room (nat (ms + lg)) (cache c)")
      case None
      then show ?thesis using R l False sz by (auto simp: lru_load_def cache_keys split: if_splits)
    next
      case (Some ys)
      then obtain c1 where c1: "?r = Some c1" "cmt_ok c1" "cache c1 = ys" "4096 + lru_total ys + nat (ms + lg) \<le> 65536"
        using R sz by auto
      have "n \<notin> set (map_list c1)"
        using make_room_suffix [OF Some] False c1(3) cache_keys [of c] cache_keys [of c1] by (auto simp: image_Un)
      from insert_cmt_ok [OF c1(2) this sz, of d] c1 show ?thesis
        using Some False by (auto simp: lru_load_def cache_keys l)
    qed
  qed
qed


lemma load_keeps:
  assumes "cmt_ok c" "seg_ok env n ms lg" "pblk_load_cmt env c n d = Some c'"
  shows "cmt_ok c'"
proof (cases "bypassed env n")
  case True
  then show ?thesis using assms by (auto simp: pblk_load_cmt_def seg_ok_def bypassed_def)
next
  case False
  from load_ok [OF assms(1,2) False, of d] assms(3) show ?thesis
    by (auto split: option.splits)
qed

lemma find_or_load_keeps:
  assumes "cmt_ok c" "seg_ok env n ms lg" "find_or_load env c n = Some c'"
  shows "cmt_ok c' \<and> pblk_search_cmt c' n \<noteq> None"
  using assms load_keeps [OF assms(1,2)]
  by (auto simp: find_or_load_def crash_simps split: option.splits Option.bind_splits)

lemma log_room_ok:
  assumes ok: "cmt_ok c" and small: "unat k < 2147483648"
    and r: "(if max_res c - alloc_res c < k then pblk_evict_cmt c (sint k) else Some c) = Some c'"
  shows "cmt_ok c' \<and> make_room (unat k) (cache c) = Some (cache c') \<and> 4096 + lru_total (cache c') + unat k \<le> 65536"
proof -
  have "sint k = int (unat k)" by (rule sint_unat [OF small])
  moreover have "max_res c - alloc_res c < k \<longleftrightarrow> 61440 - lru_total (cache c) < unat k"
    by (simp only: word_less_nat_alt free_res(3) [OF ok])
  ultimately show ?thesis using room_ok [OF ok, of "max_res c - alloc_res c < k" "unat k"] r
    by (cases "make_room (unat k) (cache c)") auto
qed

lemma entry_le_total: "(n, k) \<in> set xs \<Longrightarrow> k \<le> lru_total xs"
  unfolding lru_total_def by (intro member_le_sum_list) (auto simp: image_iff intro: bexI [rotated])

lemma alloc_log_keeps:
  assumes ok: "cmt_ok c" and seg: "seg_ok env n ms lg" and small: "unat k < 2147483648"
    and r: "pblk_alloc_log env c n type k = Some c'"
  shows "cmt_ok c'"
proof -
  from r obtain c1 c2 where type: "type = BLOCK_MAP \<or> type = PAGE_MAP"
    and c1: "(if type = PAGE_MAP then find_or_load env c n else Some c) = Some c1"
    and c2: "(if max_res c1 - alloc_res c1 < k then pblk_evict_cmt c1 (sint k) else Some c1) = Some c2"
    and fin: "(if type = BLOCK_MAP then (case pblk_search_cmt c2 n of None \<Rightarrow> pblk_insert_cmt (pool_left env) c2 n 0 (sint k) 1 | Some me \<Rightarrow> Some c2)
      else do { ensure (pblk_search_cmt c2 n \<noteq> None);
        Some (c2\<lparr>root := rb_modify lseg n (\<lambda>me. me\<lparr>nr_log := nr_log me + k, dirty := 1\<rparr>) (root c2), alloc_res := alloc_res c2 + k\<rparr>) }) = Some c'"
    unfolding pblk_alloc_log_def by (auto simp: crash_simps simp del: if_split split: Option.bind_splits)
  have "cmt_ok c1" using c1 ok find_or_load_keeps [OF ok seg] by (auto split: if_splits)
  from log_room_ok [OF this small c2] have ok2: "cmt_ok c2" and fits: "4096 + lru_total (cache c2) + unat k \<le> 65536" by simp_all
  have sk: "sint k = int (unat k)" by (rule sint_unat [OF small])
  have sn: "same_nodes (root c2) (map_list c2)" using ok2 by (simp add: cmt_ok_def)
  show ?thesis
  proof (cases "pblk_search_cmt c2 n")
    case None
    then have "type = BLOCK_MAP" using fin by (auto simp: crash_simps split: if_splits Option.bind_splits)
    moreover have "n \<notin> set (map_list c2)" using None same_nodes_search [OF sn] by (simp add: pblk_search_cmt_def)
    ultimately show ?thesis using insert_cmt_ok [OF ok2, of n 0 "sint k" 1] fits sk fin None seg by (simp add: seg_ok_def)
  next
    case (Some me)
    then have me: "rb_search lseg n (root c2) = Some me" by (simp add: pblk_search_cmt_def)
    show ?thesis
    proof (cases "type = BLOCK_MAP")
      case False
      then have c': "c' = c2\<lparr>root := rb_modify lseg n (\<lambda>me. me\<lparr>nr_log := nr_log me + k, dirty := 1\<rparr>) (root c2), alloc_res := alloc_res c2 + k\<rparr>"
        using fin Some by simp
      have "n \<in> set (map_list c2)" using me same_nodes_search [OF sn] by force
      then have "entry_res me \<le> lru_total (cache c2)" using me by (intro entry_le_total [of n]) (auto simp: cache_def view_def res_def)
      then have nk: "unat (nr_log me + k) = unat (nr_log me) + unat k"
        using fits by (simp add: entry_res_def unat_word_ariths)
      have "unat (alloc_res c2 + k) = unat (alloc_res c2) + unat k"
        using ok2 fits by (simp add: cmt_ok_def unat_word_ariths)
      then show ?thesis unfolding c'
        using relog_ok [OF ok2 me, of "\<lambda>me. me\<lparr>nr_log := nr_log me + k, dirty := 1\<rparr>" "\<lambda>l. l + k"] nk fits by simp
    qed (use fin Some ok2 in simp)
  qed
qed


lemma free_log_keeps:
  assumes ok: "cmt_ok c" and seg: "seg_ok env n ms lg"
    and logs: "\<And>c1 me. type = PAGE_MAP \<Longrightarrow> find_or_load env c n = Some c1 \<Longrightarrow> pblk_search_cmt c1 n = Some me \<Longrightarrow> k \<le> nr_log me"
    and r: "pblk_free_log env c n type k = Some c'"
  shows "cmt_ok c'"
proof (cases "type = BLOCK_MAP")
  case True
  then show ?thesis using r delete_ok [OF ok, of n] by (simp add: pblk_free_log_def)
next
  case False
  with r obtain c1 where type: "type = PAGE_MAP" and c1: "find_or_load env c n = Some c1"
    and c': "c' = c1\<lparr>root := rb_modify lseg n (\<lambda>me. me\<lparr>nr_log := nr_log me - k\<rparr>) (root c1), alloc_res := alloc_res c1 - k\<rparr>"
    by (auto simp: pblk_free_log_def crash_simps split: Option.bind_splits)
  from find_or_load_keeps [OF ok seg c1] obtain me where ok1: "cmt_ok c1" and s: "pblk_search_cmt c1 n = Some me" by auto
  then have me: "rb_search lseg n (root c1) = Some me" by (simp add: pblk_search_cmt_def)
  have k: "k \<le> nr_log me" by (rule logs [OF type c1 s])
  have sn: "same_nodes (root c1) (map_list c1)" using ok1 by (simp add: cmt_ok_def)
  have "n \<in> set (map_list c1)" using me same_nodes_search [OF sn] by force
  then have "entry_res me \<le> lru_total (cache c1)" using me by (intro entry_le_total [of n]) (auto simp: cache_def view_def res_def)
  then have "k \<le> alloc_res c1" using k ok1 by (simp add: cmt_ok_def word_le_nat_alt entry_res_def)
  then have "unat (alloc_res c1 - k) + unat (nr_log me) = unat (alloc_res c1) + unat (nr_log me - k)"
    using k by (simp add: unat_sub word_le_nat_alt)
  moreover have "4096 + lru_total (cache c1) + unat (nr_log me - k) \<le> 65536 + unat (nr_log me)"
    using word_sub_le [OF k] ok1 unfolding cmt_ok_def word_le_nat_alt by linarith
  ultimately show ?thesis unfolding c'
    using relog_ok [OF ok1 me, of "\<lambda>me. me\<lparr>nr_log := nr_log me - k\<rparr>" "\<lambda>l. l - k"] by simp
qed

section \<open>The table as a transition system\<close>

text \<open>The map and the pool may change between the calls.  A log that is freed was counted, and a
  log is smaller than \<open>2 ^ 31\<close> entries.\<close>

inductive cstep :: "pblk_cmt_mgt \<Rightarrow> pblk_cmt_mgt \<Rightarrow> bool" where
  load: "seg_ok env n ms lg \<Longrightarrow> pblk_load_cmt env c n d = Some c' \<Longrightarrow> cstep c c'"
| delete: "cstep c (pblk_delete_cmt c n)"
| change: "seg_ok env n ms lg \<Longrightarrow> pblk_change_map env c n = Some c' \<Longrightarrow> cstep c c'"
| alloc: "seg_ok env n ms lg \<Longrightarrow> unat k < 2147483648 \<Longrightarrow> pblk_alloc_log env c n type k = Some c' \<Longrightarrow> cstep c c'"
| free: "seg_ok env n ms lg \<Longrightarrow>
    (\<And>c1 me. type = PAGE_MAP \<Longrightarrow> find_or_load env c n = Some c1 \<Longrightarrow> pblk_search_cmt c1 n = Some me \<Longrightarrow> k \<le> nr_log me) \<Longrightarrow>
    pblk_free_log env c n type k = Some c' \<Longrightarrow> cstep c c'"

inductive_cases cstepE: "cstep c c'"

inductive creach :: "pblk_cmt_mgt \<Rightarrow> bool" where
  init: "creach (cmt_init rd wr)"
| step: "creach c \<Longrightarrow> cstep c c' \<Longrightarrow> creach c'"

lemma cstep_keeps:
  assumes "cstep c c'" "cmt_ok c"
  shows "cmt_ok c'"
  using assms(1)
proof cases
  case (load env n ms lg d)
  then show ?thesis using load_keeps [OF assms(2)] by blast
next
  case (delete n)
  then show ?thesis using delete_ok [OF assms(2)] by simp
next
  case (change env n ms lg)
  then show ?thesis using load_keeps [of "pblk_delete_cmt c n" env n ms lg] delete_ok [OF assms(2), of n] by (simp add: pblk_change_map_def)
next
  case (alloc env n ms lg k type)
  then show ?thesis using alloc_log_keeps [OF assms(2)] by blast
next
  case (free env n ms lg type k)
  show ?thesis by (rule free_log_keeps [OF assms(2) free])
qed

lemma creach_ok: "creach c \<Longrightarrow> cmt_ok c"
proof (induction rule: creach.induct)
  case (init rd wr)
  show ?case by (simp add: cmt_init_def cmt_ok_def same_nodes_def cache_def rb_ordered_def)
next
  case (step c c')
  then show ?case using cstep_keeps by blast
qed


section \<open>The properties of the table\<close>





section \<open>An example\<close>

text \<open>A device with twenty segments of one stream.  Fifteen loads fill the table.\<close>

definition ex_env :: dftl_env where
  "ex_env = \<lparr>trans_map = replicate 20 \<lparr>m_lstream = 0, m_is_cached = False, m_map = SECTOR_MAP, pmap = []\<rparr>,
    lstream = [\<lparr>map_type = SECTOR_MAP, ls_map_size = 4096, ls_log_size = 0\<rparr>], pmap_entry_num = 0, pool_left = True\<rparr>"

definition first_segs :: "int list" where "first_segs = [0, 1, 2, 3, 4, 5, 6, 7, 8, 9, 10, 11, 12, 13, 14]"

definition ex_cmt :: pblk_cmt_mgt where
  "ex_cmt = the (ofold (\<lambda>n c. pblk_load_cmt ex_env c n 0) first_segs (cmt_init 0 0))"

lemma ex_env_ok: "0 \<le> n \<Longrightarrow> n < 20 \<Longrightarrow> seg_ok ex_env n 4096 0 \<and> \<not> bypassed ex_env n"
  by (simp add: seg_ok_def bypassed_def ex_env_def load_sizes_def map_type_defs)

lemma loads_creach:
  "ofold (\<lambda>n c. pblk_load_cmt ex_env c n 0) ns c = Some c' \<Longrightarrow> set ns \<subseteq> {0..<20} \<Longrightarrow> creach c \<Longrightarrow> creach c'"
proof (induction ns arbitrary: c)
  case (Cons n ns)
  then obtain c1 where c1: "pblk_load_cmt ex_env c n 0 = Some c1" "ofold (\<lambda>n c. pblk_load_cmt ex_env c n 0) ns c1 = Some c'"
    by (auto split: Option.bind_splits)
  have "creach c1" using Cons.prems c1(1) ex_env_ok [of n] by (auto intro: creach.step cstep.load)
  then show ?case using Cons.IH c1(2) Cons.prems by simp
qed simp

lemma ex_cmt_eq: "ofold (\<lambda>n c. pblk_load_cmt ex_env c n 0) first_segs (cmt_init 0 0) = Some ex_cmt"
    "cache ex_cmt = map (\<lambda>n. (n, 4096)) first_segs" "map_list ex_cmt = first_segs" "alloc_res ex_cmt = 65536" "max_res ex_cmt = 65536"
proof -
  have "ofold (\<lambda>n c. pblk_load_cmt ex_env c n 0) first_segs (cmt_init 0 0) \<noteq> None" by code_simp
  then show "ofold (\<lambda>n c. pblk_load_cmt ex_env c n 0) first_segs (cmt_init 0 0) = Some ex_cmt" by (auto simp: ex_cmt_def)
  have m: "map_list ex_cmt = first_segs" by code_simp
  have "map (\<lambda>n. map_option (\<lambda>me. (map_size me, nr_log me)) (rb_search lseg n (root ex_cmt))) first_segs = map (\<lambda>_. Some (4096, 0)) first_segs"
    by code_simp
  then show "cache ex_cmt = map (\<lambda>n. (n, 4096)) first_segs"
    by (auto simp: cache_def m view_def res_def entry_res_def first_segs_def)
  show "map_list ex_cmt = first_segs" by (rule m)
  show "alloc_res ex_cmt = 65536" "max_res ex_cmt = 65536" by code_simp+
qed

lemma ex_cmt_creach: "creach ex_cmt"
  by (rule loads_creach [OF ex_cmt_eq(1) _ creach.init]) (simp add: first_segs_def)




end
