(* ===== verification/Nvme.thy ===== *)
theory Nvme
  imports Prelude
begin

text \<open>
  The status codes and opcodes of \<open>femu/nvme.h\<close> that the modes of the emulated SSD share.
\<close>

definition NVME_SUCCESS :: u16 where "NVME_SUCCESS = 0"
definition NVME_INVALID_OPCODE :: u16 where "NVME_INVALID_OPCODE = 0x0001"
definition NVME_INVALID_FIELD :: u16 where "NVME_INVALID_FIELD = 0x0002"
definition NVME_INTERNAL_DEV_ERROR :: u16 where "NVME_INTERNAL_DEV_ERROR = 0x0006"
definition NVME_LBA_RANGE :: u16 where "NVME_LBA_RANGE = 0x0080"
definition NVME_INVALID_LOG_ID :: u16 where "NVME_INVALID_LOG_ID = 0x0109"
definition NVME_ZONE_BOUNDARY_ERROR :: u16 where "NVME_ZONE_BOUNDARY_ERROR = 0x01b8"
definition NVME_ZONE_FULL :: u16 where "NVME_ZONE_FULL = 0x01b9"
definition NVME_ZONE_READ_ONLY :: u16 where "NVME_ZONE_READ_ONLY = 0x01ba"
definition NVME_ZONE_OFFLINE :: u16 where "NVME_ZONE_OFFLINE = 0x01bb"
definition NVME_ZONE_INVALID_WRITE :: u16 where "NVME_ZONE_INVALID_WRITE = 0x01bc"
definition NVME_ZONE_TOO_MANY_ACTIVE :: u16 where "NVME_ZONE_TOO_MANY_ACTIVE = 0x01bd"
definition NVME_ZONE_TOO_MANY_OPEN :: u16 where "NVME_ZONE_TOO_MANY_OPEN = 0x01be"
definition NVME_ZONE_INVAL_TRANSITION :: u16 where "NVME_ZONE_INVAL_TRANSITION = 0x01bf"
definition NVME_WRITE_FAULT :: u16 where "NVME_WRITE_FAULT = 0x0280"
definition NVME_DULB :: u16 where "NVME_DULB = 0x0287"
definition NVME_DNR :: u16 where "NVME_DNR = 0x4000"
definition NVME_NO_COMPLETE :: u16 where "NVME_NO_COMPLETE = 0xffff"

lemmas status_defs = NVME_SUCCESS_def NVME_INVALID_OPCODE_def NVME_INVALID_FIELD_def NVME_LBA_RANGE_def
  NVME_ZONE_BOUNDARY_ERROR_def NVME_ZONE_FULL_def NVME_ZONE_READ_ONLY_def NVME_ZONE_OFFLINE_def NVME_ZONE_INVALID_WRITE_def
  NVME_ZONE_TOO_MANY_ACTIVE_def NVME_ZONE_TOO_MANY_OPEN_def NVME_ZONE_INVAL_TRANSITION_def NVME_DNR_def NVME_NO_COMPLETE_def
  NVME_INTERNAL_DEV_ERROR_def NVME_INVALID_LOG_ID_def NVME_WRITE_FAULT_def NVME_DULB_def

definition NVME_CMD_WRITE :: u8 where "NVME_CMD_WRITE = 0x01"
definition NVME_CMD_READ :: u8 where "NVME_CMD_READ = 0x02"
definition NVME_CMD_ZONE_MGMT_SEND :: u8 where "NVME_CMD_ZONE_MGMT_SEND = 0x79"
definition NVME_CMD_ZONE_MGMT_RECV :: u8 where "NVME_CMD_ZONE_MGMT_RECV = 0x7a"
definition NVME_CMD_ZONE_APPEND :: u8 where "NVME_CMD_ZONE_APPEND = 0x7d"

lemmas cmd_defs = NVME_CMD_WRITE_def NVME_CMD_READ_def NVME_CMD_ZONE_MGMT_SEND_def NVME_CMD_ZONE_MGMT_RECV_def NVME_CMD_ZONE_APPEND_def

text \<open>Leading zeros, as \<open>clz32\<close> and \<open>clz64\<close> count them.\<close>

definition clz :: "'a::len word \<Rightarrow> nat" where
  "clz w = length (takeWhile (\<lambda>i. \<not> bit w i) (rev [0..<LENGTH('a)]))"

end
