(* ===== verification/Zns.thy ===== *)
theory Zns
  imports Nvme
begin

text \<open>
  The zoned mode of the emulated SSD (\<open>femu/zns/zns.c\<close>, \<open>zns.h\<close>): the state machine of the zones, the limits on
  open and active zones, reads, writes, appends, zone management and zone reports.

  A zone is named by its index in \<open>zone_array\<close>; the four queues hold indices, and a zone is in
  use by a queue (\<open>QTAILQ_IN_USE\<close>) if one of them holds it.  The state is stored in the upper half of the byte \<open>zs\<close>;
  here it is the enumeration.  Guest memory is not modelled: the result of mapping the data
  pointer and of the transfer is part of the request, and the accesses to the back end are
  reported as values.
\<close>

section \<open>Data\<close>

definition NVME_ZA_ZD_EXT_VALID :: u8 where "NVME_ZA_ZD_EXT_VALID = 0x80"
definition NVME_ZONE_TYPE_SEQ_WRITE :: u8 where "NVME_ZONE_TYPE_SEQ_WRITE = 2"

datatype NvmeZoneState = NVME_ZONE_STATE_RESERVED | NVME_ZONE_STATE_EMPTY | NVME_ZONE_STATE_IMPLICITLY_OPEN
  | NVME_ZONE_STATE_EXPLICITLY_OPEN | NVME_ZONE_STATE_CLOSED | NVME_ZONE_STATE_READ_ONLY | NVME_ZONE_STATE_FULL
  | NVME_ZONE_STATE_OFFLINE

record NvmeZone =
  zt :: u8
  zs :: NvmeZoneState
  za :: u8
  zcap :: u64
  zslba :: u64
  wp :: u64
  w_ptr :: u64

text \<open>The fields of the controller and its namespace that the zoned mode uses.  \<open>zone_cap_bs\<close> is declared \<open>bool\<close>.\<close>

record FemuCtrl =
  zasl_bs :: u32
  zasl :: u8
  zoned :: bool
  cross_zone_read :: bool
  zone_size_bs :: u64
  zone_cap_bs :: bool
  max_active_zones :: u32
  max_open_zones :: u32
  zd_extension_size :: u32
  zone_array :: "NvmeZone list"
  exp_open_zones :: "nat list"
  imp_open_zones :: "nat list"
  closed_zones :: "nat list"
  full_zones :: "nat list"
  num_zones :: u32
  zone_size :: u64
  zone_capacity :: u64
  zone_size_log2 :: u32
  zd_extensions :: "u8 list list"
  nr_open_zones :: int
  nr_active_zones :: int
  page_size :: u16
  mdts :: u8
  ns_size :: u64
  lbads :: u8
  nsze :: u64

record NvmeCmd =
  opcode :: u8
  psdt :: u8
  cdw10 :: u32
  cdw11 :: u32
  cdw12 :: u32
  cdw13 :: u32

text \<open>A request: the command, the direction left in it by an earlier command, what \<open>nvme_map_prp\<close> returns for its
  data pointer, and what a transfer of a descriptor extension or report returns.\<close>

record NvmeRequest =
  cmd :: NvmeCmd
  is_write :: bool
  prp_status :: u16
  dma_status :: u16
  dma_data :: "u8 list"

text \<open>What a command shows outside: the address in the completion entry, an access to the back end with its
  direction and offset, a zone report with the number of zones and the descriptors.\<close>

datatype zns_out = Res_slba u64 | Backend_rw bool u64 | Report u64 "(NvmeZone \<times> u8 list option) list"

section \<open>Zones\<close>

definition zns_ns_nlbas :: "FemuCtrl \<Rightarrow> u64" where
  "zns_ns_nlbas n = drop_bit (unat (lbads n)) (ns_size n)"

definition zns_l2b :: "FemuCtrl \<Rightarrow> u64 \<Rightarrow> u64" where
  "zns_l2b n lba = push_bit (unat (lbads n)) lba"

definition zns_zone_rd_boundary :: "FemuCtrl \<Rightarrow> NvmeZone \<Rightarrow> u64" where
  "zns_zone_rd_boundary n z = zslba z + zone_size n"

definition zns_zone_wr_boundary :: "NvmeZone \<Rightarrow> u64" where
  "zns_zone_wr_boundary z = zslba z + zcap z"

definition zns_wp_is_valid :: "NvmeZone \<Rightarrow> bool" where
  "zns_wp_is_valid z = (zs z \<notin> {NVME_ZONE_STATE_FULL, NVME_ZONE_STATE_READ_ONLY, NVME_ZONE_STATE_OFFLINE})"

text \<open>The counters are \<open>int32_t\<close>, the limits \<open>uint32_t\<close>; mixed comparisons are unsigned.\<close>

definition zns_aor_inc_open :: "FemuCtrl \<Rightarrow> FemuCtrl option" where
  "zns_aor_inc_open n = do {
    ensure (nr_open_zones n \<ge> 0);
    if max_open_zones n \<noteq> 0 then do {
      let n' = n\<lparr>nr_open_zones := nr_open_zones n + 1\<rparr>;
      ensure (word_of_int (nr_open_zones n') \<le> max_open_zones n);
      Some n'
    } else Some n
  }"

definition zns_aor_dec_open :: "FemuCtrl \<Rightarrow> FemuCtrl option" where
  "zns_aor_dec_open n = do {
    n' \<leftarrow> (if max_open_zones n \<noteq> 0 then do {
        ensure (nr_open_zones n > 0);
        Some (n\<lparr>nr_open_zones := nr_open_zones n - 1\<rparr>)
      } else Some n);
    ensure (nr_open_zones n' \<ge> 0);
    Some n'
  }"

definition zns_aor_inc_active :: "FemuCtrl \<Rightarrow> FemuCtrl option" where
  "zns_aor_inc_active n = do {
    ensure (nr_active_zones n \<ge> 0);
    if max_active_zones n \<noteq> 0 then do {
      let n' = n\<lparr>nr_active_zones := nr_active_zones n + 1\<rparr>;
      ensure (word_of_int (nr_active_zones n') \<le> max_active_zones n);
      Some n'
    } else Some n
  }"

definition zns_aor_dec_active :: "FemuCtrl \<Rightarrow> FemuCtrl option" where
  "zns_aor_dec_active n = do {
    n' \<leftarrow> (if max_active_zones n \<noteq> 0 then do {
        ensure (nr_active_zones n > 0);
        let n' = n\<lparr>nr_active_zones := nr_active_zones n - 1\<rparr>;
        ensure (nr_active_zones n' \<ge> nr_open_zones n');
        Some n'
      } else Some n);
    ensure (nr_active_zones n' \<ge> 0);
    Some n'
  }"

definition zns_zone_idx :: "FemuCtrl \<Rightarrow> u64 \<Rightarrow> u32 option" where
  "zns_zone_idx n slba = (if zone_size_log2 n > 0 then Some (ucast (drop_bit (unat (zone_size_log2 n)) slba))
    else do {
      q \<leftarrow> udiv slba (zone_size n);
      Some (ucast q)
    })"

definition zns_get_zone_by_slba :: "FemuCtrl \<Rightarrow> u64 \<Rightarrow> nat option" where
  "zns_get_zone_by_slba n slba = do {
    zone_idx \<leftarrow> zns_zone_idx n slba;
    ensure (zone_idx < num_zones n);
    Some (unat zone_idx)
  }"

definition get_zone :: "FemuCtrl \<Rightarrow> nat \<Rightarrow> NvmeZone option" where
  "get_zone n i = aget (zone_array n) i"

definition put_zone :: "FemuCtrl \<Rightarrow> nat \<Rightarrow> NvmeZone \<Rightarrow> FemuCtrl" where
  "put_zone n i z = n\<lparr>zone_array := (zone_array n)[i := z]\<rparr>"

definition in_use :: "FemuCtrl \<Rightarrow> nat \<Rightarrow> bool" where
  "in_use n i \<longleftrightarrow> i \<in> set (exp_open_zones n) \<or> i \<in> set (imp_open_zones n) \<or> i \<in> set (closed_zones n) \<or> i \<in> set (full_zones n)"

section \<open>Initialisation\<close>

definition NVME_DEFAULT_ZONE_SIZE :: u64 where "NVME_DEFAULT_ZONE_SIZE = 128 * 1024 * 1024"
definition NVME_DEFAULT_MAX_AZ_SIZE :: u32 where "NVME_DEFAULT_MAX_AZ_SIZE = 128 * 1024"

definition is_power_of_2 :: "u64 \<Rightarrow> bool" where
  "is_power_of_2 v \<longleftrightarrow> v \<noteq> 0 \<and> v AND (v - 1) = 0"

definition zns_init_zone_cap :: "FemuCtrl \<Rightarrow> FemuCtrl" where
  "zns_init_zone_cap n = n\<lparr>zoned := True, zasl_bs := NVME_DEFAULT_MAX_AZ_SIZE, zone_size_bs := NVME_DEFAULT_ZONE_SIZE,
    zone_cap_bs := False, cross_zone_read := False, max_active_zones := 0, max_open_zones := 0, zd_extension_size := 0\<rparr>"

text \<open>The result tells whether the geometry is accepted.  A capacity that is set is the number one.\<close>

definition zns_init_zone_geometry :: "FemuCtrl \<Rightarrow> (bool \<times> FemuCtrl) option" where
  "zns_init_zone_geometry n = do {
    let lbasz = (push_bit (unat (lbads n)) 1 :: u32);
    let size = (if zone_size_bs n \<noteq> 0 then zone_size_bs n else NVME_DEFAULT_ZONE_SIZE);
    let cap = (if zone_cap_bs n then 1 else size);
    if cap > size \<or> size < ucast lbasz \<or> cap < ucast lbasz then Some (False, n)
    else do {
      zsize \<leftarrow> udiv size (ucast lbasz);
      zcapacity \<leftarrow> udiv cap (ucast lbasz);
      blocks \<leftarrow> udiv (ns_size n) (ucast lbasz);
      zones \<leftarrow> udiv blocks zsize;
      let n' = n\<lparr>zone_size := zsize, zone_capacity := zcapacity, num_zones := ucast zones\<rparr>;
      Some (\<not> (max_open_zones n' > num_zones n' \<or> max_active_zones n' > num_zones n' \<or>
        (zd_extension_size n' \<noteq> 0 \<and> (zd_extension_size n' AND 0x3f \<noteq> 0 \<or> drop_bit 6 (zd_extension_size n') > 0xff))), n')
    }
  }"

fun init_zones :: "nat \<Rightarrow> u64 \<Rightarrow> u64 \<Rightarrow> u64 \<Rightarrow> u64 \<Rightarrow> NvmeZone list" where
  "init_zones 0 cap capacity start sz = []"
| "init_zones (Suc k) cap capacity start sz =
    (let sz' = (if start + sz > capacity then capacity - start else sz)
     in \<lparr>zt = NVME_ZONE_TYPE_SEQ_WRITE, zs = NVME_ZONE_STATE_EMPTY, za = 0, zcap = cap, zslba = start, wp = start, w_ptr = start\<rparr>
       # init_zones k cap capacity (start + sz') sz')"

definition zns_init_zoned_state :: "FemuCtrl \<Rightarrow> FemuCtrl" where
  "zns_init_zoned_state n = n\<lparr>
    zone_array := init_zones (unat (num_zones n)) (zone_capacity n) (ucast (num_zones n) * zone_size n) 0 (zone_size n),
    zd_extensions := (if zd_extension_size n \<noteq> 0 then replicate (unat (num_zones n)) (replicate (unat (zd_extension_size n)) 0)
      else zd_extensions n),
    exp_open_zones := [], imp_open_zones := [], closed_zones := [], full_zones := [],
    zone_size_log2 := (if is_power_of_2 (zone_size n) then of_nat (63 - clz (zone_size n)) else 0)\<rparr>"

definition zns_init_zone_identify :: "FemuCtrl \<Rightarrow> FemuCtrl" where
  "zns_init_zone_identify n = (let n' = zns_init_zoned_state n in n'\<lparr>nsze := ucast (num_zones n') * zone_size n'\<rparr>)"

definition zns_init :: "FemuCtrl \<Rightarrow> FemuCtrl option" where
  "zns_init n = do {
    (ok, n') \<leftarrow> zns_init_zone_geometry (zns_init_zone_cap n);
    Some (if ok then zns_init_zone_identify n' else n')
  }"

text \<open>The result tells whether the controller starts.\<close>

definition zns_start_ctrl :: "FemuCtrl \<Rightarrow> (bool \<times> FemuCtrl) option" where
  "zns_start_ctrl n = do {
    ensure (page_size n = 4096);
    if zasl_bs n = 0 then Some (True, n\<lparr>zasl := mdts n\<rparr>)
    else if zasl_bs n < ucast (page_size n) then Some (False, n)
    else do {
      q \<leftarrow> udiv (zasl_bs n) (ucast (page_size n));
      Some (True, n\<lparr>zasl := of_nat (31 - clz q)\<rparr>)
    }
  }"

section \<open>State changes\<close>

definition unqueue :: "FemuCtrl \<Rightarrow> nat \<Rightarrow> NvmeZoneState \<Rightarrow> FemuCtrl option" where
  "unqueue n i st = (case st of
      NVME_ZONE_STATE_EXPLICITLY_OPEN \<Rightarrow> do { q \<leftarrow> qtailq_remove i (exp_open_zones n); Some (n\<lparr>exp_open_zones := q\<rparr>) }
    | NVME_ZONE_STATE_IMPLICITLY_OPEN \<Rightarrow> do { q \<leftarrow> qtailq_remove i (imp_open_zones n); Some (n\<lparr>imp_open_zones := q\<rparr>) }
    | NVME_ZONE_STATE_CLOSED \<Rightarrow> do { q \<leftarrow> qtailq_remove i (closed_zones n); Some (n\<lparr>closed_zones := q\<rparr>) }
    | NVME_ZONE_STATE_FULL \<Rightarrow> do { q \<leftarrow> qtailq_remove i (full_zones n); Some (n\<lparr>full_zones := q\<rparr>) }
    | _ \<Rightarrow> Some n)"

definition enqueue :: "FemuCtrl \<Rightarrow> nat \<Rightarrow> NvmeZone \<Rightarrow> FemuCtrl" where
  "enqueue n i z = (case zs z of
      NVME_ZONE_STATE_EXPLICITLY_OPEN \<Rightarrow> (put_zone n i z)\<lparr>exp_open_zones := exp_open_zones n @ [i]\<rparr>
    | NVME_ZONE_STATE_IMPLICITLY_OPEN \<Rightarrow> (put_zone n i z)\<lparr>imp_open_zones := imp_open_zones n @ [i]\<rparr>
    | NVME_ZONE_STATE_CLOSED \<Rightarrow> (put_zone n i z)\<lparr>closed_zones := closed_zones n @ [i]\<rparr>
    | NVME_ZONE_STATE_FULL \<Rightarrow> (put_zone n i z)\<lparr>full_zones := full_zones n @ [i]\<rparr>
    | NVME_ZONE_STATE_READ_ONLY \<Rightarrow> put_zone n i z
    | _ \<Rightarrow> put_zone n i (z\<lparr>za := 0\<rparr>))"

definition zns_assign_zone_state :: "FemuCtrl \<Rightarrow> nat \<Rightarrow> NvmeZoneState \<Rightarrow> FemuCtrl option" where
  "zns_assign_zone_state n i st = do {
    z \<leftarrow> get_zone n i;
    n1 \<leftarrow> (if in_use n i then unqueue n i (zs z) else Some n);
    Some (enqueue n1 i (z\<lparr>zs := st\<rparr>))
  }"

definition zns_aor_check :: "FemuCtrl \<Rightarrow> u32 \<Rightarrow> u32 \<Rightarrow> u16" where
  "zns_aor_check n act opn =
    (if max_active_zones n \<noteq> 0 \<and> word_of_int (nr_active_zones n) + act > max_active_zones n then NVME_ZONE_TOO_MANY_ACTIVE OR NVME_DNR
     else if max_open_zones n \<noteq> 0 \<and> word_of_int (nr_open_zones n) + opn > max_open_zones n then NVME_ZONE_TOO_MANY_OPEN OR NVME_DNR
     else NVME_SUCCESS)"

definition zns_check_zone_state_for_write :: "NvmeZone \<Rightarrow> u16 option" where
  "zns_check_zone_state_for_write z = (case zs z of
      NVME_ZONE_STATE_RESERVED \<Rightarrow> None
    | NVME_ZONE_STATE_FULL \<Rightarrow> Some NVME_ZONE_FULL
    | NVME_ZONE_STATE_OFFLINE \<Rightarrow> Some NVME_ZONE_OFFLINE
    | NVME_ZONE_STATE_READ_ONLY \<Rightarrow> Some NVME_ZONE_READ_ONLY
    | _ \<Rightarrow> Some NVME_SUCCESS)"

text \<open>\<open>page_size << k\<close> is an \<open>int\<close>, compared with a \<open>size_t\<close>.\<close>

definition pages_shl :: "FemuCtrl \<Rightarrow> u8 \<Rightarrow> u64" where
  "pages_shl n k = word_of_int (sint (push_bit (unat k) (ucast (page_size n) :: u32)))"

definition nvme_check_mdts :: "FemuCtrl \<Rightarrow> u64 \<Rightarrow> u16" where
  "nvme_check_mdts n len = (if mdts n \<noteq> 0 \<and> len > pages_shl n (mdts n) then NVME_INVALID_FIELD OR NVME_DNR else NVME_SUCCESS)"

definition zns_check_zone_write :: "FemuCtrl \<Rightarrow> NvmeZone \<Rightarrow> u64 \<Rightarrow> u32 \<Rightarrow> bool \<Rightarrow> u16 option" where
  "zns_check_zone_write n z slba nlb app = do {
    st \<leftarrow> (if slba + ucast nlb > zns_zone_wr_boundary z then Some NVME_ZONE_BOUNDARY_ERROR else zns_check_zone_state_for_write z);
    if st \<noteq> NVME_SUCCESS then Some st
    else do {
      ensure (zns_wp_is_valid z);
      Some (if app then (if zns_l2b n (ucast nlb) > pages_shl n (zasl n) \<or> slba \<noteq> zslba z then NVME_INVALID_FIELD else st)
        else if slba \<noteq> w_ptr z then NVME_ZONE_INVALID_WRITE else st)
    }
  }"

definition zns_check_zone_state_for_read :: "NvmeZone \<Rightarrow> u16 option" where
  "zns_check_zone_state_for_read z = (case zs z of
      NVME_ZONE_STATE_RESERVED \<Rightarrow> None
    | NVME_ZONE_STATE_OFFLINE \<Rightarrow> Some NVME_ZONE_OFFLINE
    | _ \<Rightarrow> Some NVME_SUCCESS)"

text \<open>The zones behind the first one, for a read across zones.\<close>

fun read_across :: "FemuCtrl \<Rightarrow> u64 \<Rightarrow> NvmeZone list \<Rightarrow> u16 option" where
  "read_across n endb [] = None"
| "read_across n endb (z # zl) = do {
    st \<leftarrow> zns_check_zone_state_for_read z;
    if st \<noteq> NVME_SUCCESS then Some st
    else if endb > zns_zone_rd_boundary n z then read_across n endb zl
    else Some st
  }"

definition zns_check_zone_read :: "FemuCtrl \<Rightarrow> u64 \<Rightarrow> u32 \<Rightarrow> u16 option" where
  "zns_check_zone_read n slba nlb = do {
    i \<leftarrow> zns_get_zone_by_slba n slba;
    z \<leftarrow> get_zone n i;
    let endb = slba + ucast nlb;
    st \<leftarrow> zns_check_zone_state_for_read z;
    if st \<noteq> NVME_SUCCESS then Some st
    else if endb > zns_zone_rd_boundary n z
    then (if \<not> cross_zone_read n then Some NVME_ZONE_BOUNDARY_ERROR else read_across n endb (drop (Suc i) (zone_array n)))
    else Some st
  }"

definition zns_auto_transition_zone :: "FemuCtrl \<Rightarrow> FemuCtrl option" where
  "zns_auto_transition_zone n =
    (if max_open_zones n \<noteq> 0 \<and> word_of_int (nr_open_zones n) = max_open_zones n
     then (case imp_open_zones n of
         [] \<Rightarrow> Some n
       | i # q \<Rightarrow> do {
           n1 \<leftarrow> zns_aor_dec_open (n\<lparr>imp_open_zones := q\<rparr>);
           zns_assign_zone_state n1 i NVME_ZONE_STATE_CLOSED
         })
     else Some n)"

definition zns_auto_open_zone :: "FemuCtrl \<Rightarrow> nat \<Rightarrow> (u16 \<times> FemuCtrl) option" where
  "zns_auto_open_zone n i = do {
    z \<leftarrow> get_zone n i;
    if zs z = NVME_ZONE_STATE_EMPTY then do { n' \<leftarrow> zns_auto_transition_zone n; Some (zns_aor_check n' 1 1, n') }
    else if zs z = NVME_ZONE_STATE_CLOSED then do { n' \<leftarrow> zns_auto_transition_zone n; Some (zns_aor_check n' 0 1, n') }
    else Some (NVME_SUCCESS, n)
  }"

definition zns_finalize_zoned_write :: "FemuCtrl \<Rightarrow> u64 \<Rightarrow> u32 \<Rightarrow> FemuCtrl option" where
  "zns_finalize_zoned_write n slba nlb = do {
    i \<leftarrow> zns_get_zone_by_slba n slba;
    z0 \<leftarrow> get_zone n i;
    let z = z0\<lparr>wp := wp z0 + ucast nlb\<rparr>;
    let n0 = put_zone n i z;
    if wp z \<noteq> zns_zone_wr_boundary z then Some n0
    else if zs z = NVME_ZONE_STATE_IMPLICITLY_OPEN \<or> zs z = NVME_ZONE_STATE_EXPLICITLY_OPEN then do {
      n1 \<leftarrow> zns_aor_dec_open n0;
      n2 \<leftarrow> zns_aor_dec_active n1;
      zns_assign_zone_state n2 i NVME_ZONE_STATE_FULL
    } else if zs z = NVME_ZONE_STATE_CLOSED then do {
      n1 \<leftarrow> zns_aor_dec_active n0;
      zns_assign_zone_state n1 i NVME_ZONE_STATE_FULL
    } else if zs z = NVME_ZONE_STATE_EMPTY then zns_assign_zone_state n0 i NVME_ZONE_STATE_FULL
    else if zs z = NVME_ZONE_STATE_FULL then Some n0
    else None
  }"

definition zns_advance_zone_wp :: "FemuCtrl \<Rightarrow> nat \<Rightarrow> u32 \<Rightarrow> (u64 \<times> FemuCtrl) option" where
  "zns_advance_zone_wp n i nlb = do {
    z0 \<leftarrow> get_zone n i;
    let z = z0\<lparr>w_ptr := w_ptr z0 + ucast nlb\<rparr>;
    let n0 = put_zone n i z;
    n' \<leftarrow> (if w_ptr z < zns_zone_wr_boundary z then
        (if zs z = NVME_ZONE_STATE_EMPTY then do {
           n1 \<leftarrow> zns_aor_inc_active n0;
           n2 \<leftarrow> zns_aor_inc_open n1;
           zns_assign_zone_state n2 i NVME_ZONE_STATE_IMPLICITLY_OPEN
         } else if zs z = NVME_ZONE_STATE_CLOSED then do {
           n1 \<leftarrow> zns_aor_inc_open n0;
           zns_assign_zone_state n1 i NVME_ZONE_STATE_IMPLICITLY_OPEN
         } else Some n0)
      else Some n0);
    Some (w_ptr z0, n')
  }"

section \<open>Zone management\<close>

text \<open>The handlers get the state of the zone; a status other than success leaves the zone as it is.\<close>

type_synonym op_handler = "FemuCtrl \<Rightarrow> nat \<Rightarrow> NvmeZoneState \<Rightarrow> (u16 \<times> FemuCtrl) option"

definition reset_to_start :: "FemuCtrl \<Rightarrow> nat \<Rightarrow> FemuCtrl option" where
  "reset_to_start n i = do {
    z \<leftarrow> get_zone n i;
    zns_assign_zone_state (put_zone n i (z\<lparr>w_ptr := zslba z, wp := zslba z\<rparr>)) i NVME_ZONE_STATE_EMPTY
  }"

definition zns_aio_zone_reset_cb :: "FemuCtrl \<Rightarrow> nat \<Rightarrow> FemuCtrl option" where
  "zns_aio_zone_reset_cb n i = do {
    z \<leftarrow> get_zone n i;
    if zs z = NVME_ZONE_STATE_EXPLICITLY_OPEN \<or> zs z = NVME_ZONE_STATE_IMPLICITLY_OPEN then do {
      n1 \<leftarrow> zns_aor_dec_open n;
      n2 \<leftarrow> zns_aor_dec_active n1;
      reset_to_start n2 i
    } else if zs z = NVME_ZONE_STATE_CLOSED then do {
      n1 \<leftarrow> zns_aor_dec_active n;
      reset_to_start n1 i
    } else if zs z = NVME_ZONE_STATE_FULL then reset_to_start n i
    else Some n
  }"

definition open_resources :: "FemuCtrl \<Rightarrow> nat \<Rightarrow> (u16 \<times> FemuCtrl) option" where
  "open_resources n i = do {
    n' \<leftarrow> zns_aor_inc_open n;
    n'' \<leftarrow> zns_assign_zone_state n' i NVME_ZONE_STATE_EXPLICITLY_OPEN;
    Some (NVME_SUCCESS, n'')
  }"

definition zns_open_zone :: op_handler where
  "zns_open_zone n i st = (case st of
      NVME_ZONE_STATE_EMPTY \<Rightarrow>
        if zns_aor_check n 1 0 \<noteq> NVME_SUCCESS then Some (zns_aor_check n 1 0, n)
        else do {
          n1 \<leftarrow> zns_aor_inc_active n;
          if zns_aor_check n1 0 1 \<noteq> NVME_SUCCESS then do { n2 \<leftarrow> zns_aor_dec_active n1; Some (zns_aor_check n1 0 1, n2) }
          else open_resources n1 i
        }
    | NVME_ZONE_STATE_CLOSED \<Rightarrow>
        if zns_aor_check n 0 1 \<noteq> NVME_SUCCESS then Some (zns_aor_check n 0 1, n) else open_resources n i
    | NVME_ZONE_STATE_IMPLICITLY_OPEN \<Rightarrow> do {
        n' \<leftarrow> zns_assign_zone_state n i NVME_ZONE_STATE_EXPLICITLY_OPEN;
        Some (NVME_SUCCESS, n')
      }
    | NVME_ZONE_STATE_EXPLICITLY_OPEN \<Rightarrow> Some (NVME_SUCCESS, n)
    | _ \<Rightarrow> Some (NVME_ZONE_INVAL_TRANSITION, n))"

definition zns_close_zone :: op_handler where
  "zns_close_zone n i st =
    (if st = NVME_ZONE_STATE_EXPLICITLY_OPEN \<or> st = NVME_ZONE_STATE_IMPLICITLY_OPEN then do {
       n1 \<leftarrow> zns_aor_dec_open n;
       n2 \<leftarrow> zns_assign_zone_state n1 i NVME_ZONE_STATE_CLOSED;
       Some (NVME_SUCCESS, n2)
     } else if st = NVME_ZONE_STATE_CLOSED then Some (NVME_SUCCESS, n)
     else Some (NVME_ZONE_INVAL_TRANSITION, n))"

definition finish_at_end :: "FemuCtrl \<Rightarrow> nat \<Rightarrow> (u16 \<times> FemuCtrl) option" where
  "finish_at_end n i = do {
    z \<leftarrow> get_zone n i;
    n' \<leftarrow> zns_assign_zone_state (put_zone n i (z\<lparr>w_ptr := zns_zone_wr_boundary z, wp := zns_zone_wr_boundary z\<rparr>)) i NVME_ZONE_STATE_FULL;
    Some (NVME_SUCCESS, n')
  }"

definition zns_finish_zone :: op_handler where
  "zns_finish_zone n i st =
    (if st = NVME_ZONE_STATE_EXPLICITLY_OPEN \<or> st = NVME_ZONE_STATE_IMPLICITLY_OPEN then do {
       n1 \<leftarrow> zns_aor_dec_open n;
       n2 \<leftarrow> zns_aor_dec_active n1;
       finish_at_end n2 i
     } else if st = NVME_ZONE_STATE_CLOSED then do {
       n1 \<leftarrow> zns_aor_dec_active n;
       finish_at_end n1 i
     } else if st = NVME_ZONE_STATE_EMPTY then finish_at_end n i
     else if st = NVME_ZONE_STATE_FULL then Some (NVME_SUCCESS, n)
     else Some (NVME_ZONE_INVAL_TRANSITION, n))"

definition zns_reset_zone :: op_handler where
  "zns_reset_zone n i st =
    (if st = NVME_ZONE_STATE_EMPTY then Some (NVME_SUCCESS, n)
     else if st \<in> {NVME_ZONE_STATE_EXPLICITLY_OPEN, NVME_ZONE_STATE_IMPLICITLY_OPEN, NVME_ZONE_STATE_CLOSED, NVME_ZONE_STATE_FULL}
     then do { n' \<leftarrow> zns_aio_zone_reset_cb n i; Some (NVME_SUCCESS, n') }
     else Some (NVME_ZONE_INVAL_TRANSITION, n))"

definition zns_offline_zone :: op_handler where
  "zns_offline_zone n i st =
    (if st = NVME_ZONE_STATE_READ_ONLY then do {
       n' \<leftarrow> zns_assign_zone_state n i NVME_ZONE_STATE_OFFLINE;
       Some (NVME_SUCCESS, n')
     } else if st = NVME_ZONE_STATE_OFFLINE then Some (NVME_SUCCESS, n)
     else Some (NVME_ZONE_INVAL_TRANSITION, n))"

definition zns_set_zd_ext :: "FemuCtrl \<Rightarrow> nat \<Rightarrow> (u16 \<times> FemuCtrl) option" where
  "zns_set_zd_ext n i = do {
    z \<leftarrow> get_zone n i;
    if zs z \<noteq> NVME_ZONE_STATE_EMPTY then Some (NVME_ZONE_INVAL_TRANSITION, n)
    else if zns_aor_check n 1 0 \<noteq> NVME_SUCCESS then Some (zns_aor_check n 1 0, n)
    else do {
      n1 \<leftarrow> zns_aor_inc_active n;
      n2 \<leftarrow> zns_assign_zone_state (put_zone n1 i (z\<lparr>za := za z OR NVME_ZA_ZD_EXT_VALID\<rparr>)) i NVME_ZONE_STATE_CLOSED;
      Some (NVME_SUCCESS, n2)
    }
  }"

definition NVME_PROC_CURRENT_ZONE :: u32 where "NVME_PROC_CURRENT_ZONE = 0"
definition NVME_PROC_OPENED_ZONES :: u32 where "NVME_PROC_OPENED_ZONES = 1"
definition NVME_PROC_CLOSED_ZONES :: u32 where "NVME_PROC_CLOSED_ZONES = 2"
definition NVME_PROC_READ_ONLY_ZONES :: u32 where "NVME_PROC_READ_ONLY_ZONES = 4"
definition NVME_PROC_FULL_ZONES :: u32 where "NVME_PROC_FULL_ZONES = 8"

lemmas proc_defs = NVME_PROC_CURRENT_ZONE_def NVME_PROC_OPENED_ZONES_def NVME_PROC_CLOSED_ZONES_def
  NVME_PROC_READ_ONLY_ZONES_def NVME_PROC_FULL_ZONES_def

definition proc_zone :: "u32 \<Rightarrow> NvmeZoneState \<Rightarrow> bool" where
  "proc_zone pm st = (case st of
      NVME_ZONE_STATE_IMPLICITLY_OPEN \<Rightarrow> pm AND NVME_PROC_OPENED_ZONES \<noteq> 0
    | NVME_ZONE_STATE_EXPLICITLY_OPEN \<Rightarrow> pm AND NVME_PROC_OPENED_ZONES \<noteq> 0
    | NVME_ZONE_STATE_CLOSED \<Rightarrow> pm AND NVME_PROC_CLOSED_ZONES \<noteq> 0
    | NVME_ZONE_STATE_READ_ONLY \<Rightarrow> pm AND NVME_PROC_READ_ONLY_ZONES \<noteq> 0
    | NVME_ZONE_STATE_FULL \<Rightarrow> pm AND NVME_PROC_FULL_ZONES \<noteq> 0
    | _ \<Rightarrow> False)"

definition zns_bulk_proc_zone :: "u32 \<Rightarrow> op_handler \<Rightarrow> FemuCtrl \<Rightarrow> nat \<Rightarrow> (u16 \<times> FemuCtrl) option" where
  "zns_bulk_proc_zone pm op n i = do {
    z \<leftarrow> get_zone n i;
    if proc_zone pm (zs z) then op n i (zs z) else Some (NVME_SUCCESS, n)
  }"

text \<open>A loop over a queue.  The next element is read before the handler runs, and a handler moves only the
  zone it is called for, so the loop visits the zones that are in the queue when it starts.\<close>

definition failed :: "u16 \<Rightarrow> bool" where
  "failed st \<longleftrightarrow> st \<noteq> 0 \<and> st \<noteq> NVME_NO_COMPLETE"

fun bulk_loop :: "u32 \<Rightarrow> op_handler \<Rightarrow> nat list \<Rightarrow> u16 \<Rightarrow> FemuCtrl \<Rightarrow> (u16 \<times> FemuCtrl) option" where
  "bulk_loop pm op [] st n = Some (st, n)"
| "bulk_loop pm op (i # is) st n = do {
    (st', n') \<leftarrow> zns_bulk_proc_zone pm op n i;
    if failed st' then Some (st', n') else bulk_loop pm op is st' n'
  }"

definition bulk_if :: "u32 \<Rightarrow> u32 \<Rightarrow> op_handler \<Rightarrow> (FemuCtrl \<Rightarrow> nat list) \<Rightarrow> u16 \<times> FemuCtrl \<Rightarrow> (u16 \<times> FemuCtrl) option" where
  "bulk_if b pm op q r = (if pm AND b \<noteq> 0 \<and> \<not> failed (fst r) then bulk_loop pm op (q (snd r)) (fst r) (snd r) else Some r)"

definition zns_do_zone_op :: "FemuCtrl \<Rightarrow> nat \<Rightarrow> u32 \<Rightarrow> op_handler \<Rightarrow> (u16 \<times> FemuCtrl) option" where
  "zns_do_zone_op n i pm op = (if pm = 0 then do {
      z \<leftarrow> get_zone n i;
      op n i (zs z)
    } else do {
      r1 \<leftarrow> bulk_if NVME_PROC_CLOSED_ZONES pm op closed_zones (NVME_SUCCESS, n);
      r2 \<leftarrow> bulk_if NVME_PROC_OPENED_ZONES pm op imp_open_zones r1;
      r3 \<leftarrow> bulk_if NVME_PROC_OPENED_ZONES pm op exp_open_zones r2;
      r4 \<leftarrow> bulk_if NVME_PROC_FULL_ZONES pm op full_zones r3;
      bulk_if NVME_PROC_READ_ONLY_ZONES pm op (\<lambda>n. [i..<i + unat (num_zones n)]) r4
    })"

definition slba_of :: "NvmeCmd \<Rightarrow> u64" where
  "slba_of c = push_bit 32 (ucast (cdw11 c)) OR ucast (cdw10 c)"

text \<open>The status, the address and the index of the zone.\<close>

definition zns_get_mgmt_zone_slba_idx :: "FemuCtrl \<Rightarrow> NvmeCmd \<Rightarrow> (u16 \<times> u64 \<times> nat) option" where
  "zns_get_mgmt_zone_slba_idx n c =
    (if \<not> zoned n then Some (NVME_INVALID_OPCODE OR NVME_DNR, 0, 0)
     else if slba_of c \<ge> nsze n then Some (NVME_LBA_RANGE OR NVME_DNR, 0, 0)
     else do {
       i \<leftarrow> zns_get_zone_by_slba n (slba_of c);
       Some (NVME_SUCCESS, slba_of c, i)
     })"

definition NVME_ZONE_ACTION_CLOSE :: u32 where "NVME_ZONE_ACTION_CLOSE = 0x01"
definition NVME_ZONE_ACTION_FINISH :: u32 where "NVME_ZONE_ACTION_FINISH = 0x02"
definition NVME_ZONE_ACTION_OPEN :: u32 where "NVME_ZONE_ACTION_OPEN = 0x03"
definition NVME_ZONE_ACTION_RESET :: u32 where "NVME_ZONE_ACTION_RESET = 0x04"
definition NVME_ZONE_ACTION_OFFLINE :: u32 where "NVME_ZONE_ACTION_OFFLINE = 0x05"
definition NVME_ZONE_ACTION_SET_ZD_EXT :: u32 where "NVME_ZONE_ACTION_SET_ZD_EXT = 0x10"

lemmas action_defs = NVME_ZONE_ACTION_CLOSE_def NVME_ZONE_ACTION_FINISH_def NVME_ZONE_ACTION_OPEN_def
  NVME_ZONE_ACTION_RESET_def NVME_ZONE_ACTION_OFFLINE_def NVME_ZONE_ACTION_SET_ZD_EXT_def

definition with_dnr :: "u16 \<times> FemuCtrl \<Rightarrow> u16 \<times> FemuCtrl" where
  "with_dnr r = (if fst r \<noteq> 0 then fst r OR NVME_DNR else fst r, snd r)"

definition set_extension :: "FemuCtrl \<Rightarrow> nat \<Rightarrow> NvmeRequest \<Rightarrow> (u16 \<times> FemuCtrl) option" where
  "set_extension n i req = (if dma_status req \<noteq> 0 then Some (dma_status req, n)
    else do {
      ext \<leftarrow> aset (zd_extensions n) i (dma_data req);
      r \<leftarrow> zns_set_zd_ext (n\<lparr>zd_extensions := ext\<rparr>) i;
      Some (with_dnr r)
    })"

text \<open>The status of a reset is dropped.\<close>

definition zns_zone_mgmt_send :: "FemuCtrl \<Rightarrow> NvmeRequest \<Rightarrow> (u16 \<times> FemuCtrl) option" where
  "zns_zone_mgmt_send n req = do {
    let c = cmd req;
    let action = cdw13 c AND 0xff;
    let for_all = (cdw13 c AND 0x100 \<noteq> 0);
    (st, slba, i) \<leftarrow> (if for_all then Some (NVME_SUCCESS, 0, 0) else zns_get_mgmt_zone_slba_idx n c);
    if st \<noteq> 0 then Some (st, n)
    else do {
      z \<leftarrow> get_zone n i;
      let pm = (\<lambda>m. if for_all then m else NVME_PROC_CURRENT_ZONE);
      if slba \<noteq> zslba z then Some (NVME_INVALID_FIELD OR NVME_DNR, n)
      else if action = NVME_ZONE_ACTION_OPEN then map_option with_dnr (zns_do_zone_op n i (pm NVME_PROC_CLOSED_ZONES) zns_open_zone)
      else if action = NVME_ZONE_ACTION_CLOSE then map_option with_dnr (zns_do_zone_op n i (pm NVME_PROC_OPENED_ZONES) zns_close_zone)
      else if action = NVME_ZONE_ACTION_FINISH then
        map_option with_dnr (zns_do_zone_op n i (pm (NVME_PROC_OPENED_ZONES OR NVME_PROC_CLOSED_ZONES)) zns_finish_zone)
      else if action = NVME_ZONE_ACTION_RESET then do {
        (st', n') \<leftarrow> zns_do_zone_op n i (pm (NVME_PROC_OPENED_ZONES OR NVME_PROC_CLOSED_ZONES OR NVME_PROC_FULL_ZONES)) zns_reset_zone;
        Some (NVME_SUCCESS, n')
      }
      else if action = NVME_ZONE_ACTION_OFFLINE then map_option with_dnr (zns_do_zone_op n i (pm NVME_PROC_READ_ONLY_ZONES) zns_offline_zone)
      else if action = NVME_ZONE_ACTION_SET_ZD_EXT then
        (if for_all \<or> zd_extension_size n = 0 then Some (NVME_INVALID_FIELD OR NVME_DNR, n) else set_extension n i req)
      else Some (with_dnr (NVME_INVALID_FIELD, n))
    }
  }"

section \<open>Reports\<close>

definition zns_zone_matches_filter :: "u32 \<Rightarrow> NvmeZone \<Rightarrow> bool" where
  "zns_zone_matches_filter zafs z =
    (if zafs = 0 then True
     else if zafs = 1 then zs z = NVME_ZONE_STATE_EMPTY
     else if zafs = 2 then zs z = NVME_ZONE_STATE_IMPLICITLY_OPEN
     else if zafs = 3 then zs z = NVME_ZONE_STATE_EXPLICITLY_OPEN
     else if zafs = 4 then zs z = NVME_ZONE_STATE_CLOSED
     else if zafs = 5 then zs z = NVME_ZONE_STATE_FULL
     else if zafs = 6 then zs z = NVME_ZONE_STATE_READ_ONLY
     else if zafs = 7 then zs z = NVME_ZONE_STATE_OFFLINE
     else False)"

text \<open>The zones are counted up to the size of the name space, without a test for the end of the array.\<close>

fun count_zones :: "FemuCtrl \<Rightarrow> u32 \<Rightarrow> bool \<Rightarrow> u64 \<Rightarrow> u64 \<Rightarrow> u64 \<Rightarrow> NvmeZone list \<Rightarrow> u64 option" where
  "count_zones n zrasf partial mx slba nr [] =
    (if slba < zns_ns_nlbas n \<and> \<not> (partial \<and> nr \<ge> mx) then None else Some nr)"
| "count_zones n zrasf partial mx slba nr (z # zl) =
    (if slba < zns_ns_nlbas n \<and> \<not> (partial \<and> nr \<ge> mx)
     then count_zones n zrasf partial mx (slba + zone_size n) (if zns_zone_matches_filter zrasf z then nr + 1 else nr) zl
     else Some nr)"

text \<open>The descriptor of a zone in a report; its \<open>w_ptr\<close> is not part of it.\<close>

definition descriptor :: "FemuCtrl \<Rightarrow> bool \<Rightarrow> nat \<Rightarrow> NvmeZone \<Rightarrow> NvmeZone \<times> u8 list option" where
  "descriptor n extended i z = (z\<lparr>wp := (if zns_wp_is_valid z then wp z else NOT 0)\<rparr>,
    if extended then Some (if za z AND NVME_ZA_ZD_EXT_VALID \<noteq> 0 then zd_extensions n ! i else replicate (unat (zd_extension_size n)) 0) else None)"

fun descriptors :: "FemuCtrl \<Rightarrow> bool \<Rightarrow> u32 \<Rightarrow> nat \<Rightarrow> nat \<Rightarrow> NvmeZone list \<Rightarrow> (NvmeZone \<times> u8 list option) list" where
  "descriptors n extended zrasf mx i [] = []"
| "descriptors n extended zrasf mx i (z # zl) =
    (if mx = 0 then []
     else if zns_zone_matches_filter zrasf z then descriptor n extended i z # descriptors n extended zrasf (mx - 1) (Suc i) zl
     else descriptors n extended zrasf mx (Suc i) zl)"

text \<open>The header and the descriptor of a zone have 64 bytes.\<close>

definition zns_zone_mgmt_recv :: "FemuCtrl \<Rightarrow> NvmeRequest \<Rightarrow> (u16 \<times> zns_out list) option" where
  "zns_zone_mgmt_recv n req = do {
    let c = cmd req;
    let data_size = (push_bit 2 (cdw12 c + 1) :: u32);
    (st, slba, i) \<leftarrow> zns_get_mgmt_zone_slba_idx n c;
    if st \<noteq> 0 then Some (st, [])
    else do {
      let zra = cdw13 c AND 0xff;
      let zrasf = drop_bit 8 (cdw13 c) AND 0xff;
      let partial = (drop_bit 16 (cdw13 c) AND 1 \<noteq> 0);
      if (zra \<noteq> 0 \<and> zra \<noteq> 1) \<or> (zra = 1 \<and> zd_extension_size n = 0) \<or> zrasf > 7 \<or> data_size < 64
      then Some (NVME_INVALID_FIELD OR NVME_DNR, [])
      else if nvme_check_mdts n (ucast data_size) \<noteq> 0 then Some (nvme_check_mdts n (ucast data_size), [])
      else do {
        let entry_sz = 64 + (if zra = 1 then ucast (zd_extension_size n) else 0);
        mx \<leftarrow> udiv (ucast data_size - 64 :: u64) entry_sz;
        nr \<leftarrow> count_zones n zrasf partial mx slba 0 (drop i (zone_array n));
        Some (dma_status req, [Report nr (descriptors n (zra = 1) zrasf (unat mx) i (drop i (zone_array n)))])
      }
    }
  }"

section \<open>Reads and writes\<close>

definition nlb_of :: "NvmeCmd \<Rightarrow> u32" where
  "nlb_of c = ucast (ucast (cdw12 c) :: u16) + 1"

definition zns_check_bounds :: "FemuCtrl \<Rightarrow> u64 \<Rightarrow> u32 \<Rightarrow> u16" where
  "zns_check_bounds n slba nlb =
    (if NOT 0 - slba < ucast nlb \<or> slba + ucast nlb > nsze n then NVME_LBA_RANGE OR NVME_DNR else NVME_SUCCESS)"

definition zns_map_dptr :: "NvmeRequest \<Rightarrow> u16" where
  "zns_map_dptr req = (if psdt (cmd req) = 0 then prp_status req else NVME_INVALID_FIELD)"

definition error :: "u16 \<Rightarrow> u16" where
  "error st = st OR NVME_DNR"

text \<open>The part that writes and appends share, from the zone on.  \<open>slba\<close> of an append is replaced by the write pointer after the
  checks; the pointer moves before the data pointer is mapped.\<close>

definition write_zone :: "FemuCtrl \<Rightarrow> NvmeRequest \<Rightarrow> bool \<Rightarrow> bool \<Rightarrow> (u16 \<times> zns_out list \<times> FemuCtrl) option" where
  "write_zone n req app wr = do {
    let slba = slba_of (cmd req);
    let nlb = nlb_of (cmd req);
    i \<leftarrow> zns_get_zone_by_slba n slba;
    z \<leftarrow> get_zone n i;
    st \<leftarrow> zns_check_zone_write n z slba nlb app;
    if st \<noteq> 0 then Some (error st, [], n)
    else do {
      (st', n1) \<leftarrow> zns_auto_open_zone n i;
      if st' \<noteq> 0 then Some (error st', [], n1)
      else do {
        let dst = (if app then w_ptr z else slba);
        (res, n2) \<leftarrow> zns_advance_zone_wp n1 i nlb;
        if zns_map_dptr req \<noteq> 0 then Some (error (zns_map_dptr req), [Res_slba res], n2)
        else do {
          n3 \<leftarrow> zns_finalize_zoned_write n2 slba nlb;
          Some (NVME_SUCCESS, [Res_slba res, Backend_rw wr (zns_l2b n dst)], n3)
        }
      }
    }
  }"

text \<open>\<open>zns_do_write\<close> has only one caller, the append, which passes \<open>wrz\<close> false; it uses the direction that is in the request.\<close>

definition zns_do_write :: "FemuCtrl \<Rightarrow> NvmeRequest \<Rightarrow> bool \<Rightarrow> (u16 \<times> zns_out list \<times> FemuCtrl) option" where
  "zns_do_write n req app =
    (let len = zns_l2b n (ucast (nlb_of (cmd req)));
         st = (if nvme_check_mdts n len \<noteq> 0 then nvme_check_mdts n len else zns_check_bounds n (slba_of (cmd req)) (nlb_of (cmd req)))
     in if st \<noteq> 0 then Some (error st, [], n) else write_zone n req app (is_write req))"

definition zns_zone_append :: "FemuCtrl \<Rightarrow> NvmeRequest \<Rightarrow> (u16 \<times> zns_out list \<times> FemuCtrl) option" where
  "zns_zone_append n req = zns_do_write n req True"

definition zns_write :: "FemuCtrl \<Rightarrow> NvmeRequest \<Rightarrow> (u16 \<times> zns_out list \<times> FemuCtrl) option" where
  "zns_write n req = do {
    ensure (zoned n);
    let len = zns_l2b n (ucast (nlb_of (cmd req)));
    let st = (if nvme_check_mdts n len \<noteq> 0 then nvme_check_mdts n len else zns_check_bounds n (slba_of (cmd req)) (nlb_of (cmd req)));
    if st \<noteq> 0 then Some (error st, [], n) else write_zone n req False True
  }"

definition zns_read :: "FemuCtrl \<Rightarrow> NvmeRequest \<Rightarrow> (u16 \<times> zns_out list) option" where
  "zns_read n req = do {
    ensure (zoned n);
    let len = zns_l2b n (ucast (nlb_of (cmd req)));
    let st = (if nvme_check_mdts n len \<noteq> 0 then nvme_check_mdts n len else zns_check_bounds n (slba_of (cmd req)) (nlb_of (cmd req)));
    if st \<noteq> 0 then Some (error st, [])
    else do {
      st' \<leftarrow> zns_check_zone_read n (slba_of (cmd req)) (nlb_of (cmd req));
      Some (if st' \<noteq> 0 then (error st', [])
        else if zns_map_dptr req \<noteq> 0 then (error (zns_map_dptr req), [])
        else (NVME_SUCCESS, [Backend_rw False (zns_l2b n (slba_of (cmd req)))]))
    }
  }"

definition zns_io_cmd :: "FemuCtrl \<Rightarrow> NvmeRequest \<Rightarrow> (u16 \<times> zns_out list \<times> FemuCtrl) option" where
  "zns_io_cmd n req =
    (if opcode (cmd req) = NVME_CMD_READ then map_option (\<lambda>(st, out). (st, out, n)) (zns_read n req)
     else if opcode (cmd req) = NVME_CMD_WRITE then zns_write n req
     else if opcode (cmd req) = NVME_CMD_ZONE_MGMT_SEND then map_option (\<lambda>(st, n'). (st, [], n')) (zns_zone_mgmt_send n req)
     else if opcode (cmd req) = NVME_CMD_ZONE_MGMT_RECV then map_option (\<lambda>(st, out). (st, out, n)) (zns_zone_mgmt_recv n req)
     else if opcode (cmd req) = NVME_CMD_ZONE_APPEND then zns_zone_append n req
     else Some (NVME_INVALID_OPCODE OR NVME_DNR, [], n))"

section \<open>Shutdown\<close>

definition zns_clear_zone :: "FemuCtrl \<Rightarrow> nat \<Rightarrow> FemuCtrl option" where
  "zns_clear_zone n i = do {
    z0 \<leftarrow> get_zone n i;
    let z = z0\<lparr>w_ptr := wp z0\<rparr>;
    if wp z \<noteq> zslba z \<or> za z AND NVME_ZA_ZD_EXT_VALID \<noteq> 0 then do {
      n1 \<leftarrow> zns_aor_inc_active (put_zone n i (z\<lparr>zs := NVME_ZONE_STATE_CLOSED\<rparr>));
      Some (n1\<lparr>closed_zones := i # closed_zones n1\<rparr>)
    } else Some (put_zone n i (z\<lparr>zs := NVME_ZONE_STATE_EMPTY\<rparr>))
  }"

definition clear_closed :: "nat \<Rightarrow> FemuCtrl \<Rightarrow> FemuCtrl option" where
  "clear_closed i n = do {
    q \<leftarrow> qtailq_remove i (closed_zones n);
    n1 \<leftarrow> zns_aor_dec_active (n\<lparr>closed_zones := q\<rparr>);
    zns_clear_zone n1 i
  }"

definition clear_imp :: "nat \<Rightarrow> FemuCtrl \<Rightarrow> FemuCtrl option" where
  "clear_imp i n = do {
    q \<leftarrow> qtailq_remove i (imp_open_zones n);
    n1 \<leftarrow> zns_aor_dec_open (n\<lparr>imp_open_zones := q\<rparr>);
    n2 \<leftarrow> zns_aor_dec_active n1;
    zns_clear_zone n2 i
  }"

definition clear_exp :: "nat \<Rightarrow> FemuCtrl \<Rightarrow> FemuCtrl option" where
  "clear_exp i n = do {
    q \<leftarrow> qtailq_remove i (exp_open_zones n);
    n1 \<leftarrow> zns_aor_dec_open (n\<lparr>exp_open_zones := q\<rparr>);
    n2 \<leftarrow> zns_aor_dec_active n1;
    zns_clear_zone n2 i
  }"

definition zns_zoned_ns_shutdown :: "FemuCtrl \<Rightarrow> FemuCtrl option" where
  "zns_zoned_ns_shutdown n = do {
    n1 \<leftarrow> ofold clear_closed (closed_zones n) n;
    n2 \<leftarrow> ofold clear_imp (imp_open_zones n1) n1;
    n3 \<leftarrow> ofold clear_exp (exp_open_zones n2) n2;
    ensure (nr_open_zones n3 = 0);
    Some n3
  }"

definition zns_ns_shutdown :: "FemuCtrl \<Rightarrow> FemuCtrl option" where
  "zns_ns_shutdown n = (if zoned n then zns_zoned_ns_shutdown n else Some n)"

end
