(* ===== verification/Zns_Inv.thy ===== *)
theory Zns_Inv
  imports Zns
begin

text \<open>
  The invariant of the zoned mode: every queue holds exactly the zones in its state, the counters are the
  numbers of open and active zones and respect the limits, and the zones lie one behind the other.  Every
  change of a zone is a \<open>zmoved\<close> state; the lemmas on \<open>zmoved\<close> carry the proofs of the operations.
\<close>

definition is_open :: "NvmeZone \<Rightarrow> bool" where
  "is_open z \<longleftrightarrow> zs z = NVME_ZONE_STATE_IMPLICITLY_OPEN \<or> zs z = NVME_ZONE_STATE_EXPLICITLY_OPEN"

definition is_active :: "NvmeZone \<Rightarrow> bool" where
  "is_active z \<longleftrightarrow> is_open z \<or> zs z = NVME_ZONE_STATE_CLOSED"

definition open_count :: "FemuCtrl \<Rightarrow> nat" where
  "open_count n = length (filter is_open (zone_array n))"

definition active_count :: "FemuCtrl \<Rightarrow> nat" where
  "active_count n = length (filter is_active (zone_array n))"

definition queue_ok :: "nat list \<Rightarrow> NvmeZoneState \<Rightarrow> NvmeZone list \<Rightarrow> bool" where
  "queue_ok q st zl \<longleftrightarrow> distinct q \<and> set q = {i. i < length zl \<and> zs (zl ! i) = st}"

definition queues_ok :: "FemuCtrl \<Rightarrow> bool" where
  "queues_ok n \<longleftrightarrow> queue_ok (exp_open_zones n) NVME_ZONE_STATE_EXPLICITLY_OPEN (zone_array n) \<and>
    queue_ok (imp_open_zones n) NVME_ZONE_STATE_IMPLICITLY_OPEN (zone_array n) \<and>
    queue_ok (closed_zones n) NVME_ZONE_STATE_CLOSED (zone_array n) \<and>
    queue_ok (full_zones n) NVME_ZONE_STATE_FULL (zone_array n) \<and>
    (\<forall>z \<in> set (zone_array n). zs z \<noteq> NVME_ZONE_STATE_RESERVED)"

definition counters :: "FemuCtrl \<Rightarrow> nat \<Rightarrow> nat \<Rightarrow> bool" where
  "counters n opn act \<longleftrightarrow> nr_open_zones n = (if max_open_zones n = 0 then 0 else int opn) \<and>
    nr_active_zones n = (if max_active_zones n = 0 then 0 else int act) \<and>
    (max_open_zones n \<noteq> 0 \<longrightarrow> opn \<le> unat (max_open_zones n)) \<and> (max_active_zones n \<noteq> 0 \<longrightarrow> act \<le> unat (max_active_zones n))"

definition geo :: "FemuCtrl \<Rightarrow> bool" where
  "geo n \<longleftrightarrow> zoned n \<and> 0 < num_zones n \<and> length (zone_array n) = unat (num_zones n) \<and> 0 < zone_capacity n \<and> zone_capacity n \<le> zone_size n \<and>
    (unat (num_zones n) + 1) * unat (zone_size n) < 2 ^ 64 \<and> nsze n = ucast (num_zones n) * zone_size n \<and> zns_ns_nlbas n = nsze n \<and>
    (zone_size_log2 n \<noteq> 0 \<longrightarrow> unat (zone_size_log2 n) < 64 \<and> zone_size n = 2 ^ unat (zone_size_log2 n)) \<and>
    (zd_extension_size n \<noteq> 0 \<longrightarrow> length (zd_extensions n) = unat (num_zones n)) \<and>
    (\<forall>i < length (zone_array n). unat (zslba (zone_array n ! i)) = i * unat (zone_size n) \<and> zcap (zone_array n ! i) = zone_capacity n)"

definition zinv :: "FemuCtrl \<Rightarrow> bool" where
  "zinv n \<longleftrightarrow> queues_ok n \<and> counters n (open_count n) (active_count n) \<and> geo n"

text \<open>The pointers of a zone agree and stand where its state says.\<close>

definition ptr_ok :: "NvmeZone \<Rightarrow> bool" where
  "ptr_ok z \<longleftrightarrow> w_ptr z = wp z \<and> zslba z \<le> wp z \<and> wp z \<le> zns_zone_wr_boundary z \<and>
    (zs z = NVME_ZONE_STATE_EMPTY \<longrightarrow> wp z = zslba z) \<and> (zs z = NVME_ZONE_STATE_FULL \<longrightarrow> wp z = zns_zone_wr_boundary z) \<and>
    (is_active z \<longrightarrow> wp z < zns_zone_wr_boundary z)"

definition pinv :: "FemuCtrl \<Rightarrow> bool" where
  "pinv n \<longleftrightarrow> (\<forall>i < length (zone_array n). ptr_ok (zone_array n ! i))"

definition same_size :: "FemuCtrl \<Rightarrow> FemuCtrl \<Rightarrow> bool" where
  "same_size n n' \<longleftrightarrow> num_zones n' = num_zones n \<and> zone_size n' = zone_size n \<and> lbads n' = lbads n"

text \<open>What every operation keeps.\<close>

definition keeps :: "FemuCtrl \<Rightarrow> FemuCtrl \<Rightarrow> bool" where
  "keeps n n' \<longleftrightarrow> zinv n' \<and> same_size n n' \<and> (pinv n \<longrightarrow> pinv n')"

section \<open>Moving a zone to another state\<close>

definition zmoved :: "FemuCtrl \<Rightarrow> nat \<Rightarrow> NvmeZone \<Rightarrow> FemuCtrl" where
  "zmoved n i z = n\<lparr>zone_array := (zone_array n)[i := z],
    exp_open_zones := remove1 i (exp_open_zones n) @ (if zs z = NVME_ZONE_STATE_EXPLICITLY_OPEN then [i] else []),
    imp_open_zones := remove1 i (imp_open_zones n) @ (if zs z = NVME_ZONE_STATE_IMPLICITLY_OPEN then [i] else []),
    closed_zones := remove1 i (closed_zones n) @ (if zs z = NVME_ZONE_STATE_CLOSED then [i] else []),
    full_zones := remove1 i (full_zones n) @ (if zs z = NVME_ZONE_STATE_FULL then [i] else [])\<rparr>"

definition tidy :: "NvmeZone \<Rightarrow> NvmeZone" where
  "tidy z = (if zs z \<in> {NVME_ZONE_STATE_RESERVED, NVME_ZONE_STATE_EMPTY, NVME_ZONE_STATE_OFFLINE} then z\<lparr>za := 0\<rparr> else z)"

lemma tidy_simps [simp]: "zs (tidy z) = zs z" "zslba (tidy z) = zslba z" "zcap (tidy z) = zcap z" "wp (tidy z) = wp z" "w_ptr (tidy z) = w_ptr z"
  by (simp_all add: tidy_def)

lemma queue_ok_move:
  assumes "queue_ok q st zl" "i < length zl"
  shows "queue_ok (remove1 i q @ (if zs z = st then [i] else [])) st (zl[i := z])"
proof -
  have q: "distinct q" "set q = {i. i < length zl \<and> zs (zl ! i) = st}" using assms(1) by (simp_all add: queue_ok_def)
  then have "set (remove1 i q) = {j. j < length zl \<and> zs (zl ! j) = st} - {i}" by simp
  then show ?thesis using q assms(2) by (auto simp: queue_ok_def nth_list_update)
qed

lemma queue_ok_put: "queue_ok q st zl \<Longrightarrow> i < length zl \<Longrightarrow> zs z = zs (zl ! i) \<Longrightarrow> queue_ok q st (zl[i := z])"
  by (auto simp: queue_ok_def nth_list_update)

lemma queue_ok_mem: "queue_ok q st zl \<Longrightarrow> i \<in> set q \<longleftrightarrow> i < length zl \<and> zs (zl ! i) = st"
  by (auto simp: queue_ok_def)

lemma queues_okD:
  assumes "queues_ok n"
  shows "queue_ok (exp_open_zones n) NVME_ZONE_STATE_EXPLICITLY_OPEN (zone_array n)"
    "queue_ok (imp_open_zones n) NVME_ZONE_STATE_IMPLICITLY_OPEN (zone_array n)"
    "queue_ok (closed_zones n) NVME_ZONE_STATE_CLOSED (zone_array n)"
    "queue_ok (full_zones n) NVME_ZONE_STATE_FULL (zone_array n)"
    "i < length (zone_array n) \<Longrightarrow> zs (zone_array n ! i) \<noteq> NVME_ZONE_STATE_RESERVED"
  using assms by (simp_all add: queues_ok_def)

lemma queues_mem:
  assumes "queues_ok n"
  shows "i \<in> set (exp_open_zones n) \<longleftrightarrow> i < length (zone_array n) \<and> zs (zone_array n ! i) = NVME_ZONE_STATE_EXPLICITLY_OPEN"
    "i \<in> set (imp_open_zones n) \<longleftrightarrow> i < length (zone_array n) \<and> zs (zone_array n ! i) = NVME_ZONE_STATE_IMPLICITLY_OPEN"
    "i \<in> set (closed_zones n) \<longleftrightarrow> i < length (zone_array n) \<and> zs (zone_array n ! i) = NVME_ZONE_STATE_CLOSED"
    "i \<in> set (full_zones n) \<longleftrightarrow> i < length (zone_array n) \<and> zs (zone_array n ! i) = NVME_ZONE_STATE_FULL"
  using queues_okD [OF assms] by (simp_all add: queue_ok_mem)

lemma moved_queues:
  assumes "queues_ok n" "i < length (zone_array n)" "zs z \<noteq> NVME_ZONE_STATE_RESERVED"
  shows "queues_ok (zmoved n i z)"
  using assms queue_ok_move [OF _ assms(2), of _ _ z] set_update_subset_insert [of "zone_array n" i z]
  by (auto simp: queues_ok_def zmoved_def)

lemma put_queues:
  assumes "queues_ok n" "i < length (zone_array n)" "zs z = zs (zone_array n ! i)"
  shows "queues_ok (put_zone n i z)"
proof -
  have "zs y \<noteq> NVME_ZONE_STATE_RESERVED" if "y \<in> set ((zone_array n)[i := z])" for y
  proof -
    have "y = z \<or> y \<in> set (zone_array n)" using that set_update_subset_insert [of "zone_array n" i z] by blast
    then show ?thesis using assms nth_mem [OF assms(2)] by (metis queues_ok_def)
  qed
  then show ?thesis using assms queue_ok_put [OF _ assms(2,3)] by (simp add: queues_ok_def put_zone_def)
qed

lemma moved_put [simp]: "zmoved (put_zone n i z) i z' = zmoved n i z'"
  by (simp add: zmoved_def put_zone_def)

lemma assign_moved:
  assumes "queues_ok n" "i < length (zone_array n)"
  shows "zns_assign_zone_state n i st = Some (zmoved n i (tidy ((zone_array n ! i)\<lparr>zs := st\<rparr>)))"
proof -
  let ?z = "zone_array n ! i"
  define n1 where "n1 = n\<lparr>exp_open_zones := remove1 i (exp_open_zones n), imp_open_zones := remove1 i (imp_open_zones n),
      closed_zones := remove1 i (closed_zones n), full_zones := remove1 i (full_zones n)\<rparr>"
  have "(if in_use n i then unqueue n i (zs ?z) else Some n) = Some n1"
    using assms(2) by (cases "zs ?z") (simp_all add: in_use_def unqueue_def queues_mem [OF assms(1)] n1_def remove1_idem)
  moreover have "enqueue n1 i (?z\<lparr>zs := st\<rparr>) = zmoved n i (tidy (?z\<lparr>zs := st\<rparr>))"
    by (cases st) (simp_all add: enqueue_def zmoved_def put_zone_def tidy_def n1_def)
  ultimately show ?thesis using assms(2) by (simp add: zns_assign_zone_state_def get_zone_def)
qed

lemma filter_update:
  "i < length xs \<Longrightarrow> length (filter P (xs[i := y])) + (if P (xs ! i) then 1 else 0) = length (filter P xs) + (if P y then 1 else 0)"
proof (induction xs arbitrary: i)
  case (Cons x xs)
  then show ?case by (cases i) auto
qed simp

lemma moved_counts:
  assumes "i < length (zone_array n)"
  shows "open_count (zmoved n i z) + (if is_open (zone_array n ! i) then 1 else 0) = open_count n + (if is_open z then 1 else 0)"
    "active_count (zmoved n i z) + (if is_active (zone_array n ! i) then 1 else 0) = active_count n + (if is_active z then 1 else 0)"
  using filter_update [OF assms, of is_open z] filter_update [OF assms, of is_active z]
  by (simp_all add: open_count_def active_count_def zmoved_def)

lemma geo_moved:
  assumes "geo n" "i < length (zone_array n)" "zslba z = zslba (zone_array n ! i)" "zcap z = zcap (zone_array n ! i)"
  shows "geo (zmoved n i z)" "geo (put_zone n i z)"
  using assms by (auto simp: geo_def zmoved_def put_zone_def nth_list_update zns_ns_nlbas_def)

section \<open>Counting resources\<close>

text \<open>\<open>ctr n m\<close>: the states differ in the counters only.\<close>

definition ctr :: "FemuCtrl \<Rightarrow> FemuCtrl \<Rightarrow> bool" where
  "ctr n m \<longleftrightarrow> (\<exists>w v. m = n\<lparr>nr_open_zones := w, nr_active_zones := v\<rparr>)"

lemma ctr_refl [simp]: "ctr n n"
  unfolding ctr_def by (rule exI [of _ "nr_open_zones n"], rule exI [of _ "nr_active_zones n"]) simp

lemma ctr_upd [simp]: "ctr n m \<Longrightarrow> ctr n (m\<lparr>nr_open_zones := w\<rparr>)" "ctr n m \<Longrightarrow> ctr n (m\<lparr>nr_active_zones := w\<rparr>)"
proof -
  assume "ctr n m"
  then obtain p a where m: "m = n\<lparr>nr_open_zones := p, nr_active_zones := a\<rparr>" by (auto simp: ctr_def)
  have "m\<lparr>nr_open_zones := w\<rparr> = n\<lparr>nr_open_zones := w, nr_active_zones := a\<rparr>"
    "m\<lparr>nr_active_zones := w\<rparr> = n\<lparr>nr_open_zones := p, nr_active_zones := w\<rparr>" by (simp_all add: m)
  then show "ctr n (m\<lparr>nr_open_zones := w\<rparr>)" "ctr n (m\<lparr>nr_active_zones := w\<rparr>)" unfolding ctr_def by blast+
qed

lemma ctr_sel:
  assumes "ctr n m"
  shows "zone_array m = zone_array n" "max_open_zones m = max_open_zones n" "max_active_zones m = max_active_zones n"
    "exp_open_zones m = exp_open_zones n" "imp_open_zones m = imp_open_zones n" "closed_zones m = closed_zones n" "full_zones m = full_zones n"
    "queues_ok m = queues_ok n" "geo m = geo n" "open_count m = open_count n" "active_count m = active_count n"
proof -
  obtain w v where m: "m = n\<lparr>nr_open_zones := w, nr_active_zones := v\<rparr>" using assms by (auto simp: ctr_def)
  show "zone_array m = zone_array n" "max_open_zones m = max_open_zones n" "max_active_zones m = max_active_zones n"
    "exp_open_zones m = exp_open_zones n" "imp_open_zones m = imp_open_zones n" "closed_zones m = closed_zones n" "full_zones m = full_zones n"
    "queues_ok m = queues_ok n" "geo m = geo n" "open_count m = open_count n" "active_count m = active_count n"
    by (simp_all add: m queues_ok_def geo_def zns_ns_nlbas_def open_count_def active_count_def)
qed

lemma dec_open_ok:
  assumes "counters m (Suc p) a" "ctr n m"
  shows "\<exists>m'. zns_aor_dec_open m = Some m' \<and> counters m' p a \<and> ctr n m'"
  using assms by (auto simp: zns_aor_dec_open_def counters_def ensure_def)

lemma dec_active_ok:
  assumes "counters m p (Suc a)" "p \<le> a" "ctr n m"
  shows "\<exists>m'. zns_aor_dec_active m = Some m' \<and> counters m' p a \<and> ctr n m'"
  using assms by (auto simp: zns_aor_dec_active_def counters_def ensure_def Let_def)

lemma word_of_count: "k \<le> unat (w :: u32) \<Longrightarrow> unat (word_of_int (int k) :: u32) = k"
  using unsigned_less [of w, where 'a = nat] by (simp add: unat_of_nat)

lemma inc_open_ok:
  assumes "counters m p a" "max_open_zones m \<noteq> 0 \<Longrightarrow> Suc p \<le> unat (max_open_zones m)" "ctr n m"
  shows "\<exists>m'. zns_aor_inc_open m = Some m' \<and> counters m' (Suc p) a \<and> ctr n m'"
proof (cases "max_open_zones m = 0")
  case False
  then have "word_of_int (1 + int p) \<le> max_open_zones m" using word_of_count [OF assms(2)] assms(2) by (simp add: word_le_nat_alt)
  then show ?thesis using False assms by (auto simp: zns_aor_inc_open_def counters_def ensure_def Let_def add.commute)
qed (use assms in \<open>auto simp: zns_aor_inc_open_def counters_def ensure_def\<close>)

lemma inc_active_ok:
  assumes "counters m p a" "max_active_zones m \<noteq> 0 \<Longrightarrow> Suc a \<le> unat (max_active_zones m)" "ctr n m"
  shows "\<exists>m'. zns_aor_inc_active m = Some m' \<and> counters m' p (Suc a) \<and> ctr n m'"
proof (cases "max_active_zones m = 0")
  case False
  then have "word_of_int (1 + int a) \<le> max_active_zones m" using word_of_count [OF assms(2)] assms(2) by (simp add: word_le_nat_alt)
  then show ?thesis using False assms by (auto simp: zns_aor_inc_active_def counters_def ensure_def Let_def add.commute)
qed (use assms in \<open>auto simp: zns_aor_inc_active_def counters_def ensure_def\<close>)

text \<open>The check lets pass exactly what the limits allow, as long as the number of zones fits 32 bits.\<close>

lemma unat_count_add:
  assumes "k \<le> unat (w :: u32)" "k + unat d < 2 ^ 32"
  shows "unat (word_of_int (int k) + d) = k + unat (d :: u32)"
  using word_of_count [OF assms(1)] assms(2) by (subst unat_add_lem [THEN iffD1]) simp_all

lemma aor_check_ok:
  assumes "counters m p a" "a + unat act < 2 ^ 32" "p + unat opn < 2 ^ 32"
  shows "zns_aor_check m act opn = NVME_SUCCESS \<longleftrightarrow> (max_active_zones m \<noteq> 0 \<longrightarrow> a + unat act \<le> unat (max_active_zones m)) \<and>
    (max_open_zones m \<noteq> 0 \<longrightarrow> p + unat opn \<le> unat (max_open_zones m))"
proof -
  have "unat (word_of_int (nr_active_zones m) + act) = a + unat act" if "max_active_zones m \<noteq> 0"
    using that assms unat_count_add [of a "max_active_zones m" act] by (simp add: counters_def)
  moreover have "unat (word_of_int (nr_open_zones m) + opn) = p + unat opn" if "max_open_zones m \<noteq> 0"
    using that assms unat_count_add [of p "max_open_zones m" opn] by (simp add: counters_def)
  ultimately show ?thesis by (auto simp: zns_aor_check_def status_defs word_less_nat_alt)
qed

lemma zinv_moved:
  assumes n: "zinv n" "ctr n m" "i < length (zone_array n)" and z: "zs z \<noteq> NVME_ZONE_STATE_RESERVED"
    "zslba z = zslba (zone_array n ! i)" "zcap z = zcap (zone_array n ! i)"
    and c: "counters m p a" "p + (if is_open (zone_array n ! i) then 1 else 0) = open_count n + (if is_open z then 1 else 0)"
    "a + (if is_active (zone_array n ! i) then 1 else 0) = active_count n + (if is_active z then 1 else 0)"
  shows "zinv (zmoved m i z)"
proof -
  note s = ctr_sel [OF n(2)]
  have "open_count (zmoved m i z) = p" "active_count (zmoved m i z) = a" using moved_counts [of i m z] c n(3) s by simp_all
  moreover have "counters (zmoved m i z) p a" using c(1) by (simp add: counters_def zmoved_def)
  moreover have "queues_ok (zmoved m i z)" "geo (zmoved m i z)"
    using n z s moved_queues [of m i z] geo_moved(1) [of m i z] by (simp_all add: zinv_def)
  ultimately show ?thesis by (simp add: zinv_def)
qed

lemma all_update: "\<forall>j < length xs. P (xs ! j) \<Longrightarrow> P y \<Longrightarrow> j < length xs \<Longrightarrow> P (xs[i := y] ! j)"
  by (cases "i = j") auto

lemma pinv_moved: "pinv n \<Longrightarrow> ctr n m \<Longrightarrow> ptr_ok z \<Longrightarrow> pinv (zmoved m i z)"
  using ctr_sel(1) [of n m] by (auto simp: pinv_def zmoved_def intro!: all_update)

lemma pinv_put: "pinv n \<Longrightarrow> ptr_ok z \<Longrightarrow> pinv (put_zone n i z)"
  by (auto simp: pinv_def put_zone_def intro!: all_update)

lemma keeps_refl: "zinv n \<Longrightarrow> keeps n n"
  by (simp add: keeps_def same_size_def)

lemma keeps_trans: "keeps a b \<Longrightarrow> keeps b c \<Longrightarrow> keeps a c"
  by (simp add: keeps_def same_size_def)

lemma keeps_len: "zinv n \<Longrightarrow> keeps n n' \<Longrightarrow> length (zone_array n') = length (zone_array n)"
  by (simp add: keeps_def zinv_def geo_def same_size_def)

lemma zinv_put:
  assumes "zinv n" "i < length (zone_array n)" "zs z = zs (zone_array n ! i)" "zslba z = zslba (zone_array n ! i)" "zcap z = zcap (zone_array n ! i)"
  shows "zinv (put_zone n i z)"
proof -
  have "is_open z = is_open (zone_array n ! i)" "is_active z = is_active (zone_array n ! i)" using assms by (simp_all add: is_open_def is_active_def)
  then have "open_count (put_zone n i z) = open_count n" "active_count (put_zone n i z) = active_count n"
    using filter_update [OF assms(2), of is_open z] filter_update [OF assms(2), of is_active z]
    by (simp_all add: open_count_def active_count_def put_zone_def)
  moreover have "counters (put_zone n i z) p a = counters n p a" for p a by (simp add: counters_def put_zone_def)
  ultimately show ?thesis using assms put_queues [of n i z] geo_moved(2) [of n i z] by (simp add: zinv_def)
qed

text \<open>The zone with new pointers, then the new state.\<close>

lemma ptr_ok_tidy [simp]: "ptr_ok (tidy z) = ptr_ok z"
  by (simp add: ptr_ok_def is_active_def is_open_def zns_zone_wr_boundary_def)

lemma assign_zinv:
  assumes "zinv n" "ctr n m" "i < length (zone_array n)" "st \<noteq> NVME_ZONE_STATE_RESERVED" and z: "zs z = zs (zone_array n ! i)"
    "zslba z = zslba (zone_array n ! i)" "zcap z = zcap (zone_array n ! i)"
    and c: "counters m p a" "p + (if is_open z then 1 else 0) = open_count n + (if is_open (z\<lparr>zs := st\<rparr>) then 1 else 0)"
    "a + (if is_active z then 1 else 0) = active_count n + (if is_active (z\<lparr>zs := st\<rparr>) then 1 else 0)"
  shows "zns_assign_zone_state (put_zone m i z) i st = Some (zmoved m i (tidy (z\<lparr>zs := st\<rparr>)))" "zinv (zmoved m i (tidy (z\<lparr>zs := st\<rparr>)))"
    "same_size n (zmoved m i (tidy (z\<lparr>zs := st\<rparr>)))"
proof -
  note s = ctr_sel [OF assms(2)]
  have "queues_ok (put_zone m i z)" using put_queues [of m i z] assms s by (simp add: zinv_def)
  then show "zns_assign_zone_state (put_zone m i z) i st = Some (zmoved m i (tidy (z\<lparr>zs := st\<rparr>)))"
    using assign_moved [of "put_zone m i z" i st] assms(3) s(1) by (simp add: moved_put) (simp add: put_zone_def)
  show "zinv (zmoved m i (tidy (z\<lparr>zs := st\<rparr>)))"
    using zinv_moved [OF assms(1,2,3), of "tidy (z\<lparr>zs := st\<rparr>)" p a] assms z by (simp add: is_open_def is_active_def)
  show "same_size n (zmoved m i (tidy (z\<lparr>zs := st\<rparr>)))" using assms(2) by (auto simp: zmoved_def ctr_def same_size_def)
qed

lemma assign_zone_ok:
  assumes "zinv n" "ctr n m" "i < length (zone_array n)" "st \<noteq> NVME_ZONE_STATE_RESERVED" and z: "zs z = zs (zone_array n ! i)"
    "zslba z = zslba (zone_array n ! i)" "zcap z = zcap (zone_array n ! i)"
    and c: "counters m p a" "p + (if is_open z then 1 else 0) = open_count n + (if is_open (z\<lparr>zs := st\<rparr>) then 1 else 0)"
    "a + (if is_active z then 1 else 0) = active_count n + (if is_active (z\<lparr>zs := st\<rparr>) then 1 else 0)"
    and pt: "ptr_ok (zone_array n ! i) \<Longrightarrow> ptr_ok (z\<lparr>zs := st\<rparr>)"
  shows "\<exists>n'. zns_assign_zone_state (put_zone m i z) i st = Some n' \<and> keeps n n' \<and> n' = zmoved m i (tidy (z\<lparr>zs := st\<rparr>))"
proof -
  have "pinv (zmoved m i (tidy (z\<lparr>zs := st\<rparr>)))" if "pinv n"
    using that pinv_moved [OF _ assms(2)] pt assms(3) by (simp add: pinv_def)
  then show ?thesis using assign_zinv [OF assms(1-4) z c] by (simp add: keeps_def)
qed

lemma put_same: "i < length (zone_array n) \<Longrightarrow> put_zone n i (zone_array n ! i) = n"
  by (simp add: put_zone_def)

lemma assign_state_ok:
  assumes "zinv n" "ctr n m" "i < length (zone_array n)" "st \<noteq> NVME_ZONE_STATE_RESERVED"
    and c: "counters m p a" "p + (if is_open (zone_array n ! i) then 1 else 0) = open_count n + (if is_open ((zone_array n ! i)\<lparr>zs := st\<rparr>) then 1 else 0)"
    "a + (if is_active (zone_array n ! i) then 1 else 0) = active_count n + (if is_active ((zone_array n ! i)\<lparr>zs := st\<rparr>) then 1 else 0)"
    and pt: "ptr_ok (zone_array n ! i) \<Longrightarrow> ptr_ok ((zone_array n ! i)\<lparr>zs := st\<rparr>)"
  shows "\<exists>n'. zns_assign_zone_state m i st = Some n' \<and> keeps n n' \<and> n' = zmoved m i (tidy ((zone_array n ! i)\<lparr>zs := st\<rparr>))"
  using assign_zone_ok [OF assms(1-4) refl refl refl c pt] put_same [of i m] ctr_sel(1) [OF assms(2)] assms(3) by simp

lemma count_le: "open_count n \<le> active_count n"
proof -
  have "length (filter is_open zl) \<le> length (filter is_active zl)" for zl by (induction zl) (auto simp: is_active_def)
  then show ?thesis by (simp add: open_count_def active_count_def)
qed

lemma open_pos: "i < length (zone_array n) \<Longrightarrow> is_open (zone_array n ! i) \<Longrightarrow> 0 < open_count n"
  by (auto simp: open_count_def filter_empty_conv)

lemma active_pos: "i < length (zone_array n) \<Longrightarrow> is_active (zone_array n ! i) \<Longrightarrow> 0 < active_count n"
  by (auto simp: active_count_def filter_empty_conv)

lemma closed_less:
  assumes "i < length (zone_array n)" "zs (zone_array n ! i) = NVME_ZONE_STATE_CLOSED"
  shows "open_count n < active_count n"
proof -
  let ?y = "(zone_array n ! i)\<lparr>zs := NVME_ZONE_STATE_EMPTY\<rparr>"
  have "open_count (put_zone n i ?y) \<le> active_count (put_zone n i ?y)" by (rule count_le)
  then show ?thesis
    using filter_update [OF assms(1), of is_open ?y] filter_update [OF assms(1), of is_active ?y] assms(2)
    by (simp add: open_count_def active_count_def put_zone_def is_active_def is_open_def)
qed

lemma active_less: "i < length (zone_array n) \<Longrightarrow> \<not> is_active (zone_array n ! i) \<Longrightarrow> active_count n < length (zone_array n)"
  unfolding active_count_def by (rule length_filter_less) auto

lemma zinv_len: "zinv n \<Longrightarrow> length (zone_array n) < 2 ^ 32"
  using unsigned_less [of "num_zones n", where 'a = nat] by (simp add: zinv_def geo_def)

lemma unat_boundary:
  assumes "geo n" "i < length (zone_array n)"
  shows "unat (zns_zone_wr_boundary (zone_array n ! i)) = i * unat (zone_size n) + unat (zone_capacity n)"
    "unat (zns_zone_rd_boundary n (zone_array n ! i)) = Suc i * unat (zone_size n)"
    "zslba (zone_array n ! i) < zns_zone_wr_boundary (zone_array n ! i)"
proof -
  have z: "unat (zslba (zone_array n ! i)) = i * unat (zone_size n)" "zcap (zone_array n ! i) = zone_capacity n"
    "0 < zone_capacity n" "unat (zone_capacity n) \<le> unat (zone_size n)" using assms by (simp_all add: geo_def word_le_nat_alt)
  have "Suc i * unat (zone_size n) \<le> (unat (num_zones n) + 1) * unat (zone_size n)"
    using assms by (intro mult_right_mono) (simp_all add: geo_def)
  also have "\<dots> < 2 ^ 64" using assms(1) by (simp add: geo_def)
  finally have b: "i * unat (zone_size n) + unat (zone_size n) < 2 ^ 64" by (simp add: add.commute)
  show e: "unat (zns_zone_wr_boundary (zone_array n ! i)) = i * unat (zone_size n) + unat (zone_capacity n)"
    unfolding zns_zone_wr_boundary_def using z b by (subst unat_add_lem [THEN iffD1]) simp_all
  show "unat (zns_zone_rd_boundary n (zone_array n ! i)) = Suc i * unat (zone_size n)"
    unfolding zns_zone_rd_boundary_def using z b by (subst unat_add_lem [THEN iffD1]) simp_all
  show "zslba (zone_array n ! i) < zns_zone_wr_boundary (zone_array n ! i)"
    using z e by (simp add: word_less_nat_alt)
qed

section \<open>The handlers of zone management\<close>

lemma zinv_sel: "zinv n \<Longrightarrow> counters n (open_count n) (active_count n)" "zinv n \<Longrightarrow> geo n"
  by (simp_all add: zinv_def)

lemma zone_cases:
  assumes "zinv n" "i < length (zone_array n)"
  obtains "zs (zone_array n ! i) = NVME_ZONE_STATE_EMPTY" "\<not> is_active (zone_array n ! i)" "\<not> is_open (zone_array n ! i)" "active_count n < 2 ^ 32 - 1"
  | "zs (zone_array n ! i) \<in> {NVME_ZONE_STATE_IMPLICITLY_OPEN, NVME_ZONE_STATE_EXPLICITLY_OPEN}" "is_active (zone_array n ! i)" "is_open (zone_array n ! i)"
    "0 < open_count n" "open_count n \<le> active_count n"
  | "zs (zone_array n ! i) = NVME_ZONE_STATE_CLOSED" "is_active (zone_array n ! i)" "\<not> is_open (zone_array n ! i)"
    "open_count n < active_count n" "active_count n < 2 ^ 32"
  | "zs (zone_array n ! i) \<in> {NVME_ZONE_STATE_FULL, NVME_ZONE_STATE_READ_ONLY, NVME_ZONE_STATE_OFFLINE}" "\<not> is_active (zone_array n ! i)" "\<not> is_open (zone_array n ! i)"
proof (cases "zs (zone_array n ! i)")
  case NVME_ZONE_STATE_RESERVED
  then show ?thesis using assms queues_okD(5) by (simp add: zinv_def)
next
  case NVME_ZONE_STATE_EMPTY
  then show ?thesis using that(1) active_less [OF assms(2)] zinv_len [OF assms(1)] by (simp add: is_active_def is_open_def)
next
  case NVME_ZONE_STATE_CLOSED
  moreover have "active_count n < 2 ^ 32"
    using zinv_len [OF assms(1)] le_less_trans [OF length_filter_le [of is_active "zone_array n"]] by (simp add: active_count_def)
  ultimately show ?thesis using that(3) closed_less [OF assms(2)] by (simp add: is_active_def is_open_def)
qed (use that(2,4) open_pos [OF assms(2)] count_le [of n] in \<open>simp_all add: is_active_def is_open_def\<close>)

lemma release_open:
  assumes "zinv n" "0 < open_count n"
  shows "\<exists>m. zns_aor_dec_open n = Some m \<and> ctr n m \<and> counters m (open_count n - 1) (active_count n)"
  using dec_open_ok [of n "open_count n - 1" "active_count n" n] assms zinv_sel(1) by fastforce

lemma release_active:
  assumes "ctr n m" "counters m p (active_count n)" "p < active_count n"
  shows "\<exists>m'. zns_aor_dec_active m = Some m' \<and> ctr n m' \<and> counters m' p (active_count n - 1)"
  using dec_active_ok [of m p "active_count n - 1" n] assms by fastforce

lemma release_both:
  assumes "zinv n" "0 < open_count n" "open_count n \<le> active_count n"
  shows "\<exists>m m'. zns_aor_dec_open n = Some m \<and> zns_aor_dec_active m = Some m' \<and> ctr n m' \<and> counters m' (open_count n - 1) (active_count n - 1)"
proof -
  obtain m where m: "zns_aor_dec_open n = Some m" "ctr n m" "counters m (open_count n - 1) (active_count n)" using release_open [OF assms(1,2)] by blast
  then show ?thesis using release_active [OF m(2,3)] assms by fastforce
qed

lemma get_zone_ctr: "ctr n m \<Longrightarrow> i < length (zone_array n) \<Longrightarrow> get_zone m i = Some (zone_array n ! i)"
  using ctr_sel(1) [of n m] by (simp add: get_zone_def)

lemma finish_at_end_ok:
  assumes "zinv n" "ctr n m" "i < length (zone_array n)" "counters m p a"
    "p + (if is_open (zone_array n ! i) then 1 else 0) = open_count n" "a + (if is_active (zone_array n ! i) then 1 else 0) = active_count n"
  shows "\<exists>n'. finish_at_end m i = Some (NVME_SUCCESS, n') \<and> keeps n n'"
proof -
  let ?z = "(zone_array n ! i)\<lparr>w_ptr := zns_zone_wr_boundary (zone_array n ! i), wp := zns_zone_wr_boundary (zone_array n ! i)\<rparr>"
  have "ptr_ok (?z\<lparr>zs := NVME_ZONE_STATE_FULL\<rparr>)"
    using unat_boundary(3) [OF zinv_sel(2) [OF assms(1)] assms(3)] by (simp add: ptr_ok_def is_active_def is_open_def zns_zone_wr_boundary_def)
  then have "\<exists>n'. zns_assign_zone_state (put_zone m i ?z) i NVME_ZONE_STATE_FULL = Some n' \<and> keeps n n'"
    using assign_zone_ok [OF assms(1,2,3), of NVME_ZONE_STATE_FULL ?z p a] assms(4-) by (simp add: is_active_def is_open_def)
  then show ?thesis using assms(2,3) by (auto simp: finish_at_end_def get_zone_ctr)
qed

lemma reset_to_start_ok:
  assumes "zinv n" "ctr n m" "i < length (zone_array n)" "counters m p a"
    "p + (if is_open (zone_array n ! i) then 1 else 0) = open_count n" "a + (if is_active (zone_array n ! i) then 1 else 0) = active_count n"
  shows "\<exists>n'. reset_to_start m i = Some n' \<and> keeps n n'"
proof -
  let ?z = "(zone_array n ! i)\<lparr>w_ptr := zslba (zone_array n ! i), wp := zslba (zone_array n ! i)\<rparr>"
  have "ptr_ok (?z\<lparr>zs := NVME_ZONE_STATE_EMPTY\<rparr>)"
    using unat_boundary(3) [OF zinv_sel(2) [OF assms(1)] assms(3)] by (simp add: ptr_ok_def is_active_def is_open_def zns_zone_wr_boundary_def)
  then have "\<exists>n'. zns_assign_zone_state (put_zone m i ?z) i NVME_ZONE_STATE_EMPTY = Some n' \<and> keeps n n'"
    using assign_zone_ok [OF assms(1,2,3), of NVME_ZONE_STATE_EMPTY ?z p a] assms(4-) by (simp add: is_active_def is_open_def)
  then show ?thesis using assms(2,3) by (auto simp: reset_to_start_def get_zone_ctr)
qed

lemma close_returns:
  assumes "zinv n" "i < length (zone_array n)"
  shows "\<exists>st n'. zns_close_zone n i (zs (zone_array n ! i)) = Some (st, n') \<and> keeps n n'"
  using assms
proof (cases rule: zone_cases)
  case 2
  obtain m where m: "zns_aor_dec_open n = Some m" "ctr n m" "counters m (open_count n - 1) (active_count n)" using release_open [OF assms(1) 2(4)] by blast
  obtain n' where "zns_assign_zone_state m i NVME_ZONE_STATE_CLOSED = Some n'" "keeps n n'"
    using assign_state_ok [OF assms(1) m(2) assms(2), of NVME_ZONE_STATE_CLOSED, OF _ m(3)] 2
    by (auto simp: ptr_ok_def is_active_def is_open_def zns_zone_wr_boundary_def)
  then show ?thesis using 2 m(1) by (auto simp: zns_close_zone_def)
qed (use assms(1) keeps_refl in \<open>auto simp: zns_close_zone_def\<close>)

lemma finish_returns:
  assumes "zinv n" "i < length (zone_array n)"
  shows "\<exists>st n'. zns_finish_zone n i (zs (zone_array n ! i)) = Some (st, n') \<and> keeps n n'"
  using assms
proof (cases rule: zone_cases)
  case 1
  then show ?thesis using finish_at_end_ok [OF assms(1) ctr_refl assms(2) zinv_sel(1) [OF assms(1)]] by (auto simp: zns_finish_zone_def)
next
  case 2
  obtain m m' where m: "zns_aor_dec_open n = Some m" "zns_aor_dec_active m = Some m'" "ctr n m'" "counters m' (open_count n - 1) (active_count n - 1)"
    using release_both [OF assms(1) 2(4,5)] by blast
  then show ?thesis using finish_at_end_ok [OF assms(1) m(3) assms(2) m(4)] 2 by (auto simp: zns_finish_zone_def)
next
  case 3
  obtain m where m: "zns_aor_dec_active n = Some m" "ctr n m" "counters m (open_count n) (active_count n - 1)"
    using release_active [OF ctr_refl zinv_sel(1) [OF assms(1)] 3(4)] by blast
  then show ?thesis using finish_at_end_ok [OF assms(1) m(2) assms(2) m(3)] 3 by (auto simp: zns_finish_zone_def)
qed (use assms(1) keeps_refl in \<open>auto simp: zns_finish_zone_def\<close>)

lemma reset_cb_returns:
  assumes "zinv n" "i < length (zone_array n)"
  shows "\<exists>n'. zns_aio_zone_reset_cb n i = Some n' \<and> keeps n n'"
  using assms
proof (cases rule: zone_cases)
  case 2
  obtain m m' where m: "zns_aor_dec_open n = Some m" "zns_aor_dec_active m = Some m'" "ctr n m'" "counters m' (open_count n - 1) (active_count n - 1)"
    using release_both [OF assms(1) 2(4,5)] by blast
  then show ?thesis using reset_to_start_ok [OF assms(1) m(3) assms(2) m(4)] 2 assms(2) by (auto simp: zns_aio_zone_reset_cb_def get_zone_def)
next
  case 3
  obtain m where m: "zns_aor_dec_active n = Some m" "ctr n m" "counters m (open_count n) (active_count n - 1)"
    using release_active [OF ctr_refl zinv_sel(1) [OF assms(1)] 3(4)] by blast
  then show ?thesis using reset_to_start_ok [OF assms(1) m(2) assms(2) m(3)] 3 assms(2) by (auto simp: zns_aio_zone_reset_cb_def get_zone_def)
next
  case 4
  then show ?thesis using reset_to_start_ok [OF assms(1) ctr_refl assms(2) zinv_sel(1) [OF assms(1)]] assms keeps_refl
    by (auto simp: zns_aio_zone_reset_cb_def get_zone_def)
qed (use assms keeps_refl in \<open>auto simp: zns_aio_zone_reset_cb_def get_zone_def\<close>)

lemma reset_returns:
  assumes "zinv n" "i < length (zone_array n)"
  shows "\<exists>st n'. zns_reset_zone n i (zs (zone_array n ! i)) = Some (st, n') \<and> keeps n n'"
  using reset_cb_returns [OF assms] keeps_refl [OF assms(1)] by (auto simp: zns_reset_zone_def)

lemma offline_returns:
  assumes "zinv n" "i < length (zone_array n)"
  shows "\<exists>st n'. zns_offline_zone n i (zs (zone_array n ! i)) = Some (st, n') \<and> keeps n n'"
  using assms
proof (cases rule: zone_cases)
  case 4
  have "\<exists>n'. zns_assign_zone_state n i NVME_ZONE_STATE_OFFLINE = Some n' \<and> keeps n n'"
    using assign_state_ok [OF assms(1) ctr_refl assms(2), of NVME_ZONE_STATE_OFFLINE, OF _ zinv_sel(1) [OF assms(1)]] 4
    by (auto simp: ptr_ok_def is_active_def is_open_def zns_zone_wr_boundary_def)
  then show ?thesis using 4 keeps_refl [OF assms(1)] by (auto simp: zns_offline_zone_def)
qed (use assms(1) keeps_refl in \<open>auto simp: zns_offline_zone_def\<close>)

lemma open_resources_ok:
  assumes "zinv n" "ctr n m" "i < length (zone_array n)" "counters m (open_count n) a" "\<not> is_open (zone_array n ! i)"
    "max_open_zones n \<noteq> 0 \<Longrightarrow> Suc (open_count n) \<le> unat (max_open_zones n)"
    "a + (if is_active (zone_array n ! i) then 1 else 0) = Suc (active_count n)"
    "zs (zone_array n ! i) = NVME_ZONE_STATE_EMPTY \<or> zs (zone_array n ! i) = NVME_ZONE_STATE_CLOSED"
  shows "\<exists>n'. open_resources m i = Some (NVME_SUCCESS, n') \<and> keeps n n'"
proof -
  obtain m' where m: "zns_aor_inc_open m = Some m'" "counters m' (Suc (open_count n)) a" "ctr n m'"
    using inc_open_ok [OF assms(4) _ assms(2)] assms(6) ctr_sel(2) [OF assms(2)] by auto
  have "ptr_ok (zone_array n ! i) \<Longrightarrow> ptr_ok ((zone_array n ! i)\<lparr>zs := NVME_ZONE_STATE_EXPLICITLY_OPEN\<rparr>)"
    using unat_boundary(3) [OF zinv_sel(2) [OF assms(1)] assms(3)] assms(8)
    by (auto simp: ptr_ok_def is_active_def is_open_def zns_zone_wr_boundary_def)
  then have "\<exists>n'. zns_assign_zone_state m' i NVME_ZONE_STATE_EXPLICITLY_OPEN = Some n' \<and> keeps n n'"
    using assign_state_ok [OF assms(1) m(3) assms(3), of NVME_ZONE_STATE_EXPLICITLY_OPEN, OF _ m(2)] assms(5,7)
    by (auto simp: is_active_def is_open_def)
  then show ?thesis using m(1) by (auto simp: open_resources_def)
qed

lemma ctr_keeps:
  assumes "zinv n" "ctr n m" "counters m (open_count n) (active_count n)"
  shows "keeps n m"
proof -
  have "same_size n m" using assms(2) by (auto simp: ctr_def same_size_def)
  then show ?thesis using assms ctr_sel [OF assms(2)] by (simp add: keeps_def zinv_def pinv_def)
qed

lemma empty_zone:
  assumes "zinv n" "i < length (zone_array n)" "zs (zone_array n ! i) = NVME_ZONE_STATE_EMPTY"
  shows "active_count n < 2 ^ 32 - 1" "\<not> is_active (zone_array n ! i)" "\<not> is_open (zone_array n ! i)"
proof -
  show "\<not> is_active (zone_array n ! i)" "\<not> is_open (zone_array n ! i)" using assms(3) by (simp_all add: is_active_def is_open_def)
  then show "active_count n < 2 ^ 32 - 1" using active_less [OF assms(2)] zinv_len [OF assms(1)] by simp
qed

lemma open_empty_returns:
  assumes "zinv n" "i < length (zone_array n)" "zs (zone_array n ! i) = NVME_ZONE_STATE_EMPTY"
  shows "\<exists>st n'. zns_open_zone n i NVME_ZONE_STATE_EMPTY = Some (st, n') \<and> keeps n n'"
proof (cases "zns_aor_check n 1 0 = NVME_SUCCESS")
  case True
  have z: "active_count n < 2 ^ 32 - 1" "\<not> is_active (zone_array n ! i)" "\<not> is_open (zone_array n ! i)"
    using empty_zone [OF assms] .
  have c: "counters n (open_count n) (active_count n)" using zinv_sel(1) [OF assms(1)] .
  have le: "open_count n \<le> active_count n" by (rule count_le)
  have l: "max_active_zones n \<noteq> 0 \<Longrightarrow> Suc (active_count n) \<le> unat (max_active_zones n)"
    using True aor_check_ok [OF c, of 1 0] z(1) le by simp
  obtain m where m: "zns_aor_inc_active n = Some m" "counters m (open_count n) (Suc (active_count n))" "ctr n m"
    using inc_active_ok [OF c l ctr_refl] by blast
  show ?thesis
  proof (cases "zns_aor_check m 0 1 = NVME_SUCCESS")
    case c2: True
    have "max_open_zones n \<noteq> 0 \<Longrightarrow> Suc (open_count n) \<le> unat (max_open_zones n)"
      using c2 aor_check_ok [OF m(2), of 0 1] z(1) le ctr_sel(2) [OF m(3)] by simp
    then obtain n' where "open_resources m i = Some (NVME_SUCCESS, n')" "keeps n n'"
      using open_resources_ok [OF assms(1) m(3) assms(2) m(2) z(3)] z(2) assms(3) by auto
    then show ?thesis using True m(1) c2 by (simp add: zns_open_zone_def)
  next
    case False
    obtain m' where "zns_aor_dec_active m = Some m'" "counters m' (open_count n) (active_count n)" "ctr n m'"
      using dec_active_ok [OF m(2) le m(3)] by blast
    then show ?thesis using True m(1) False ctr_keeps [OF assms(1)] by (simp add: zns_open_zone_def)
  qed
qed (use keeps_refl [OF assms(1)] in \<open>simp add: zns_open_zone_def\<close>)

lemma open_returns:
  assumes "zinv n" "i < length (zone_array n)"
  shows "\<exists>st n'. zns_open_zone n i (zs (zone_array n ! i)) = Some (st, n') \<and> keeps n n'"
  using assms
proof (cases rule: zone_cases)
  case 1
  then show ?thesis using open_empty_returns [OF assms 1(1)] by simp
next
  case 2
  have "\<exists>n'. zns_assign_zone_state n i NVME_ZONE_STATE_EXPLICITLY_OPEN = Some n' \<and> keeps n n'"
    using assign_state_ok [OF assms(1) ctr_refl assms(2), of NVME_ZONE_STATE_EXPLICITLY_OPEN, OF _ zinv_sel(1) [OF assms(1)]] 2
    by (auto simp: ptr_ok_def is_active_def is_open_def zns_zone_wr_boundary_def)
  then show ?thesis using 2(1) keeps_refl [OF assms(1)] by (auto simp: zns_open_zone_def)
next
  case 3
  have c: "counters n (open_count n) (active_count n)" using zinv_sel(1) [OF assms(1)] .
  have "zns_aor_check n 0 1 = NVME_SUCCESS \<Longrightarrow> max_open_zones n \<noteq> 0 \<Longrightarrow> Suc (open_count n) \<le> unat (max_open_zones n)"
    using aor_check_ok [OF c, of 0 1] 3 by simp
  then have "zns_aor_check n 0 1 = NVME_SUCCESS \<Longrightarrow> \<exists>n'. open_resources n i = Some (NVME_SUCCESS, n') \<and> keeps n n'"
    using open_resources_ok [OF assms(1) ctr_refl assms(2) c 3(3)] 3(1,2) by simp
  then show ?thesis using 3(1) keeps_refl [OF assms(1)] by (auto simp: zns_open_zone_def)
qed (use keeps_refl [OF assms(1)] in \<open>auto simp: zns_open_zone_def\<close>)

lemma set_zd_ext_returns:
  assumes "zinv n" "i < length (zone_array n)"
  shows "\<exists>st n'. zns_set_zd_ext n i = Some (st, n') \<and> keeps n n'"
proof (cases "zs (zone_array n ! i) = NVME_ZONE_STATE_EMPTY \<and> zns_aor_check n 1 0 = NVME_SUCCESS")
  case True
  have z: "active_count n < 2 ^ 32 - 1" "\<not> is_active (zone_array n ! i)" "\<not> is_open (zone_array n ! i)"
    using empty_zone [OF assms] True by simp_all
  have c: "counters n (open_count n) (active_count n)" using zinv_sel(1) [OF assms(1)] .
  have l: "max_active_zones n \<noteq> 0 \<Longrightarrow> Suc (active_count n) \<le> unat (max_active_zones n)"
    using True aor_check_ok [OF c, of 1 0] z(1) count_le [of n] by simp
  obtain m where m: "zns_aor_inc_active n = Some m" "counters m (open_count n) (Suc (active_count n))" "ctr n m"
    using inc_active_ok [OF c l ctr_refl] by blast
  let ?z = "(zone_array n ! i)\<lparr>za := za (zone_array n ! i) OR NVME_ZA_ZD_EXT_VALID\<rparr>"
  have "ptr_ok (zone_array n ! i) \<Longrightarrow> ptr_ok (?z\<lparr>zs := NVME_ZONE_STATE_CLOSED\<rparr>)"
    using unat_boundary(3) [OF zinv_sel(2) [OF assms(1)] assms(2)] True
    by (auto simp: ptr_ok_def is_active_def is_open_def zns_zone_wr_boundary_def)
  then obtain n' where "zns_assign_zone_state (put_zone m i ?z) i NVME_ZONE_STATE_CLOSED = Some n'" "keeps n n'"
    using assign_zone_ok [OF assms(1) m(3) assms(2), of NVME_ZONE_STATE_CLOSED ?z, OF _ _ _ _ m(2)] z(2,3) by (auto simp: is_active_def is_open_def)
  then show ?thesis using True m(1) assms(2) by (simp add: zns_set_zd_ext_def get_zone_def)
qed (use assms keeps_refl [OF assms(1)] in \<open>auto simp: zns_set_zd_ext_def get_zone_def\<close>)

section \<open>Bulk operations\<close>

text \<open>What the loops over the zones rely on: a handler that is called with the state of its zone returns and keeps the invariant.\<close>

locale zone_handler =
  fixes handler :: op_handler
  assumes handler_returns: "zinv n \<Longrightarrow> i < length (zone_array n) \<Longrightarrow> \<exists>st n'. handler n i (zs (zone_array n ! i)) = Some (st, n') \<and> keeps n n'"
begin

lemma bulk_proc_returns:
  assumes "zinv n" "i < length (zone_array n)"
  shows "\<exists>st n'. zns_bulk_proc_zone pm handler n i = Some (st, n') \<and> keeps n n'"
  using assms handler_returns [OF assms] keeps_refl [OF assms(1)] by (auto simp: zns_bulk_proc_zone_def get_zone_def)

lemma bulk_loop_returns:
  "zinv n \<Longrightarrow> \<forall>i \<in> set q. i < length (zone_array n) \<Longrightarrow> \<exists>st' n'. bulk_loop pm handler q st n = Some (st', n') \<and> keeps n n'"
proof (induction q arbitrary: st n)
  case (Cons i q)
  obtain st1 n1 where s: "zns_bulk_proc_zone pm handler n i = Some (st1, n1)" "keeps n n1" using bulk_proc_returns [of n i pm] Cons.prems by auto
  have "zinv n1" "\<forall>j \<in> set q. j < length (zone_array n1)" using s(2) Cons.prems keeps_len [OF Cons.prems(1) s(2)] by (simp_all add: keeps_def)
  then obtain st2 n2 where t: "bulk_loop pm handler q st1 n1 = Some (st2, n2)" "keeps n1 n2" using Cons.IH [of n1 st1] by blast
  show ?case using s t(1) keeps_trans [OF s(2) t(2)] by (cases "failed st1") simp_all
qed (simp add: keeps_refl)

lemma bulk_if_returns:
  assumes "zinv (snd r)" "\<forall>i \<in> set (q (snd r)). i < length (zone_array (snd r))"
  shows "\<exists>r'. bulk_if b pm handler q r = Some r' \<and> keeps (snd r) (snd r')"
  using bulk_loop_returns [OF assms, of pm "fst r"] keeps_refl [OF assms(1)] by (cases r) (auto simp: bulk_if_def)

lemma queues_in:
  assumes "zinv n"
  shows "\<forall>i \<in> set (closed_zones n). i < length (zone_array n)" "\<forall>i \<in> set (imp_open_zones n). i < length (zone_array n)"
    "\<forall>i \<in> set (exp_open_zones n). i < length (zone_array n)" "\<forall>i \<in> set (full_zones n). i < length (zone_array n)"
  using assms by (simp_all add: zinv_def queues_mem)

text \<open>An operation on one zone or, from the first zone on, on all zones of the mask.\<close>

lemma do_zone_op_returns:
  assumes "zinv n" "i < length (zone_array n)" "pm = 0 \<or> i = 0"
  shows "\<exists>st n'. zns_do_zone_op n i pm handler = Some (st, n') \<and> keeps n n'"
proof (cases "pm = 0")
  case True
  then show ?thesis using assms handler_returns [OF assms(1,2)] by (simp add: zns_do_zone_op_def get_zone_def)
next
  case False
  obtain r1 where r1: "bulk_if NVME_PROC_CLOSED_ZONES pm handler closed_zones (NVME_SUCCESS, n) = Some r1" "keeps n (snd r1)"
    using bulk_if_returns [of "(NVME_SUCCESS, n)" closed_zones NVME_PROC_CLOSED_ZONES pm] queues_in(1) assms(1) by auto
  then have i1: "zinv (snd r1)" by (simp add: keeps_def)
  obtain r2 where r2: "bulk_if NVME_PROC_OPENED_ZONES pm handler imp_open_zones r1 = Some r2" "keeps (snd r1) (snd r2)"
    using bulk_if_returns [OF i1, of imp_open_zones] queues_in(2) [OF i1] by blast
  then have i2: "zinv (snd r2)" by (simp add: keeps_def)
  obtain r3 where r3: "bulk_if NVME_PROC_OPENED_ZONES pm handler exp_open_zones r2 = Some r3" "keeps (snd r2) (snd r3)"
    using bulk_if_returns [OF i2, of exp_open_zones] queues_in(3) [OF i2] by blast
  then have i3: "zinv (snd r3)" by (simp add: keeps_def)
  obtain r4 where r4: "bulk_if NVME_PROC_FULL_ZONES pm handler full_zones r3 = Some r4" "keeps (snd r3) (snd r4)"
    using bulk_if_returns [OF i3, of full_zones] queues_in(4) [OF i3] by blast
  then have i4: "zinv (snd r4)" by (simp add: keeps_def)
  obtain r5 where r5: "bulk_if NVME_PROC_READ_ONLY_ZONES pm handler (\<lambda>n. [i..<i + unat (num_zones n)]) r4 = Some r5" "keeps (snd r4) (snd r5)"
    using bulk_if_returns [OF i4, of "\<lambda>n. [i..<i + unat (num_zones n)]" NVME_PROC_READ_ONLY_ZONES pm] i4 assms(3) False
    by (auto simp: zinv_def geo_def)
  have "keeps n (snd r5)" using keeps_trans r1(2) r2(2) r3(2) r4(2) r5(2) by meson
  then show ?thesis using False r1(1) r2(1) r3(1) r4(1) r5(1) by (cases r5) (simp add: zns_do_zone_op_def)
qed

end

interpretation open_handler: zone_handler zns_open_zone
  by unfold_locales (rule open_returns)

interpretation close_handler: zone_handler zns_close_zone
  by unfold_locales (rule close_returns)

interpretation finish_handler: zone_handler zns_finish_zone
  by unfold_locales (rule finish_returns)

interpretation reset_handler: zone_handler zns_reset_zone
  by unfold_locales (rule reset_returns)

interpretation offline_handler: zone_handler zns_offline_zone
  by unfold_locales (rule offline_returns)

end
