(* ===== verification/Zns_Io.thy ===== *)
theory Zns_Io
  imports Zns_Inv
begin

text \<open>
  The commands of the zoned mode: every command returns and keeps the invariant of \<open>Zns_Inv\<close>; a write goes to the write
  pointer; the pointers stay in their zones as long as appends fit.
\<close>

section \<open>Addresses\<close>

lemma unat_ucast_64: "unat (ucast (w :: u32) :: u64) = unat w"
proof -
  have "unat w < 2 ^ 64" using unsigned_less [of w, where 'a = nat] by simp
  then show ?thesis by (simp add: unsigned_ucast_eq take_bit_nat_eq_self)
qed

lemma unat_pow2:
  assumes "k < 64"
  shows "unat (2 ^ k :: u64) = 2 ^ k"
proof -
  have "(2 :: nat) ^ k < 2 ^ 64" using assms by (intro power_strict_increasing) simp_all
  moreover have "(2 ^ k :: u64) = of_nat (2 ^ k)" by simp
  ultimately show ?thesis by (simp only: unat_of_nat) simp
qed

lemma unat_nsze:
  assumes "geo n"
  shows "unat (nsze n) = unat (num_zones n) * unat (zone_size n)"
proof -
  have "unat (num_zones n) * unat (zone_size n) < 2 ^ 64" using assms by (simp add: geo_def)
  moreover have "unat (ucast (num_zones n) :: u64) = unat (num_zones n)" by (rule unat_ucast_64)
  moreover have "nsze n = ucast (num_zones n) * zone_size n" using assms by (simp add: geo_def)
  ultimately show ?thesis by (simp add: unat_word_ariths)
qed

lemma zone_idx_value:
  assumes "geo n" "slba < nsze n"
  shows "\<exists>k. zns_zone_idx n slba = Some k \<and> unat k = unat slba div unat (zone_size n) \<and> k < num_zones n"
proof -
  let ?q = "unat slba div unat (zone_size n)"
  have "0 < zone_size n" using assms(1) less_le_trans [of 0 "zone_capacity n" "zone_size n"] by (simp add: geo_def)
  then have zs0: "0 < unat (zone_size n)" by (simp add: word_less_nat_alt)
  have "unat slba < unat (num_zones n) * unat (zone_size n)" using assms by (simp add: unat_nsze [symmetric] word_less_nat_alt)
  then have q: "?q < unat (num_zones n)" by (simp add: less_mult_imp_div_less)
  then have q32: "?q < 2 ^ 32" using unsigned_less [of "num_zones n", where 'a = nat] by simp
  obtain w where w: "zns_zone_idx n slba = Some (ucast w)" "unat (w :: u64) = ?q"
  proof (cases "zone_size_log2 n = 0")
    case True
    moreover have "zone_size n \<noteq> 0" using zs0 by auto
    ultimately show ?thesis using that [of "slba div zone_size n"] by (simp add: zns_zone_idx_def udiv_def unat_div)
  next
    case False
    then have l: "unat (zone_size_log2 n) < 64" "zone_size n = 2 ^ unat (zone_size_log2 n)" using assms(1) by (simp_all add: geo_def)
    then have "unat (zone_size n) = 2 ^ unat (zone_size_log2 n)" by (simp add: unat_pow2)
    then show ?thesis using that [of "drop_bit (unat (zone_size_log2 n)) slba"] False
      by (simp add: zns_zone_idx_def drop_bit_eq_div unat_div unat_pow2 l(1) word_gt_0)
  qed
  then have "unat (ucast w :: u32) = ?q" using q32 by (simp add: unsigned_ucast_eq take_bit_eq_mod)
  then show ?thesis using w(1) q by (auto simp: word_less_nat_alt)
qed

lemma zone_by_slba:
  assumes "geo n" "slba < nsze n"
  shows "\<exists>i. zns_get_zone_by_slba n slba = Some i \<and> i = unat slba div unat (zone_size n) \<and> i < length (zone_array n)"
  using zone_idx_value [OF assms] assms(1) by (auto simp: zns_get_zone_by_slba_def geo_def word_less_nat_alt ensure_def)

lemma mgmt_idx:
  assumes "geo n"
  shows "\<exists>st slba i. zns_get_mgmt_zone_slba_idx n c = Some (st, slba, i) \<and>
    (st = 0 \<longrightarrow> slba < nsze n \<and> i = unat slba div unat (zone_size n) \<and> i < length (zone_array n))"
proof (cases "slba_of c < nsze n")
  case True
  then show ?thesis using zone_by_slba [OF assms True] assms by (auto simp: zns_get_mgmt_zone_slba_idx_def geo_def)
next
  case False
  then show ?thesis using assms by (auto simp: zns_get_mgmt_zone_slba_idx_def geo_def status_defs)
qed

lemma check_bounds_ok:
  assumes "zns_check_bounds n slba nlb = NVME_SUCCESS"
  shows "unat (slba + ucast nlb) = unat slba + unat nlb" "unat slba + unat nlb \<le> unat (nsze n)"
proof -
  have c: "\<not> NOT 0 - slba < ucast nlb" "slba + ucast nlb \<le> nsze n"
    using assms by (auto simp: zns_check_bounds_def status_defs split: if_splits)
  have "unat (NOT 0 - slba) = 2 ^ 64 - 1 - unat slba"
    by (subst unat_sub) (simp_all add: unsigned_minus_1_eq_mask mask_eq_exp_minus_1)
  then have "unat slba + unat nlb < 2 ^ 64"
    using c(1) unsigned_less [of slba, where 'a = nat] by (simp add: word_less_nat_alt unat_ucast_64)
  then show "unat (slba + ucast nlb) = unat slba + unat nlb" by (subst unat_add_lem [THEN iffD1]) (simp_all add: unat_ucast_64)
  then show "unat slba + unat nlb \<le> unat (nsze n)" using c(2) by (simp add: word_le_nat_alt)
qed

section \<open>Management commands\<close>

lemma ext_keeps:
  assumes "zinv n" "length ext = length (zd_extensions n)"
  shows "keeps n (n\<lparr>zd_extensions := ext\<rparr>)"
proof -
  have "zinv (n\<lparr>zd_extensions := ext\<rparr>)"
    using assms by (simp add: zinv_def queues_ok_def counters_def geo_def open_count_def active_count_def zns_ns_nlbas_def)
  then show ?thesis by (simp add: keeps_def pinv_def same_size_def)
qed

lemma set_extension_returns:
  assumes "zinv n" "i < length (zone_array n)" "zd_extension_size n \<noteq> 0"
  shows "\<exists>st n'. set_extension n i req = Some (st, n') \<and> keeps n n'"
proof -
  have "i < length (zd_extensions n)" using assms by (simp add: zinv_def geo_def)
  then have e: "aset (zd_extensions n) i (dma_data req) = Some ((zd_extensions n)[i := dma_data req])" by (simp add: aset_def)
  let ?n = "n\<lparr>zd_extensions := (zd_extensions n)[i := dma_data req]\<rparr>"
  have k: "keeps n ?n" using ext_keeps [OF assms(1)] by simp
  then have "zinv ?n" by (simp add: keeps_def)
  then obtain st n' where s: "zns_set_zd_ext ?n i = Some (st, n')" "keeps ?n n'" using set_zd_ext_returns [of ?n i] assms(2) by auto
  show ?thesis using e s(1) keeps_trans [OF k s(2)] keeps_refl [OF assms(1)] by (simp add: set_extension_def with_dnr_def)
qed

lemma mgmt_send_returns:
  assumes "zinv n"
  shows "\<exists>st n'. zns_zone_mgmt_send n req = Some (st, n') \<and> keeps n n'"
proof -
  let ?all = "cdw13 (cmd req) AND 0x100 \<noteq> 0"
  obtain st slba i where s: "(if ?all then Some (NVME_SUCCESS, 0, 0) else zns_get_mgmt_zone_slba_idx n (cmd req)) = Some (st, slba, i)"
    "st = 0 \<longrightarrow> i < length (zone_array n)" "?all \<longrightarrow> i = 0"
  proof (cases ?all)
    case True
    have "0 < length (zone_array n)" using assms by (simp add: zinv_def geo_def word_less_nat_alt)
    then show ?thesis using True that [of NVME_SUCCESS 0 0] by simp
  next
    case False
    then show ?thesis using mgmt_idx [OF zinv_sel(2) [OF assms], of "cmd req"] that by auto
  qed
  have r: "keeps n n" using keeps_refl [OF assms] .
  show ?thesis
  proof (cases "st = 0 \<and> slba = zslba (zone_array n ! i)")
    case True
    then have i: "i < length (zone_array n)" using s(2) by simp
    let ?pm = "\<lambda>m. if ?all then m else NVME_PROC_CURRENT_ZONE"
    have pm: "?pm m = 0 \<or> i = 0" for m using s(3) by (simp add: proc_defs)
    note h = open_handler.do_zone_op_returns [OF assms i pm] close_handler.do_zone_op_returns [OF assms i pm]
      finish_handler.do_zone_op_returns [OF assms i pm] reset_handler.do_zone_op_returns [OF assms i pm]
      offline_handler.do_zone_op_returns [OF assms i pm]
    obtain st1 n1 st2 n2 st3 n3 st4 n4 st5 n5 where
      "zns_do_zone_op n i (?pm NVME_PROC_CLOSED_ZONES) zns_open_zone = Some (st1, n1)" "keeps n n1"
      "zns_do_zone_op n i (?pm NVME_PROC_OPENED_ZONES) zns_close_zone = Some (st2, n2)" "keeps n n2"
      "zns_do_zone_op n i (?pm (NVME_PROC_OPENED_ZONES OR NVME_PROC_CLOSED_ZONES)) zns_finish_zone = Some (st3, n3)" "keeps n n3"
      "zns_do_zone_op n i (?pm (NVME_PROC_OPENED_ZONES OR NVME_PROC_CLOSED_ZONES OR NVME_PROC_FULL_ZONES)) zns_reset_zone = Some (st4, n4)" "keeps n n4"
      "zns_do_zone_op n i (?pm NVME_PROC_READ_ONLY_ZONES) zns_offline_zone = Some (st5, n5)" "keeps n n5"
      using h by meson
    then show ?thesis using True i s(1) r set_extension_returns [OF assms i, of req]
      by (simp add: zns_zone_mgmt_send_def Let_def get_zone_def with_dnr_def)
  next
    case False
    then show ?thesis using s r by (auto simp: zns_zone_mgmt_send_def Let_def get_zone_def)
  qed
qed

section \<open>Reports and reads\<close>

lemma count_zones_returns:
  "unat (zns_ns_nlbas n) \<le> unat slba + length zl * unat (zone_size n) \<Longrightarrow> unat (zns_ns_nlbas n) + unat (zone_size n) < 2 ^ 64 \<Longrightarrow>
   \<exists>k. count_zones n zrasf part mx slba nr zl = Some k"
proof (induction zl arbitrary: slba nr)
  case Nil
  then show ?case by (simp add: word_less_nat_alt)
next
  case (Cons z zl)
  show ?case
  proof (cases "slba < zns_ns_nlbas n")
    case True
    then have "unat slba + unat (zone_size n) < 2 ^ 64" using Cons.prems(2) by (simp add: word_less_nat_alt)
    then have "unat (slba + zone_size n) = unat slba + unat (zone_size n)" by (subst unat_add_lem [THEN iffD1]) simp_all
    then show ?thesis using Cons.IH [of "slba + zone_size n"] Cons.prems by simp
  qed simp
qed

lemma mgmt_recv_returns:
  assumes "zinv n"
  shows "\<exists>r. zns_zone_mgmt_recv n req = Some r"
proof -
  have g: "geo n" using zinv_sel(2) [OF assms] .
  obtain st slba i where s: "zns_get_mgmt_zone_slba_idx n (cmd req) = Some (st, slba, i)"
    "st = 0 \<longrightarrow> slba < nsze n \<and> i = unat slba div unat (zone_size n) \<and> i < length (zone_array n)" using mgmt_idx [OF g] by blast
  have nl: "unat (zns_ns_nlbas n) = unat (num_zones n) * unat (zone_size n)" using g unat_nsze [OF g] by (simp add: geo_def)
  have "\<exists>k. count_zones n zr part mx slba 0 (drop i (zone_array n)) = Some k" if "st = 0" for zr part mx
  proof (rule count_zones_returns)
    have i: "i = unat slba div unat (zone_size n)" "i < unat (num_zones n)" using s(2) that g by (simp_all add: geo_def)
    have "unat (num_zones n) * unat (zone_size n) = i * unat (zone_size n) + (unat (num_zones n) - i) * unat (zone_size n)"
      using i(2) by (simp add: add_mult_distrib [symmetric])
    moreover have "i * unat (zone_size n) \<le> unat slba" unfolding i(1) by simp
    moreover have "length (drop i (zone_array n)) = unat (num_zones n) - i" using g by (simp add: geo_def)
    ultimately show "unat (zns_ns_nlbas n) \<le> unat slba + length (drop i (zone_array n)) * unat (zone_size n)" using nl by simp
    show "unat (zns_ns_nlbas n) + unat (zone_size n) < 2 ^ 64" using g nl by (simp add: geo_def)
  qed
  then obtain k where k: "st = 0 \<Longrightarrow> count_zones n zr part mx slba 0 (drop i (zone_array n)) = Some (k zr part mx)" for zr part mx by metis
  have d: "64 + (if b then ucast (zd_extension_size n) else 0) \<noteq> (0 :: u64)" for b
  proof -
    have "unat (64 + (ucast (zd_extension_size n) :: u64)) = 64 + unat (zd_extension_size n)"
      using unsigned_less [of "zd_extension_size n", where 'a = nat] by (subst unat_add_lem [THEN iffD1]) (simp_all add: unat_ucast_64)
    then have "64 + (ucast (zd_extension_size n) :: u64) \<noteq> 0" by auto
    then show ?thesis by simp
  qed
  show ?thesis using s(1) k d unfolding zns_zone_mgmt_recv_def Let_def by (simp add: udiv_def)
qed

lemma state_for_read: "zinv n \<Longrightarrow> i < length (zone_array n) \<Longrightarrow> \<exists>st. zns_check_zone_state_for_read (zone_array n ! i) = Some st"
  using queues_okD(5) [of n i] by (cases "zs (zone_array n ! i)") (simp_all add: zinv_def zns_check_zone_state_for_read_def)

lemma read_across_returns:
  assumes "zinv n" "unat endb \<le> unat (nsze n)"
  shows "j < length (zone_array n) \<Longrightarrow> \<exists>st. read_across n endb (drop j (zone_array n)) = Some st"
proof (induction "length (zone_array n) - j" arbitrary: j)
  case (Suc k)
  have g: "geo n" using zinv_sel(2) [OF assms(1)] .
  obtain st where st: "zns_check_zone_state_for_read (zone_array n ! j) = Some st" using state_for_read [OF assms(1) Suc.prems] by blast
  have b: "unat (zns_zone_rd_boundary n (zone_array n ! j)) = Suc j * unat (zone_size n)" using unat_boundary(2) [OF g Suc.prems] .
  have "Suc j < length (zone_array n)" if "endb > zns_zone_rd_boundary n (zone_array n ! j)"
  proof -
    have "Suc j * unat (zone_size n) < unat (num_zones n) * unat (zone_size n)"
      using that b assms(2) unat_nsze [OF g] by (simp add: word_less_nat_alt)
    then have "Suc j < unat (num_zones n)" by (simp only: mult_less_cancel2)
    then show ?thesis using g by (simp add: geo_def)
  qed
  then have "endb > zns_zone_rd_boundary n (zone_array n ! j) \<Longrightarrow> \<exists>st'. read_across n endb (drop (Suc j) (zone_array n)) = Some st'"
    using Suc.hyps(1) [of "Suc j"] Suc.hyps(2) by simp
  then show ?case using st Suc.prems by (simp add: Cons_nth_drop_Suc [symmetric])
qed simp

lemma check_zone_read_returns:
  assumes "zinv n" "zns_check_bounds n slba nlb = NVME_SUCCESS" "0 < nlb"
  shows "\<exists>st. zns_check_zone_read n slba nlb = Some st"
proof -
  have g: "geo n" using zinv_sel(2) [OF assms(1)] .
  have e: "unat (slba + ucast nlb) = unat slba + unat nlb" "unat slba + unat nlb \<le> unat (nsze n)"
    using check_bounds_ok [OF assms(2)] by simp_all
  then have "slba < nsze n" using assms(3) by (simp add: word_less_nat_alt)
  then obtain i where i: "zns_get_zone_by_slba n slba = Some i" "i < length (zone_array n)" using zone_by_slba [OF g] by blast
  obtain st where st: "zns_check_zone_state_for_read (zone_array n ! i) = Some st" using state_for_read [OF assms(1) i(2)] by blast
  have "Suc i < length (zone_array n)" if "slba + ucast nlb > zns_zone_rd_boundary n (zone_array n ! i)"
  proof -
    have "Suc i * unat (zone_size n) < unat (num_zones n) * unat (zone_size n)"
      using that unat_boundary(2) [OF g i(2)] e unat_nsze [OF g] by (simp add: word_less_nat_alt)
    then have "Suc i < unat (num_zones n)" by (simp only: mult_less_cancel2)
    then show ?thesis using g by (simp add: geo_def)
  qed
  then have "slba + ucast nlb > zns_zone_rd_boundary n (zone_array n ! i) \<Longrightarrow>
      \<exists>st'. read_across n (slba + ucast nlb) (drop (Suc i) (zone_array n)) = Some st'"
    using read_across_returns [OF assms(1), of "slba + ucast nlb" "Suc i"] e by simp
  then show ?thesis using i st by (simp add: zns_check_zone_read_def get_zone_def Let_def)
qed

lemma unat_ucast_16: "unat (ucast (w :: u16) :: u32) = unat w" "unat w < 65536"
proof -
  show l: "unat w < 65536" using unsigned_less [of w, where 'a = nat] by simp
  then show "unat (ucast w :: u32) = unat w" by (simp add: unsigned_ucast_eq take_bit_nat_eq_self)
qed

lemma nlb_pos: "0 < nlb_of c" "unat (nlb_of c) \<le> 65536"
proof -
  have l: "unat (ucast (ucast (cdw12 c) :: u16) :: u32) < 65536" by (simp only: unat_ucast_16)
  then have "unat (nlb_of c) = unat (ucast (ucast (cdw12 c) :: u16) :: u32) + 1"
    unfolding nlb_of_def by (subst unat_add_lem [THEN iffD1]) simp_all
  then show "0 < nlb_of c" "unat (nlb_of c) \<le> 65536" using l by (simp_all add: word_less_nat_alt)
qed

lemma read_returns:
  assumes "zinv n"
  shows "\<exists>r. zns_read n req = Some r"
proof -
  have "zoned n" using assms by (simp add: zinv_def geo_def)
  moreover have "zns_check_bounds n (slba_of (cmd req)) (nlb_of (cmd req)) = 0 \<Longrightarrow>
      \<exists>st. zns_check_zone_read n (slba_of (cmd req)) (nlb_of (cmd req)) = Some st"
    using check_zone_read_returns [OF assms _ nlb_pos(1), of "slba_of (cmd req)" "cmd req"] by (simp add: NVME_SUCCESS_def)
  ultimately show ?thesis by (cases "zns_check_bounds n (slba_of (cmd req)) (nlb_of (cmd req)) = 0") (auto simp: zns_read_def Let_def ensure_def)
qed

section \<open>Implicit opening\<close>

lemma dec_open_imp: "zns_aor_dec_open n = Some m \<Longrightarrow> zns_aor_dec_open (n\<lparr>imp_open_zones := q\<rparr>) = Some (m\<lparr>imp_open_zones := q\<rparr>)"
  by (auto simp: zns_aor_dec_open_def ensure_def split: if_splits)

lemma assign_removed:
  assumes "queues_ok m" "imp_open_zones m = k # q"
  shows "zns_assign_zone_state (m\<lparr>imp_open_zones := q\<rparr>) k NVME_ZONE_STATE_CLOSED = Some (zmoved m k ((zone_array m ! k)\<lparr>zs := NVME_ZONE_STATE_CLOSED\<rparr>))"
proof -
  have k: "k < length (zone_array m)" "zs (zone_array m ! k) = NVME_ZONE_STATE_IMPLICITLY_OPEN" using queues_mem(2) [OF assms(1), of k] assms(2) by simp_all
  have "k \<notin> set q" using queues_okD(2) [OF assms(1)] assms(2) by (simp add: queue_ok_def)
  then have "\<not> in_use (m\<lparr>imp_open_zones := q\<rparr>) k" using k by (simp add: in_use_def queues_mem [OF assms(1)])
  moreover have "k \<notin> set (exp_open_zones m)" "k \<notin> set (closed_zones m)" "k \<notin> set (full_zones m)" using k by (simp_all add: queues_mem [OF assms(1)])
  ultimately show ?thesis
    using k assms(2) by (simp add: zns_assign_zone_state_def get_zone_def enqueue_def put_zone_def zmoved_def remove1_idem)
qed

lemma auto_transition_ok:
  assumes "zinv n"
  shows "\<exists>n'. zns_auto_transition_zone n = Some n' \<and> keeps n n' \<and> max_open_zones n' = max_open_zones n \<and> max_active_zones n' = max_active_zones n \<and>
    (n' = n \<or> (\<exists>k < length (zone_array n). zs (zone_array n ! k) = NVME_ZONE_STATE_IMPLICITLY_OPEN \<and>
      zone_array n' = (zone_array n)[k := (zone_array n ! k)\<lparr>zs := NVME_ZONE_STATE_CLOSED\<rparr>]))"
proof (cases "max_open_zones n \<noteq> 0 \<and> word_of_int (nr_open_zones n) = max_open_zones n \<and> imp_open_zones n \<noteq> []")
  case True
  then obtain k q where kq: "imp_open_zones n = k # q" by (cases "imp_open_zones n") auto
  have q: "queues_ok n" using assms by (simp add: zinv_def)
  have k: "k < length (zone_array n)" "zs (zone_array n ! k) = NVME_ZONE_STATE_IMPLICITLY_OPEN" using queues_mem(2) [OF q, of k] kq by simp_all
  then have o: "is_open (zone_array n ! k)" "is_active (zone_array n ! k)" by (simp_all add: is_open_def is_active_def)
  obtain m where m: "zns_aor_dec_open n = Some m" "ctr n m" "counters m (open_count n - 1) (active_count n)"
    using release_open [OF assms open_pos [OF k(1) o(1)]] by blast
  let ?z = "(zone_array n ! k)\<lparr>zs := NVME_ZONE_STATE_CLOSED\<rparr>"
  have t: "tidy ?z = ?z" by (simp add: tidy_def)
  obtain n' where n': "keeps n n'" "n' = zmoved m k ?z"
    using assign_state_ok [OF assms m(2) k(1), of NVME_ZONE_STATE_CLOSED, OF _ m(3)] o k open_pos [OF k(1) o(1)] t
    by (auto simp: ptr_ok_def is_active_def is_open_def zns_zone_wr_boundary_def)
  have "zns_assign_zone_state (m\<lparr>imp_open_zones := q\<rparr>) k NVME_ZONE_STATE_CLOSED = Some n'"
    using assign_removed [of m k q] ctr_sel [OF m(2)] q kq n'(2) by simp
  then have "zns_auto_transition_zone n = Some n'" using True kq dec_open_imp [OF m(1)] by (simp add: zns_auto_transition_zone_def)
  moreover have "zone_array n' = (zone_array n)[k := ?z]" "max_open_zones n' = max_open_zones n" "max_active_zones n' = max_active_zones n"
    using ctr_sel [OF m(2)] by (simp_all add: n'(2) zmoved_def)
  ultimately show ?thesis using n'(1) k by auto
next
  case False
  then have "zns_auto_transition_zone n = Some n" by (auto simp: zns_auto_transition_zone_def split: list.split)
  then show ?thesis using keeps_refl [OF assms] by simp
qed

text \<open>The other zones keep their pointers; only their states may change.\<close>

definition others :: "nat \<Rightarrow> FemuCtrl \<Rightarrow> FemuCtrl \<Rightarrow> bool" where
  "others i n n' \<longleftrightarrow> (\<forall>j < length (zone_array n). j \<noteq> i \<longrightarrow> (\<exists>st. zone_array n' ! j = (zone_array n ! j)\<lparr>zs := st\<rparr>))"

text \<open>There is room to open zone \<open>i\<close>.\<close>

definition zroom :: "FemuCtrl \<Rightarrow> nat \<Rightarrow> bool" where
  "zroom n i \<longleftrightarrow> (zs (zone_array n ! i) = NVME_ZONE_STATE_EMPTY \<longrightarrow> max_active_zones n \<noteq> 0 \<longrightarrow> Suc (active_count n) \<le> unat (max_active_zones n)) \<and>
    (zs (zone_array n ! i) = NVME_ZONE_STATE_EMPTY \<or> zs (zone_array n ! i) = NVME_ZONE_STATE_CLOSED \<longrightarrow>
      max_open_zones n \<noteq> 0 \<longrightarrow> Suc (open_count n) \<le> unat (max_open_zones n))"

lemma auto_open_ok:
  assumes "zinv n" "i < length (zone_array n)"
  shows "\<exists>st n'. zns_auto_open_zone n i = Some (st, n') \<and> keeps n n' \<and> zone_array n' ! i = zone_array n ! i \<and> others i n n' \<and>
    (st = 0 \<longrightarrow> zroom n' i)"
proof (cases "zs (zone_array n ! i) = NVME_ZONE_STATE_EMPTY \<or> zs (zone_array n ! i) = NVME_ZONE_STATE_CLOSED")
  case True
  obtain n' where n': "zns_auto_transition_zone n = Some n'" "keeps n n'"
    "n' = n \<or> (\<exists>k < length (zone_array n). zs (zone_array n ! k) = NVME_ZONE_STATE_IMPLICITLY_OPEN \<and>
      zone_array n' = (zone_array n)[k := (zone_array n ! k)\<lparr>zs := NVME_ZONE_STATE_CLOSED\<rparr>])"
    using auto_transition_ok [OF assms(1)] by blast
  have i: "zone_array n' ! i = zone_array n ! i" using n'(3) True by (auto simp: nth_list_update)
  have o: "others i n n'" using n'(3) unfolding others_def
  proof (elim disjE exE conjE, goal_cases)
    case 1
    then show ?case by (metis NvmeZone.surjective NvmeZone.update_convs(2))
  next
    case (2 k)
    then show ?case by (metis NvmeZone.surjective NvmeZone.update_convs(2) nth_list_update_eq nth_list_update_neq)
  qed
  have z: "zinv n'" using n'(2) by (simp add: keeps_def)
  have i': "i < length (zone_array n')" using keeps_len [OF assms(1) n'(2)] assms(2) by simp
  have c: "counters n' (open_count n') (active_count n')" using zinv_sel(1) [OF z] .
  have "active_count n' < 2 ^ 32" "zs (zone_array n ! i) = NVME_ZONE_STATE_EMPTY \<Longrightarrow> active_count n' < 2 ^ 32 - 1"
    "zs (zone_array n ! i) = NVME_ZONE_STATE_CLOSED \<Longrightarrow> open_count n' < 2 ^ 32 - 1"
    using z i' by (cases rule: zone_cases; use True i in auto)+
  then have r: "zs (zone_array n ! i) = NVME_ZONE_STATE_EMPTY \<Longrightarrow> zns_aor_check n' 1 1 = 0 \<Longrightarrow> zroom n' i"
    "zs (zone_array n ! i) = NVME_ZONE_STATE_CLOSED \<Longrightarrow> zns_aor_check n' 0 1 = 0 \<Longrightarrow> zroom n' i"
    using aor_check_ok [OF c, of 1 1] aor_check_ok [OF c, of 0 1] count_le [of n'] i by (auto simp: zroom_def NVME_SUCCESS_def)
  show ?thesis using True n'(1,2) i o r assms(2) by (auto simp: zns_auto_open_zone_def get_zone_def)
next
  case False
  have "others i n n" unfolding others_def by (metis NvmeZone.surjective NvmeZone.update_convs(2))
  then show ?thesis using False assms keeps_refl [OF assms(1)] by (auto simp: zns_auto_open_zone_def get_zone_def zroom_def)
qed

section \<open>Writes\<close>

lemma aor_put:
  "zns_aor_inc_active n = Some m \<Longrightarrow> zns_aor_inc_active (put_zone n i z) = Some (put_zone m i z)"
  "zns_aor_inc_open n = Some m \<Longrightarrow> zns_aor_inc_open (put_zone n i z) = Some (put_zone m i z)"
  "zns_aor_dec_active n = Some m \<Longrightarrow> zns_aor_dec_active (put_zone n i z) = Some (put_zone m i z)"
  "zns_aor_dec_open n = Some m \<Longrightarrow> zns_aor_dec_open (put_zone n i z) = Some (put_zone m i z)"
  by (auto simp: zns_aor_inc_active_def zns_aor_inc_open_def zns_aor_dec_active_def zns_aor_dec_open_def ensure_def put_zone_def Let_def split: if_splits)

lemma moved_array: "ctr n m \<Longrightarrow> zone_array (zmoved m i z) = (zone_array n)[i := z]"
  using ctr_sel(1) [of n m] by (simp add: zmoved_def)

text \<open>The zone after its write pointer has advanced.\<close>

definition advanced :: "u32 \<Rightarrow> NvmeZone \<Rightarrow> NvmeZone" where
  "advanced nlb z = (let z' = z\<lparr>w_ptr := w_ptr z + ucast nlb\<rparr> in
    if w_ptr z' < zns_zone_wr_boundary z' \<and> (zs z = NVME_ZONE_STATE_EMPTY \<or> zs z = NVME_ZONE_STATE_CLOSED)
    then z'\<lparr>zs := NVME_ZONE_STATE_IMPLICITLY_OPEN\<rparr> else z')"

lemma advance_wp_ok:
  assumes "zinv n" "i < length (zone_array n)" "zroom n i"
  shows "\<exists>n'. zns_advance_zone_wp n i nlb = Some (w_ptr (zone_array n ! i), n') \<and> zinv n' \<and> same_size n n' \<and>
    zone_array n' = (zone_array n)[i := advanced nlb (zone_array n ! i)]"
proof -
  define z where "z = (zone_array n ! i)\<lparr>w_ptr := w_ptr (zone_array n ! i) + ucast nlb\<rparr>"
  have z: "zs z = zs (zone_array n ! i)" "zslba z = zslba (zone_array n ! i)" "zcap z = zcap (zone_array n ! i)"
    "is_open z = is_open (zone_array n ! i)" "is_active z = is_active (zone_array n ! i)" by (simp_all add: z_def is_open_def is_active_def)
  have c: "counters n (open_count n) (active_count n)" using zinv_sel(1) [OF assms(1)] .
  have g: "get_zone n i = Some (zone_array n ! i)" using assms(2) by (simp add: get_zone_def)
  let ?z' = "z\<lparr>zs := NVME_ZONE_STATE_IMPLICITLY_OPEN\<rparr>"
  have t: "tidy ?z' = ?z'" by (simp add: tidy_def)
  consider (empty) "w_ptr z < zns_zone_wr_boundary z" "zs z = NVME_ZONE_STATE_EMPTY" | (closed) "w_ptr z < zns_zone_wr_boundary z" "zs z = NVME_ZONE_STATE_CLOSED"
    | (same) "\<not> (w_ptr z < zns_zone_wr_boundary z \<and> (zs z = NVME_ZONE_STATE_EMPTY \<or> zs z = NVME_ZONE_STATE_CLOSED))" by blast
  then show ?thesis
  proof cases
    case empty
    obtain m where m: "zns_aor_inc_active n = Some m" "counters m (open_count n) (Suc (active_count n))" "ctr n m"
      using inc_active_ok [OF c _ ctr_refl] assms(3) empty z(1) by (auto simp: zroom_def)
    obtain m' where m': "zns_aor_inc_open m = Some m'" "counters m' (Suc (open_count n)) (Suc (active_count n))" "ctr n m'"
      using inc_open_ok [OF m(2) _ m(3)] assms(3) empty z(1) ctr_sel(2) [OF m(3)] by (auto simp: zroom_def)
    note a = assign_zinv [OF assms(1) m'(3) assms(2) _ z(1-3) m'(2), of NVME_ZONE_STATE_IMPLICITLY_OPEN]
    show ?thesis using a g empty t aor_put(1) [OF m(1), of i z] aor_put(2) [OF m'(1), of i z] moved_array [OF m'(3), of i]
      by (simp add: zns_advance_zone_wp_def Let_def advanced_def flip: z_def) (simp add: z_def is_open_def is_active_def)
  next
    case closed
    obtain m' where m': "zns_aor_inc_open n = Some m'" "counters m' (Suc (open_count n)) (active_count n)" "ctr n m'"
      using inc_open_ok [OF c _ ctr_refl] assms(3) closed z(1) by (auto simp: zroom_def)
    note a = assign_zinv [OF assms(1) m'(3) assms(2) _ z(1-3) m'(2), of NVME_ZONE_STATE_IMPLICITLY_OPEN]
    show ?thesis using a g closed t aor_put(2) [OF m'(1), of i z] moved_array [OF m'(3), of i]
      by (simp add: zns_advance_zone_wp_def Let_def advanced_def flip: z_def) (simp add: z_def is_open_def is_active_def)
  next
    case same
    have "zinv (put_zone n i z)" using zinv_put [OF assms(1,2) z(1-3)] .
    then show ?thesis using same g
      by (auto simp: zns_advance_zone_wp_def Let_def advanced_def z_def put_zone_def same_size_def)
  qed
qed

text \<open>The zone after its data has been written.\<close>

definition written :: "u32 \<Rightarrow> NvmeZone \<Rightarrow> NvmeZone" where
  "written nlb z = (let z' = z\<lparr>wp := wp z + ucast nlb\<rparr> in
    if wp z' = zns_zone_wr_boundary z' then z'\<lparr>zs := NVME_ZONE_STATE_FULL\<rparr> else z')"

lemma finalize_ok:
  assumes "zinv n" "i < length (zone_array n)" "zns_get_zone_by_slba n slba = Some i"
    "zs (zone_array n ! i) \<notin> {NVME_ZONE_STATE_READ_ONLY, NVME_ZONE_STATE_OFFLINE}"
  shows "\<exists>n'. zns_finalize_zoned_write n slba nlb = Some n' \<and> zinv n' \<and> same_size n n' \<and>
    zone_array n' = (zone_array n)[i := written nlb (zone_array n ! i)]"
proof -
  define z where "z = (zone_array n ! i)\<lparr>wp := wp (zone_array n ! i) + ucast nlb\<rparr>"
  have z: "zs z = zs (zone_array n ! i)" "zslba z = zslba (zone_array n ! i)" "zcap z = zcap (zone_array n ! i)"
    "is_open z = is_open (zone_array n ! i)" "is_active z = is_active (zone_array n ! i)" by (simp_all add: z_def is_open_def is_active_def)
  have c: "counters n (open_count n) (active_count n)" using zinv_sel(1) [OF assms(1)] .
  have g: "get_zone n i = Some (zone_array n ! i)" using assms(2) by (simp add: get_zone_def)
  let ?z' = "z\<lparr>zs := NVME_ZONE_STATE_FULL\<rparr>"
  have t: "tidy ?z' = ?z'" by (simp add: tidy_def)
  have w: "written nlb (zone_array n ! i) = (if wp z = zns_zone_wr_boundary z then ?z' else z)" by (simp add: written_def Let_def z_def)
  have f: "zns_finalize_zoned_write n slba nlb = (let n0 = put_zone n i z in if wp z \<noteq> zns_zone_wr_boundary z then Some n0
      else if zs z = NVME_ZONE_STATE_IMPLICITLY_OPEN \<or> zs z = NVME_ZONE_STATE_EXPLICITLY_OPEN then do {
        n1 \<leftarrow> zns_aor_dec_open n0; n2 \<leftarrow> zns_aor_dec_active n1; zns_assign_zone_state n2 i NVME_ZONE_STATE_FULL }
      else if zs z = NVME_ZONE_STATE_CLOSED then do { n1 \<leftarrow> zns_aor_dec_active n0; zns_assign_zone_state n1 i NVME_ZONE_STATE_FULL }
      else if zs z = NVME_ZONE_STATE_EMPTY then zns_assign_zone_state n0 i NVME_ZONE_STATE_FULL
      else if zs z = NVME_ZONE_STATE_FULL then Some n0 else None)"
    using assms(3) g by (simp add: zns_finalize_zoned_write_def z_def Let_def)
  have p: "zinv (put_zone n i z)" "same_size n (put_zone n i z)" "zone_array (put_zone n i z) = (zone_array n)[i := z]"
    using zinv_put [OF assms(1,2) z(1-3)] by (simp_all add: put_zone_def same_size_def)
  show ?thesis
  proof (cases "wp z = zns_zone_wr_boundary z")
    case True
    from assms(1,2) show ?thesis
    proof (cases rule: zone_cases)
      case 1
      note a = assign_zinv [OF assms(1) ctr_refl assms(2) _ z(1-3) c, of NVME_ZONE_STATE_FULL]
      show ?thesis using a 1 True t w f z moved_array [OF ctr_refl, of n i] by (simp add: is_open_def is_active_def)
    next
      case 2
      obtain m m' where m: "zns_aor_dec_open n = Some m" "zns_aor_dec_active m = Some m'" "ctr n m'" "counters m' (open_count n - 1) (active_count n - 1)"
        using release_both [OF assms(1) 2(4,5)] by blast
      note a = assign_zinv [OF assms(1) m(3) assms(2) _ z(1-3) m(4), of NVME_ZONE_STATE_FULL]
      show ?thesis using a 2 True t w f z aor_put(4) [OF m(1), of i z] aor_put(3) [OF m(2), of i z] moved_array [OF m(3), of i]
        by (auto simp: is_open_def is_active_def)
    next
      case 3
      obtain m where m: "zns_aor_dec_active n = Some m" "ctr n m" "counters m (open_count n) (active_count n - 1)"
        using release_active [OF ctr_refl c 3(4)] by blast
      note a = assign_zinv [OF assms(1) m(2) assms(2) _ z(1-3) m(3), of NVME_ZONE_STATE_FULL]
      show ?thesis using a 3 True t w f z aor_put(3) [OF m(1), of i z] moved_array [OF m(2), of i]
        by (auto simp: is_open_def is_active_def)
    next
      case 4
      then have "zs z = NVME_ZONE_STATE_FULL" using assms(4) z(1) by auto
      moreover from this have "?z' = z" by (metis NvmeZone.surjective NvmeZone.update_convs(2) NvmeZone.select_convs(2))
      ultimately have "written nlb (zone_array n ! i) = z" using True w by metis
      then show ?thesis using True \<open>zs z = NVME_ZONE_STATE_FULL\<close> f p by simp
    qed
  next
    case False
    then show ?thesis using f w p by simp
  qed
qed

lemma check_write_returns:
  assumes "zinv n" "i < length (zone_array n)"
  shows "\<exists>st. zns_check_zone_write n (zone_array n ! i) slba nlb app = Some st \<and> (st = 0 \<longrightarrow>
    slba + ucast nlb \<le> zns_zone_wr_boundary (zone_array n ! i) \<and> slba = (if app then zslba (zone_array n ! i) else w_ptr (zone_array n ! i)) \<and>
    zs (zone_array n ! i) \<notin> {NVME_ZONE_STATE_FULL, NVME_ZONE_STATE_READ_ONLY, NVME_ZONE_STATE_OFFLINE})"
  using queues_okD(5) [of n i] assms
  by (cases "zs (zone_array n ! i)")
    (auto simp: zns_check_zone_write_def zinv_def zns_check_zone_state_for_write_def zns_wp_is_valid_def ensure_def status_defs not_less)

lemma error_nz [simp]: "error st \<noteq> 0"
proof -
  have "bit (error st) 14" by (simp add: error_def bit_or_iff NVME_DNR_def bit_numeral_rec)
  then show ?thesis by auto
qed

lemma size_lookup:
  assumes "geo n" "geo m" "same_size n m" "slba < nsze n" "zns_get_zone_by_slba n slba = Some i"
  shows "zns_get_zone_by_slba m slba = Some i"
proof -
  have "nsze m = nsze n" using assms(1-3) by (simp add: geo_def same_size_def)
  then show ?thesis using zone_by_slba [OF assms(1,4)] zone_by_slba [OF assms(2), of slba] assms(3-5) by (auto simp: same_size_def)
qed

text \<open>The three outcomes of a write: refused, failed after the pointer has moved, done.\<close>

definition write_done :: "FemuCtrl \<Rightarrow> NvmeRequest \<Rightarrow> bool \<Rightarrow> bool \<Rightarrow> nat \<Rightarrow> zns_out list \<Rightarrow> FemuCtrl \<Rightarrow> bool" where
  "write_done n req app wr i out n' \<longleftrightarrow> (let z = zone_array n ! i; slba = slba_of (cmd req); nlb = nlb_of (cmd req) in
    slba + ucast nlb \<le> zns_zone_wr_boundary z \<and> slba = (if app then zslba z else w_ptr z) \<and>
    zs z \<notin> {NVME_ZONE_STATE_FULL, NVME_ZONE_STATE_READ_ONLY, NVME_ZONE_STATE_OFFLINE} \<and>
    out = [Res_slba (w_ptr z), Backend_rw wr (zns_l2b n (w_ptr z))] \<and>
    (\<exists>m. keeps n m \<and> others i n m \<and> zone_array n' = (zone_array m)[i := written nlb (advanced nlb z)]))"

lemma write_tail:
  assumes "zinv n" "i < length (zone_array n)" "zroom n i" "zns_get_zone_by_slba n slba = Some i" "slba < nsze n"
    "zs (zone_array n ! i) \<notin> {NVME_ZONE_STATE_READ_ONLY, NVME_ZONE_STATE_OFFLINE}"
  shows "\<exists>n2 n3. zns_advance_zone_wp n i nlb = Some (w_ptr (zone_array n ! i), n2) \<and> zinv n2 \<and> same_size n n2 \<and>
    zns_finalize_zoned_write n2 slba nlb = Some n3 \<and> zinv n3 \<and> same_size n n3 \<and>
    zone_array n3 = (zone_array n)[i := written nlb (advanced nlb (zone_array n ! i))]"
proof -
  let ?z = "zone_array n ! i"
  obtain n2 where n2: "zns_advance_zone_wp n i nlb = Some (w_ptr ?z, n2)" "zinv n2" "same_size n n2"
    "zone_array n2 = (zone_array n)[i := advanced nlb ?z]" using advance_wp_ok [OF assms(1,2,3), of nlb] by auto
  have z2: "zone_array n2 ! i = advanced nlb ?z" "i < length (zone_array n2)" using n2(4) assms(2) by simp_all
  have st2: "zs (advanced nlb ?z) \<notin> {NVME_ZONE_STATE_READ_ONLY, NVME_ZONE_STATE_OFFLINE}" using assms(6) by (auto simp: advanced_def Let_def)
  have "zns_get_zone_by_slba n2 slba = Some i" using size_lookup [OF zinv_sel(2) [OF assms(1)] zinv_sel(2) [OF n2(2)] n2(3) assms(5,4)] .
  then obtain n3 where n3: "zns_finalize_zoned_write n2 slba nlb = Some n3" "zinv n3" "same_size n2 n3"
    "zone_array n3 = (zone_array n2)[i := written nlb (advanced nlb ?z)]"
    using finalize_ok [OF n2(2) z2(2), of slba nlb] st2 z2(1) by auto
  then show ?thesis using n2 by (auto simp: same_size_def)
qed

lemma write_zone_returns:
  assumes "zinv n" "zns_check_bounds n (slba_of (cmd req)) (nlb_of (cmd req)) = NVME_SUCCESS"
  shows "\<exists>i st out n'. write_zone n req app wr = Some (st, out, n') \<and> zinv n' \<and> same_size n n' \<and> i < length (zone_array n) \<and>
    zns_get_zone_by_slba n (slba_of (cmd req)) = Some i \<and>
    (st \<noteq> 0 \<and> keeps n n' \<or> st \<noteq> 0 \<and> zns_map_dptr req \<noteq> 0 \<or> st = 0 \<and> write_done n req app wr i out n')"
proof -
  let ?slba = "slba_of (cmd req)" and ?nlb = "nlb_of (cmd req)"
  have g: "geo n" using zinv_sel(2) [OF assms(1)] .
  have "0 < unat ?nlb" using nlb_pos(1) [of "cmd req"] by (simp add: word_less_nat_alt)
  then have s: "?slba < nsze n" using check_bounds_ok [OF assms(2)] by (simp add: word_less_nat_alt)
  then obtain i where i: "zns_get_zone_by_slba n ?slba = Some i" "i < length (zone_array n)" using zone_by_slba [OF g] by blast
  let ?z = "zone_array n ! i"
  have gz: "get_zone n i = Some ?z" using i(2) by (simp add: get_zone_def)
  obtain st where st: "zns_check_zone_write n ?z ?slba ?nlb app = Some st" and ok: "st = 0 \<Longrightarrow>
      ?slba + ucast ?nlb \<le> zns_zone_wr_boundary ?z \<and> ?slba = (if app then zslba ?z else w_ptr ?z) \<and>
      zs ?z \<notin> {NVME_ZONE_STATE_FULL, NVME_ZONE_STATE_READ_ONLY, NVME_ZONE_STATE_OFFLINE}"
    using check_write_returns [OF assms(1) i(2)] by blast
  obtain st1 n1 where n1: "zns_auto_open_zone n i = Some (st1, n1)" "keeps n n1" "zone_array n1 ! i = ?z" "others i n n1" "st1 = 0 \<Longrightarrow> zroom n1 i"
    using auto_open_ok [OF assms(1) i(2)] by blast
  have k: "keeps n n" "same_size n n" "zinv n1" "same_size n n1" "i < length (zone_array n1)"
    using keeps_refl [OF assms(1)] n1(2) i(2) keeps_len [OF assms(1) n1(2)] by (simp_all add: keeps_def)
  have s1: "?slba < nsze n1" using s g zinv_sel(2) [OF k(3)] k(4) by (simp add: geo_def same_size_def)
  consider "st \<noteq> 0" | "st = 0" "st1 \<noteq> 0" | "st = 0" "st1 = 0" by blast
  then show ?thesis
  proof cases
    case 1
    then have "write_zone n req app wr = Some (error st, [], n)" using i gz st by (simp add: write_zone_def)
    then show ?thesis using k assms(1) i by auto
  next
    case 2
    then have "write_zone n req app wr = Some (error st1, [], n1)" using i gz st n1(1) by (simp add: write_zone_def)
    then show ?thesis using k n1(2) i by auto
  next
    case 3
    obtain n2 n3 where t: "zns_advance_zone_wp n1 i ?nlb = Some (w_ptr ?z, n2)" "zinv n2" "same_size n1 n2" "zns_finalize_zoned_write n2 ?slba ?nlb = Some n3"
      "zinv n3" "same_size n1 n3" "zone_array n3 = (zone_array n1)[i := written ?nlb (advanced ?nlb ?z)]"
      using write_tail [OF k(3,5) n1(5) [OF 3(2)], of ?slba ?nlb] ok [OF 3(1)] n1(3) size_lookup [OF g zinv_sel(2) [OF k(3)] k(4) s i(1)] s1 by auto
    have s2: "same_size n n2" "same_size n n3" using k(4) t(3,6) by (simp_all add: same_size_def)
    have e: "write_zone n req app wr = (if zns_map_dptr req \<noteq> 0 then Some (error (zns_map_dptr req), [Res_slba (w_ptr ?z)], n2)
        else Some (NVME_SUCCESS, [Res_slba (w_ptr ?z), Backend_rw wr (zns_l2b n (if app then w_ptr ?z else ?slba))], n3))"
      using 3 i gz st n1(1) t(1,4) by (simp add: write_zone_def)
    show ?thesis
    proof (cases "zns_map_dptr req = 0")
      case True
      have "write_done n req app wr i [Res_slba (w_ptr ?z), Backend_rw wr (zns_l2b n (if app then w_ptr ?z else ?slba))] n3"
        unfolding write_done_def Let_def using ok [OF 3(1)] n1(2,4) t(7) by auto
      then show ?thesis using e True t(5) s2(2) i by (auto simp: NVME_SUCCESS_def)
    next
      case False
      then show ?thesis using e t(2) s2(1) i by auto
    qed
  qed
qed

lemma write_done_pinv:
  assumes "zinv n" "i < length (zone_array n)" "pinv n" "write_done n req app wr i out n'"
    and fits: "unat (w_ptr (zone_array n ! i)) + unat (nlb_of (cmd req)) \<le> unat (zns_zone_wr_boundary (zone_array n ! i))"
  shows "pinv n'"
proof -
  let ?z = "zone_array n ! i" and ?nlb = "nlb_of (cmd req)"
  obtain m where m: "keeps n m" "zone_array n' = (zone_array m)[i := written ?nlb (advanced ?nlb ?z)]" using assms(4) by (auto simp: write_done_def Let_def)
  have p: "ptr_ok ?z" using assms(2,3) by (simp add: pinv_def)
  have st: "zs ?z \<noteq> NVME_ZONE_STATE_FULL" using assms(4) by (simp add: write_done_def Let_def)
  have e: "unat (w_ptr ?z + ucast ?nlb) = unat (w_ptr ?z) + unat ?nlb"
    using fits unsigned_less [of "zns_zone_wr_boundary ?z", where 'a = nat] by (subst unat_add_lem [THEN iffD1]) (simp_all add: unat_ucast_64)
  let ?w = "w_ptr ?z + ucast ?nlb"
  have le: "?w \<le> zns_zone_wr_boundary ?z" "w_ptr ?z \<le> ?w" using e fits by (simp_all add: word_le_nat_alt)
  have b: "zslba ?z \<le> ?w" using p le(2) by (auto simp: ptr_ok_def)
  have "ptr_ok (written ?nlb (advanced ?nlb ?z))"
  proof (cases "?w = zns_zone_wr_boundary ?z")
    case True
    then show ?thesis using p b
      by (simp add: ptr_ok_def written_def advanced_def Let_def zns_zone_wr_boundary_def is_active_def is_open_def)
  next
    case False
    then have l: "?w < zns_zone_wr_boundary ?z" using le(1) by simp
    then show ?thesis using p b st False
      by (auto simp: ptr_ok_def written_def advanced_def Let_def zns_zone_wr_boundary_def is_active_def is_open_def)
  qed
  moreover have "pinv m" using m(1) assms(3) by (simp add: keeps_def)
  ultimately show ?thesis unfolding pinv_def m(2) by (auto simp: pinv_def intro!: all_update)
qed

section \<open>Shutdown\<close>

definition rem :: "FemuCtrl \<Rightarrow> nat \<Rightarrow> FemuCtrl" where
  "rem n i = n\<lparr>exp_open_zones := remove1 i (exp_open_zones n), imp_open_zones := remove1 i (imp_open_zones n),
    closed_zones := remove1 i (closed_zones n), full_zones := remove1 i (full_zones n)\<rparr>"

lemma aor_rem:
  "zns_aor_inc_active n = Some m \<Longrightarrow> zns_aor_inc_active (rem n i) = Some (rem m i)"
  "zns_aor_dec_active n = Some m \<Longrightarrow> zns_aor_dec_active (rem n i) = Some (rem m i)"
  "zns_aor_dec_open n = Some m \<Longrightarrow> zns_aor_dec_open (rem n i) = Some (rem m i)"
  by (auto simp: zns_aor_inc_active_def zns_aor_dec_active_def zns_aor_dec_open_def ensure_def rem_def Let_def split: if_splits)

lemma rem_queue:
  assumes "queues_ok n"
  shows "i \<in> set (closed_zones n) \<Longrightarrow> n\<lparr>closed_zones := remove1 i (closed_zones n)\<rparr> = rem n i"
    "i \<in> set (imp_open_zones n) \<Longrightarrow> n\<lparr>imp_open_zones := remove1 i (imp_open_zones n)\<rparr> = rem n i"
    "i \<in> set (exp_open_zones n) \<Longrightarrow> n\<lparr>exp_open_zones := remove1 i (exp_open_zones n)\<rparr> = rem n i"
  by (simp_all add: rem_def queues_mem [OF assms] remove1_idem)

lemma zinv_requeue:
  assumes "zinv n" "distinct q" "set q = set (closed_zones n)"
  shows "zinv (n\<lparr>closed_zones := q\<rparr>)"
  using assms by (simp add: zinv_def queues_ok_def queue_ok_def counters_def geo_def open_count_def active_count_def zns_ns_nlbas_def)

lemma clear_zone_ok:
  assumes "zinv n" "ctr n m" "i < length (zone_array n)" "is_active (zone_array n ! i)" "counters m p (active_count n - 1)"
    "p + (if is_open (zone_array n ! i) then 1 else 0) = open_count n"
  shows "\<exists>n'. zns_clear_zone (rem m i) i = Some n' \<and> keeps n n' \<and> exp_open_zones n' = remove1 i (exp_open_zones n) \<and>
    imp_open_zones n' = remove1 i (imp_open_zones n) \<and> set (closed_zones n) - {i} \<subseteq> set (closed_zones n')"
proof -
  let ?z = "(zone_array n ! i)\<lparr>w_ptr := wp (zone_array n ! i)\<rparr>"
  let ?c = "?z\<lparr>zs := NVME_ZONE_STATE_CLOSED\<rparr>" and ?e = "?z\<lparr>zs := NVME_ZONE_STATE_EMPTY\<rparr>"
  have a: "0 < active_count n" using active_pos [OF assms(3,4)] .
  have s: "zone_array (rem m i) = zone_array n" using ctr_sel(1) [OF assms(2)] by (simp add: rem_def)
  have d: "distinct (closed_zones n)" using assms(1) by (simp add: zinv_def queues_ok_def queue_ok_def)
  have keep: "keeps n n'" if "zinv n'" "ctr n m'" "zone_array n' = (zone_array n)[i := z']" "ptr_ok (zone_array n ! i) \<Longrightarrow> ptr_ok z'" "same_size m' n'" for n' m' z'
  proof -
    have "same_size n n'" using that(2,5) by (auto simp: same_size_def ctr_def)
    moreover have "pinv n'" if "pinv n" using that \<open>zone_array n' = _\<close> \<open>_ \<Longrightarrow> ptr_ok z'\<close> assms(3) by (auto simp: pinv_def intro!: all_update)
    ultimately show ?thesis using that(1) by (simp add: keeps_def)
  qed
  show ?thesis
  proof (cases "wp ?z \<noteq> zslba ?z \<or> za ?z AND NVME_ZA_ZD_EXT_VALID \<noteq> 0")
    case True
    have "max_active_zones n \<noteq> 0 \<longrightarrow> active_count n \<le> unat (max_active_zones n)" using assms(1) by (simp add: zinv_def counters_def)
    then obtain m' where m': "zns_aor_inc_active m = Some m'" "counters m' p (active_count n)" "ctr n m'"
      using inc_active_ok [OF assms(5) _ assms(2)] ctr_sel(3) [OF assms(2)] a by auto
    let ?n' = "(zmoved m' i ?c)\<lparr>closed_zones := i # remove1 i (closed_zones m')\<rparr>"
    have q: "zinv (zmoved m' i ?c)"
      using zinv_moved [OF assms(1) m'(3) assms(3), of ?c, OF _ _ _ m'(2)] assms(4,6) by (simp add: is_open_def is_active_def)
    have "zinv ?n'" by (rule zinv_requeue [OF q]) (use ctr_sel(6) [OF m'(3)] d in \<open>auto simp: zmoved_def\<close>)
    moreover have "zns_clear_zone (rem m i) i = Some ?n'"
      using True aor_put(1) [OF aor_rem(1) [OF m'(1)], of i i ?c] s assms(3)
      by (simp add: zns_clear_zone_def get_zone_def Let_def) (simp add: rem_def zmoved_def put_zone_def)
    moreover have "ptr_ok (zone_array n ! i) \<Longrightarrow> ptr_ok ?c" using assms(4) by (auto simp: ptr_ok_def zns_zone_wr_boundary_def is_active_def is_open_def)
    ultimately show ?thesis using keep [of ?n' m' ?c] m'(3) ctr_sel [OF m'(3)]
      by (simp add: moved_array) (auto simp: zmoved_def same_size_def)
  next
    case False
    have q: "zinv (zmoved m i ?e)"
      using zinv_moved [OF assms(1,2,3), of ?e, OF _ _ _ assms(5)] assms(4,6) a by (simp add: is_open_def is_active_def)
    moreover have "zns_clear_zone (rem m i) i = Some (zmoved m i ?e)"
      using False s assms(3) by (simp add: zns_clear_zone_def get_zone_def Let_def) (simp add: rem_def zmoved_def put_zone_def)
    moreover have "ptr_ok (zone_array n ! i) \<Longrightarrow> ptr_ok ?e" using False by (auto simp: ptr_ok_def zns_zone_wr_boundary_def is_active_def is_open_def)
    ultimately show ?thesis using keep [of "zmoved m i ?e" m ?e] assms(2) ctr_sel [OF assms(2)] d
      by (simp add: moved_array) (auto simp: zmoved_def same_size_def)
  qed
qed

lemma clear_closed_ok:
  assumes "zinv n" "i \<in> set (closed_zones n)"
  shows "\<exists>n'. clear_closed i n = Some n' \<and> keeps n n' \<and> set (closed_zones n) - {i} \<subseteq> set (closed_zones n')"
proof -
  have q: "queues_ok n" using assms(1) by (simp add: zinv_def)
  have i: "i < length (zone_array n)" "zs (zone_array n ! i) = NVME_ZONE_STATE_CLOSED" using assms(2) queues_mem(3) [OF q] by simp_all
  obtain m where m: "zns_aor_dec_active n = Some m" "ctr n m" "counters m (open_count n) (active_count n - 1)"
    using release_active [OF ctr_refl zinv_sel(1) [OF assms(1)] closed_less [OF i]] by blast
  have "is_active (zone_array n ! i)" "\<not> is_open (zone_array n ! i)" using i(2) by (simp_all add: is_active_def is_open_def)
  then show ?thesis using clear_zone_ok [OF assms(1) m(2) i(1) _ m(3)] aor_rem(2) [OF m(1), of i] rem_queue(1) [OF q assms(2)] assms(2)
    by (auto simp: clear_closed_def)
qed

lemma clear_open_ok:
  assumes "zinv n" "i < length (zone_array n)" "is_open (zone_array n ! i)"
  shows "\<exists>m m' n'. zns_aor_dec_open (rem n i) = Some m \<and> zns_aor_dec_active m = Some m' \<and> zns_clear_zone m' i = Some n' \<and> keeps n n' \<and>
    exp_open_zones n' = remove1 i (exp_open_zones n) \<and> imp_open_zones n' = remove1 i (imp_open_zones n)"
proof -
  have a: "is_active (zone_array n ! i)" using assms(3) by (simp add: is_active_def)
  obtain m m' where m: "zns_aor_dec_open n = Some m" "zns_aor_dec_active m = Some m'" "ctr n m'" "counters m' (open_count n - 1) (active_count n - 1)"
    using release_both [OF assms(1) open_pos [OF assms(2,3)] count_le] by blast
  then show ?thesis using clear_zone_ok [OF assms(1) m(3) assms(2) a m(4)] open_pos [OF assms(2,3)] assms(3)
      aor_rem(3) [OF m(1), of i] aor_rem(2) [OF m(2), of i] by auto
qed

lemma clear_closed_loop:
  "zinv n \<Longrightarrow> distinct q \<Longrightarrow> set q \<subseteq> set (closed_zones n) \<Longrightarrow> \<exists>n'. ofold clear_closed q n = Some n' \<and> keeps n n'"
proof (induction q arbitrary: n)
  case (Cons i q)
  obtain n1 where n1: "clear_closed i n = Some n1" "keeps n n1" "set (closed_zones n) - {i} \<subseteq> set (closed_zones n1)"
    using clear_closed_ok [OF Cons.prems(1), of i] Cons.prems(3) by auto
  have "zinv n1" "set q \<subseteq> set (closed_zones n1)" using n1(2,3) Cons.prems(2,3) by (auto simp: keeps_def)
  then obtain n2 where "ofold clear_closed q n1 = Some n2" "keeps n1 n2" using Cons.IH Cons.prems(2) by auto
  then show ?case using n1(1) keeps_trans [OF n1(2)] by auto
qed (simp add: keeps_refl)

lemma clear_imp_loop: "zinv n \<Longrightarrow> imp_open_zones n = q \<Longrightarrow> \<exists>n'. ofold clear_imp q n = Some n' \<and> keeps n n' \<and> imp_open_zones n' = []"
proof (induction q arbitrary: n)
  case (Cons i q)
  have w: "queues_ok n" "i \<in> set (imp_open_zones n)" using Cons.prems by (simp_all add: zinv_def)
  then have "i < length (zone_array n)" "is_open (zone_array n ! i)" using queues_mem(2) [OF w(1), of i] by (simp_all add: is_open_def)
  then obtain n1 where n1: "clear_imp i n = Some n1" "keeps n n1" "imp_open_zones n1 = q"
    using clear_open_ok [OF Cons.prems(1), of i] rem_queue(2) [OF w] w(2) Cons.prems(2) by (auto simp: clear_imp_def)
  then obtain n2 where "ofold clear_imp q n1 = Some n2" "keeps n1 n2" "imp_open_zones n2 = []" using Cons.IH [of n1] by (auto simp: keeps_def)
  then show ?case using n1(1) keeps_trans [OF n1(2)] by auto
qed (simp add: keeps_refl)

lemma clear_exp_loop:
  "zinv n \<Longrightarrow> exp_open_zones n = q \<Longrightarrow> imp_open_zones n = [] \<Longrightarrow>
   \<exists>n'. ofold clear_exp q n = Some n' \<and> keeps n n' \<and> exp_open_zones n' = [] \<and> imp_open_zones n' = []"
proof (induction q arbitrary: n)
  case (Cons i q)
  have w: "queues_ok n" "i \<in> set (exp_open_zones n)" using Cons.prems by (simp_all add: zinv_def)
  then have "i < length (zone_array n)" "is_open (zone_array n ! i)" using queues_mem(1) [OF w(1), of i] by (simp_all add: is_open_def)
  then obtain n1 where n1: "clear_exp i n = Some n1" "keeps n n1" "exp_open_zones n1 = q" "imp_open_zones n1 = []"
    using clear_open_ok [OF Cons.prems(1), of i] rem_queue(3) [OF w] w(2) Cons.prems(2,3) by (auto simp: clear_exp_def)
  then obtain n2 where "ofold clear_exp q n1 = Some n2" "keeps n1 n2" "exp_open_zones n2 = [] \<and> imp_open_zones n2 = []"
    using Cons.IH [of n1] by (auto simp: keeps_def)
  then show ?case using n1(1) keeps_trans [OF n1(2)] by auto
qed (simp add: keeps_refl)

lemma none_open:
  assumes "queues_ok n" "exp_open_zones n = []" "imp_open_zones n = []"
  shows "open_count n = 0"
proof -
  have "\<not> is_open (zone_array n ! i)" if "i < length (zone_array n)" for i
    using that queues_mem(1,2) [OF assms(1), of i] assms(2,3) by (auto simp: is_open_def)
  then show ?thesis by (auto simp: open_count_def filter_empty_conv in_set_conv_nth)
qed

lemma shutdown_ok:
  assumes "zinv n"
  shows "\<exists>n'. zns_ns_shutdown n = Some n' \<and> keeps n n' \<and> open_count n' = 0"
proof -
  have "distinct (closed_zones n)" using assms by (simp add: zinv_def queues_ok_def queue_ok_def)
  then obtain n1 where n1: "ofold clear_closed (closed_zones n) n = Some n1" "keeps n n1" using clear_closed_loop [OF assms] by blast
  then have i1: "zinv n1" by (simp add: keeps_def)
  obtain n2 where n2: "ofold clear_imp (imp_open_zones n1) n1 = Some n2" "keeps n1 n2" "imp_open_zones n2 = []"
    using clear_imp_loop [OF i1 refl] by blast
  then have i2: "zinv n2" by (simp add: keeps_def)
  obtain n3 where n3: "ofold clear_exp (exp_open_zones n2) n2 = Some n3" "keeps n2 n3" "exp_open_zones n3 = []" "imp_open_zones n3 = []"
    using clear_exp_loop [OF i2 refl n2(3)] by blast
  then have i3: "zinv n3" by (simp add: keeps_def)
  have o: "open_count n3 = 0" using none_open i3 n3(3,4) by (simp add: zinv_def)
  then have "nr_open_zones n3 = 0" using i3 by (simp add: zinv_def counters_def)
  then show ?thesis using n1 n2(1) n3(1) o keeps_trans [OF n1(2) keeps_trans [OF n2(2) n3(2)]] assms
    by (simp add: zns_ns_shutdown_def zns_zoned_ns_shutdown_def ensure_def zinv_def geo_def)
qed

end
