(* ===== verification/Zns_Run.thy ===== *)
theory Zns_Run
  imports Zns_Io
begin

text \<open>
  Runs of the zoned mode: initialisation establishes the invariant, the commands and the shutdown keep it.
  The theorems are stated of every state that a run reaches.
\<close>

section \<open>Powers of two\<close>

lemma nat_pow2: "0 < (v :: nat) \<Longrightarrow> v AND (v - 1) = 0 \<Longrightarrow> \<exists>k. v = 2 ^ k"
proof (induction v rule: less_induct)
  case (less v)
  show ?case
  proof (cases "even v")
    case True
    then obtain u where u: "v = 2 * u" by blast
    then have "0 < u" "u < v" using less.prems(1) by simp_all
    moreover have "(v - 1) div 2 = u - 1" using u \<open>0 < u\<close> by simp
    then have "u AND (u - 1) = 0" using less.prems(2) u and_rec [of v "v - 1"] True by simp
    ultimately obtain k where "u = 2 ^ k" using less.IH by blast
    then have "v = 2 ^ Suc k" using u by simp
    then show ?thesis by blast
  next
    case False
    then obtain u where u: "v = 2 * u + 1" using oddE by blast
    have "v AND (v - 1) = 2 * (u AND u)" using u and_rec [of v "v - 1"] by simp
    then have "v = 2 ^ 0" using u less.prems(2) by simp
    then show ?thesis by blast
  qed
qed

lemma clz_pow2:
  assumes "k < 64"
  shows "clz (2 ^ k :: u64) = 63 - k"
proof -
  have b: "bit (2 ^ k :: u64) i \<longleftrightarrow> i = k" if "i < 64" for i using that by (auto simp: bit_exp_iff)
  have l: "[0..<64] = [0..<k] @ k # [Suc k..<64]" using assms by (metis le0 less_imp_le_nat upt_add_eq_append upt_conv_Cons le_add_diff_inverse add_0)
  have "takeWhile (\<lambda>i. \<not> bit (2 ^ k :: u64) i) (rev [0..<64]) = rev [Suc k..<64]"
    unfolding l rev_append rev.simps append_assoc using b assms by (subst takeWhile_append2) (auto simp: b)
  then show ?thesis by (simp add: clz_def)
qed

lemma is_power_of_2_log:
  assumes "is_power_of_2 v"
  shows "v = 2 ^ (63 - clz v)" "63 - clz v < 64"
proof -
  have "v \<noteq> 0" "v AND (v - 1) = 0" using assms by (simp_all add: is_power_of_2_def)
  then have "unat v AND (unat v - 1) = 0" "0 < unat v"
    by (metis unat_minus_one unsigned_and_eq unsigned_0, simp add: unat_gt_0)
  then obtain k where k: "unat v = 2 ^ k" using nat_pow2 by blast
  have "(2 :: nat) ^ k < 2 ^ 64" using k unsigned_less [of v, where 'a = nat] by simp
  then have k64: "k < 64" by (rule power_less_imp_less_exp [rotated]) simp
  then have "v = 2 ^ k" using k unat_pow2 [OF k64] by (metis unsigned_word_eqI)
  then show "v = 2 ^ (63 - clz v)" "63 - clz v < 64" using clz_pow2 [OF k64] k64 by simp_all
qed

section \<open>Initialisation\<close>

lemma init_zones_ok:
  "unat start + k * unat sz = unat capacity \<Longrightarrow> unat capacity + unat sz < 2 ^ 64 \<Longrightarrow>
   length (init_zones k cap capacity start sz) = k \<and> (\<forall>i < k. let z = init_zones k cap capacity start sz ! i in
     unat (zslba z) = unat start + i * unat sz \<and> zcap z = cap \<and> zs z = NVME_ZONE_STATE_EMPTY \<and> wp z = zslba z \<and> w_ptr z = zslba z)"
proof (induction k arbitrary: start)
  case (Suc k)
  have e: "unat (start + sz) = unat start + unat sz"
    using Suc.prems by (subst unat_add_lem [THEN iffD1]) simp_all
  then have l: "\<not> start + sz > capacity" using Suc.prems(1) by (simp add: word_less_nat_alt)
  have c: "unat (start + sz) + k * unat sz = unat capacity" using e Suc.prems(1) by simp
  note ih = Suc.IH [OF c Suc.prems(2)]
  show ?case using ih e l by (auto simp: Let_def nth_Cons split: nat.split)
qed simp

text \<open>A start with any configuration that the geometry check accepts, with at least one zone, blocks of more than a byte and
  a name space of whole zones.  \<open>zns_init\<close> is such a start with the fixed configuration.\<close>

definition zstart :: "FemuCtrl \<Rightarrow> FemuCtrl \<Rightarrow> bool" where
  "zstart n n' \<longleftrightarrow> zoned n \<and> 0 < lbads n \<and> lbads n < 32 \<and> nr_open_zones n = 0 \<and> nr_active_zones n = 0 \<and>
    (case zns_init_zone_geometry n of Some (True, m) \<Rightarrow> n' = zns_init_zone_identify m \<and> 0 < num_zones m \<and> zns_ns_nlbas n' = nsze n' | _ \<Rightarrow> False)"

lemma geometry_ok:
  assumes "zns_init_zone_geometry n = Some (True, m)" "0 < lbads n" "lbads n < 32" "0 < num_zones m"
  shows "0 < zone_capacity m" "zone_capacity m \<le> zone_size m" "(unat (num_zones m) + 1) * unat (zone_size m) < 2 ^ 64"
    "m = n\<lparr>zone_size := zone_size m, zone_capacity := zone_capacity m, num_zones := num_zones m\<rparr>"
proof -
  let ?l = "ucast (push_bit (unat (lbads n)) 1 :: u32) :: u64"
  define sz where "sz = (if zone_size_bs n \<noteq> 0 then zone_size_bs n else NVME_DEFAULT_ZONE_SIZE)"
  define cap where "cap = (if zone_cap_bs n then 1 else sz)"
  have lb: "0 < unat (lbads n)" "unat (lbads n) < 32" using assms(2,3) by (simp_all add: word_less_nat_alt)
  have p: "(2 :: nat) ^ unat (lbads n) < 2 ^ 32" using lb(2) by (intro power_strict_increasing) simp_all
  have l: "unat ?l = 2 ^ unat (lbads n)"
    unfolding unat_ucast_64 by (simp only: unsigned_push_bit_eq) (use p lb in \<open>simp add: take_bit_nat_eq_self push_bit_eq_mult\<close>)
  then have l2: "2 \<le> unat ?l" using lb(1) by (cases "unat (lbads n)") simp_all
  then have l0: "?l \<noteq> 0" by auto
  have ok: "\<not> (cap > sz \<or> sz < ?l \<or> cap < ?l)"
  proof
    assume "cap > sz \<or> sz < ?l \<or> cap < ?l"
    then have "zns_init_zone_geometry n = Some (False, n)" by (simp add: zns_init_zone_geometry_def Let_def flip: sz_def cap_def)
    then show False using assms(1) by simp
  qed
  then have c: "unat ?l \<le> unat cap" "unat cap \<le> unat sz" by (simp_all add: not_less word_le_nat_alt)
  have zs1: "unat (cap div ?l) = unat cap div unat ?l" "unat (sz div ?l) = unat sz div unat ?l" by (simp_all add: unat_div)
  have c1: "1 \<le> unat cap div unat ?l" "unat cap div unat ?l \<le> unat sz div unat ?l"
    using c l2 by (simp_all add: div_le_mono div_greater_zero_iff Suc_le_eq)
  then have z0: "sz div ?l \<noteq> 0" using zs1(2) by auto
  have m: "m = n\<lparr>zone_size := sz div ?l, zone_capacity := cap div ?l, num_zones := ucast (ns_size n div ?l div (sz div ?l))\<rparr>"
    using assms(1) ok l0 z0 by (simp add: zns_init_zone_geometry_def Let_def udiv_def flip: sz_def cap_def)
  show "0 < zone_capacity m" "zone_capacity m \<le> zone_size m" using c1 zs1 by (simp_all add: m word_less_nat_alt word_le_nat_alt)
  show "m = n\<lparr>zone_size := zone_size m, zone_capacity := zone_capacity m, num_zones := num_zones m\<rparr>" by (simp add: m)
  let ?N = "unat (num_zones m)" and ?Z = "unat (zone_size m)"
  have "?N \<le> unat (ns_size n div ?l div (sz div ?l))" by (simp add: m unsigned_ucast_eq take_bit_eq_mod)
  also have "\<dots> = unat (ns_size n) div unat ?l div ?Z" by (simp add: m unat_div)
  finally have "?N * ?Z \<le> unat (ns_size n) div unat ?l div ?Z * ?Z" by (rule mult_le_mono1)
  then have "?N * ?Z \<le> unat (ns_size n) div unat ?l" using div_times_less_eq_dividend order_trans by blast
  moreover have "unat (ns_size n) div unat ?l \<le> unat (ns_size n) div 2" using l2 by (simp add: div_le_mono2)
  moreover have "unat (ns_size n) div 2 < 2 ^ 63" using unsigned_less [of "ns_size n", where 'a = nat] by simp
  ultimately have "?N * ?Z < 2 ^ 63" by (meson le_less_trans)
  from add_strict_mono [OF this this] have "?N * ?Z + ?N * ?Z < 2 ^ 64" by (rule less_le_trans) simp
  moreover have "?Z \<le> ?N * ?Z" using assms(4) by (simp add: word_less_nat_alt)
  ultimately show "(?N + 1) * ?Z < 2 ^ 64" unfolding add_mult_distrib mult_1 by linarith
qed

lemma start_inv:
  assumes "zstart n n'"
  shows "zinv n'" "pinv n'"
proof -
  obtain m where m: "zns_init_zone_geometry n = Some (True, m)" "n' = zns_init_zone_identify m" "0 < num_zones m" "zns_ns_nlbas n' = nsze n'"
    using assms by (auto simp: zstart_def split: option.splits bool.splits)
  have a: "zoned n" "0 < lbads n" "lbads n < 32" "nr_open_zones n = 0" "nr_active_zones n = 0" using assms by (simp_all add: zstart_def)
  note g = geometry_ok [OF m(1) a(2,3) m(3)]
  let ?N = "num_zones m" and ?Z = "zone_size m"
  let ?zl = "init_zones (unat ?N) (zone_capacity m) (ucast ?N * ?Z) 0 ?Z"
  have c: "unat (ucast ?N * ?Z) = unat ?N * unat ?Z"
    using g(3) unat_ucast_64 [of ?N] by (simp add: unat_word_ariths)
  have zl: "length ?zl = unat ?N" "\<And>i. i < unat ?N \<Longrightarrow> unat (zslba (?zl ! i)) = i * unat ?Z \<and> zcap (?zl ! i) = zone_capacity m \<and>
      zs (?zl ! i) = NVME_ZONE_STATE_EMPTY \<and> wp (?zl ! i) = zslba (?zl ! i) \<and> w_ptr (?zl ! i) = zslba (?zl ! i)"
    using init_zones_ok [of 0 "unat ?N" ?Z "ucast ?N * ?Z" "zone_capacity m"] c g(3) by (simp_all add: Let_def)
  have n': "zone_array n' = ?zl" "num_zones n' = ?N" "zone_size n' = ?Z" "zone_capacity n' = zone_capacity m" "zoned n'" "nsze n' = ucast ?N * ?Z"
    "exp_open_zones n' = []" "imp_open_zones n' = []" "closed_zones n' = []" "full_zones n' = []" "nr_open_zones n' = 0" "nr_active_zones n' = 0"
    "zone_size_log2 n' = (if is_power_of_2 ?Z then of_nat (63 - clz ?Z) else 0)" "zd_extension_size n' \<noteq> 0 \<Longrightarrow> length (zd_extensions n') = unat ?N"
    using a arg_cong [OF g(4), of zoned] arg_cong [OF g(4), of nr_open_zones] arg_cong [OF g(4), of nr_active_zones]
    by (simp_all add: m(2) zns_init_zone_identify_def zns_init_zoned_state_def Let_def)
  have e: "zs z = NVME_ZONE_STATE_EMPTY" if "z \<in> set ?zl" for z using that zl by (auto simp: in_set_conv_nth)
  have "queues_ok n'" using e zl by (auto simp: queues_ok_def queue_ok_def n')
  moreover have "filter is_open ?zl = []" "filter is_active ?zl = []" using e by (auto simp: filter_empty_conv is_open_def is_active_def)
  then have "counters n' (open_count n') (active_count n')" by (simp add: counters_def open_count_def active_count_def n')
  moreover have "zone_size_log2 n' \<noteq> 0 \<Longrightarrow> unat (zone_size_log2 n') < 64 \<and> ?Z = 2 ^ unat (zone_size_log2 n')"
    using is_power_of_2_log [of ?Z] by (auto simp: n'(13) unat_of_nat split: if_splits)
  then have "geo n'" using g zl m(3,4) n' by (simp add: geo_def)
  ultimately show z: "zinv n'" by (simp add: zinv_def)
  show "pinv n'" unfolding pinv_def
  proof (intro allI impI)
    fix i assume i: "i < length (zone_array n')"
    show "ptr_ok (zone_array n' ! i)" using unat_boundary(3) [OF zinv_sel(2) [OF z] i] zl(2) [of i] i zl(1)
      by (simp add: ptr_ok_def n'(1) is_active_def is_open_def)
  qed
qed

section \<open>Runs\<close>

text \<open>A request that maps its data and, if it is an append, fits behind the write pointer.\<close>

definition clean :: "FemuCtrl \<Rightarrow> NvmeRequest \<Rightarrow> bool" where
  "clean n req \<longleftrightarrow> zns_map_dptr req = 0 \<and> (opcode (cmd req) = NVME_CMD_ZONE_APPEND \<longrightarrow> (\<forall>z \<in> set (zone_array n).
    zslba z = slba_of (cmd req) \<longrightarrow> unat (w_ptr z) + unat (nlb_of (cmd req)) \<le> unat (zns_zone_wr_boundary z)))"

lemma write_cmd_ok:
  assumes "zinv n"
  shows "\<exists>st out n'. zns_write n req = Some (st, out, n') \<and> zinv n' \<and> same_size n n' \<and> (pinv n \<longrightarrow> zns_map_dptr req = 0 \<longrightarrow> pinv n') \<and>
    (st = 0 \<longrightarrow> (\<exists>i < length (zone_array n). zns_get_zone_by_slba n (slba_of (cmd req)) = Some i \<and> write_done n req False True i out n' \<and>
      unat (slba_of (cmd req)) + unat (nlb_of (cmd req)) \<le> unat (zns_zone_wr_boundary (zone_array n ! i))))"
proof (cases "nvme_check_mdts n (zns_l2b n (ucast (nlb_of (cmd req)))) = 0 \<and> zns_check_bounds n (slba_of (cmd req)) (nlb_of (cmd req)) = 0")
  case True
  then have b: "zns_check_bounds n (slba_of (cmd req)) (nlb_of (cmd req)) = NVME_SUCCESS" by (simp add: NVME_SUCCESS_def)
  obtain i st out n' where w: "write_zone n req False True = Some (st, out, n')" "zinv n'" "same_size n n'" "i < length (zone_array n)"
    "zns_get_zone_by_slba n (slba_of (cmd req)) = Some i"
    "st \<noteq> 0 \<and> keeps n n' \<or> st \<noteq> 0 \<and> zns_map_dptr req \<noteq> 0 \<or> st = 0 \<and> write_done n req False True i out n'"
    using write_zone_returns [OF assms b, of False True] by blast
  have f: "unat (slba_of (cmd req)) + unat (nlb_of (cmd req)) \<le> unat (zns_zone_wr_boundary (zone_array n ! i))"
    "slba_of (cmd req) = w_ptr (zone_array n ! i)" if "st = 0"
    using that w(6) check_bounds_ok(1) [OF b] by (auto simp: write_done_def Let_def word_le_nat_alt)
  have "pinv n \<longrightarrow> zns_map_dptr req = 0 \<longrightarrow> pinv n'" using w(6) write_done_pinv [OF assms w(4), of req] f by (auto simp: keeps_def)
  moreover have "zns_write n req = Some (st, out, n')" using True w(1) assms by (simp add: zns_write_def Let_def ensure_def zinv_def geo_def)
  ultimately show ?thesis using w f by auto
next
  case False
  then have "\<exists>st. zns_write n req = Some (error st, [], n)" using assms by (auto simp: zns_write_def Let_def ensure_def zinv_def geo_def)
  then show ?thesis using assms by (auto simp: same_size_def)
qed

lemma append_cmd_ok:
  assumes "zinv n" "opcode (cmd req) = NVME_CMD_ZONE_APPEND"
  shows "\<exists>st out n'. zns_zone_append n req = Some (st, out, n') \<and> zinv n' \<and> same_size n n' \<and> (pinv n \<longrightarrow> clean n req \<longrightarrow> pinv n')"
proof (cases "nvme_check_mdts n (zns_l2b n (ucast (nlb_of (cmd req)))) = 0 \<and> zns_check_bounds n (slba_of (cmd req)) (nlb_of (cmd req)) = 0")
  case True
  then have b: "zns_check_bounds n (slba_of (cmd req)) (nlb_of (cmd req)) = NVME_SUCCESS" by (simp add: NVME_SUCCESS_def)
  obtain i st out n' where w: "write_zone n req True (is_write req) = Some (st, out, n')" "zinv n'" "same_size n n'" "i < length (zone_array n)"
    "st \<noteq> 0 \<and> keeps n n' \<or> st \<noteq> 0 \<and> zns_map_dptr req \<noteq> 0 \<or> st = 0 \<and> write_done n req True (is_write req) i out n'"
    using write_zone_returns [OF assms(1) b, of True "is_write req"] by blast
  have "pinv n'" if "pinv n" "clean n req"
    using w(5)
  proof (elim disjE conjE)
    assume d: "write_done n req True (is_write req) i out n'"
    then have "zslba (zone_array n ! i) = slba_of (cmd req)" by (simp add: write_done_def Let_def)
    then show "pinv n'" using write_done_pinv [OF assms(1) w(4) that(1) d] that(2) assms(2) w(4) by (simp add: clean_def)
  qed (use that in \<open>auto simp: keeps_def clean_def\<close>)
  then show ?thesis using True w by (auto simp: zns_zone_append_def zns_do_write_def Let_def)
next
  case False
  then have "\<exists>st. zns_zone_append n req = Some (error st, [], n)" by (auto simp: zns_zone_append_def zns_do_write_def Let_def)
  then show ?thesis using assms by (auto simp: same_size_def)
qed

lemma io_cmd_ok:
  assumes "zinv n"
  shows "\<exists>st out n'. zns_io_cmd n req = Some (st, out, n') \<and> zinv n' \<and> (pinv n \<longrightarrow> clean n req \<longrightarrow> pinv n')"
proof -
  consider "opcode (cmd req) = NVME_CMD_READ" | "opcode (cmd req) = NVME_CMD_WRITE" | "opcode (cmd req) = NVME_CMD_ZONE_MGMT_SEND"
    | "opcode (cmd req) = NVME_CMD_ZONE_MGMT_RECV" | "opcode (cmd req) = NVME_CMD_ZONE_APPEND"
    | "opcode (cmd req) \<notin> {NVME_CMD_READ, NVME_CMD_WRITE, NVME_CMD_ZONE_MGMT_SEND, NVME_CMD_ZONE_MGMT_RECV, NVME_CMD_ZONE_APPEND}" by blast
  then show ?thesis
  proof cases
    case 1
    then show ?thesis using read_returns [OF assms, of req] assms by (auto simp: zns_io_cmd_def)
  next
    case 2
    then show ?thesis using write_cmd_ok [OF assms, of req] by (auto simp: zns_io_cmd_def cmd_defs clean_def)
  next
    case 3
    then show ?thesis using mgmt_send_returns [OF assms, of req] by (auto simp: zns_io_cmd_def cmd_defs keeps_def)
  next
    case 4
    then show ?thesis using mgmt_recv_returns [OF assms, of req] assms by (auto simp: zns_io_cmd_def cmd_defs)
  next
    case 5
    then show ?thesis using append_cmd_ok [OF assms 5] by (auto simp: zns_io_cmd_def cmd_defs)
  qed (use assms in \<open>auto simp: zns_io_cmd_def\<close>)
qed

text \<open>The states of the runs whose requests satisfy \<open>ok\<close>.\<close>

inductive zruns :: "(FemuCtrl \<Rightarrow> NvmeRequest \<Rightarrow> bool) \<Rightarrow> FemuCtrl \<Rightarrow> bool" for ok where
  run_start: "zstart n n' \<Longrightarrow> zruns ok n'"
| run_ctrl: "zruns ok n \<Longrightarrow> zns_start_ctrl n = Some (started, n') \<Longrightarrow> zruns ok n'"
| run_cmd: "zruns ok n \<Longrightarrow> ok n req \<Longrightarrow> zns_io_cmd n req = Some (st, out, n') \<Longrightarrow> zruns ok n'"
| run_shutdown: "zruns ok n \<Longrightarrow> zns_ns_shutdown n = Some n' \<Longrightarrow> zruns ok n'"

lemma start_ctrl_ok:
  assumes "zinv n" "zns_start_ctrl n = Some (started, n')"
  shows "zinv n' \<and> zone_array n' = zone_array n"
proof -
  have "n' = n \<or> (\<exists>x. n' = n\<lparr>zasl := x\<rparr>)"
    using assms(2) by (cases "zasl_bs n = 0") (auto simp: zns_start_ctrl_def ensure_def udiv_def split: if_splits)
  moreover have "zinv (n\<lparr>zasl := x\<rparr>)" for x
    using assms(1) by (simp add: zinv_def queues_ok_def counters_def geo_def open_count_def active_count_def zns_ns_nlbas_def)
  ultimately show ?thesis using assms(1) by auto
qed

lemma runs_inv: "zruns ok n \<Longrightarrow> zinv n"
proof (induction rule: zruns.induct)
  case (run_start n n')
  then show ?case by (rule start_inv(1))
next
  case (run_ctrl n started n')
  then show ?case using start_ctrl_ok [OF run_ctrl.IH run_ctrl(2)] by simp
next
  case (run_cmd n req st out n')
  then show ?case using io_cmd_ok [OF run_cmd.IH, of req] by simp
next
  case (run_shutdown n n')
  then show ?case using shutdown_ok [OF run_shutdown.IH] by (auto simp: keeps_def)
qed

lemma runs_pinv: "zruns clean n \<Longrightarrow> pinv n"
proof (induction rule: zruns.induct)
  case (run_start n n')
  then show ?case by (rule start_inv(2))
next
  case (run_ctrl n started n')
  then show ?case using start_ctrl_ok [OF runs_inv [OF run_ctrl(1)] run_ctrl(2)] by (simp add: pinv_def)
next
  case (run_cmd n req st out n')
  then show ?case using io_cmd_ok [OF runs_inv [OF run_cmd(1)], of req] by simp
next
  case (run_shutdown n n')
  then show ?case using shutdown_ok [OF runs_inv [OF run_shutdown(1)]] by (auto simp: keeps_def)
qed

lemma init_starts:
  assumes "zns_init n = Some n'" "0 < lbads n" "lbads n < 32" "nr_open_zones n = 0" "nr_active_zones n = 0"
    "fst (the (zns_init_zone_geometry (zns_init_zone_cap n)))" "0 < num_zones n'" "zns_ns_nlbas n' = nsze n'"
  shows "zstart (zns_init_zone_cap n) n'"
proof -
  obtain m where m: "zns_init_zone_geometry (zns_init_zone_cap n) = Some (True, m)"
    using assms(1,6) by (cases "zns_init_zone_geometry (zns_init_zone_cap n)") (auto simp: zns_init_def)
  then have "n' = zns_init_zone_identify m" using assms(1) by (simp add: zns_init_def)
  moreover from this have "num_zones n' = num_zones m" by (simp add: zns_init_zone_identify_def zns_init_zoned_state_def Let_def)
  ultimately show ?thesis using m assms by (simp add: zstart_def zns_init_zone_cap_def)
qed

section \<open>Properties\<close>

text \<open>A controller with two zones of four blocks; at most one zone may be open.\<close>

definition conf :: FemuCtrl where
  "conf = \<lparr>zasl_bs = 131072, zasl = 0, zoned = True, cross_zone_read = False, zone_size_bs = 16384, zone_cap_bs = False, max_active_zones = 2,
    max_open_zones = 1, zd_extension_size = 0, zone_array = [], exp_open_zones = [], imp_open_zones = [], closed_zones = [], full_zones = [],
    num_zones = 0, zone_size = 0, zone_capacity = 0, zone_size_log2 = 0, zd_extensions = [], nr_open_zones = 0, nr_active_zones = 0,
    page_size = 4096, mdts = 0, ns_size = 32768, lbads = 12, nsze = 0\<rparr>"

definition booted :: FemuCtrl where
  "booted = (case zns_init_zone_geometry conf of Some (b, m) \<Rightarrow>
    (case zns_start_ctrl (zns_init_zone_identify m) of Some (b, n) \<Rightarrow> n | None \<Rightarrow> m) | None \<Rightarrow> conf)"

definition rw_req :: "u8 \<Rightarrow> u32 \<Rightarrow> u32 \<Rightarrow> NvmeRequest" where
  "rw_req op slba nlb = \<lparr>cmd = \<lparr>opcode = op, psdt = 0, cdw10 = slba, cdw11 = 0, cdw12 = nlb - 1, cdw13 = 0\<rparr>, is_write = True,
    prp_status = 0, dma_status = 0, dma_data = []\<rparr>"

definition after_cmd :: "FemuCtrl \<Rightarrow> NvmeRequest \<Rightarrow> FemuCtrl" where
  "after_cmd n req = (case zns_io_cmd n req of Some (st, out, n') \<Rightarrow> n' | None \<Rightarrow> n)"

lemma booted_runs: "zruns ok booted"
proof -
  have "\<exists>m. zstart conf m \<and> zns_start_ctrl m = Some (True, booted)"
    by (rule exI [of _ "case zns_init_zone_geometry conf of Some (b, m) \<Rightarrow> zns_init_zone_identify m | None \<Rightarrow> conf"]) code_simp
  then show ?thesis using run_start run_ctrl by blast
qed

lemma after_runs:
  assumes "zruns ok n" "ok n req"
  shows "zruns ok (after_cmd n req)"
proof -
  obtain st out n' where "zns_io_cmd n req = Some (st, out, n')" using io_cmd_ok [OF runs_inv [OF assms(1)]] by blast
  then show ?thesis using run_cmd [OF assms] by (simp add: after_cmd_def)
qed

abbreviation any_req :: "FemuCtrl \<Rightarrow> NvmeRequest \<Rightarrow> bool" where
  "any_req n req \<equiv> True"

definition one_write :: FemuCtrl where
  "one_write = after_cmd booted (rw_req NVME_CMD_WRITE 0 3)"

definition two_writes :: FemuCtrl where
  "two_writes = after_cmd one_write (rw_req NVME_CMD_WRITE 4 1)"

lemma clean_writes: "clean n (rw_req NVME_CMD_WRITE slba nlb)"
  by (simp add: clean_def rw_req_def zns_map_dptr_def cmd_defs)

lemma writes_run: "zruns any_req one_write" "zruns any_req two_writes" "zruns clean one_write" "zruns clean two_writes"
  unfolding two_writes_def one_write_def by (intro after_runs booted_runs clean_writes TrueI)+

lemma queue_length:
  assumes "queue_ok q st zl"
  shows "length q = length (filter (\<lambda>z. zs z = st) zl)"
  using assms distinct_card [of q] by (simp add: queue_ok_def length_filter_conv_card)

lemma counts_are_lengths:
  assumes "queues_ok n"
  shows "open_count n = length (exp_open_zones n) + length (imp_open_zones n)"
    "active_count n = length (exp_open_zones n) + length (imp_open_zones n) + length (closed_zones n)"
proof -
  have "length (filter is_open zl) = length (filter (\<lambda>z. zs z = NVME_ZONE_STATE_EXPLICITLY_OPEN) zl) + length (filter (\<lambda>z. zs z = NVME_ZONE_STATE_IMPLICITLY_OPEN) zl)"
    "length (filter is_active zl) = length (filter is_open zl) + length (filter (\<lambda>z. zs z = NVME_ZONE_STATE_CLOSED) zl)" for zl
    by (induction zl) (auto simp: is_open_def is_active_def)
  then show "open_count n = length (exp_open_zones n) + length (imp_open_zones n)"
    "active_count n = length (exp_open_zones n) + length (imp_open_zones n) + length (closed_zones n)"
    using queues_okD(1-3) [OF assms] by (simp_all add: open_count_def active_count_def queue_length)
qed





lemma written_ptrs: "w_ptr (written nlb (advanced nlb z)) = w_ptr z + ucast nlb" "wp (written nlb (advanced nlb z)) = wp z + ucast nlb"
  by (simp_all add: written_def advanced_def Let_def)

text \<open>C12. A write that succeeds goes to the write pointer of its zone and nowhere else: it starts at the pointer, ends within the capacity of the
  zone, the back end writes at exactly that offset, the completion reports that address, the pointers of the zone advance by the length, and no other
  zone's pointers change.\<close>

theorem write_goes_to_pointer:
  assumes "zruns any_req n" "zns_write n req = Some (NVME_SUCCESS, out, n')"
  shows "\<exists>i < length (zone_array n). let z = zone_array n ! i; z' = zone_array n' ! i; slba = slba_of (cmd req); nlb = nlb_of (cmd req) in
    slba = w_ptr z \<and> i * unat (zone_size n) \<le> unat slba \<and> unat slba + unat nlb \<le> i * unat (zone_size n) + unat (zone_capacity n) \<and>
    out = [Res_slba slba, Backend_rw True (zns_l2b n slba)] \<and> w_ptr z' = slba + ucast nlb \<and> wp z' = wp z + ucast nlb \<and>
    (\<forall>j < length (zone_array n). j \<noteq> i \<longrightarrow> w_ptr (zone_array n' ! j) = w_ptr (zone_array n ! j) \<and> wp (zone_array n' ! j) = wp (zone_array n ! j))"
proof -
  let ?slba = "slba_of (cmd req)" and ?nlb = "nlb_of (cmd req)"
  have z: "zinv n" using runs_inv [OF assms(1)] .
  obtain i where i: "i < length (zone_array n)" "zns_get_zone_by_slba n ?slba = Some i" "write_done n req False True i out n'"
    "unat ?slba + unat ?nlb \<le> unat (zns_zone_wr_boundary (zone_array n ! i))"
    using write_cmd_ok [OF z, of req] assms(2) by (auto simp: NVME_SUCCESS_def)
  note d = i(3) [unfolded write_done_def Let_def]
  obtain m where m: "keeps n m" "others i n m" "zone_array n' = (zone_array m)[i := written ?nlb (advanced ?nlb (zone_array n ! i))]" using d by blast
  have l: "length (zone_array m) = length (zone_array n)" using keeps_len [OF z m(1)] .
  have "0 < unat ?nlb" using nlb_pos(1) [of "cmd req"] by (simp add: word_less_nat_alt)
  then have "?slba < nsze n \<or> \<not> ?slba < nsze n \<and> unat (nsze n) < unat ?slba + unat ?nlb" by (auto simp: word_less_nat_alt)
  moreover have "unat (zns_zone_wr_boundary (zone_array n ! i)) \<le> unat (nsze n)"
  proof -
    have "unat (zns_zone_wr_boundary (zone_array n ! i)) \<le> Suc i * unat (zone_size n)"
      using unat_boundary(1) [OF zinv_sel(2) [OF z] i(1)] z by (simp add: zinv_def geo_def word_le_nat_alt)
    also have "\<dots> \<le> unat (nsze n)" unfolding unat_nsze [OF zinv_sel(2) [OF z]] using i(1) z by (intro mult_le_mono1) (simp add: zinv_def geo_def)
    finally show ?thesis .
  qed
  ultimately have s: "?slba < nsze n" using i(4) by linarith
  have "i = unat ?slba div unat (zone_size n)" using zone_by_slba [OF zinv_sel(2) [OF z] s] i(2) by auto
  then have "i * unat (zone_size n) \<le> unat ?slba" by simp
  moreover have "w_ptr (zone_array n' ! j) = w_ptr (zone_array n ! j) \<and> wp (zone_array n' ! j) = wp (zone_array n ! j)"
    if j: "j < length (zone_array n)" "j \<noteq> i" for j
  proof -
    obtain st where "zone_array m ! j = (zone_array n ! j)\<lparr>zs := st\<rparr>" using m(2) j by (auto simp: others_def)
    then show ?thesis using j(2) by (simp add: m(3))
  qed
  ultimately show ?thesis using i(1,4) d unat_boundary(1) [OF zinv_sel(2) [OF z] i(1)] l written_ptrs
    by (intro exI [of _ i]) (simp add: Let_def m(3))
qed

theorem write_goes_to_pointer_witness:
  "zns_write one_write (rw_req NVME_CMD_WRITE 3 1) = Some (NVME_SUCCESS, [Res_slba 3, Backend_rw True 12288], after_cmd one_write (rw_req NVME_CMD_WRITE 3 1)) \<and>
   (\<exists>i < length (zone_array one_write). w_ptr (zone_array one_write ! i) = 3)"
proof -
  have w: "zns_write one_write (rw_req NVME_CMD_WRITE 3 1) = Some (NVME_SUCCESS, [Res_slba 3, Backend_rw True 12288], after_cmd one_write (rw_req NVME_CMD_WRITE 3 1))"
    "slba_of (cmd (rw_req NVME_CMD_WRITE 3 1)) = 3" by code_simp+
  then show ?thesis using write_goes_to_pointer [OF writes_run(1) w(1)] by (auto simp: Let_def)
qed

text \<open>C25. As long as every data transfer succeeds and every append fits behind the write pointer, the two pointers of a zone agree, lie in the zone, and
  the state says where they are: an empty zone is at its start, a full zone at its capacity, an open or closed zone below its capacity.\<close>

theorem clean_pointers:
  assumes "zruns clean n" "i < length (zone_array n)"
  shows "let z = zone_array n ! i in w_ptr z = wp z \<and> unat (zslba z) = i * unat (zone_size n) \<and> zslba z \<le> wp z \<and>
    unat (wp z) \<le> i * unat (zone_size n) + unat (zone_capacity n) \<and>
    (zs z = NVME_ZONE_STATE_EMPTY \<longrightarrow> wp z = zslba z) \<and>
    (zs z = NVME_ZONE_STATE_FULL \<longrightarrow> unat (wp z) = i * unat (zone_size n) + unat (zone_capacity n)) \<and>
    (zs z \<in> {NVME_ZONE_STATE_IMPLICITLY_OPEN, NVME_ZONE_STATE_EXPLICITLY_OPEN, NVME_ZONE_STATE_CLOSED} \<longrightarrow>
      unat (wp z) < i * unat (zone_size n) + unat (zone_capacity n))"
proof -
  have g: "geo n" using runs_inv [OF assms(1)] by (rule zinv_sel(2))
  then have s: "unat (zslba (zone_array n ! i)) = i * unat (zone_size n)" using assms(2) by (simp add: geo_def)
  have "ptr_ok (zone_array n ! i)" using runs_pinv [OF assms(1)] assms(2) by (simp add: pinv_def)
  then show ?thesis using s unfolding Let_def unat_boundary(1) [OF g assms(2), symmetric]
    by (auto simp: ptr_ok_def is_active_def is_open_def word_le_nat_alt word_less_nat_alt)
qed

theorem clean_pointers_witness: "zruns clean two_writes \<and> w_ptr (zone_array two_writes ! 0) = wp (zone_array two_writes ! 0)"
proof -
  have "0 < length (zone_array two_writes)" by code_simp
  then show ?thesis using writes_run(4) clean_pointers [OF writes_run(4), of 0] by (simp add: Let_def)
qed


text \<open>A transfer that fails after the pointer has moved strands the zone: a write of the whole zone whose data cannot be mapped leaves the zone empty with
  the write pointer at its end; the reset of an empty zone does nothing, and the next write of the zone is refused.\<close>

definition unmapped :: NvmeRequest where
  "unmapped = (rw_req NVME_CMD_WRITE 0 4)\<lparr>prp_status := NVME_INVALID_FIELD\<rparr>"

definition reset_req :: NvmeRequest where
  "reset_req = (rw_req NVME_CMD_ZONE_MGMT_SEND 0 1)\<lparr>cmd := (cmd (rw_req NVME_CMD_ZONE_MGMT_SEND 0 1))\<lparr>cdw13 := NVME_ZONE_ACTION_RESET\<rparr>\<rparr>"

lemma failed_write_strands_zone:
  "let n = after_cmd (after_cmd booted unmapped) reset_req in
    zs (zone_array n ! 0) = NVME_ZONE_STATE_EMPTY \<and> w_ptr (zone_array n ! 0) = 4 \<and>
    zns_io_cmd n (rw_req NVME_CMD_WRITE 0 1) = Some (error NVME_ZONE_INVALID_WRITE, [], n)"
  by code_simp

text \<open>A name space with a rest behind its last zone: a report from the start counts up to the size of the name space and reads behind the array.\<close>

definition rest_conf :: FemuCtrl where
  "rest_conf = conf\<lparr>ns_size := 40960\<rparr>"

lemma report_reads_past_zones:
  "case zns_init_zone_geometry rest_conf of Some (ok, m) \<Rightarrow> ok \<and> num_zones m = 2 \<and>
     zns_zone_mgmt_recv (zns_init_zone_identify m) (rw_req NVME_CMD_ZONE_MGMT_RECV 0 64) = None
   | None \<Rightarrow> False"
  by code_simp

end
