(* ===== verification/Nand.thy ===== *)
theory Nand
  imports Nvme
begin

text \<open>
  The flash chips of the emulated SSD: the page types and latencies of \<open>femu/nand/nand.c\<close> and \<open>nand.h\<close>, and the
  clock of the chips of \<open>femu/timing-model/timing.c\<close>.
\<close>

section \<open>Latencies\<close>

definition SLC_PAGE_READ_LATENCY_NS :: int where "SLC_PAGE_READ_LATENCY_NS = 40000"
definition SLC_PAGE_WRITE_LATENCY_NS :: int where "SLC_PAGE_WRITE_LATENCY_NS = 800000"
definition SLC_BLOCK_ERASE_LATENCY_NS :: int where "SLC_BLOCK_ERASE_LATENCY_NS = 2000000"
definition MLC_LOWER_PAGE_READ_LATENCY_NS :: int where "MLC_LOWER_PAGE_READ_LATENCY_NS = 48000"
definition MLC_UPPER_PAGE_READ_LATENCY_NS :: int where "MLC_UPPER_PAGE_READ_LATENCY_NS = 64000"
definition MLC_LOWER_PAGE_WRITE_LATENCY_NS :: int where "MLC_LOWER_PAGE_WRITE_LATENCY_NS = 850000"
definition MLC_UPPER_PAGE_WRITE_LATENCY_NS :: int where "MLC_UPPER_PAGE_WRITE_LATENCY_NS = 2300000"
definition MLC_BLOCK_ERASE_LATENCY_NS :: int where "MLC_BLOCK_ERASE_LATENCY_NS = 3000000"
definition TLC_LOWER_PAGE_READ_LATENCY_NS :: int where "TLC_LOWER_PAGE_READ_LATENCY_NS = 56500"
definition TLC_CENTER_PAGE_READ_LATENCY_NS :: int where "TLC_CENTER_PAGE_READ_LATENCY_NS = 77500"
definition TLC_UPPER_PAGE_READ_LATENCY_NS :: int where "TLC_UPPER_PAGE_READ_LATENCY_NS = 106000"
definition TLC_LOWER_PAGE_WRITE_LATENCY_NS :: int where "TLC_LOWER_PAGE_WRITE_LATENCY_NS = 820500"
definition TLC_CENTER_PAGE_WRITE_LATENCY_NS :: int where "TLC_CENTER_PAGE_WRITE_LATENCY_NS = 2225000"
definition TLC_UPPER_PAGE_WRITE_LATENCY_NS :: int where "TLC_UPPER_PAGE_WRITE_LATENCY_NS = 5734000"
definition TLC_BLOCK_ERASE_LATENCY_NS :: int where "TLC_BLOCK_ERASE_LATENCY_NS = 3000000"

text \<open>The products with a decimal factor; each is a whole number.\<close>

definition QLC_LOWER_PAGE_READ_LATENCY_NS :: int where
  "QLC_LOWER_PAGE_READ_LATENCY_NS = TLC_LOWER_PAGE_READ_LATENCY_NS * 105 div 100"
definition QLC_CENTER_LOWER_PAGE_READ_LATENCY_NS :: int where
  "QLC_CENTER_LOWER_PAGE_READ_LATENCY_NS = TLC_CENTER_PAGE_READ_LATENCY_NS * 11 div 10"
definition QLC_CENTER_UPPER_PAGE_READ_LATENCY_NS :: int where
  "QLC_CENTER_UPPER_PAGE_READ_LATENCY_NS = TLC_UPPER_PAGE_READ_LATENCY_NS * 12 div 10"
definition QLC_UPPER_PAGE_READ_LATENCY_NS :: int where
  "QLC_UPPER_PAGE_READ_LATENCY_NS = TLC_UPPER_PAGE_READ_LATENCY_NS * 16 div 10"
definition QLC_LOWER_PAGE_WRITE_LATENCY_NS :: int where
  "QLC_LOWER_PAGE_WRITE_LATENCY_NS = TLC_LOWER_PAGE_WRITE_LATENCY_NS * 105 div 100"
definition QLC_CENTER_LOWER_PAGE_WRITE_LATENCY_NS :: int where
  "QLC_CENTER_LOWER_PAGE_WRITE_LATENCY_NS = TLC_CENTER_PAGE_WRITE_LATENCY_NS * 11 div 10"
definition QLC_CENTER_UPPER_PAGE_WRITE_LATENCY_NS :: int where
  "QLC_CENTER_UPPER_PAGE_WRITE_LATENCY_NS = TLC_UPPER_PAGE_WRITE_LATENCY_NS * 12 div 10"
definition QLC_UPPER_PAGE_WRITE_LATENCY_NS :: int where
  "QLC_UPPER_PAGE_WRITE_LATENCY_NS = TLC_UPPER_PAGE_WRITE_LATENCY_NS * 16 div 10"
definition QLC_BLOCK_ERASE_LATENCY_NS :: int where "QLC_BLOCK_ERASE_LATENCY_NS = 3000000"

definition MAX_SUPPORTED_PAGES_PER_BLOCK :: nat where "MAX_SUPPORTED_PAGES_PER_BLOCK = 512"

definition SLC :: nat where "SLC = 1"
definition MLC :: nat where "MLC = 2"
definition TLC :: nat where "TLC = 3"
definition QLC :: nat where "QLC = 4"
definition MAX_FLASH_TYPE :: nat where "MAX_FLASH_TYPE = 6"

text \<open>The rows of the table of latencies; the entries that are not given are zero.\<close>

record NandFlashTiming =
  pg_rd_lat :: "int list list"
  pg_wr_lat :: "int list list"
  blk_er_lat :: "int list"

definition lat_row :: "int list \<Rightarrow> int list" where
  "lat_row xs = take MAX_FLASH_TYPE (xs @ replicate MAX_FLASH_TYPE 0)"

definition init_nand_flash_timing :: NandFlashTiming where
  "init_nand_flash_timing = \<lparr>
    pg_rd_lat = [lat_row [], lat_row [SLC_PAGE_READ_LATENCY_NS],
      lat_row [MLC_LOWER_PAGE_READ_LATENCY_NS, MLC_UPPER_PAGE_READ_LATENCY_NS],
      lat_row [TLC_LOWER_PAGE_READ_LATENCY_NS, TLC_CENTER_PAGE_READ_LATENCY_NS, TLC_UPPER_PAGE_READ_LATENCY_NS],
      lat_row [QLC_LOWER_PAGE_READ_LATENCY_NS, QLC_CENTER_LOWER_PAGE_READ_LATENCY_NS, QLC_CENTER_UPPER_PAGE_READ_LATENCY_NS,
        QLC_UPPER_PAGE_READ_LATENCY_NS], lat_row []],
    pg_wr_lat = [lat_row [], lat_row [SLC_PAGE_WRITE_LATENCY_NS],
      lat_row [MLC_LOWER_PAGE_WRITE_LATENCY_NS, MLC_UPPER_PAGE_WRITE_LATENCY_NS],
      lat_row [TLC_LOWER_PAGE_WRITE_LATENCY_NS, TLC_CENTER_PAGE_WRITE_LATENCY_NS, TLC_UPPER_PAGE_WRITE_LATENCY_NS],
      lat_row [QLC_LOWER_PAGE_WRITE_LATENCY_NS, QLC_CENTER_LOWER_PAGE_WRITE_LATENCY_NS, QLC_CENTER_UPPER_PAGE_WRITE_LATENCY_NS,
        QLC_UPPER_PAGE_WRITE_LATENCY_NS], lat_row []],
    blk_er_lat = lat_row [0, SLC_BLOCK_ERASE_LATENCY_NS, MLC_BLOCK_ERASE_LATENCY_NS, TLC_BLOCK_ERASE_LATENCY_NS, QLC_BLOCK_ERASE_LATENCY_NS]\<rparr>"

text \<open>The table before its initialisation: static storage is zero.  The latencies of the channel, which nothing reads, are left out.\<close>

definition nand_flash_timing :: NandFlashTiming where
  "nand_flash_timing = \<lparr>pg_rd_lat = replicate MAX_FLASH_TYPE (lat_row []), pg_wr_lat = replicate MAX_FLASH_TYPE (lat_row []), blk_er_lat = lat_row []\<rparr>"

lemmas latency_defs = SLC_PAGE_READ_LATENCY_NS_def SLC_PAGE_WRITE_LATENCY_NS_def SLC_BLOCK_ERASE_LATENCY_NS_def
  MLC_LOWER_PAGE_READ_LATENCY_NS_def MLC_UPPER_PAGE_READ_LATENCY_NS_def MLC_LOWER_PAGE_WRITE_LATENCY_NS_def
  MLC_UPPER_PAGE_WRITE_LATENCY_NS_def MLC_BLOCK_ERASE_LATENCY_NS_def TLC_LOWER_PAGE_READ_LATENCY_NS_def
  TLC_CENTER_PAGE_READ_LATENCY_NS_def TLC_UPPER_PAGE_READ_LATENCY_NS_def TLC_LOWER_PAGE_WRITE_LATENCY_NS_def
  TLC_CENTER_PAGE_WRITE_LATENCY_NS_def TLC_UPPER_PAGE_WRITE_LATENCY_NS_def TLC_BLOCK_ERASE_LATENCY_NS_def
  QLC_LOWER_PAGE_READ_LATENCY_NS_def QLC_CENTER_LOWER_PAGE_READ_LATENCY_NS_def QLC_CENTER_UPPER_PAGE_READ_LATENCY_NS_def
  QLC_UPPER_PAGE_READ_LATENCY_NS_def QLC_LOWER_PAGE_WRITE_LATENCY_NS_def QLC_CENTER_LOWER_PAGE_WRITE_LATENCY_NS_def
  QLC_CENTER_UPPER_PAGE_WRITE_LATENCY_NS_def QLC_UPPER_PAGE_WRITE_LATENCY_NS_def QLC_BLOCK_ERASE_LATENCY_NS_def

lemmas flash_defs = SLC_def MLC_def TLC_def QLC_def MAX_FLASH_TYPE_def

definition get_page_read_latency :: "NandFlashTiming \<Rightarrow> nat \<Rightarrow> nat \<Rightarrow> int option" where
  "get_page_read_latency tm flash_type page_type = do { r \<leftarrow> aget (pg_rd_lat tm) flash_type; aget r page_type }"

definition get_page_write_latency :: "NandFlashTiming \<Rightarrow> nat \<Rightarrow> nat \<Rightarrow> int option" where
  "get_page_write_latency tm flash_type page_type = do { r \<leftarrow> aget (pg_wr_lat tm) flash_type; aget r page_type }"

definition get_blk_erase_latency :: "NandFlashTiming \<Rightarrow> nat \<Rightarrow> int option" where
  "get_blk_erase_latency tm flash_type = aget (blk_er_lat tm) flash_type"

section \<open>Page types\<close>

record page_tables =
  slc_tbl :: "nat list"
  mlc_tbl :: "nat list"
  tlc_tbl :: "nat list"
  qlc_tbl :: "nat list"

fun set_pages :: "nat list \<Rightarrow> nat \<Rightarrow> nat list \<Rightarrow> nat list option" where
  "set_pages [] v t = Some t"
| "set_pages (p # ps) v t = do { t' \<leftarrow> aset t p v; set_pages ps v t' }"

function mlc_loop :: "nat \<Rightarrow> nat \<Rightarrow> nat list \<Rightarrow> nat list option" where
  "mlc_loop i lpflag t = (if i \<le> MAX_SUPPORTED_PAGES_PER_BLOCK - 12 then do {
      t1 \<leftarrow> aset t (i + 1) lpflag;
      t2 \<leftarrow> aset t1 i lpflag;
      mlc_loop (i + 2) (if lpflag = 0 then 1 else 0) t2
    } else Some t)"
  by pat_completeness auto
termination
  by (relation "measure (\<lambda>(i, lpflag, t). Suc MAX_SUPPORTED_PAGES_PER_BLOCK - i)") (auto simp: MAX_SUPPORTED_PAGES_PER_BLOCK_def)

declare mlc_loop.simps [simp del]

definition init_mlc_page_pairing :: "page_tables \<Rightarrow> page_tables option" where
  "init_mlc_page_pairing s = do {
    t1 \<leftarrow> set_pages [0, 1, 2, 3, 4, 5, 7, 8, 502, 503, 506, 507, 509, 510] 0 (mlc_tbl s);
    t2 \<leftarrow> set_pages [6, 9, 504, 505, 508, 511] 1 t1;
    t3 \<leftarrow> mlc_loop 10 0 t2;
    Some (s\<lparr>mlc_tbl := t3\<rparr>)
  }"

text \<open>The loop over the pairs of a row, and over the rows, which the functions for TLC and QLC share; \<open>lastp\<close> is the last page type.\<close>

function row_loop :: "nat \<Rightarrow> nat \<Rightarrow> nat \<Rightarrow> nat \<Rightarrow> nat \<Rightarrow> nat list \<Rightarrow> (nat \<times> nat list) option" where
  "row_loop page_per_row lastp base j lpflag t = (if j < page_per_row then do {
      t1 \<leftarrow> aset t (base + j + 1) lpflag;
      t2 \<leftarrow> aset t1 (base + j) lpflag;
      row_loop page_per_row lastp base (j + 2) (if lpflag = lastp then 0 else lpflag + 1) t2
    } else Some (lpflag, t))"
  by pat_completeness auto
termination
  by (relation "measure (\<lambda>(ppr, lastp, base, j, lpflag, t). ppr - j)") auto

declare row_loop.simps [simp del]

fun rows_loop :: "nat \<Rightarrow> nat \<Rightarrow> nat list \<Rightarrow> nat \<Rightarrow> nat list \<Rightarrow> nat list option" where
  "rows_loop page_per_row lastp [] lpflag t = Some t"
| "rows_loop page_per_row lastp (i # is) lpflag t = do {
    (lpflag', t') \<leftarrow> row_loop page_per_row lastp (8 + i * page_per_row) 0 lpflag t;
    rows_loop page_per_row lastp is lpflag' t'
  }"

definition init_tlc_page_pairing :: "page_tables \<Rightarrow> page_tables option" where
  "init_tlc_page_pairing s = do {
    let rows = (MAX_SUPPORTED_PAGES_PER_BLOCK + 5) div 6;
    t1 \<leftarrow> set_pages [0, 1, 2, 3, 4, 5] 0 (tlc_tbl s);
    t2 \<leftarrow> set_pages [6, 7] 1 t1;
    t3 \<leftarrow> rows_loop 6 2 [0..<rows - 2] 0 t2;
    Some (s\<lparr>tlc_tbl := t3\<rparr>)
  }"

text \<open>The rows of a QLC block are entered into the table for TLC.\<close>

definition init_qlc_page_pairing :: "page_tables \<Rightarrow> page_tables option" where
  "init_qlc_page_pairing s = do {
    let rows = (MAX_SUPPORTED_PAGES_PER_BLOCK + 7) div 8;
    t1 \<leftarrow> set_pages [0, 1, 2, 3, 4, 5, 8, 9] 0 (qlc_tbl s);
    t2 \<leftarrow> set_pages [6, 7, 10, 11] 1 t1;
    t3 \<leftarrow> set_pages [12, 13] 2 t2;
    t4 \<leftarrow> rows_loop 8 3 [0..<rows - 3] 0 (tlc_tbl s);
    Some (s\<lparr>qlc_tbl := t3, tlc_tbl := t4\<rparr>)
  }"

definition init_nand_flash :: "page_tables option" where
  "init_nand_flash = do {
    let t = replicate MAX_SUPPORTED_PAGES_PER_BLOCK 0;
    s1 \<leftarrow> init_mlc_page_pairing \<lparr>slc_tbl = t, mlc_tbl = t, tlc_tbl = t, qlc_tbl = t\<rparr>;
    s2 \<leftarrow> init_tlc_page_pairing s1;
    init_qlc_page_pairing s2
  }"

definition get_page_type :: "page_tables \<Rightarrow> nat \<Rightarrow> nat \<Rightarrow> nat option" where
  "get_page_type s flash_type pg =
    (if flash_type = SLC then aget (slc_tbl s) pg
     else if flash_type = MLC then aget (mlc_tbl s) pg
     else if flash_type = TLC then aget (tlc_tbl s) pg
     else if flash_type = QLC then aget (qlc_tbl s) pg
     else None)"

section \<open>The clock of a chip\<close>

definition NVME_CMD_OC_ERASE :: u8 where "NVME_CMD_OC_ERASE = 0x90"
definition NVME_CMD_OC_WRITE :: u8 where "NVME_CMD_OC_WRITE = 0x91"
definition NVME_CMD_OC_READ :: u8 where "NVME_CMD_OC_READ = 0x92"

lemmas oc_cmd_defs = NVME_CMD_OC_ERASE_def NVME_CMD_OC_WRITE_def NVME_CMD_OC_READ_def

definition FEMU_MAX_NUM_CHIPS :: nat where "FEMU_MAX_NUM_CHIPS = 128"

text \<open>The state is the array \<open>chip_next_avail_time\<close>.  The times are nanoseconds on the clock of the host, neither negative nor near \<open>2 ^ 63\<close>, so the mixed comparison is the one of integers.\<close>

definition chip_latency :: "NandFlashTiming \<Rightarrow> nat \<Rightarrow> u8 \<Rightarrow> nat \<Rightarrow> int option" where
  "chip_latency tm flash_type op page_type =
    (if op = NVME_CMD_OC_READ then get_page_read_latency tm flash_type page_type
     else if op = NVME_CMD_OC_WRITE then get_page_write_latency tm flash_type page_type
     else if op = NVME_CMD_OC_ERASE then get_blk_erase_latency tm flash_type
     else None)"

definition advance_chip_timestamp :: "NandFlashTiming \<Rightarrow> nat \<Rightarrow> int list \<Rightarrow> int \<Rightarrow> int \<Rightarrow> u8 \<Rightarrow> nat \<Rightarrow> (int \<times> int list) option" where
  "advance_chip_timestamp tm flash_type chips lunid now op page_type = do {
    lat \<leftarrow> chip_latency tm flash_type op page_type;
    ensure (0 \<le> lunid);
    t \<leftarrow> aget chips (nat lunid);
    let t' = (if now < t then t + lat else now + lat);
    chips' \<leftarrow> aset chips (nat lunid) t';
    Some (t', chips')
  }"

text \<open>The time of a channel is not emulated: the function returns its argument.\<close>

definition advance_channel_timestamp :: "int \<Rightarrow> int \<Rightarrow> u8 \<Rightarrow> int" where
  "advance_channel_timestamp ch now op = now"

section \<open>What the tables hold\<close>

lemma set_pages_ok:
  "\<forall>p \<in> set ps. p < length t \<Longrightarrow> \<exists>t'. set_pages ps v t = Some t' \<and> length t' = length t \<and>
    (\<forall>p < length t. t' ! p = (if p \<in> set ps then v else t ! p))"
proof (induction ps arbitrary: t)
  case (Cons q ps)
  obtain t' where "set_pages ps v (t[q := v]) = Some t'" "length t' = length t"
    "\<forall>p < length t. t' ! p = (if p \<in> set ps then v else t[q := v] ! p)" using Cons.IH [of "t[q := v]"] Cons.prems by auto
  then show ?case using Cons.prems by (auto simp: nth_list_update)
qed simp

declare set_pages.simps [simp del]

lemma mlc_loop_ok:
  "i \<le> 502 \<Longrightarrow> even i \<Longrightarrow> length t = 512 \<Longrightarrow> lp \<le> 1 \<Longrightarrow> \<exists>t'. mlc_loop i lp t = Some t' \<and> length t' = 512 \<and>
    (\<forall>p < 512. t' ! p = (if i \<le> p \<and> p < 502 then ((p - i) div 2 + lp) mod 2 else t ! p))"
proof (induction "502 - i" arbitrary: i lp t rule: less_induct)
  case less
  show ?case
  proof (cases "i = 502")
    case True
    then show ?thesis using less.prems by (subst mlc_loop.simps) (simp add: MAX_SUPPORTED_PAGES_PER_BLOCK_def)
  next
    case False
    then have i: "i + 2 \<le> 502" using less.prems(1,2) by presburger
    let ?t = "t[i + 1 := lp, i := lp]"
    obtain t' where t': "mlc_loop (i + 2) (1 - lp) ?t = Some t'" "length t' = 512"
      "\<forall>p < 512. t' ! p = (if i + 2 \<le> p \<and> p < 502 then ((p - (i + 2)) div 2 + (1 - lp)) mod 2 else ?t ! p)"
    proof -
      have "502 - (i + 2) < 502 - i" using i by linarith
      then show thesis using less.hyps [of "i + 2" ?t "1 - lp"] i less.prems that by auto
    qed
    have "(if lp = 0 then 1 else 0) = 1 - lp" using less.prems(4) by simp
    then have "mlc_loop i lp t = Some t'"
      using t'(1) i less.prems(3) by (subst mlc_loop.simps) (simp add: MAX_SUPPORTED_PAGES_PER_BLOCK_def)
    moreover have "t' ! p = (if i \<le> p \<and> p < 502 then ((p - i) div 2 + lp) mod 2 else t ! p)" if p: "p < 512" for p
    proof (cases "i + 2 \<le> p")
      case True
      then obtain d where d: "p = i + 2 + d" using le_Suc_ex by blast
      have "(d div 2 + (1 - lp)) mod 2 = (Suc (d div 2) + lp) mod 2"
        using less.prems(4) by (cases lp) (auto simp: mod_Suc)
      then show ?thesis using t'(3) p d less.prems(3) by (simp add: nth_list_update)
    next
      case False
      then have "p < i \<or> p = i \<or> p = i + 1" by linarith
      then show ?thesis using t'(3) p i less.prems(3,4) by (auto simp: nth_list_update)
    qed
    ultimately show ?thesis using t'(2) by blast
  qed
qed

lemma row_loop_ok:
  "lp \<le> L \<Longrightarrow> b + 2 * (L + 1) \<le> length t \<Longrightarrow> \<exists>t'. row_loop (2 * (L + 1)) L b (2 * lp) lp t = Some (0, t') \<and> length t' = length t \<and>
    (\<forall>p < length t. t' ! p = (if b + 2 * lp \<le> p \<and> p < b + 2 * (L + 1) then (p - b) div 2 else t ! p))"
proof (induction "L - lp" arbitrary: lp t rule: less_induct)
  case less
  let ?t = "t[b + 2 * lp + 1 := lp, b + 2 * lp := lp]"
  have step: "row_loop (2 * (L + 1)) L b (2 * lp) lp t = row_loop (2 * (L + 1)) L b (2 * lp + 2) (if lp = L then 0 else lp + 1) ?t"
    using less.prems by (subst row_loop.simps) simp
  have old: "?t ! p = (if b + 2 * lp \<le> p \<and> p < b + 2 * lp + 2 then (p - b) div 2 else t ! p)" if "p < length t" for p
  proof -
    have "p < b + 2 * lp \<or> p = b + 2 * lp \<or> p = b + 2 * lp + 1 \<or> b + 2 * lp + 2 \<le> p" by linarith
    then show ?thesis using that less.prems by (auto simp: nth_list_update)
  qed
  show ?case
  proof (cases "lp = L")
    case True
    have "row_loop (2 * (L + 1)) L b (2 * lp + 2) 0 ?t = Some (0, ?t)" using True by (subst row_loop.simps) simp
    then show ?thesis using step old True by simp
  next
    case False
    obtain t' where t': "row_loop (2 * (L + 1)) L b (2 * (lp + 1)) (lp + 1) ?t = Some (0, t')" "length t' = length t"
      "\<forall>p < length t. t' ! p = (if b + 2 * (lp + 1) \<le> p \<and> p < b + 2 * (L + 1) then (p - b) div 2 else ?t ! p)"
    proof -
      have "L - (lp + 1) < L - lp" using less.prems(1) False by linarith
      then show thesis using less.hyps [of "lp + 1" ?t] less.prems False that by auto
    qed
    have "row_loop (2 * (L + 1)) L b (2 * lp) lp t = Some (0, t')" using step t'(1) False by simp
    moreover have "t' ! p = (if b + 2 * lp \<le> p \<and> p < b + 2 * (L + 1) then (p - b) div 2 else t ! p)" if p: "p < length t" for p
      using t'(3) p old [OF p] less.prems(1) by auto
    ultimately show ?thesis using t'(2) by blast
  qed
qed

lemma rows_loop_ok:
  assumes "R = 2 * (L + 1)"
  shows "i \<le> m \<Longrightarrow> 8 + m * R \<le> length t \<Longrightarrow> \<exists>t'. rows_loop R L [i..<m] 0 t = Some t' \<and> length t' = length t \<and>
    (\<forall>p < length t. t' ! p = (if 8 + i * R \<le> p \<and> p < 8 + m * R then (p - 8) mod R div 2 else t ! p))"
proof (induction "m - i" arbitrary: i t)
  case (Suc k)
  have "Suc i * R \<le> m * R" using Suc.hyps(2) by (intro mult_le_mono1) linarith
  then have fit: "8 + i * R + 2 * (L + 1) \<le> length t" using Suc.prems(2) assms by simp
  obtain t1 where t1: "row_loop R L (8 + i * R) 0 0 t = Some (0, t1)" "length t1 = length t"
    "\<forall>p < length t. t1 ! p = (if 8 + i * R \<le> p \<and> p < 8 + i * R + R then (p - (8 + i * R)) div 2 else t ! p)"
    using row_loop_ok [of 0 L "8 + i * R" t] fit unfolding assms by auto
  obtain t' where t': "rows_loop R L [Suc i..<m] 0 t1 = Some t'" "length t' = length t"
    "\<forall>p < length t. t' ! p = (if 8 + Suc i * R \<le> p \<and> p < 8 + m * R then (p - 8) mod R div 2 else t1 ! p)"
  proof -
    have "k = m - Suc i" "Suc i \<le> m" using Suc.hyps(2) by linarith+
    then show thesis using Suc.hyps(1) [of "Suc i" t1] Suc.prems t1(2) that by auto
  qed
  have "rows_loop R L [i..<m] 0 t = Some t'" using t1(1) t'(1) Suc.hyps(2) by (simp add: upt_conv_Cons)
  moreover have "t' ! p = (if 8 + i * R \<le> p \<and> p < 8 + m * R then (p - 8) mod R div 2 else t ! p)" if p: "p < length t" for p
  proof (cases "8 + i * R \<le> p \<and> p < 8 + i * R + R")
    case True
    then obtain d where d: "p = 8 + i * R + d" "d < R" using le_Suc_ex [of "8 + i * R" p] by auto
    then have "(p - 8) mod R = d" by simp
    then show ?thesis using t'(3) t1(3) p d \<open>Suc i * R \<le> m * R\<close> by simp
  next
    case False
    then show ?thesis using t'(3) t1(3) p by auto
  qed
  ultimately show ?case using t'(2) by blast
qed simp

lemma mlc_pairing:
  assumes "length (mlc_tbl s) = 512"
  shows "\<exists>t. init_mlc_page_pairing s = Some (s\<lparr>mlc_tbl := t\<rparr>) \<and> length t = 512 \<and>
    (\<forall>p < 512. t ! p = (if p \<in> {6, 9, 504, 505, 508, 511} then 1 else if p < 10 \<or> 502 \<le> p then 0 else (p - 10) div 2 mod 2))"
proof -
  let ?low = "[0, 1, 2, 3, 4, 5, 7, 8, 502, 503, 506, 507, 509, 510] :: nat list" and ?up = "[6, 9, 504, 505, 508, 511] :: nat list"
  obtain t1 where t1: "set_pages ?low 0 (mlc_tbl s) = Some t1" "length t1 = 512" "\<forall>p < 512. t1 ! p = (if p \<in> set ?low then 0 else mlc_tbl s ! p)"
    using set_pages_ok [of ?low "mlc_tbl s" 0] assms by auto
  obtain t2 where t2: "set_pages ?up 1 t1 = Some t2" "length t2 = 512" "\<forall>p < 512. t2 ! p = (if p \<in> set ?up then 1 else t1 ! p)"
    using set_pages_ok [of ?up t1 1] t1(2) by auto
  obtain t3 where t3: "mlc_loop 10 0 t2 = Some t3" "length t3 = 512"
    "\<forall>p < 512. t3 ! p = (if 10 \<le> p \<and> p < 502 then (p - 10) div 2 mod 2 else t2 ! p)" using mlc_loop_ok [of 10 t2 0] t2(2) by auto
  have "t3 ! p = (if p \<in> {6, 9, 504, 505, 508, 511} then 1 else if p < 10 \<or> 502 \<le> p then 0 else (p - 10) div 2 mod 2)" if p: "p < 512" for p
  proof -
    have "10 \<le> p \<and> p < 502 \<or> p \<in> set [0..<10] \<or> p \<in> set [502..<512]" using p unfolding set_upt atLeastLessThan_iff by linarith
    then have "p \<in> set ?low \<or> p \<in> set ?up \<or> 10 \<le> p \<and> p < 502" by (simp add: upt_rec_numeral, fastforce)
    then show ?thesis using t1(3) t2(3) t3(3) p by auto
  qed
  then show ?thesis using t1(1) t2(1) t3(1,2) by (auto simp: init_mlc_page_pairing_def)
qed

lemma tlc_pairing:
  assumes "length (tlc_tbl s) = 512"
  shows "\<exists>t. init_tlc_page_pairing s = Some (s\<lparr>tlc_tbl := t\<rparr>) \<and> length t = 512"
proof -
  obtain t1 where t1: "set_pages [0, 1, 2, 3, 4, 5] 0 (tlc_tbl s) = Some t1" "length t1 = 512" using set_pages_ok [of "[0, 1, 2, 3, 4, 5]" "tlc_tbl s" 0] assms by auto
  obtain t2 where t2: "set_pages [6, 7] 1 t1 = Some t2" "length t2 = 512" using set_pages_ok [of "[6, 7]" t1 1] t1(2) by auto
  obtain t3 where "rows_loop 6 2 [0..<84] 0 t2 = Some t3" "length t3 = 512" using rows_loop_ok [of 6 2 0 84 t2] t2(2) by auto
  then show ?thesis using t1(1) t2(1) by (intro exI [of _ t3]) (simp add: init_tlc_page_pairing_def MAX_SUPPORTED_PAGES_PER_BLOCK_def)
qed

lemma qlc_pairing:
  assumes "length (qlc_tbl s) = 512" "length (tlc_tbl s) = 512"
  shows "\<exists>q t. init_qlc_page_pairing s = Some (s\<lparr>qlc_tbl := q, tlc_tbl := t\<rparr>) \<and> length q = 512 \<and> length t = 512 \<and>
    (\<forall>p < 512. 14 \<le> p \<longrightarrow> q ! p = qlc_tbl s ! p) \<and> (\<forall>p < 512. 8 \<le> p \<and> p < 496 \<longrightarrow> t ! p = (p - 8) mod 8 div 2)"
proof -
  let ?a = "[0, 1, 2, 3, 4, 5, 8, 9] :: nat list" and ?b = "[6, 7, 10, 11] :: nat list"
  obtain t1 where t1: "set_pages ?a 0 (qlc_tbl s) = Some t1" "length t1 = 512" "\<forall>p < 512. t1 ! p = (if p \<in> set ?a then 0 else qlc_tbl s ! p)"
    using set_pages_ok [of ?a "qlc_tbl s" 0] assms by auto
  obtain t2 where t2: "set_pages ?b 1 t1 = Some t2" "length t2 = 512" "\<forall>p < 512. t2 ! p = (if p \<in> set ?b then 1 else t1 ! p)"
    using set_pages_ok [of ?b t1 1] t1(2) by auto
  obtain t3 where t3: "set_pages [12, 13] 2 t2 = Some t3" "length t3 = 512" "\<forall>p < 512. t3 ! p = (if p \<in> {12, 13} then 2 else t2 ! p)"
    using set_pages_ok [of "[12, 13]" t2 2] t2(2) by auto
  obtain t4 where t4: "rows_loop 8 3 [0..<61] 0 (tlc_tbl s) = Some t4" "length t4 = 512" "\<forall>p < 512. 8 \<le> p \<and> p < 496 \<longrightarrow> t4 ! p = (p - 8) mod 8 div 2"
    using rows_loop_ok [of 8 3 0 61 "tlc_tbl s"] assms(2) by auto
  have "\<forall>p < 512. 14 \<le> p \<longrightarrow> t3 ! p = qlc_tbl s ! p" using t1(3) t2(3) t3(3) by auto
  moreover have "init_qlc_page_pairing s = Some (s\<lparr>qlc_tbl := t3, tlc_tbl := t4\<rparr>)"
    using t1(1) t2(1) t3(1) t4(1) by (simp add: init_qlc_page_pairing_def MAX_SUPPORTED_PAGES_PER_BLOCK_def)
  ultimately show ?thesis using t3(2) t4(2,3) by blast
qed

text \<open>The page tables after initialisation.  For MLC every page of a block has a type and a positive latency.  For TLC the loop for QLC has
  overwritten the pages 8 to 495: every fourth pair has the type 3, which TLC does not have, so reading or writing it takes no time.  The table for QLC has
  kept its initial zeros from page 14 on.\<close>

theorem page_tables_after_init:
  "\<exists>s. init_nand_flash = Some s \<and>
    (\<forall>p < 512. \<exists>ty rd wr. get_page_type s MLC p = Some ty \<and> get_page_read_latency init_nand_flash_timing MLC ty = Some rd \<and> get_page_write_latency init_nand_flash_timing MLC ty = Some wr \<and> 0 < rd \<and> rd < wr) \<and>
    (\<forall>p. 8 \<le> p \<and> p < 496 \<and> 6 \<le> (p - 8) mod 8 \<longrightarrow> get_page_type s TLC p = Some 3) \<and>
    get_page_read_latency init_nand_flash_timing TLC 3 = Some 0 \<and> get_page_write_latency init_nand_flash_timing TLC 3 = Some 0 \<and>
    (\<forall>p. 14 \<le> p \<and> p < 512 \<longrightarrow> get_page_type s QLC p = Some 0)"
proof -
  define z where "z = (replicate 512 0 :: nat list)"
  have z: "length z = 512" "\<And>p. p < 512 \<Longrightarrow> z ! p = 0" by (simp_all add: z_def)
  let ?s0 = "\<lparr>slc_tbl = z, mlc_tbl = z, tlc_tbl = z, qlc_tbl = z\<rparr>"
  obtain m where m: "init_mlc_page_pairing ?s0 = Some (?s0\<lparr>mlc_tbl := m\<rparr>)" "length m = 512"
    "\<forall>p < 512. m ! p = (if p \<in> {6, 9, 504, 505, 508, 511} then 1 else if p < 10 \<or> 502 \<le> p then 0 else (p - 10) div 2 mod 2)"
    using mlc_pairing [of ?s0] z(1) by (simp only: page_tables.select_convs) blast
  have m01: "m ! p = 0 \<or> m ! p = 1" if "p < 512" for p using m(3) that mod_less_divisor [of 2 "(p - 10) div 2"] by (metis less_2_cases zero_less_numeral One_nat_def)
  obtain t where t: "init_tlc_page_pairing (?s0\<lparr>mlc_tbl := m\<rparr>) = Some (?s0\<lparr>mlc_tbl := m, tlc_tbl := t\<rparr>)" "length t = 512"
    using tlc_pairing [of "?s0\<lparr>mlc_tbl := m\<rparr>"] z(1) by auto
  obtain q t' where q: "init_qlc_page_pairing (?s0\<lparr>mlc_tbl := m, tlc_tbl := t\<rparr>) = Some (?s0\<lparr>mlc_tbl := m, tlc_tbl := t', qlc_tbl := q\<rparr>)"
    "length q = 512" "length t' = 512" "\<forall>p < 512. 14 \<le> p \<longrightarrow> q ! p = 0" "\<forall>p < 512. 8 \<le> p \<and> p < 496 \<longrightarrow> t' ! p = (p - 8) mod 8 div 2"
    using qlc_pairing [of "?s0\<lparr>mlc_tbl := m, tlc_tbl := t\<rparr>"] t(2) z by auto
  let ?s = "?s0\<lparr>mlc_tbl := m, tlc_tbl := t', qlc_tbl := q\<rparr>"
  have i: "init_nand_flash = Some ?s" using m(1) t(1) q(1) by (simp add: init_nand_flash_def MAX_SUPPORTED_PAGES_PER_BLOCK_def Let_def flip: z_def)
  have l: "get_page_read_latency init_nand_flash_timing MLC 0 = Some 48000" "get_page_read_latency init_nand_flash_timing MLC 1 = Some 64000" "get_page_write_latency init_nand_flash_timing MLC 0 = Some 850000"
    "get_page_write_latency init_nand_flash_timing MLC 1 = Some 2300000" "get_page_read_latency init_nand_flash_timing TLC 3 = Some 0" "get_page_write_latency init_nand_flash_timing TLC 3 = Some 0" by code_simp+
  have three: "(p - 8) mod 8 div 2 = 3" if "6 \<le> (p - 8) mod 8" for p :: nat
  proof -
    have "(p - 8) mod 8 = 6 \<or> (p - 8) mod 8 = 7" using that mod_less_divisor [of 8 "p - 8"] by linarith
    then show ?thesis by auto
  qed
  have "\<forall>p < 512. \<exists>ty rd wr. get_page_type ?s MLC p = Some ty \<and> get_page_read_latency init_nand_flash_timing MLC ty = Some rd \<and> get_page_write_latency init_nand_flash_timing MLC ty = Some wr \<and> 0 < rd \<and> rd < wr"
  proof (intro allI impI)
    fix p :: nat assume p: "p < 512"
    then have "get_page_type ?s MLC p = Some (m ! p)" using m(2) by (simp add: get_page_type_def flash_defs)
    then show "\<exists>ty rd wr. get_page_type ?s MLC p = Some ty \<and> get_page_read_latency init_nand_flash_timing MLC ty = Some rd \<and> get_page_write_latency init_nand_flash_timing MLC ty = Some wr \<and> 0 < rd \<and> rd < wr"
      using m01 [OF p] l by auto
  qed
  moreover have "\<forall>p. 8 \<le> p \<and> p < 496 \<and> 6 \<le> (p - 8) mod 8 \<longrightarrow> get_page_type ?s TLC p = Some 3"
    using q(3,5) three by (auto simp: get_page_type_def flash_defs)
  moreover have "\<forall>p. 14 \<le> p \<and> p < 512 \<longrightarrow> get_page_type ?s QLC p = Some 0" using q(2,4) by (auto simp: get_page_type_def flash_defs)
  ultimately show ?thesis using i l(5,6) by blast
qed

theorem page_tables_after_init_witness:
  "\<exists>s ty rd. init_nand_flash = Some s \<and> get_page_type s MLC 511 = Some ty \<and> get_page_read_latency init_nand_flash_timing MLC ty = Some rd \<and> 0 < rd \<and>
     get_page_type s TLC 14 = Some 3 \<and> get_page_type s QLC 20 = Some 0"
proof -
  obtain s where s: "init_nand_flash = Some s"
    "\<forall>p < 512. \<exists>ty rd wr. get_page_type s MLC p = Some ty \<and> get_page_read_latency init_nand_flash_timing MLC ty = Some rd \<and> get_page_write_latency init_nand_flash_timing MLC ty = Some wr \<and> 0 < rd \<and> rd < wr"
    "\<forall>p. 8 \<le> p \<and> p < 496 \<and> 6 \<le> (p - 8) mod 8 \<longrightarrow> get_page_type s TLC p = Some 3" "\<forall>p. 14 \<le> p \<and> p < 512 \<longrightarrow> get_page_type s QLC p = Some 0"
    using page_tables_after_init by blast
  obtain ty rd where "get_page_type s MLC 511 = Some ty" "get_page_read_latency init_nand_flash_timing MLC ty = Some rd" "0 < rd" using s(2) [rule_format, of 511] by auto
  moreover have "get_page_type s TLC 14 = Some 3" using s(3) [rule_format, of 14] by simp
  moreover have "get_page_type s QLC 20 = Some 0" using s(4) [rule_format, of 20] by simp
  ultimately show ?thesis using s(1) by blast
qed

section \<open>Chips serve one command at a time\<close>

text \<open>A sequence of commands, each with its chip, the time it is issued, its opcode and page type.\<close>

fun chip_run :: "NandFlashTiming \<Rightarrow> nat \<Rightarrow> int list \<Rightarrow> (int \<times> int \<times> u8 \<times> nat) list \<Rightarrow> (int list \<times> int list) option" where
  "chip_run tm flash_type chips [] = Some ([], chips)"
| "chip_run tm flash_type chips ((lunid, now, op, ty) # cs) = do {
    (t, chips1) \<leftarrow> advance_chip_timestamp tm flash_type chips lunid now op ty;
    (ts, chips2) \<leftarrow> chip_run tm flash_type chips1 cs;
    Some (t # ts, chips2)
  }"

lemma advance_chip_ok:
  assumes "advance_chip_timestamp tm ft chips lunid now op ty = Some (t, chips1)"
  shows "\<exists>lat. chip_latency tm ft op ty = Some lat \<and> 0 \<le> lunid \<and> nat lunid < length chips \<and> t = max now (chips ! nat lunid) + lat \<and> chips1 = chips[nat lunid := t]"
  using assms by (auto simp: advance_chip_timestamp_def Let_def max_def ensure_def crash_simps split: bind_splits if_splits)

text \<open>The table is the one of static storage or the initialised one.\<close>

lemma zero_latency: "chip_latency nand_flash_timing ft op ty = Some lat \<Longrightarrow> lat = 0"
  by (auto simp: chip_latency_def get_page_read_latency_def get_page_write_latency_def get_blk_erase_latency_def nand_flash_timing_def
    lat_row_def aget_def crash_simps split: if_splits bind_splits)

lemma init_latency_nonneg: "chip_latency init_nand_flash_timing ft op ty = Some lat \<Longrightarrow> 0 \<le> lat"
  by (auto simp: chip_latency_def get_page_read_latency_def get_page_write_latency_def get_blk_erase_latency_def init_nand_flash_timing_def
    lat_row_def MAX_FLASH_TYPE_def latency_defs aget_def numeral_eq_Suc nth_Cons split: if_splits bind_splits nat.splits)

lemma latency_nonneg:
  "tm = nand_flash_timing \<or> tm = init_nand_flash_timing \<Longrightarrow> chip_latency tm ft op ty = Some lat \<Longrightarrow> 0 \<le> lat"
  using zero_latency init_latency_nonneg by blast

lemma chip_run_later:
  assumes tm: "tm = nand_flash_timing \<or> tm = init_nand_flash_timing"
  shows "chip_run tm ft chips cs = Some (ts, chips') \<Longrightarrow> j < length cs \<Longrightarrow> cs ! j = (lunid, now, op, ty) \<Longrightarrow>
   \<exists>lat. chip_latency tm ft op ty = Some lat \<and> j < length ts \<and> 0 \<le> lunid \<and> now + lat \<le> ts ! j \<and> chips ! nat lunid + lat \<le> ts ! j"
proof (induction cs arbitrary: chips ts j)
  case (Cons c cs)
  obtain l n o' y where c: "c = (l, n, o', y)" by (cases c) auto
  obtain t chips1 ts1 where s: "advance_chip_timestamp tm ft chips l n o' y = Some (t, chips1)" "chip_run tm ft chips1 cs = Some (ts1, chips')" "ts = t # ts1"
    using Cons.prems(1) by (auto simp: c split: bind_splits)
  obtain lat where a: "chip_latency tm ft o' y = Some lat" "0 \<le> l" "nat l < length chips" "t = max n (chips ! nat l) + lat" "chips1 = chips[nat l := t]"
    using advance_chip_ok [OF s(1)] by blast
  show ?case
  proof (cases j)
    case 0
    then show ?thesis using Cons.prems(3) a s(3) c by auto
  next
    case (Suc k)
    obtain lat' where b: "chip_latency tm ft op ty = Some lat'" "k < length ts1" "0 \<le> lunid" "now + lat' \<le> ts1 ! k" "chips1 ! nat lunid + lat' \<le> ts1 ! k"
      using Cons.IH [OF s(2), of k] Cons.prems(2,3) Suc by auto
    have "chips ! nat lunid \<le> chips1 ! nat lunid" using a latency_nonneg [OF tm a(1)] by (cases "nat l = nat lunid") auto
    then show ?thesis using b Suc s(3) by auto
  qed
qed simp

text \<open>A chip serves one command at a time, in the order in which they are issued: of any two commands of a sequence on the same chip the later one ends no
  earlier than its latency after the end of the former, and no command starts before it is issued.\<close>

theorem chip_serves_in_order:
  assumes tm: "tm = nand_flash_timing \<or> tm = init_nand_flash_timing"
    and "chip_run tm ft chips cs = Some (ts, chips')" "i < j" "j < length cs" "cs ! i = (lunid, now1, op1, ty1)" "cs ! j = (lunid, now2, op2, ty2)"
  shows "\<exists>lat. chip_latency tm ft op2 ty2 = Some lat \<and> 0 \<le> lat \<and> ts ! i \<le> ts ! j - lat \<and> now2 \<le> ts ! j - lat"
  using assms(2-)
proof (induction cs arbitrary: chips ts i j)
  case (Cons c cs)
  obtain l n o' y where c: "c = (l, n, o', y)" by (cases c) auto
  obtain t chips1 ts1 where s: "advance_chip_timestamp tm ft chips l n o' y = Some (t, chips1)" "chip_run tm ft chips1 cs = Some (ts1, chips')" "ts = t # ts1"
    using Cons.prems(1) by (auto simp: c split: bind_splits)
  obtain k where k: "j = Suc k" "k < length cs" using Cons.prems(2,3) by (cases j) auto
  show ?case
  proof (cases i)
    case 0
    then have "l = lunid" using Cons.prems(4) c by simp
    then have "chips1 ! nat lunid = t" using advance_chip_ok [OF s(1)] by auto
    then show ?thesis using chip_run_later [OF tm s(2) k(2), of lunid now2 op2 ty2] Cons.prems(5) k(1) 0 s(3) latency_nonneg [OF tm] by fastforce
  next
    case (Suc i')
    then show ?thesis using Cons.IH [OF s(2), of i' k] Cons.prems k s(3) by auto
  qed
qed simp

theorem chip_serves_in_order_witness:
  "chip_run init_nand_flash_timing MLC [0, 0] [(1, 5, NVME_CMD_OC_WRITE, 1), (0, 6, NVME_CMD_OC_READ, 0), (1, 7, NVME_CMD_OC_READ, 0)] = Some ([2300005, 48006, 2348005], [48006, 2348005]) \<and>
   (\<exists>lat. chip_latency init_nand_flash_timing MLC NVME_CMD_OC_READ 0 = Some lat \<and> 0 \<le> lat \<and> (2300005 :: int) \<le> 2348005 - lat)"
proof -
  have r: "chip_run init_nand_flash_timing MLC [0, 0] [(1, 5, NVME_CMD_OC_WRITE, 1), (0, 6, NVME_CMD_OC_READ, 0), (1, 7, NVME_CMD_OC_READ, 0)] = Some ([2300005, 48006, 2348005], [48006, 2348005])"
    by code_simp
  show ?thesis using chip_serves_in_order [OF _ r, of 0 2 1 5 NVME_CMD_OC_WRITE 1 7 NVME_CMD_OC_READ 0] r by (auto simp: numeral_2_eq_2)
qed

end
