(* ===== verification/Oc20.thy ===== *)
theory Oc20
  imports Nand
begin

text \<open>
  The open-channel mode of the emulated SSD, revision 2.0 of the interface (\<open>femu/ocssd/oc20.c\<close>, \<open>oc20.h\<close>): the device below pblk.
  Chunks have a state and a write pointer; vector commands read, write and reset sectors named by
  physical addresses.

  Guest memory is part of the request: the addresses it holds, whether its data can be
  mapped.  The draws of \<open>rand\<close> are an argument.  The error page of the front end is not modelled.
\<close>

section \<open>Data\<close>

definition OC20_CMD_MAX_LBAS :: u32 where "OC20_CMD_MAX_LBAS = 64"
definition OC20_CMD_VECT_ERASE :: u8 where "OC20_CMD_VECT_ERASE = 0x90"
definition OC20_CMD_VECT_WRITE :: u8 where "OC20_CMD_VECT_WRITE = 0x91"
definition OC20_CMD_VECT_READ :: u8 where "OC20_CMD_VECT_READ = 0x92"
definition OC20_CHUNK_FREE :: u8 where "OC20_CHUNK_FREE = 1"
definition OC20_CHUNK_CLOSED :: u8 where "OC20_CHUNK_CLOSED = 2"
definition OC20_CHUNK_OPEN :: u8 where "OC20_CHUNK_OPEN = 4"
definition OC20_CHUNK_OFFLINE :: u8 where "OC20_CHUNK_OFFLINE = 8"
definition OC20_CHUNK_RESETABLE :: u8 where "OC20_CHUNK_RESETABLE = OC20_CHUNK_FREE OR OC20_CHUNK_CLOSED OR OC20_CHUNK_OPEN"
definition OC20_CHUNK_TYPE_SEQ :: u8 where "OC20_CHUNK_TYPE_SEQ = 1"
definition OC20_CHUNK_TYPE_RAN :: u8 where "OC20_CHUNK_TYPE_RAN = 2"
definition OC20_OUT_OF_ORDER_WRITE :: u16 where "OC20_OUT_OF_ORDER_WRITE = 0x02f2"
definition OC20_OFFLINE_CHUNK :: u16 where "OC20_OFFLINE_CHUNK = 0x02c0"
definition OC20_INVALID_RESET :: u16 where "OC20_INVALID_RESET = 0x02c1"
definition OC20_PARAMS_MCCAP_MULTIPLE_RESETS :: u32 where "OC20_PARAMS_MCCAP_MULTIPLE_RESETS = 2"
definition OC20_PARAMS_MCCAP_EARLY_RESET :: u32 where "OC20_PARAMS_MCCAP_EARLY_RESET = 4"

lemmas oc20_defs = OC20_CMD_MAX_LBAS_def OC20_CMD_VECT_ERASE_def OC20_CMD_VECT_WRITE_def OC20_CMD_VECT_READ_def
  OC20_CHUNK_FREE_def OC20_CHUNK_CLOSED_def OC20_CHUNK_OPEN_def OC20_CHUNK_OFFLINE_def OC20_CHUNK_RESETABLE_def
  OC20_CHUNK_TYPE_SEQ_def OC20_CHUNK_TYPE_RAN_def OC20_OUT_OF_ORDER_WRITE_def OC20_OFFLINE_CHUNK_def OC20_INVALID_RESET_def
  OC20_PARAMS_MCCAP_MULTIPLE_RESETS_def OC20_PARAMS_MCCAP_EARLY_RESET_def

record Oc20CS =
  cs_state :: u8
  cs_type :: u8
  wear_index :: u8
  cs_slba :: u64
  cnlb :: u64
  cs_wp :: u64

record Oc20AddrF =
  grp_mask :: u64
  lun_mask :: u64
  chk_mask :: u64
  sec_mask :: u64
  grp_offset :: u8
  lun_offset :: u8
  chk_offset :: u8
  sec_offset :: u8

record Oc20IdGeo =
  num_grp :: u16
  num_lun :: u16
  num_chk :: u32
  clba :: u32

record Oc20IdLBAF =
  grp_len :: u8
  lun_len :: u8
  chk_len :: u8
  sec_len :: u8

record Oc20Params =
  mccap :: u32
  ws_min :: u32
  ws_opt :: u32
  mw_cunits :: u32
  early_reset :: bool

record OcCtrlParams =
  secs_per_page :: u8
  pgs_per_blk :: u16
  num_ch :: u8
  oc_num_lun :: u8
  num_pln :: u8

text \<open>The namespace with the fields of the controller that the mode uses.\<close>

record Oc20Namespace =
  params :: Oc20Params
  id_lbaf :: Oc20IdLBAF
  geo_id :: Oc20IdGeo
  lbaf :: Oc20AddrF
  resetfail :: "u8 list option"
  chks_per_grp :: u32
  chks_total :: u32
  secs_per_chk :: u32
  secs_per_lun :: u32
  secs_per_grp :: u32
  secs_total :: u32
  chunk_info :: "Oc20CS list"
  blk_ads :: nat
  flash_type :: nat
  timing :: NandFlashTiming
  chip_next_avail_time :: "int list"

record Oc20Req =
  oc_opcode :: u8
  lbal :: u64
  nlb0 :: u16
  mptr :: u64
  guest_lbas :: "u64 list"
  prp_ok :: bool
  stime :: int
  draws :: "nat \<Rightarrow> int"

text \<open>What a command shows outside: an access to the back end, chunk metadata written to the guest.\<close>

datatype oc20_out = Vec_rw bool "u64 list" | Chunk_meta u64 Oc20CS

section \<open>Addresses\<close>

definition OC20_LBA_GET_SECTR :: "Oc20AddrF \<Rightarrow> u64 \<Rightarrow> u64" where
  "OC20_LBA_GET_SECTR f lba = drop_bit (unat (sec_offset f)) (lba AND sec_mask f)"

definition OC20_LBA_GET_CHUNK :: "Oc20AddrF \<Rightarrow> u64 \<Rightarrow> u64" where
  "OC20_LBA_GET_CHUNK f lba = drop_bit (unat (chk_offset f)) (lba AND chk_mask f)"

definition OC20_LBA_GET_PUNIT :: "Oc20AddrF \<Rightarrow> u64 \<Rightarrow> u64" where
  "OC20_LBA_GET_PUNIT f lba = drop_bit (unat (lun_offset f)) (lba AND lun_mask f)"

definition OC20_LBA_GET_GROUP :: "Oc20AddrF \<Rightarrow> u64 \<Rightarrow> u64" where
  "OC20_LBA_GET_GROUP f lba = drop_bit (unat (grp_offset f)) lba"

definition OC20_LBA :: "Oc20AddrF \<Rightarrow> u64 \<Rightarrow> u64 \<Rightarrow> u64 \<Rightarrow> u64 \<Rightarrow> u64" where
  "OC20_LBA f grp punit chunk sectr = push_bit (unat (sec_offset f)) sectr OR push_bit (unat (chk_offset f)) chunk OR
    push_bit (unat (lun_offset f)) punit OR push_bit (unat (grp_offset f)) grp"

definition oc20_lba_valid :: "Oc20Namespace \<Rightarrow> u64 \<Rightarrow> bool" where
  "oc20_lba_valid n lba \<longleftrightarrow> OC20_LBA_GET_SECTR (lbaf n) lba < ucast (clba (geo_id n)) \<and> OC20_LBA_GET_CHUNK (lbaf n) lba < ucast (num_chk (geo_id n)) \<and>
    OC20_LBA_GET_PUNIT (lbaf n) lba < ucast (num_lun (geo_id n)) \<and> OC20_LBA_GET_GROUP (lbaf n) lba < ucast (num_grp (geo_id n))"

definition oc20_lba_to_chunk_index :: "Oc20Namespace \<Rightarrow> u64 \<Rightarrow> u64" where
  "oc20_lba_to_chunk_index n lba = OC20_LBA_GET_CHUNK (lbaf n) lba + OC20_LBA_GET_PUNIT (lbaf n) lba * ucast (num_chk (geo_id n)) +
    OC20_LBA_GET_GROUP (lbaf n) lba * ucast (chks_per_grp n)"

definition oc20_lba_to_sector_index :: "Oc20Namespace \<Rightarrow> u64 \<Rightarrow> u64" where
  "oc20_lba_to_sector_index n lba = OC20_LBA_GET_SECTR (lbaf n) lba + OC20_LBA_GET_CHUNK (lbaf n) lba * ucast (secs_per_chk n) +
    OC20_LBA_GET_PUNIT (lbaf n) lba * ucast (secs_per_lun n) + OC20_LBA_GET_GROUP (lbaf n) lba * ucast (secs_per_grp n)"

text \<open>The index of the chunk; \<^const>\<open>None\<close> is the null pointer.\<close>

definition oc20_chunk_get_state :: "Oc20Namespace \<Rightarrow> u64 \<Rightarrow> nat option" where
  "oc20_chunk_get_state n lba = (if oc20_lba_valid n lba then Some (unat (oc20_lba_to_chunk_index n lba)) else None)"

section \<open>Initialisation\<close>

text \<open>Products and shifts of type \<open>int\<close>, as they are extended to 64 bits.\<close>

definition int_to_u64 :: "u32 \<Rightarrow> u64" where
  "int_to_u64 w = word_of_int (sint w)"

definition bit_len :: "u32 \<Rightarrow> u8" where
  "bit_len k = of_nat (32 - clz (k - 1))"

definition femu_oc20_init_id_ctrl :: "OcCtrlParams \<Rightarrow> u64 \<Rightarrow> (Oc20IdLBAF \<times> Oc20IdGeo \<times> u32 \<times> u32 \<times> u32 \<times> u32) option" where
  "femu_oc20_init_id_ctrl oc ns_blks = do {
    let pg = (ucast (secs_per_page oc) :: u32) * ucast (pgs_per_blk oc);
    let per_chunk_row = pg * ucast (num_ch oc) * ucast (oc_num_lun oc) * ucast (num_pln oc);
    chunks \<leftarrow> udiv ns_blks (int_to_u64 per_chunk_row);
    let num_groups = ucast (num_ch oc);
    let num_punits = ucast (oc_num_lun oc);
    let num_chunks = ucast chunks;
    let num_secs = pg * ucast (num_pln oc);
    Some (\<lparr>grp_len = bit_len (ucast (num_groups :: u16)), lun_len = bit_len (ucast (num_punits :: u16)), chk_len = bit_len num_chunks,
        sec_len = bit_len num_secs\<rparr>,
      \<lparr>num_grp = num_groups, num_lun = num_punits, num_chk = num_chunks, clba = num_secs\<rparr>, 0, 4, 8, 24)
  }"

definition shifted_mask :: "u8 \<Rightarrow> u8 \<Rightarrow> u64" where
  "shifted_mask len off = int_to_u64 (push_bit (unat off) (push_bit (unat len) 1 - 1))"

definition chunk_slba :: "Oc20AddrF \<Rightarrow> nat \<Rightarrow> nat \<Rightarrow> nat \<Rightarrow> u64" where
  "chunk_slba f chunks punits i = int_to_u64 (push_bit (unat (grp_offset f)) (of_nat (i div (chunks * punits))) OR
    push_bit (unat (lun_offset f)) (of_nat (i mod (chunks * punits) div chunks)) OR push_bit (unat (chk_offset f)) (of_nat (i mod chunks)))"

definition oc20_init_chunk_info :: "Oc20Namespace \<Rightarrow> Oc20Namespace" where
  "oc20_init_chunk_info n = n\<lparr>chunk_info := map (\<lambda>i. \<lparr>cs_state = OC20_CHUNK_FREE, cs_type = OC20_CHUNK_TYPE_SEQ, wear_index = 0,
      cs_slba = chunk_slba (lbaf n) (unat (num_chk (geo_id n))) (unat (num_lun (geo_id n))) i, cnlb = int_to_u64 (clba (geo_id n)), cs_wp = 0\<rparr>)
    [0..<unat (chks_total n)]\<rparr>"

text \<open>A line of the file of failing resets, given by the group, unit, chunk and percentage that are read from it; \<^const>\<open>None\<close> is a line
  in which one of them is missing.  The first bad line ends the loading.\<close>

definition get_chunk_meta_index :: "Oc20Namespace \<Rightarrow> u32 \<Rightarrow> u32 \<Rightarrow> u32 \<Rightarrow> int" where
  "get_chunk_meta_index n grp lun chk =
    (if chk \<ge> num_chk (geo_id n) \<or> lun \<ge> ucast (num_lun (geo_id n)) \<or> grp \<ge> ucast (num_grp (geo_id n)) then -1
     else sint (num_chk (geo_id n) * (grp * ucast (num_lun (geo_id n)) + lun) + chk))"

definition set_resetfail_chunk :: "Oc20Namespace \<Rightarrow> (u32 \<times> u32 \<times> u32 \<times> u32) option \<Rightarrow> (bool \<times> Oc20Namespace) option" where
  "set_resetfail_chunk n line = (case line of
      None \<Rightarrow> Some (False, n)
    | Some (ch, lun, chk, prob) \<Rightarrow>
        (let i = get_chunk_meta_index n ch lun chk
         in if prob > 100 \<or> i < 0 then Some (False, n)
            else do {
              rf \<leftarrow> resetfail n;
              rf' \<leftarrow> aset rf (nat i) (ucast prob);
              Some (True, n\<lparr>resetfail := Some rf'\<rparr>)
            }))"

fun oc20_resetfail_load :: "Oc20Namespace \<Rightarrow> (u32 \<times> u32 \<times> u32 \<times> u32) option list \<Rightarrow> (bool \<times> Oc20Namespace) option" where
  "oc20_resetfail_load n [] = Some (True, n)"
| "oc20_resetfail_load n (line # lines) = do {
    (ok, n1) \<leftarrow> set_resetfail_chunk n line;
    if ok then oc20_resetfail_load n1 lines else Some (False, n1)
  }"

text \<open>The parameters, the derived sizes and the address format.  The sector size is 4096, so \<open>lbads\<close> is 12.
  The table of latencies is the one of static storage: \<open>init_nand_flash\<close> is called by the 1.2 mode only.  The layout of the back-end file
  (\<open>ns->blk\<close>) and the identify data, which the commands do not use, are left out.\<close>

definition calculated_values :: "bool \<Rightarrow> nat \<Rightarrow> Oc20IdLBAF \<Rightarrow> Oc20IdGeo \<Rightarrow> u32 \<Rightarrow> u32 \<Rightarrow> u32 \<Rightarrow> u32 \<Rightarrow> Oc20Namespace" where
  "calculated_values early ft len geo cap wmin wopt mw =
    (let per_grp = num_chk geo * ucast (num_lun geo);
         per_lun = clba geo * num_chk geo;
         chk_off = sec_len len;
         lun_off = sec_len len + chk_len len;
         grp_off = sec_len len + chk_len len + lun_len len
     in \<lparr>
      params = \<lparr>mccap = (if early then cap OR OC20_PARAMS_MCCAP_EARLY_RESET else cap), ws_min = wmin, ws_opt = wopt, mw_cunits = mw, early_reset = early\<rparr>,
      id_lbaf = len, geo_id = geo,
      lbaf = \<lparr>grp_mask = shifted_mask (grp_len len) grp_off, lun_mask = shifted_mask (lun_len len) lun_off,
        chk_mask = shifted_mask (chk_len len) chk_off, sec_mask = shifted_mask (sec_len len) 0,
        grp_offset = grp_off, lun_offset = lun_off, chk_offset = chk_off, sec_offset = 0\<rparr>,
      resetfail = None, chks_per_grp = per_grp, chks_total = per_grp * ucast (num_grp geo), secs_per_chk = clba geo, secs_per_lun = per_lun,
      secs_per_grp = per_lun * ucast (num_lun geo), secs_total = per_lun * ucast (num_lun geo) * clba geo, chunk_info = [], blk_ads = 12, flash_type = ft,
      timing = nand_flash_timing, chip_next_avail_time = replicate FEMU_MAX_NUM_CHIPS 0\<rparr>)"

text \<open>The namespace, and whether the set-up succeeded, which \<open>oc20_init\<close> does not look at.
  \<open>rf\<close> is the file of failing resets, if it is configured; a configured file of failing writes aborts the emulator.\<close>

definition oc20_init_namespace :: "OcCtrlParams \<Rightarrow> u64 \<Rightarrow> bool \<Rightarrow> (u32 \<times> u32 \<times> u32 \<times> u32) option list option \<Rightarrow> bool \<Rightarrow> nat \<Rightarrow> (bool \<times> Oc20Namespace) option" where
  "oc20_init_namespace oc ns_blks early rf writefail ft = do {
    (len, geo, cap, wmin, wopt, mw) \<leftarrow> femu_oc20_init_id_ctrl oc ns_blks;
    let n = oc20_init_chunk_info (calculated_values early ft len geo cap wmin wopt mw);
    (ok, n1) \<leftarrow> (case rf of
        None \<Rightarrow> Some (True, n)
      | Some lines \<Rightarrow> oc20_resetfail_load (n\<lparr>resetfail := Some (replicate (unat (chks_total n)) 0)\<rparr>) lines);
    ensure (\<not> ok \<or> \<not> writefail);
    Some (ok, n1)
  }"

section \<open>Writes\<close>

definition oc20_advance_wp :: "Oc20Namespace \<Rightarrow> u64 \<Rightarrow> u16 \<Rightarrow> (u16 \<times> Oc20Namespace) option" where
  "oc20_advance_wp n lba nlb = (case oc20_chunk_get_state n lba of
      None \<Rightarrow> Some (NVME_INTERNAL_DEV_ERROR OR NVME_DNR, n)
    | Some i \<Rightarrow> do {
        c \<leftarrow> aget (chunk_info n) i;
        if cs_type c = OC20_CHUNK_TYPE_RAN then Some (NVME_SUCCESS, n)
        else do {
          let c1 = (if cs_state c = OC20_CHUNK_FREE then c\<lparr>cs_state := OC20_CHUNK_OPEN\<rparr> else c);
          if cs_state c1 \<noteq> OC20_CHUNK_OPEN then Some (NVME_INTERNAL_DEV_ERROR OR NVME_DNR, n\<lparr>chunk_info := (chunk_info n)[i := c1]\<rparr>)
          else do {
            let c2 = c1\<lparr>cs_wp := cs_wp c1 + ucast nlb\<rparr>;
            let c3 = (if cs_wp c2 = cnlb c2 then c2\<lparr>cs_state := OC20_CHUNK_CLOSED\<rparr> else c2);
            Some (NVME_SUCCESS, n\<lparr>chunk_info := (chunk_info n)[i := c3]\<rparr>)
          }
        }
      })"

definition oc20_rw_check_chunk_write :: "Oc20Namespace \<Rightarrow> u64 \<Rightarrow> u32 \<Rightarrow> u16 option" where
  "oc20_rw_check_chunk_write n lba ws = (case oc20_chunk_get_state n lba of
      None \<Rightarrow> Some (NVME_WRITE_FAULT OR NVME_DNR)
    | Some i \<Rightarrow> do {
        c \<leftarrow> aget (chunk_info n) i;
        let start_sectr = (ucast (lba AND sec_mask (lbaf n)) :: u32);
        let end_sectr = start_sectr + ws;
        if cs_state c AND OC20_CHUNK_OFFLINE \<noteq> 0 \<or> cs_state c AND OC20_CHUNK_CLOSED \<noteq> 0 \<or> ucast end_sectr > cnlb c
        then Some (NVME_WRITE_FAULT OR NVME_DNR)
        else if cs_type c = OC20_CHUNK_TYPE_RAN
        then Some (if cs_state c \<noteq> OC20_CHUNK_OPEN then NVME_WRITE_FAULT OR NVME_DNR else NVME_SUCCESS)
        else do {
          ensure (ws < ws_min (params n) \<or> ws_min (params n) \<noteq> 0);
          if ws < ws_min (params n) \<or> ws mod ws_min (params n) \<noteq> 0 then Some (NVME_INVALID_FIELD OR NVME_DNR)
          else Some (if ucast start_sectr \<noteq> cs_wp c then OC20_OUT_OF_ORDER_WRITE OR NVME_DNR else NVME_SUCCESS)
        }
      })"

text \<open>The addresses behind the first one: a run of sectors of one chunk is checked when the chunk changes and at the end.\<close>

fun check_runs :: "Oc20Namespace \<Rightarrow> u64 \<Rightarrow> u64 \<Rightarrow> u32 \<Rightarrow> u16 \<Rightarrow> u64 list \<Rightarrow> u16 option" where
  "check_runs n lba cidx sectr ws [] = oc20_rw_check_chunk_write n lba (ucast ws)"
| "check_runs n lba cidx sectr ws (next_lba # ls) =
    (if cidx \<noteq> oc20_lba_to_chunk_index n next_lba then do {
       err \<leftarrow> oc20_rw_check_chunk_write n lba (ucast ws);
       if err \<noteq> 0 then Some err
       else check_runs n next_lba (oc20_lba_to_chunk_index n next_lba) (ucast (OC20_LBA_GET_SECTR (lbaf n) next_lba)) 1 ls
     } else if ucast (sectr + 1) \<noteq> OC20_LBA_GET_SECTR (lbaf n) next_lba then Some (OC20_OUT_OF_ORDER_WRITE OR NVME_DNR)
     else check_runs n lba cidx (sectr + 1) (ws + 1) ls)"

definition oc20_rw_check_write_req :: "Oc20Namespace \<Rightarrow> u64 list \<Rightarrow> u16 option" where
  "oc20_rw_check_write_req n lbas = (case lbas of
      [] \<Rightarrow> None
    | lba # ls \<Rightarrow> check_runs n lba (oc20_lba_to_chunk_index n lba) (ucast (OC20_LBA_GET_SECTR (lbaf n) lba)) 1 ls)"

section \<open>Reads\<close>

definition oc20_rw_check_chunk_read :: "Oc20Namespace \<Rightarrow> u64 \<Rightarrow> u16 option" where
  "oc20_rw_check_chunk_read n lba = (case oc20_chunk_get_state n lba of
      None \<Rightarrow> Some NVME_DULB
    | Some i \<Rightarrow> do {
        c \<leftarrow> aget (chunk_info n) i;
        let sectr = OC20_LBA_GET_SECTR (lbaf n) lba;
        let mw = ucast (mw_cunits (params n));
        Some (if cs_type c = OC20_CHUNK_TYPE_RAN
          then (if cs_state c \<noteq> OC20_CHUNK_OPEN \<or> sectr \<ge> cnlb c then NVME_DULB else NVME_SUCCESS)
          else if cs_state c = OC20_CHUNK_CLOSED \<and> sectr < cs_wp c then NVME_SUCCESS
          else if cs_state c = OC20_CHUNK_OPEN \<and> \<not> cs_wp c < mw \<and> sectr < cs_wp c - mw then NVME_SUCCESS
          else NVME_DULB)
      })"

text \<open>The numbers of the sectors that have no data are returned; the source sets a bit for each in \<open>predef\<close>.\<close>

fun check_reads :: "Oc20Namespace \<Rightarrow> nat \<Rightarrow> u64 list \<Rightarrow> (u16 \<times> nat list) option" where
  "check_reads n i [] = Some (NVME_SUCCESS, [])"
| "check_reads n i (lba # ls) = do {
    err \<leftarrow> oc20_rw_check_chunk_read n lba;
    if err \<noteq> 0 \<and> err AND NVME_DULB = 0 then Some (err, [])
    else do {
      (st, pre) \<leftarrow> check_reads n (Suc i) ls;
      Some (st, if err \<noteq> 0 then i # pre else pre)
    }
  }"

definition oc20_rw_check_read_req :: "Oc20Namespace \<Rightarrow> u64 list \<Rightarrow> (u16 \<times> nat list) option" where
  "oc20_rw_check_read_req n lbas = check_reads n 0 lbas"

section \<open>Timing\<close>

record Oc20AddrBucket =
  bkt_ch :: int
  bkt_lun :: int
  bkt_cnt :: int

definition to_c_int :: "u64 \<Rightarrow> int" where
  "to_c_int w = sint (ucast w :: u32)"

text \<open>The buckets in reverse order; a run of addresses that agree outside \<open>sec_mask\<close> is one bucket.  An address that agrees with the
  initial \<open>prev_pg_addr\<close> is counted in a bucket before the first one.\<close>

fun parse_loop :: "Oc20AddrF \<Rightarrow> u64 \<Rightarrow> Oc20AddrBucket list \<Rightarrow> u64 list \<Rightarrow> Oc20AddrBucket list option" where
  "parse_loop f prev bs [] = Some bs"
| "parse_loop f prev bs (lba # ls) =
    (let cur = lba AND NOT (sec_mask f)
     in if cur = prev then (case bs of
          [] \<Rightarrow> None
        | b # bs' \<Rightarrow> parse_loop f prev (b\<lparr>bkt_cnt := bkt_cnt b + 1\<rparr> # bs') ls)
        else parse_loop f cur (\<lparr>bkt_ch = to_c_int (OC20_LBA_GET_GROUP f lba), bkt_lun = to_c_int (OC20_LBA_GET_PUNIT f lba), bkt_cnt = 1\<rparr> # bs) ls)"

definition oc20_parse_lba_list :: "Oc20Namespace \<Rightarrow> u64 list \<Rightarrow> Oc20AddrBucket list option" where
  "oc20_parse_lba_list n lbas = map_option rev (parse_loop (lbaf n) (NOT 0) [] lbas)"

text \<open>A command takes as long as its slowest chip.\<close>

definition bucket_step :: "u8 \<Rightarrow> int \<Rightarrow> bool \<Rightarrow> Oc20AddrBucket \<Rightarrow> int \<times> Oc20Namespace \<Rightarrow> (int \<times> Oc20Namespace) option" where
  "bucket_step op now wr b s = do {
    let n = snd s;
    let lunid = bkt_ch b * uint (num_lun (geo_id n)) + bkt_lun b;
    (t, chips) \<leftarrow> advance_chip_timestamp (timing n) (flash_type n) (chip_next_avail_time n) lunid
      (if wr then advance_channel_timestamp (bkt_ch b) now op else now) op 0;
    let done = (if wr then t else advance_channel_timestamp (bkt_ch b) t op);
    Some (max (fst s) (done - now), n\<lparr>chip_next_avail_time := chips\<rparr>)
  }"

definition oc20_advance_status :: "Oc20Namespace \<Rightarrow> u8 \<Rightarrow> int \<Rightarrow> bool \<Rightarrow> u64 list \<Rightarrow> (int \<times> Oc20Namespace) option" where
  "oc20_advance_status n op now wr lbas = do {
    bs \<leftarrow> oc20_parse_lba_list n lbas;
    ensure (op = OC20_CMD_VECT_READ \<or> op = OC20_CMD_VECT_WRITE);
    ensure (bs \<noteq> []);
    (need, n') \<leftarrow> ofold (bucket_step op now wr) bs (0, n);
    Some (now + need, n')
  }"

section \<open>Commands\<close>

definition req_nlb :: "Oc20Req \<Rightarrow> u32" where
  "req_nlb req = ucast (nlb0 req) + 1"

definition req_lbas :: "Oc20Req \<Rightarrow> u64 list" where
  "req_lbas req = (if req_nlb req > 1 then take (unat (req_nlb req)) (guest_lbas req @ replicate (unat (req_nlb req)) 0) else [lbal req])"

text \<open>The result: status, what is shown outside, the time when the command is done, the sectors without data, and the new state.
  The status of \<open>oc20_advance_wp\<close>, which gets the first address only, is dropped.\<close>

definition oc20_rw :: "Oc20Namespace \<Rightarrow> Oc20Req \<Rightarrow> (u16 \<times> oc20_out list \<times> int \<times> nat list \<times> Oc20Namespace) option" where
  "oc20_rw n req =
    (if req_nlb req > OC20_CMD_MAX_LBAS then Some (NVME_INVALID_FIELD OR NVME_DNR, [], 0, [], n)
     else do {
       let lbas = req_lbas req;
       let wr = (oc_opcode req = NVME_CMD_WRITE \<or> oc_opcode req = OC20_CMD_VECT_WRITE);
       (err, pre) \<leftarrow> (if wr then map_option (\<lambda>e. (e, [])) (oc20_rw_check_write_req n lbas) else oc20_rw_check_read_req n lbas);
       if err \<noteq> 0 then Some (err, [], 0, pre, n)
       else if \<not> prp_ok req then Some (NVME_INVALID_FIELD OR NVME_DNR, [], 0, pre, n)
       else do {
         (t, n1) \<leftarrow> oc20_advance_status n (oc_opcode req) (stime req) wr lbas;
         n2 \<leftarrow> (if wr then map_option snd (oc20_advance_wp n1 (hd lbas) (ucast (req_nlb req))) else Some n1);
         Some (NVME_SUCCESS, [Vec_rw wr (map (push_bit (blk_ads n)) lbas)], t, pre, n2)
       }
     })"

definition oc20_chunk_set_free :: "Oc20Namespace \<Rightarrow> u64 \<Rightarrow> u64 \<Rightarrow> int \<Rightarrow> (u16 \<times> oc20_out list \<times> Oc20Namespace) option" where
  "oc20_chunk_set_free n lba mp draw = (case oc20_chunk_get_state n lba of
      None \<Rightarrow> Some (OC20_INVALID_RESET OR NVME_DNR, [], n)
    | Some i \<Rightarrow> do {
        c \<leftarrow> aget (chunk_info n) i;
        prob \<leftarrow> (case resetfail n of None \<Rightarrow> Some 0 | Some ps \<Rightarrow> aget ps i);
        if prob \<noteq> 0 \<and> draw mod 100 < uint prob
        then Some (OC20_INVALID_RESET OR NVME_DNR, [], n\<lparr>chunk_info := (chunk_info n)[i := c\<lparr>cs_state := OC20_CHUNK_OFFLINE, cs_wp := 0xffff\<rparr>]\<rparr>)
        else if cs_state c AND OC20_CHUNK_RESETABLE = 0 then Some (NVME_DNR OR OC20_OFFLINE_CHUNK, [], n)
        else if cs_state c = OC20_CHUNK_FREE \<and> mccap (params n) AND OC20_PARAMS_MCCAP_MULTIPLE_RESETS = 0 \<or>
          cs_state c = OC20_CHUNK_OPEN \<and> mccap (params n) AND OC20_PARAMS_MCCAP_EARLY_RESET = 0
        then Some (OC20_INVALID_RESET OR NVME_DNR, [], n)
        else do {
          let c' = c\<lparr>cs_state := OC20_CHUNK_FREE, wear_index := wear_index c + 1, cs_wp := 0\<rparr>;
          Some (NVME_SUCCESS, if mp \<noteq> 0 then [Chunk_meta mp c'] else [], n\<lparr>chunk_info := (chunk_info n)[i := c']\<rparr>)
        }
      })"

fun erase_loop :: "(nat \<Rightarrow> int) \<Rightarrow> nat \<Rightarrow> u64 \<Rightarrow> u64 list \<Rightarrow> Oc20Namespace \<Rightarrow> (u16 \<times> oc20_out list \<times> Oc20Namespace) option" where
  "erase_loop rnd i mp [] n = Some (NVME_SUCCESS, [], n)"
| "erase_loop rnd i mp (lba # ls) n = (case oc20_chunk_get_state n lba of
      None \<Rightarrow> Some (OC20_INVALID_RESET, [], n)
    | Some j \<Rightarrow> do {
        (err, out, n1) \<leftarrow> oc20_chunk_set_free n lba mp (rnd i);
        if err \<noteq> 0 then Some (err, out, n1)
        else do {
          (st, out', n2) \<leftarrow> erase_loop rnd (Suc i) (if mp \<noteq> 0 then mp + 32 else 0) ls n1;
          Some (st, out @ out', n2)
        }
      })"

definition oc20_erase :: "Oc20Namespace \<Rightarrow> Oc20Req \<Rightarrow> (u16 \<times> oc20_out list \<times> Oc20Namespace) option" where
  "oc20_erase n req = erase_loop (draws req) 0 (mptr req) (req_lbas req) n"

definition oc20_io_cmd :: "Oc20Namespace \<Rightarrow> Oc20Req \<Rightarrow> (u16 \<times> oc20_out list \<times> Oc20Namespace) option" where
  "oc20_io_cmd n req =
    (if oc_opcode req = NVME_CMD_READ \<or> oc_opcode req = NVME_CMD_WRITE then Some (NVME_DNR, [], n)
     else if oc_opcode req = OC20_CMD_VECT_READ \<or> oc_opcode req = OC20_CMD_VECT_WRITE
     then map_option (\<lambda>(st, out, t, pre, n'). (st, out, n')) (oc20_rw n req)
     else if oc_opcode req = OC20_CMD_VECT_ERASE then oc20_erase n req
     else Some (NVME_INVALID_OPCODE OR NVME_DNR, [], n))"

section \<open>The chunk information log\<close>

text \<open>The range of bytes of the chunk table that a log page command transfers; a range outside the table aborts the emulator.
  The namespace number is the one of the only namespace.\<close>

definition oc20_chunk_info :: "Oc20Namespace \<Rightarrow> u32 \<Rightarrow> u64 \<Rightarrow> (u64 \<times> u32) option" where
  "oc20_chunk_info n buf_len off = do {
    let log_len = chks_total n * 32;
    let trans_len = min log_len buf_len;
    ensure (\<not> ucast log_len < off + ucast buf_len);
    Some (off, trans_len)
  }"

definition OC20_CHUNK_INFO :: u16 where "OC20_CHUNK_INFO = 0xCA"

datatype oc20_log = Log_status u16 | Log_range u64 u32

definition oc20_get_log :: "Oc20Namespace \<Rightarrow> u32 \<Rightarrow> u32 \<Rightarrow> u32 \<Rightarrow> u32 \<Rightarrow> oc20_log option" where
  "oc20_get_log n dw10 dw11 dw12 dw13 = do {
    let lid = (ucast (dw10 AND 0xff) :: u16);
    let numdl = drop_bit 16 dw10;
    let numdu = dw11 AND 0xffff;
    let len = push_bit 2 ((push_bit 16 numdu OR numdl) + 1);
    let off = push_bit 32 (ucast dw13) OR ucast dw12;
    if lid = OC20_CHUNK_INFO then map_option (\<lambda>(o', l). Log_range o' l) (oc20_chunk_info n len off)
    else Some (Log_status (NVME_INVALID_LOG_ID OR NVME_DNR))
  }"

end
