(* ===== verification/Oc20_Addr.thy ===== *)
theory Oc20_Addr
  imports Oc20
begin

text \<open>
  Physical addresses of the open-channel device: the fields of an address, the table of chunks, and that the set-up of a namespace
  gives an address format in which they fit.
\<close>

section \<open>Fields of an address\<close>

lemma unat_up32 [simp]: "unat (ucast (w :: u32) :: u64) = unat w"
  using unsigned_less [of w, where 'a = nat] by (simp add: unsigned_ucast_eq take_bit_nat_eq_self)

lemma unat_up16 [simp]: "unat (ucast (w :: u16) :: u64) = unat w"
  using unsigned_less [of w, where 'a = nat] by (simp add: unsigned_ucast_eq take_bit_nat_eq_self)

lemma unat_field:
  fixes lba :: u64
  shows "unat (drop_bit k (lba AND push_bit k (mask l))) = unat lba div 2 ^ k mod 2 ^ l"
proof -
  have "drop_bit k (lba AND push_bit k (mask l)) = take_bit l (drop_bit k lba)"
    by (rule bit_word_eqI) (auto simp: bit_simps dest: bit_imp_le_length)
  then show ?thesis by (simp only: unsigned_take_bit_eq unat_drop_bit_eq) (simp only: take_bit_eq_mod drop_bit_eq_div)
qed

lemma field_decomp:
  fixes x :: nat
  shows "x = ((x div 2 ^ (a + b + c) * 2 ^ c + x div 2 ^ (a + b) mod 2 ^ c) * 2 ^ b + x div 2 ^ a mod 2 ^ b) * 2 ^ a + x mod 2 ^ a"
proof -
  have "x div 2 ^ (a + b + c) = x div 2 ^ (a + b) div 2 ^ c" "x div 2 ^ (a + b) = x div 2 ^ a div 2 ^ b"
    by (simp_all add: power_add div_mult2_eq)
  then show ?thesis by (metis div_mult_mod_eq)
qed

lemma field_parts:
  fixes g l c s :: nat
  assumes "l < 2 ^ ll" "c < 2 ^ cl" "s < 2 ^ sl" and x: "x = ((g * 2 ^ ll + l) * 2 ^ cl + c) * 2 ^ sl + s"
  shows "x mod 2 ^ sl = s" "x div 2 ^ sl mod 2 ^ cl = c" "x div 2 ^ (sl + cl) mod 2 ^ ll = l" "x div 2 ^ (sl + cl + ll) = g"
proof -
  have a: "x div 2 ^ sl = (g * 2 ^ ll + l) * 2 ^ cl + c" "x mod 2 ^ sl = s" using assms(3) by (simp_all add: x)
  have b: "x div 2 ^ (sl + cl) = g * 2 ^ ll + l" using assms(2) a(1) by (simp add: power_add div_mult2_eq)
  have "x div 2 ^ (sl + cl + ll) = x div 2 ^ (sl + cl) div 2 ^ ll" by (simp add: power_add div_mult2_eq)
  then show "x mod 2 ^ sl = s" "x div 2 ^ sl mod 2 ^ cl = c" "x div 2 ^ (sl + cl) mod 2 ^ ll = l" "x div 2 ^ (sl + cl + ll) = g"
    using a b assms(1,2) by simp_all
qed

section \<open>Well-formed geometry\<close>

text \<open>The widths of the fields, the sizes that fit them, and the sizes of the tables.\<close>

definition sl :: "Oc20Namespace \<Rightarrow> nat" where "sl n = unat (sec_len (id_lbaf n))"
definition cl :: "Oc20Namespace \<Rightarrow> nat" where "cl n = unat (chk_len (id_lbaf n))"
definition ll :: "Oc20Namespace \<Rightarrow> nat" where "ll n = unat (lun_len (id_lbaf n))"

definition ogeo :: "Oc20Namespace \<Rightarrow> bool" where
  "ogeo n \<longleftrightarrow>
    sec_offset (lbaf n) = 0 \<and> unat (chk_offset (lbaf n)) = sl n \<and> unat (lun_offset (lbaf n)) = sl n + cl n \<and>
    unat (grp_offset (lbaf n)) = sl n + cl n + ll n \<and>
    sec_mask (lbaf n) = mask (sl n) \<and> chk_mask (lbaf n) = push_bit (sl n) (mask (cl n)) \<and> lun_mask (lbaf n) = push_bit (sl n + cl n) (mask (ll n)) \<and>
    unat (clba (geo_id n)) \<le> 2 ^ sl n \<and> unat (num_chk (geo_id n)) \<le> 2 ^ cl n \<and> unat (num_lun (geo_id n)) \<le> 2 ^ ll n \<and>
    unat (num_grp (geo_id n)) * 2 ^ (sl n + cl n + ll n) \<le> 2 ^ 31 \<and>
    unat (chks_per_grp n) = unat (num_chk (geo_id n)) * unat (num_lun (geo_id n)) \<and>
    length (chunk_info n) = unat (num_chk (geo_id n)) * unat (num_lun (geo_id n)) * unat (num_grp (geo_id n)) \<and>
    unat (num_grp (geo_id n)) * unat (num_lun (geo_id n)) \<le> length (chip_next_avail_time n) \<and>
    flash_type n < MAX_FLASH_TYPE \<and> (timing n = nand_flash_timing \<or> timing n = init_nand_flash_timing) \<and>
    (\<forall>rf. resetfail n = Some rf \<longrightarrow> length rf = length (chunk_info n))"

abbreviation "sect n lba \<equiv> unat (OC20_LBA_GET_SECTR (lbaf n) lba)"
abbreviation "chnk n lba \<equiv> unat (OC20_LBA_GET_CHUNK (lbaf n) lba)"
abbreviation "punit n lba \<equiv> unat (OC20_LBA_GET_PUNIT (lbaf n) lba)"
abbreviation "grpn n lba \<equiv> unat (OC20_LBA_GET_GROUP (lbaf n) lba)"

lemma fields:
  assumes "ogeo n"
  shows "sect n lba = unat lba mod 2 ^ sl n" "chnk n lba = unat lba div 2 ^ sl n mod 2 ^ cl n"
    "punit n lba = unat lba div 2 ^ (sl n + cl n) mod 2 ^ ll n" "grpn n lba = unat lba div 2 ^ (sl n + cl n + ll n)"
proof -
  have f: "sec_offset (lbaf n) = 0" "unat (chk_offset (lbaf n)) = sl n" "unat (lun_offset (lbaf n)) = sl n + cl n" "unat (grp_offset (lbaf n)) = sl n + cl n + ll n"
    "sec_mask (lbaf n) = mask (sl n)" "chk_mask (lbaf n) = push_bit (sl n) (mask (cl n))" "lun_mask (lbaf n) = push_bit (sl n + cl n) (mask (ll n))"
    using assms by (simp_all add: ogeo_def)
  show "sect n lba = unat lba mod 2 ^ sl n" using unat_field [of 0 lba "sl n"] by (simp add: OC20_LBA_GET_SECTR_def f)
  show "chnk n lba = unat lba div 2 ^ sl n mod 2 ^ cl n" unfolding OC20_LBA_GET_CHUNK_def f by (rule unat_field)
  show "punit n lba = unat lba div 2 ^ (sl n + cl n) mod 2 ^ ll n" unfolding OC20_LBA_GET_PUNIT_def f by (rule unat_field)
  show "grpn n lba = unat lba div 2 ^ (sl n + cl n + ll n)" unfolding OC20_LBA_GET_GROUP_def f unat_drop_bit_eq by (rule drop_bit_eq_div)
qed

lemma valid_iff:
  "oc20_lba_valid n lba \<longleftrightarrow> sect n lba < unat (clba (geo_id n)) \<and> chnk n lba < unat (num_chk (geo_id n)) \<and>
    punit n lba < unat (num_lun (geo_id n)) \<and> grpn n lba < unat (num_grp (geo_id n))"
  by (simp add: oc20_lba_valid_def word_less_nat_alt)

text \<open>The number of the chunk of a valid address has no overflow and lies in the table.\<close>

lemma mixed_bound:
  fixes a b c :: nat
  assumes "a < A" "b < B" "c < C"
  shows "a + b * A + c * (A * B) < A * B * C"
proof -
  have "a + b * A < A * B"
  proof -
    have "a + b * A < A + b * A" using assms(1) by simp
    also have "\<dots> = A * Suc b" by simp
    also have "\<dots> \<le> A * B" using assms(2) by (intro mult_le_mono2) simp
    finally show ?thesis .
  qed
  then have "a + b * A + c * (A * B) < A * B + c * (A * B)" by simp
  also have "\<dots> = A * B * Suc c" by simp
  also have "\<dots> \<le> A * B * C" using assms(3) by (intro mult_le_mono2) simp
  finally show ?thesis .
qed

lemma mixed_inj:
  fixes a b c :: nat
  assumes "a < A" "b < B" "a' < A" "b' < B" and eq: "a + b * A + c * (A * B) = a' + b' * A + c' * (A * B)"
  shows "a = a' \<and> b = b' \<and> c = c'"
proof -
  have r: "x + y * A + z * (A * B) = x + A * (y + B * z)" for x y z :: nat by (simp add: algebra_simps)
  have eq': "a + A * (b + B * c) = a' + A * (b' + B * c')" using eq unfolding r .
  have "(a + A * (b + B * c)) mod A = a" "(a' + A * (b' + B * c')) mod A = a'" using assms(1,3) by simp_all
  then have a: "a = a'" using eq' by simp
  have "A \<noteq> 0" using assms(1) by simp
  then have 2: "b + B * c = b' + B * c'" using eq' a by simp
  have "(b + B * c) mod B = b" "(b' + B * c') mod B = b'" using assms(2,4) by simp_all
  then have b: "b = b'" using 2 by simp
  have "B \<noteq> 0" using assms(2) by simp
  then show ?thesis using 2 a b by simp
qed

lemma table_small:
  assumes "ogeo n"
  shows "unat (num_chk (geo_id n)) * unat (num_lun (geo_id n)) * unat (num_grp (geo_id n)) \<le> 2 ^ 31"
proof -
  have "unat (num_chk (geo_id n)) * unat (num_lun (geo_id n)) \<le> 2 ^ cl n * 2 ^ ll n" using assms by (intro mult_le_mono) (simp_all add: ogeo_def)
  also have "\<dots> \<le> 2 ^ (sl n + cl n + ll n)" by (simp add: power_add)
  finally have "unat (num_chk (geo_id n)) * unat (num_lun (geo_id n)) * unat (num_grp (geo_id n)) \<le> 2 ^ (sl n + cl n + ll n) * unat (num_grp (geo_id n))"
    by (intro mult_le_mono1)
  also have "\<dots> \<le> 2 ^ 31" using assms by (simp add: ogeo_def mult.commute)
  finally show ?thesis .
qed

lemma chunk_index:
  assumes g: "ogeo n" and v: "oc20_lba_valid n lba"
  shows "unat (oc20_lba_to_chunk_index n lba) = chnk n lba + punit n lba * unat (num_chk (geo_id n)) +
      grpn n lba * (unat (num_chk (geo_id n)) * unat (num_lun (geo_id n)))"
    "unat (oc20_lba_to_chunk_index n lba) < length (chunk_info n)"
proof -
  let ?A = "unat (num_chk (geo_id n))" and ?B = "unat (num_lun (geo_id n))" and ?C = "unat (num_grp (geo_id n))"
  let ?e = "chnk n lba + punit n lba * ?A + grpn n lba * (?A * ?B)"
  have b: "?e < ?A * ?B * ?C" using v by (intro mixed_bound) (simp_all add: valid_iff)
  have e: "oc20_lba_to_chunk_index n lba = of_nat ?e"
  proof -
    have "(of_nat (unat (chks_per_grp n)) :: u64) = of_nat (?A * ?B)" using g by (simp only: ogeo_def)
    then show ?thesis by (simp add: oc20_lba_to_chunk_index_def of_nat_unat)
  qed
  have "?e < 2 ^ 64" using b table_small [OF g] by simp
  then show "unat (oc20_lba_to_chunk_index n lba) = ?e" unfolding e by (simp only: unsigned_of_nat) (simp add: take_bit_nat_eq_self)
  then show "unat (oc20_lba_to_chunk_index n lba) < length (chunk_info n)" using b g by (simp add: ogeo_def)
qed

section \<open>Building an address\<close>

lemma small_bits:
  fixes w :: "'a::len word"
  assumes "unat w < 2 ^ k"
  shows "bit w i \<Longrightarrow> i < k"
proof (rule ccontr)
  assume "bit w i" "\<not> i < k"
  moreover have "take_bit k w = w" using assms by (simp add: word_unat_eq_iff unsigned_take_bit_eq take_bit_nat_eq_self)
  ultimately show False by (metis bit_take_bit_iff)
qed

lemma OC20_LBA_fields:
  fixes g l c s :: u64
  assumes n: "ogeo n" and b: "unat s < 2 ^ sl n" "unat c < 2 ^ cl n" "unat l < 2 ^ ll n" "unat g < unat (num_grp (geo_id n))"
  defines "x \<equiv> OC20_LBA (lbaf n) g l c s"
  shows "OC20_LBA_GET_SECTR (lbaf n) x = s" "OC20_LBA_GET_CHUNK (lbaf n) x = c" "OC20_LBA_GET_PUNIT (lbaf n) x = l" "OC20_LBA_GET_GROUP (lbaf n) x = g"
proof -
  have f: "sec_offset (lbaf n) = 0" "unat (chk_offset (lbaf n)) = sl n" "unat (lun_offset (lbaf n)) = sl n + cl n" "unat (grp_offset (lbaf n)) = sl n + cl n + ll n"
    "sec_mask (lbaf n) = mask (sl n)" "chk_mask (lbaf n) = push_bit (sl n) (mask (cl n))" "lun_mask (lbaf n) = push_bit (sl n + cl n) (mask (ll n))"
    using n by (simp_all add: ogeo_def)
  have "unat g * 2 ^ (sl n + cl n + ll n) < unat (num_grp (geo_id n)) * 2 ^ (sl n + cl n + ll n)" using b(4) by simp
  also have "\<dots> \<le> 2 ^ 31" using n by (simp add: ogeo_def)
  finally have gb: "unat g * 2 ^ (sl n + cl n + ll n) < 2 ^ 31" .
  have "(2::nat) ^ (sl n + cl n + ll n) \<le> unat (num_grp (geo_id n)) * 2 ^ (sl n + cl n + ll n)" using b(4) by (cases "unat (num_grp (geo_id n))") simp_all
  also have "\<dots> \<le> 2 ^ 31" using n by (simp add: ogeo_def)
  finally have w: "sl n + cl n + ll n \<le> 31" by (rule power_le_imp_le_exp [rotated]) simp
  have gs: "unat g < 2 ^ (31 - (sl n + cl n + ll n))"
  proof (rule ccontr)
    assume "\<not> ?thesis"
    then have "2 ^ (31 - (sl n + cl n + ll n)) * 2 ^ (sl n + cl n + ll n) \<le> unat g * 2 ^ (sl n + cl n + ll n)" by (intro mult_le_mono1) simp
    then show False using gb w by (simp flip: power_add)
  qed
  note bits = small_bits [OF b(1)] small_bits [OF b(2)] small_bits [OF b(3)] small_bits [OF gs]
  show "OC20_LBA_GET_SECTR (lbaf n) x = s" unfolding x_def OC20_LBA_def OC20_LBA_GET_SECTR_def f
    by (rule bit_word_eqI) (auto simp: bit_simps dest: bits)
  show "OC20_LBA_GET_CHUNK (lbaf n) x = c" unfolding x_def OC20_LBA_def OC20_LBA_GET_CHUNK_def f
    by (rule bit_word_eqI) (use w in \<open>auto simp: bit_simps dest: bits\<close>)
  show "OC20_LBA_GET_PUNIT (lbaf n) x = l" unfolding x_def OC20_LBA_def OC20_LBA_GET_PUNIT_def f
    by (rule bit_word_eqI) (use w in \<open>auto simp: bit_simps dest: bits\<close>)
  show "OC20_LBA_GET_GROUP (lbaf n) x = g" unfolding x_def OC20_LBA_def OC20_LBA_GET_GROUP_def f
    by (rule bit_word_eqI) (use w in \<open>auto simp: bit_simps dest: bits\<close>)
qed

section \<open>The set-up of a namespace\<close>

lemma clz_bits:
  fixes w :: "'a::len word"
  assumes "bit w j"
  shows "j < LENGTH('a) - clz w"
proof (rule ccontr)
  assume c: "\<not> ?thesis"
  have j: "j < LENGTH('a)" using assms by (rule bit_imp_le_length)
  let ?P = "\<lambda>i. \<not> bit w i" and ?xs = "rev [0..<LENGTH('a)]"
  have i: "LENGTH('a) - 1 - j < length (takeWhile ?P ?xs)" using c j by (simp add: clz_def)
  then have "?P (takeWhile ?P ?xs ! (LENGTH('a) - 1 - j))" using nth_mem set_takeWhileD by metis
  moreover have "takeWhile ?P ?xs ! (LENGTH('a) - 1 - j) = j" using i j by (simp add: takeWhile_nth rev_nth)
  ultimately show False using assms by simp
qed

lemma bit_len_covers:
  assumes "unat (bit_len x) \<le> 31"
  shows "unat x \<le> 2 ^ unat (bit_len x)" "x \<noteq> 0"
proof -
  let ?k = "32 - clz (x - 1)"
  have k: "unat (bit_len x) = ?k" by (simp add: bit_len_def unsigned_of_nat take_bit_nat_eq_self)
  have "take_bit ?k (x - 1) = x - 1" by (rule bit_word_eqI) (auto simp: bit_simps dest: clz_bits)
  then have "unat (x - 1) = take_bit ?k (unat (x - 1))" by (metis unsigned_take_bit_eq)
  then have w: "unat (x - 1) < 2 ^ ?k" by (metis take_bit_nat_less_exp)
  show "x \<noteq> 0"
  proof
    assume "x = 0"
    then have "unat (x - 1) = 2 ^ 32 - 1" by (simp add: unsigned_minus_1_eq_mask mask_eq_exp_minus_1)
    moreover have "(2::nat) ^ ?k \<le> 2 ^ 31" using assms k by (intro power_increasing) simp_all
    ultimately show False using w by simp
  qed
  then have "unat (x - 1) = unat x - 1" "0 < unat x" by (simp_all add: unat_minus_one unat_gt_0)
  then show "unat x \<le> 2 ^ unat (bit_len x)" using w k by simp
qed

lemma shifted_mask_eq:
  assumes "unat len + unat off \<le> 31"
  shows "shifted_mask len off = push_bit (unat off) (mask (unat len))"
proof (rule bit_word_eqI)
  fix i assume "i < LENGTH(64)"
  have "push_bit (unat len) 1 - 1 = (mask (unat len) :: u32)" by (simp add: mask_eq_exp_minus_1 push_bit_eq_mult)
  then show "bit (shifted_mask len off) i = bit (push_bit (unat off) (mask (unat len)) :: u64) i"
    using assms by (auto simp: shifted_mask_def int_to_u64_def bit_simps)
qed

text \<open>A configuration whose addresses have at most 30 bits and whose units have a chip each.\<close>

definition oc_config :: "OcCtrlParams \<Rightarrow> u64 \<Rightarrow> nat \<Rightarrow> bool" where
  "oc_config oc ns_blks ft \<longleftrightarrow> (case femu_oc20_init_id_ctrl oc ns_blks of
      None \<Rightarrow> False
    | Some (len, geo, _) \<Rightarrow> unat (sec_len len) + unat (chk_len len) + unat (lun_len len) + unat (grp_len len) \<le> 30 \<and>
        unat (num_grp geo) * unat (num_lun geo) \<le> FEMU_MAX_NUM_CHIPS \<and> ft < MAX_FLASH_TYPE)"

lemma init_id_ctrl_lens:
  assumes "femu_oc20_init_id_ctrl oc ns_blks = Some (len, geo, cap, wmin, wopt, mw)"
  shows "grp_len len = bit_len (ucast (num_grp geo))" "lun_len len = bit_len (ucast (num_lun geo))" "chk_len len = bit_len (num_chk geo)"
    "sec_len len = bit_len (clba geo)" "wmin = 4"
  using assms by (auto simp: femu_oc20_init_id_ctrl_def Let_def split: bind_splits)

lemma unat_16_32 [simp]: "unat (ucast (w :: u16) :: u32) = unat w"
  using unsigned_less [of w, where 'a = nat] by (simp add: unsigned_ucast_eq take_bit_nat_eq_self)

lemma unat_u8_sum:
  fixes a b c :: u8
  assumes "unat a + unat b + unat c \<le> 30"
  shows "unat (a + b + c) = unat a + unat b + unat c" "unat (a + b) = unat a + unat b"
proof -
  show ab: "unat (a + b) = unat a + unat b" using assms by (subst unat_add_lem [THEN iffD1]) simp_all
  then show "unat (a + b + c) = unat a + unat b + unat c" using assms by (subst unat_add_lem [THEN iffD1]) simp_all
qed

lemma unat_mult_u32: "unat (a :: u32) * unat b \<le> 2 ^ 31 \<Longrightarrow> unat (a * b) = unat a * unat b"
  by (subst unat_mult_lem [THEN iffD1]) simp_all

definition fresh_chunk :: "Oc20Namespace \<Rightarrow> Oc20CS \<Rightarrow> bool" where
  "fresh_chunk n c \<longleftrightarrow> cs_state c = OC20_CHUNK_FREE \<and> cs_type c = OC20_CHUNK_TYPE_SEQ \<and> cnlb c = ucast (clba (geo_id n)) \<and> cs_wp c = 0"

lemma set_resetfail_keeps:
  assumes "set_resetfail_chunk n line = Some (b, m)" and rf: "resetfail n = Some rf"
  shows "\<exists>rf'. length rf' = length rf \<and> m = n\<lparr>resetfail := Some rf'\<rparr>"
proof -
  have e: "n = n\<lparr>resetfail := Some rf\<rparr>" using rf by simp
  have "m = n \<or> (\<exists>i p. m = n\<lparr>resetfail := Some (rf[i := p])\<rparr>)"
    using assms by (auto simp: set_resetfail_chunk_def Let_def crash_simps split: option.splits if_splits bind_splits) blast
  then show ?thesis
  proof (elim disjE exE)
    assume "m = n"
    then show ?thesis using e by blast
  next
    fix i p assume "m = n\<lparr>resetfail := Some (rf[i := p])\<rparr>"
    then show ?thesis by (intro exI [of _ "rf[i := p]"]) simp
  qed
qed

lemma resetfail_load_keeps:
  assumes "oc20_resetfail_load n lines = Some (ok, n1)" "resetfail n = Some rf"
  shows "\<exists>rf'. length rf' = length rf \<and> n1 = n\<lparr>resetfail := Some rf'\<rparr>"
  using assms
proof (induction lines arbitrary: n rf)
  case Nil
  then have "n1 = n" "n = n\<lparr>resetfail := Some rf\<rparr>" by simp_all
  then show ?case by blast
next
  case (Cons line lines)
  obtain b m where m: "set_resetfail_chunk n line = Some (b, m)" using Cons.prems(1) by (auto split: bind_splits)
  obtain rf' where rf': "length rf' = length rf" "m = n\<lparr>resetfail := Some rf'\<rparr>" using set_resetfail_keeps [OF m Cons.prems(2)] by blast
  show ?case
  proof (cases b)
    case True
    then have l: "oc20_resetfail_load m lines = Some (ok, n1)" using Cons.prems(1) m by simp
    have "resetfail m = Some rf'" by (simp add: rf'(2))
    from Cons.IH [OF l this] obtain rf'' where "length rf'' = length rf'" "n1 = m\<lparr>resetfail := Some rf''\<rparr>" by blast
    then have "length rf'' = length rf \<and> n1 = n\<lparr>resetfail := Some rf''\<rparr>" by (simp add: rf')
    then show ?thesis by blast
  next
    case False
    then have "n1 = m" using Cons.prems(1) m by simp
    then show ?thesis using rf' by blast
  qed
qed

text \<open>The sizes fit the widths.\<close>

lemma config_sizes:
  assumes i: "femu_oc20_init_id_ctrl oc ns_blks = Some (len, geo, cap, wmin, wopt, mw)" and c: "oc_config oc ns_blks ft"
  shows "unat (clba geo) \<le> 2 ^ unat (sec_len len)" "unat (num_chk geo) \<le> 2 ^ unat (chk_len len)" "unat (num_lun geo) \<le> 2 ^ unat (lun_len len)"
    "unat (num_grp geo) * 2 ^ (unat (sec_len len) + unat (chk_len len) + unat (lun_len len)) \<le> 2 ^ 30"
    "unat (sec_len len) + unat (chk_len len) + unat (lun_len len) \<le> 30"
    "unat (num_chk geo * ucast (num_lun geo)) = unat (num_chk geo) * unat (num_lun geo)"
    "unat (num_chk geo * ucast (num_lun geo) * ucast (num_grp geo)) = unat (num_chk geo) * unat (num_lun geo) * unat (num_grp geo)"
proof -
  note l = init_id_ctrl_lens [OF i]
  have s: "unat (sec_len len) + unat (chk_len len) + unat (lun_len len) + unat (grp_len len) \<le> 30" using c i by (simp add: oc_config_def)
  then show w: "unat (sec_len len) + unat (chk_len len) + unat (lun_len len) \<le> 30" by simp
  show sz: "unat (clba geo) \<le> 2 ^ unat (sec_len len)" "unat (num_chk geo) \<le> 2 ^ unat (chk_len len)" "unat (num_lun geo) \<le> 2 ^ unat (lun_len len)"
    using bit_len_covers(1) [of "clba geo"] bit_len_covers(1) [of "num_chk geo"] bit_len_covers(1) [of "ucast (num_lun geo)"] s l by simp_all
  have g: "unat (num_grp geo) \<le> 2 ^ unat (grp_len len)" using bit_len_covers(1) [of "ucast (num_grp geo)"] s l by simp
  have "unat (num_grp geo) * 2 ^ (unat (sec_len len) + unat (chk_len len) + unat (lun_len len)) \<le>
    2 ^ unat (grp_len len) * 2 ^ (unat (sec_len len) + unat (chk_len len) + unat (lun_len len))" using g by (rule mult_le_mono1)
  also have "\<dots> \<le> (2::nat) ^ 30" unfolding power_add [symmetric] using s by (intro power_increasing) simp_all
  finally show gb: "unat (num_grp geo) * 2 ^ (unat (sec_len len) + unat (chk_len len) + unat (lun_len len)) \<le> 2 ^ 30" .
  have cl: "unat (num_chk geo) * unat (num_lun geo) \<le> 2 ^ (unat (chk_len len) + unat (lun_len len))"
    unfolding power_add using sz(2,3) by (rule mult_le_mono)
  also have "\<dots> \<le> (2::nat) ^ 31" using w by (intro power_increasing) simp_all
  finally show cl': "unat (num_chk geo * ucast (num_lun geo)) = unat (num_chk geo) * unat (num_lun geo)" using unat_mult_u32 [of "num_chk geo" "ucast (num_lun geo)"] by simp
  have "unat (num_chk geo) * unat (num_lun geo) * unat (num_grp geo) \<le> 2 ^ (unat (chk_len len) + unat (lun_len len)) * 2 ^ unat (grp_len len)"
    using cl g by (rule mult_le_mono)
  also have "\<dots> \<le> (2::nat) ^ 31" unfolding power_add [symmetric] using s by (intro power_increasing) simp_all
  finally show "unat (num_chk geo * ucast (num_lun geo) * ucast (num_grp geo)) = unat (num_chk geo) * unat (num_lun geo) * unat (num_grp geo)"
    using unat_mult_u32 [of "num_chk geo * ucast (num_lun geo)" "ucast (num_grp geo)"] cl' by simp
qed

lemma int_to_u64_small:
  assumes "unat w < 2 ^ 31"
  shows "int_to_u64 w = ucast w"
  unfolding int_to_u64_def by (rule bit_word_eqI) (auto simp: bit_simps min_def dest: small_bits [OF assms])

lemma ogeo_resetfail: "ogeo n \<Longrightarrow> length rf = length (chunk_info n) \<Longrightarrow> ogeo (n\<lparr>resetfail := Some rf\<rparr>)"
  by (simp add: ogeo_def sl_def cl_def ll_def)

lemma init_namespace_ok:
  assumes i: "oc20_init_namespace oc ns_blks early rf wfail ft = Some (ok, n)" and c: "oc_config oc ns_blks ft"
  shows "ogeo n \<and> list_all (fresh_chunk n) (chunk_info n) \<and> ws_min (params n) = 4 \<and> timing n = nand_flash_timing \<and>
    chip_next_avail_time n = replicate FEMU_MAX_NUM_CHIPS 0"
proof -
  obtain len geo cap wmin wopt mw where d: "femu_oc20_init_id_ctrl oc ns_blks = Some (len, geo, cap, wmin, wopt, mw)"
    using i by (auto simp: oc20_init_namespace_def split: bind_splits)
  note s = config_sizes [OF d c]
  have b: "unat (num_grp geo) * unat (num_lun geo) \<le> FEMU_MAX_NUM_CHIPS" "ft < MAX_FLASH_TYPE" using c d by (simp_all add: oc_config_def)
  define m where "m = oc20_init_chunk_info (calculated_values early ft len geo cap wmin wopt mw)"
  note mdef = m_def oc20_init_chunk_info_def calculated_values_def Let_def
  have wid: "sl m = unat (sec_len len)" "cl m = unat (chk_len len)" "ll m = unat (lun_len len)"
    by (simp_all add: mdef sl_def cl_def ll_def)
  note u = unat_u8_sum [OF s(5)]
  have "shifted_mask (sec_len len) 0 = mask (sl m)" using shifted_mask_eq [of "sec_len len" 0] s(5) by (simp add: wid)
  moreover have "shifted_mask (chk_len len) (sec_len len) = push_bit (sl m) (mask (cl m))" using shifted_mask_eq [of "chk_len len" "sec_len len"] s(5) by (simp add: wid)
  moreover have "shifted_mask (lun_len len) (sec_len len + chk_len len) = push_bit (sl m + cl m) (mask (ll m))"
    using shifted_mask_eq [of "lun_len len" "sec_len len + chk_len len"] s(5) u by (simp add: wid)
  ultimately have g: "ogeo m" unfolding ogeo_def using s u b by (simp add: wid) (simp add: mdef)
  have w4: "ws_min (params m) = 4" "timing m = nand_flash_timing" "chip_next_avail_time m = replicate FEMU_MAX_NUM_CHIPS 0"
    using init_id_ctrl_lens(5) [OF d] by (simp_all add: mdef)
  have "(2::nat) ^ unat (sec_len len) \<le> 2 ^ 30" using s(5) by (intro power_increasing) simp_all
  then have "unat (clba geo) < 2 ^ 31" using s(1) by simp
  then have f: "list_all (fresh_chunk m) (chunk_info m)"
    using int_to_u64_small by (simp add: mdef list_all_iff fresh_chunk_def)
  have e: "(case rf of None \<Rightarrow> Some (True, m)
      | Some lines \<Rightarrow> oc20_resetfail_load (m\<lparr>resetfail := Some (replicate (unat (chks_total m)) 0)\<rparr>) lines) = Some (ok, n)"
    using i unfolding oc20_init_namespace_def d m_def by (auto simp: Let_def split: bind_splits)
  show ?thesis
  proof (cases rf)
    case None
    then show ?thesis using e g f w4 by simp
  next
    case (Some lines)
    then have "oc20_resetfail_load (m\<lparr>resetfail := Some (replicate (unat (chks_total m)) 0)\<rparr>) lines = Some (ok, n)" using e by simp
    from resetfail_load_keeps [OF this] obtain r where r: "length r = unat (chks_total m)" "n = m\<lparr>resetfail := Some r\<rparr>" by auto
    have "length (chunk_info m) = unat (chks_total m)" by (simp add: mdef)
    then show ?thesis using ogeo_resetfail [OF g, of r] f w4 r by (simp add: fresh_chunk_def list_all_iff)
  qed
qed

end
