(* ===== verification/Oc20_Run.thy ===== *)
theory Oc20_Run
  imports Oc20_Addr
begin

text \<open>
  Commands of the open-channel device: that they return and keep the table of chunks consistent, what a write and a reset do to the sectors that hold
  data, and what the model shows of the faults of the code.
\<close>

section \<open>The invariant\<close>

definition chunk_ok :: "Oc20Namespace \<Rightarrow> Oc20CS \<Rightarrow> bool" where
  "chunk_ok n c \<longleftrightarrow> cs_type c = OC20_CHUNK_TYPE_SEQ \<and> cnlb c = ucast (clba (geo_id n)) \<and>
    (cs_state c = OC20_CHUNK_FREE \<and> cs_wp c = 0 \<or> cs_state c = OC20_CHUNK_OPEN \<and> cs_wp c < cnlb c \<or>
     cs_state c = OC20_CHUNK_CLOSED \<and> cs_wp c = cnlb c \<or> cs_state c = OC20_CHUNK_OFFLINE \<and> cs_wp c = 0xffff)"

definition oinv :: "Oc20Namespace \<Rightarrow> bool" where
  "oinv n \<longleftrightarrow> ogeo n \<and> ws_min (params n) = 4 \<and> (\<forall>c \<in> set (chunk_info n). chunk_ok n c)"

text \<open>What no command changes.\<close>

definition same_geo :: "Oc20Namespace \<Rightarrow> Oc20Namespace \<Rightarrow> bool" where
  "same_geo n n' \<longleftrightarrow> lbaf n' = lbaf n \<and> geo_id n' = geo_id n \<and> chks_per_grp n' = chks_per_grp n \<and> params n' = params n \<and> timing n' = timing n \<and>
    blk_ads n' = blk_ads n \<and> resetfail n' = resetfail n"

lemma same_geo_refl [simp]: "same_geo n n"
  by (simp add: same_geo_def)

lemma same_geo_trans: "same_geo n n1 \<Longrightarrow> same_geo n1 n2 \<Longrightarrow> same_geo n n2"
  by (simp add: same_geo_def)

lemma same_geo_upd [simp]: "same_geo n (n\<lparr>chunk_info := cs\<rparr>)" "same_geo n (n\<lparr>chip_next_avail_time := ts\<rparr>)"
  by (simp_all add: same_geo_def)

lemma same_geo_valid: "same_geo n n' \<Longrightarrow> oc20_lba_valid n' lba = oc20_lba_valid n lba"
  by (simp add: same_geo_def oc20_lba_valid_def)

lemma same_geo_index: "same_geo n n' \<Longrightarrow> oc20_lba_to_chunk_index n' lba = oc20_lba_to_chunk_index n lba"
  by (simp add: same_geo_def oc20_lba_to_chunk_index_def)

lemma same_geo_state: "same_geo n n' \<Longrightarrow> oc20_chunk_get_state n' lba = oc20_chunk_get_state n lba"
  by (simp add: oc20_chunk_get_state_def same_geo_valid same_geo_index)

lemma chunk_ok_upd [simp]: "chunk_ok (n\<lparr>chunk_info := cs\<rparr>) = chunk_ok n" "chunk_ok (n\<lparr>chip_next_avail_time := ts\<rparr>) = chunk_ok n"
  by (simp_all add: chunk_ok_def fun_eq_iff)

lemma ogeo_chips [wf_intros]: "ogeo n \<Longrightarrow> length ts = length (chip_next_avail_time n) \<Longrightarrow> ogeo (n\<lparr>chip_next_avail_time := ts\<rparr>)"
  by (simp add: ogeo_def sl_def cl_def ll_def)

lemma ogeo_chunks [wf_intros]: "ogeo n \<Longrightarrow> length cs = length (chunk_info n) \<Longrightarrow> ogeo (n\<lparr>chunk_info := cs\<rparr>)"
  by (simp add: ogeo_def sl_def cl_def ll_def)

lemma oinv_chips [wf_intros]: "oinv n \<Longrightarrow> length ts = length (chip_next_avail_time n) \<Longrightarrow> oinv (n\<lparr>chip_next_avail_time := ts\<rparr>)"
  by (simp add: oinv_def ogeo_chips)

lemma oinv_chunk [wf_intros]:
  assumes "oinv n" "chunk_ok n c"
  shows "oinv (n\<lparr>chunk_info := (chunk_info n)[i := c]\<rparr>)"
  using assms set_update_subset_insert [of "chunk_info n" i c] by (auto simp: oinv_def intro!: ogeo_chunks)

lemma get_state_in:
  assumes "ogeo n" "oc20_chunk_get_state n lba = Some i"
  shows "i < length (chunk_info n)" "oc20_lba_valid n lba" "i = unat (oc20_lba_to_chunk_index n lba)"
  using assms chunk_index(2) by (auto simp: oc20_chunk_get_state_def split: if_splits)

section \<open>Commands return\<close>

lemma check_chunk_write_returns: "oinv n \<Longrightarrow> \<exists>e. oc20_rw_check_chunk_write n lba ws = Some e"
  by (auto simp: oc20_rw_check_chunk_write_def Let_def oinv_def dest: get_state_in split: option.splits)

lemma check_runs_returns: "oinv n \<Longrightarrow> \<exists>e. check_runs n lba cidx sectr ws ls = Some e"
proof (induction ls arbitrary: lba cidx sectr ws)
  case Nil
  then show ?case by (simp add: check_chunk_write_returns)
next
  case (Cons x ls)
  obtain e where "oc20_rw_check_chunk_write n lba (ucast ws) = Some e" using check_chunk_write_returns [OF Cons.prems] by blast
  then show ?case using Cons by simp
qed

lemma check_write_req_returns: "oinv n \<Longrightarrow> ls \<noteq> [] \<Longrightarrow> \<exists>e. oc20_rw_check_write_req n ls = Some e"
  by (cases ls) (simp_all add: oc20_rw_check_write_req_def check_runs_returns)

lemma check_chunk_read_returns:
  assumes "oinv n"
  shows "\<exists>e. oc20_rw_check_chunk_read n lba = Some e \<and> (e = NVME_SUCCESS \<or> e = NVME_DULB)"
  using assms by (auto simp: oc20_rw_check_chunk_read_def Let_def oinv_def dest: get_state_in split: option.splits)

lemma check_reads_returns: "oinv n \<Longrightarrow> \<exists>pre. check_reads n i ls = Some (NVME_SUCCESS, pre)"
proof (induction ls arbitrary: i)
  case (Cons x ls)
  obtain e where e: "oc20_rw_check_chunk_read n x = Some e" "e = NVME_SUCCESS \<or> e = NVME_DULB" using check_chunk_read_returns [OF Cons.prems] by blast
  obtain pre where "check_reads n (Suc i) ls = Some (NVME_SUCCESS, pre)" using Cons by blast
  moreover have "\<not> (e \<noteq> 0 \<and> e AND NVME_DULB = 0)" using e(2) by (auto simp: status_defs)
  ultimately show ?case using e(1) by (auto split: if_splits)
qed simp

text \<open>The chips of valid addresses are in the table of chips.\<close>

definition bucket_ok :: "Oc20Namespace \<Rightarrow> Oc20AddrBucket \<Rightarrow> bool" where
  "bucket_ok n b \<longleftrightarrow> 0 \<le> bkt_ch b \<and> 0 \<le> bkt_lun b \<and>
    nat (bkt_ch b * uint (num_lun (geo_id n)) + bkt_lun b) < unat (num_grp (geo_id n)) * unat (num_lun (geo_id n))"

lemma to_c_int_small:
  assumes "unat w < 2 ^ 31"
  shows "to_c_int w = int (unat w)"
proof -
  have "int (unat w) < int (2 ^ 31)" using assms by (simp only: of_nat_less_iff)
  then have "0 \<le> uint w" "uint w < 2 ^ 31" by simp_all
  moreover have "signed_take_bit 31 (uint w) = uint w" using calculation order_trans [of "- (2 ^ 31)" 0 "uint w"] by (intro signed_take_bit_int_eq_self) simp_all
  ultimately show ?thesis by (simp add: to_c_int_def sint_uint unsigned_ucast_eq take_bit_int_eq_self)
qed

lemma valid_small:
  assumes "ogeo n" "oc20_lba_valid n lba"
  shows "unat lba < 2 ^ 31"
proof -
  have "unat lba div 2 ^ (sl n + cl n + ll n) < unat (num_grp (geo_id n))" using assms fields(4) [OF assms(1)] by (simp add: valid_iff)
  then have "unat lba < unat (num_grp (geo_id n)) * 2 ^ (sl n + cl n + ll n)" by (simp add: div_less_iff_less_mult)
  also have "\<dots> \<le> 2 ^ 31" using assms(1) by (simp add: ogeo_def)
  finally show ?thesis .
qed

lemma field_le: "ogeo n \<Longrightarrow> chnk n lba \<le> unat lba" "ogeo n \<Longrightarrow> punit n lba \<le> unat lba" "ogeo n \<Longrightarrow> grpn n lba \<le> unat lba"
  using fields [of n lba] by (metis div_le_dividend le_trans mod_less_eq_dividend)+

lemma bucket_of_valid:
  assumes "ogeo n" "oc20_lba_valid n lba"
  shows "bucket_ok n \<lparr>bkt_ch = to_c_int (OC20_LBA_GET_GROUP (lbaf n) lba), bkt_lun = to_c_int (OC20_LBA_GET_PUNIT (lbaf n) lba), bkt_cnt = k\<rparr>"
proof -
  note v = valid_small [OF assms]
  have s: "to_c_int (OC20_LBA_GET_GROUP (lbaf n) lba) = int (grpn n lba)" "to_c_int (OC20_LBA_GET_PUNIT (lbaf n) lba) = int (punit n lba)"
    using to_c_int_small field_le(2,3) [OF assms(1), of lba] v by (meson le_less_trans)+
  have "punit n lba + grpn n lba * unat (num_lun (geo_id n)) < unat (num_lun (geo_id n)) * unat (num_grp (geo_id n))"
    using mixed_bound [of 0 1 "punit n lba" "unat (num_lun (geo_id n))" "grpn n lba" "unat (num_grp (geo_id n))"] assms(2) by (simp add: valid_iff)
  moreover have "nat (int (grpn n lba) * uint (num_lun (geo_id n)) + int (punit n lba)) = punit n lba + grpn n lba * unat (num_lun (geo_id n))"
    by (simp add: nat_add_distrib nat_mult_distrib)
  ultimately show ?thesis by (simp add: bucket_ok_def s mult.commute)
qed

lemma parse_loop_ok:
  assumes n: "ogeo n"
  shows "\<forall>lba \<in> set ls. oc20_lba_valid n lba \<Longrightarrow> (\<forall>b \<in> set bs. bucket_ok n b) \<Longrightarrow> bs \<noteq> [] \<or> prev = NOT 0 \<Longrightarrow>
    \<exists>bs'. parse_loop (lbaf n) prev bs ls = Some bs' \<and> (\<forall>b \<in> set bs'. bucket_ok n b) \<and> (bs \<noteq> [] \<or> ls \<noteq> [] \<longrightarrow> bs' \<noteq> [])"
proof (induction ls arbitrary: bs prev)
  case (Cons lba ls)
  have v: "oc20_lba_valid n lba" using Cons.prems(1) by simp
  let ?cur = "lba AND NOT (sec_mask (lbaf n))"
  show ?case
  proof (cases "?cur = prev")
    case True
    have "\<not> bit lba 63" using small_bits [OF valid_small [OF n v], of 63] by auto
    then have "\<not> bit ?cur 63" by (simp add: bit_and_iff)
    moreover have "bit (NOT 0 :: u64) 63" by simp
    ultimately have "?cur \<noteq> NOT 0" by metis
    then obtain b bs1 where b: "bs = b # bs1" using Cons.prems(3) True by (cases bs) auto
    have "bucket_ok n (b\<lparr>bkt_cnt := bkt_cnt b + 1\<rparr>)" using Cons.prems(2) b by (simp add: bucket_ok_def)
    then show ?thesis using Cons.IH [of "b\<lparr>bkt_cnt := bkt_cnt b + 1\<rparr> # bs1" prev] Cons.prems b True by (simp add: Let_def)
  next
    case False
    then show ?thesis
      using Cons.IH [of "\<lparr>bkt_ch = to_c_int (OC20_LBA_GET_GROUP (lbaf n) lba), bkt_lun = to_c_int (OC20_LBA_GET_PUNIT (lbaf n) lba), bkt_cnt = 1\<rparr> # bs" ?cur]
        Cons.prems bucket_of_valid [OF n v] by (simp add: Let_def)
  qed
qed simp

lemma parse_lba_list_ok:
  assumes "ogeo n" "\<forall>lba \<in> set ls. oc20_lba_valid n lba" "ls \<noteq> []"
  shows "\<exists>bs. oc20_parse_lba_list n ls = Some bs \<and> bs \<noteq> [] \<and> (\<forall>b \<in> set bs. bucket_ok n b)"
  using parse_loop_ok [OF assms(1,2), of "[]" "NOT 0"] assms(3) by (auto simp: oc20_parse_lba_list_def)

lemma chip_latency_total:
  assumes "tm = nand_flash_timing \<or> tm = init_nand_flash_timing" "ft < MAX_FLASH_TYPE" "op = OC20_CMD_VECT_READ \<or> op = OC20_CMD_VECT_WRITE"
  shows "\<exists>lat. chip_latency tm ft op 0 = Some lat"
  using assms by (auto simp: chip_latency_def get_page_read_latency_def get_page_write_latency_def init_nand_flash_timing_def nand_flash_timing_def
    lat_row_def flash_defs oc20_defs NVME_CMD_OC_READ_def NVME_CMD_OC_WRITE_def numeral_eq_Suc less_Suc_eq nth_Cons)

text \<open>The clocks of the chips change, nothing else.\<close>

lemma advance_chip_returns:
  assumes "chip_latency tm ft op ty = Some lat" "0 \<le> lunid" "nat lunid < length chips"
  shows "advance_chip_timestamp tm ft chips lunid now op ty = Some (max now (chips ! nat lunid) + lat, chips[nat lunid := max now (chips ! nat lunid) + lat])"
  using assms by (auto simp: advance_chip_timestamp_def Let_def max_def)

lemma bucket_step_ok:
  assumes n: "ogeo n" and b: "bucket_ok n b" and op: "op = OC20_CMD_VECT_READ \<or> op = OC20_CMD_VECT_WRITE"
  shows "\<exists>lat i. chip_latency (timing n) (flash_type n) op 0 = Some lat \<and> i < length (chip_next_avail_time n) \<and>
    bucket_step op now wr b (need, n) = Some (max need (max now (chip_next_avail_time n ! i) + lat - now),
      n\<lparr>chip_next_avail_time := (chip_next_avail_time n)[i := max now (chip_next_avail_time n ! i) + lat]\<rparr>)"
proof -
  let ?id = "bkt_ch b * uint (num_lun (geo_id n)) + bkt_lun b"
  obtain lat where lat: "chip_latency (timing n) (flash_type n) op 0 = Some lat" using chip_latency_total [OF _ _ op] n unfolding ogeo_def by blast
  have "0 \<le> ?id" using b by (simp add: bucket_ok_def)
  moreover have "nat ?id < length (chip_next_avail_time n)" using b n by (auto simp: bucket_ok_def ogeo_def)
  ultimately show ?thesis using lat
    by (intro exI [of _ lat] exI [of _ "nat ?id"]) (simp add: bucket_step_def advance_chip_returns advance_channel_timestamp_def Let_def)
qed

lemma lba_status_ok:
  assumes n: "ogeo n" and v: "\<forall>lba \<in> set ls. oc20_lba_valid n lba" "ls \<noteq> []" and op: "op = OC20_CMD_VECT_READ \<or> op = OC20_CMD_VECT_WRITE"
  shows "\<exists>t ts. oc20_advance_status n op now wr ls = Some (t, n\<lparr>chip_next_avail_time := ts\<rparr>) \<and> length ts = length (chip_next_avail_time n)"
proof -
  obtain bs where bs: "oc20_parse_lba_list n ls = Some bs" "bs \<noteq> []" "\<forall>b \<in> set bs. bucket_ok n b" using parse_lba_list_ok [OF n v] by blast
  let ?I = "\<lambda>s :: int \<times> Oc20Namespace. \<exists>ts. snd s = n\<lparr>chip_next_avail_time := ts\<rparr> \<and> length ts = length (chip_next_avail_time n)"
  have "\<exists>s. ofold (bucket_step op now wr) bs (0, n) = Some s \<and> ?I s"
  proof (rule ofold_invariant)
    show "?I (0, n)" by (intro exI [of _ "chip_next_avail_time n"]) simp
  next
    fix b s assume b: "b \<in> set bs" and "?I s"
    then obtain need ts where s: "s = (need, n\<lparr>chip_next_avail_time := ts\<rparr>)" "length ts = length (chip_next_avail_time n)" by (cases s) auto
    have "ogeo (n\<lparr>chip_next_avail_time := ts\<rparr>)" using n s(2) by (rule ogeo_chips)
    moreover have "bucket_ok (n\<lparr>chip_next_avail_time := ts\<rparr>) b" using bs(3) b by (simp add: bucket_ok_def)
    ultimately obtain t i v where "bucket_step op now wr b s = Some (t, n\<lparr>chip_next_avail_time := ts[i := v]\<rparr>)"
      using bucket_step_ok [OF _ _ op, of "n\<lparr>chip_next_avail_time := ts\<rparr>" b now wr need] s(1) by auto
    then show "\<exists>s'. bucket_step op now wr b s = Some s' \<and> ?I s'" using s(2)
      by (intro exI [of _ "(t, n\<lparr>chip_next_avail_time := ts[i := v]\<rparr>)"] conjI exI [of _ "ts[i := v]"]) simp_all
  qed
  then obtain t ts where "ofold (bucket_step op now wr) bs (0, n) = Some (t, n\<lparr>chip_next_avail_time := ts\<rparr>)" "length ts = length (chip_next_avail_time n)" by auto
  then show ?thesis using bs(1,2) op by (auto simp: oc20_advance_status_def)
qed

lemma advance_wp_returns: "ogeo n \<Longrightarrow> \<exists>e n'. oc20_advance_wp n lba nlb = Some (e, n') \<and> same_geo n n'"
  by (auto simp: oc20_advance_wp_def Let_def dest: get_state_in split: option.splits)

lemma req_lbas_nonempty: "req_lbas req \<noteq> []"
  by (auto simp: req_lbas_def req_nlb_def word_less_nat_alt)

text \<open>The result of a vector command, by its cases: it is refused, and nothing changes; or the clocks advance and the write pointer of the chunk of the first
  address.\<close>

lemma oc20_rw_cases:
  assumes n: "oinv n" and v: "\<forall>lba \<in> set (req_lbas req). oc20_lba_valid n lba" and op: "oc_opcode req = OC20_CMD_VECT_READ \<or> oc_opcode req = OC20_CMD_VECT_WRITE"
  shows "(\<exists>e out t pre. oc20_rw n req = Some (e, out, t, pre, n) \<and> e \<noteq> NVME_SUCCESS \<and> out = []) \<or>
    (\<exists>t pre ts e n'. oc20_rw n req = Some (NVME_SUCCESS, [Vec_rw (oc_opcode req = OC20_CMD_VECT_WRITE) (map (push_bit (blk_ads n)) (req_lbas req))], t, pre, n') \<and>
      length ts = length (chip_next_avail_time n) \<and>
      (if oc_opcode req = OC20_CMD_VECT_WRITE
       then oc20_rw_check_write_req n (req_lbas req) = Some 0 \<and> req_nlb req \<le> OC20_CMD_MAX_LBAS \<and>
         oc20_advance_wp (n\<lparr>chip_next_avail_time := ts\<rparr>) (hd (req_lbas req)) (ucast (req_nlb req)) = Some (e, n')
       else n' = n\<lparr>chip_next_avail_time := ts\<rparr>))"
proof -
  have g: "ogeo n" using n by (simp add: oinv_def)
  have w: "oc_opcode req \<noteq> NVME_CMD_WRITE" using op by (auto simp: oc20_defs cmd_defs)
  let ?w = "oc_opcode req = OC20_CMD_VECT_WRITE"
  obtain t ts where a: "oc20_advance_status n (oc_opcode req) (stime req) ?w (req_lbas req) = Some (t, n\<lparr>chip_next_avail_time := ts\<rparr>)" "length ts = length (chip_next_avail_time n)"
    using lba_status_ok [OF g v req_lbas_nonempty op] by blast
  obtain e0 where e0: "oc20_rw_check_write_req n (req_lbas req) = Some e0"
    using check_write_req_returns [OF n req_lbas_nonempty] by blast
  obtain pre where pre: "oc20_rw_check_read_req n (req_lbas req) = Some (NVME_SUCCESS, pre)" using check_reads_returns [OF n] by (auto simp: oc20_rw_check_read_req_def)
  obtain e n' where p: "oc20_advance_wp (n\<lparr>chip_next_avail_time := ts\<rparr>) (hd (req_lbas req)) (ucast (req_nlb req)) = Some (e, n')"
    using advance_wp_returns [OF ogeo_chips [OF g a(2)]] by blast
  have ne: "NVME_INVALID_FIELD OR NVME_DNR \<noteq> NVME_SUCCESS" "NVME_SUCCESS = 0" by (simp_all add: status_defs)
  note rw = oc20_rw_def w Let_def
  consider (big) "req_nlb req > OC20_CMD_MAX_LBAS" | (bad) "\<not> req_nlb req > OC20_CMD_MAX_LBAS" "?w" "e0 \<noteq> 0" |
    (prp) "\<not> req_nlb req > OC20_CMD_MAX_LBAS" "\<not> (?w \<and> e0 \<noteq> 0)" "\<not> prp_ok req" |
    (wrok) "\<not> req_nlb req > OC20_CMD_MAX_LBAS" "?w" "e0 = 0" "prp_ok req" | (rdok) "\<not> req_nlb req > OC20_CMD_MAX_LBAS" "\<not> ?w" "prp_ok req" by blast
  then show ?thesis
  proof cases
    case big
    then have "oc20_rw n req = Some (NVME_INVALID_FIELD OR NVME_DNR, [], 0, [], n)" by (simp add: rw)
    then show ?thesis using ne(1) by blast
  next
    case bad
    then have "oc20_rw n req = Some (e0, [], 0, [], n)" "e0 \<noteq> NVME_SUCCESS" using e0 ne(2) by (simp_all add: rw)
    then show ?thesis by blast
  next
    case prp
    then have "oc20_rw n req = Some (NVME_INVALID_FIELD OR NVME_DNR, [], 0, if ?w then [] else pre, n)" using e0 pre ne(2) by (simp add: rw)
    then show ?thesis using ne(1) by blast
  next
    case wrok
    then have "oc20_rw n req = Some (NVME_SUCCESS, [Vec_rw ?w (map (push_bit (blk_ads n)) (req_lbas req))], t, [], n')" using e0 a(1) p by (simp add: rw)
    moreover have "oc20_rw_check_write_req n (req_lbas req) = Some 0" "req_nlb req \<le> OC20_CMD_MAX_LBAS" using wrok e0 by simp_all
    ultimately show ?thesis using a(2) p wrok(2) by (metis (no_types))
  next
    case rdok
    then have "oc20_rw n req = Some (NVME_SUCCESS, [Vec_rw ?w (map (push_bit (blk_ads n)) (req_lbas req))], t, pre, n\<lparr>chip_next_avail_time := ts\<rparr>)"
      using pre ne(2) a(1) by (simp add: rw)
    then show ?thesis using a(2) rdok(2) by (metis (no_types))
  qed
qed

section \<open>Writes within a chunk\<close>

lemma address_inj:
  assumes n: "ogeo n" and v: "oc20_lba_valid n x" "oc20_lba_valid n y"
    and eq: "oc20_lba_to_chunk_index n x = oc20_lba_to_chunk_index n y" "sect n x = sect n y"
  shows "x = y"
proof -
  have "chnk n x = chnk n y \<and> punit n x = punit n y \<and> grpn n x = grpn n y"
    using v chunk_index(1) [OF n v(1)] chunk_index(1) [OF n v(2)] eq(1)
    by (intro mixed_inj [of _ "unat (num_chk (geo_id n))" _ "unat (num_lun (geo_id n))"]) (simp_all add: valid_iff)
  then have "unat x = unat y" using eq(2) fields [OF n] field_decomp [of "unat x" "sl n" "cl n" "ll n"] field_decomp [of "unat y" "sl n" "cl n" "ll n"]
    by (simp only:)
  then show ?thesis by (simp add: word_unat_eq_iff)
qed

lemma sect_small: "ogeo n \<Longrightarrow> oc20_lba_valid n lba \<Longrightarrow> sect n lba < 2 ^ 31"
  using valid_small [of n lba] fields(1) [of n lba] mod_less_eq_dividend [of "unat lba" "2 ^ sl n"] by (metis le_less_trans)

lemma check_runs_one_chunk:
  assumes "check_runs n lba cidx sectr ws ls = Some 0" "\<forall>x \<in> set ls. oc20_lba_to_chunk_index n x = cidx"
    "unat sectr + length ls < 2 ^ 32"
  shows "oc20_rw_check_chunk_write n lba (ucast (ws + of_nat (length ls))) = Some 0 \<and> (\<forall>j < length ls. sect n (ls ! j) = unat sectr + j + 1)"
  using assms
proof (induction ls arbitrary: sectr ws)
  case (Cons x ls)
  have 1: "unat (sectr + 1) = unat sectr + 1" using Cons.prems(3) by (subst unat_add_lem [THEN iffD1]) simp_all
  have x: "ucast (sectr + 1) = OC20_LBA_GET_SECTR (lbaf n) x"
    using Cons.prems(1,2) by (auto simp: NVME_DNR_def OC20_OUT_OF_ORDER_WRITE_def split: if_splits)
  have c: "check_runs n lba cidx (sectr + 1) (ws + 1) ls = Some 0" using Cons.prems(1,2) x by simp
  have s: "sect n x = unat sectr + 1" using arg_cong [OF x, of unat] 1 by simp
  have "oc20_rw_check_chunk_write n lba (ucast (ws + 1 + of_nat (length ls))) = Some 0 \<and> (\<forall>j < length ls. sect n (ls ! j) = unat (sectr + 1) + j + 1)"
    using Cons.IH [OF c] Cons.prems(2,3) 1 by simp
  then show ?case using s 1 by (auto simp: nth_Cons add.assoc split: nat.splits)
qed simp

lemma check_chunk_write_passes:
  assumes n: "oinv n" and v: "oc20_lba_valid n lba" and c: "oc20_rw_check_chunk_write n lba ws = Some 0" and w: "unat ws \<le> 2 ^ 16"
  defines "c \<equiv> chunk_info n ! unat (oc20_lba_to_chunk_index n lba)"
  shows "cs_state c = OC20_CHUNK_FREE \<or> cs_state c = OC20_CHUNK_OPEN" "unat (cs_wp c) = sect n lba" "sect n lba + unat ws \<le> unat (clba (geo_id n))"
proof -
  have g: "ogeo n" "ws_min (params n) = 4" using n by (simp_all add: oinv_def)
  have st: "oc20_chunk_get_state n lba = Some (unat (oc20_lba_to_chunk_index n lba))" using v by (simp add: oc20_chunk_get_state_def)
  have i: "unat (oc20_lba_to_chunk_index n lba) < length (chunk_info n)" using chunk_index(2) [OF g(1) v] .
  have ok: "chunk_ok n c" using n i by (simp add: oinv_def c_def)
  define s where "s = (ucast (lba AND sec_mask (lbaf n)) :: u32)"
  have "OC20_LBA_GET_SECTR (lbaf n) lba = lba AND sec_mask (lbaf n)" using g(1) by (simp add: OC20_LBA_GET_SECTR_def ogeo_def)
  then have s: "unat s = sect n lba" using sect_small [OF g(1) v] by (simp add: s_def unsigned_ucast_eq take_bit_nat_eq_self)
  have e: "unat (s + ws) = sect n lba + unat ws" using sect_small [OF g(1) v] w s by (subst unat_add_lem [THEN iffD1]) simp_all
  have nz: "NVME_WRITE_FAULT OR NVME_DNR \<noteq> 0" "NVME_INVALID_FIELD OR NVME_DNR \<noteq> 0" "OC20_OUT_OF_ORDER_WRITE OR NVME_DNR \<noteq> 0"
    "OC20_CHUNK_TYPE_SEQ \<noteq> OC20_CHUNK_TYPE_RAN" by (simp_all add: status_defs oc20_defs)
  have t: "cs_type c = OC20_CHUNK_TYPE_SEQ" using ok by (simp add: chunk_ok_def)
  have r: "cs_state c AND OC20_CHUNK_OFFLINE = 0 \<and> cs_state c AND OC20_CHUNK_CLOSED = 0 \<and> \<not> ucast (s + ws) > cnlb c \<and> ucast s = cs_wp c"
    using c st i t g(2) nz unfolding oc20_rw_check_chunk_write_def by (auto simp: Let_def simp flip: s_def c_def split: if_splits)
  then show "cs_state c = OC20_CHUNK_FREE \<or> cs_state c = OC20_CHUNK_OPEN" using ok by (auto simp: chunk_ok_def oc20_defs)
  show "unat (cs_wp c) = sect n lba" using r s unat_up32 [of s] by metis
  have "unat (s + ws) \<le> unat (cnlb c)" using r by (simp add: word_less_nat_alt)
  then show "sect n lba + unat ws \<le> unat (clba (geo_id n))" using e ok by (simp add: chunk_ok_def)
qed

lemma req_nlb_pos: "0 < unat (req_nlb req)"
proof -
  have "unat (ucast (nlb0 req) :: u32) < 2 ^ 16" using unsigned_less [of "nlb0 req", where 'a = nat] by simp
  then have "unat (req_nlb req) = unat (nlb0 req) + 1" unfolding req_nlb_def by (subst unat_add_lem [THEN iffD1]) simp_all
  then show ?thesis by simp
qed

lemma length_req_lbas: "length (req_lbas req) = unat (req_nlb req)"
proof (cases "req_nlb req > 1")
  case False
  then have "unat (req_nlb req) = 1" using req_nlb_pos [of req] by (simp add: word_less_nat_alt)
  then show ?thesis using False by (simp add: req_lbas_def)
qed (simp add: req_lbas_def)

text \<open>The sectors of a write that is accepted are those at the write pointer.\<close>

lemma write_req_passes:
  assumes n: "oinv n" and v: "\<forall>x \<in> set lbas. oc20_lba_valid n x" "\<forall>x \<in> set lbas. oc20_lba_to_chunk_index n x = oc20_lba_to_chunk_index n (hd lbas)"
    and c: "oc20_rw_check_write_req n lbas = Some 0" and l: "length lbas \<le> 64"
  defines "c \<equiv> chunk_info n ! unat (oc20_lba_to_chunk_index n (hd lbas))"
  shows "(cs_state c = OC20_CHUNK_FREE \<or> cs_state c = OC20_CHUNK_OPEN) \<and> unat (cs_wp c) + length lbas \<le> unat (clba (geo_id n)) \<and>
    (\<forall>j < length lbas. sect n (lbas ! j) = unat (cs_wp c) + j)"
proof -
  obtain a ls where ls: "lbas = a # ls" using c by (cases lbas) (simp_all add: oc20_rw_check_write_req_def)
  have g: "ogeo n" using n by (simp add: oinv_def)
  have a: "oc20_lba_valid n a" using v(1) ls by simp
  have s: "unat (ucast (OC20_LBA_GET_SECTR (lbaf n) a) :: u32) = sect n a" using sect_small [OF g a] by (simp add: unsigned_ucast_eq take_bit_nat_eq_self)
  have c': "check_runs n a (oc20_lba_to_chunk_index n a) (ucast (OC20_LBA_GET_SECTR (lbaf n) a)) 1 ls = Some 0" using c by (simp only: oc20_rw_check_write_req_def ls list.case)
  have x: "\<forall>x \<in> set ls. oc20_lba_to_chunk_index n x = oc20_lba_to_chunk_index n a" using v(2) ls by simp
  have b: "unat (ucast (OC20_LBA_GET_SECTR (lbaf n) a) :: u32) + length ls < 2 ^ 32" unfolding s using sect_small [OF g a] l ls by simp
  have r: "oc20_rw_check_chunk_write n a (ucast (1 + of_nat (length ls) :: u16)) = Some 0" "\<forall>j < length ls. sect n (ls ! j) = sect n a + j + 1"
    using check_runs_one_chunk [OF c' x b] unfolding s by blast+
  have w: "unat (1 + of_nat (length ls) :: u16) = length lbas" using l by (simp add: ls unsigned_of_nat take_bit_nat_eq_self unat_word_ariths)
  have w': "unat (ucast (1 + of_nat (length ls) :: u16) :: u32) = length lbas" using w by simp
  note p = check_chunk_write_passes [OF n a r(1)]
  show ?thesis using p l w' r(2) by (auto simp: c_def ls nth_Cons split: nat.splits)
qed

text \<open>The sectors that hold data.\<close>

definition oc_written :: "Oc20Namespace \<Rightarrow> u64 set" where
  "oc_written n = {lba. oc20_lba_valid n lba \<and> sect n lba < unat (cs_wp (chunk_info n ! unat (oc20_lba_to_chunk_index n lba)))}"

lemma advance_wp_one_chunk:
  assumes n: "oinv n" and v: "oc20_lba_valid n lba"
  defines "i \<equiv> unat (oc20_lba_to_chunk_index n lba)"
  defines "c \<equiv> chunk_info n ! i"
  assumes s: "cs_state c = OC20_CHUNK_FREE \<or> cs_state c = OC20_CHUNK_OPEN" and w: "unat (cs_wp c) + unat nlb \<le> unat (clba (geo_id n))" "0 < unat nlb"
    and a: "oc20_advance_wp n lba nlb = Some (e, n')"
  shows "\<exists>c'. n' = n\<lparr>chunk_info := (chunk_info n)[i := c']\<rparr> \<and> unat (cs_wp c') = unat (cs_wp c) + unat nlb \<and> chunk_ok n c' \<and> e = NVME_SUCCESS"
proof -
  have g: "ogeo n" using n by (simp add: oinv_def)
  have i: "i < length (chunk_info n)" using chunk_index(2) [OF g v] by (simp add: i_def)
  have ok: "chunk_ok n c" using n i by (simp add: oinv_def c_def)
  have st: "oc20_chunk_get_state n lba = Some i" using v by (simp add: oc20_chunk_get_state_def i_def)
  have "unat (clba (geo_id n)) < 2 ^ 32" using unsigned_less [of "clba (geo_id n)", where 'a = nat] by simp
  then have u: "unat (cs_wp c + ucast nlb) = unat (cs_wp c) + unat nlb" using w(1) by (subst unat_add_lem [THEN iffD1]) simp_all
  define c' where "c' = c\<lparr>cs_state := (if cs_wp c + ucast nlb = cnlb c then OC20_CHUNK_CLOSED else OC20_CHUNK_OPEN), cs_wp := cs_wp c + ucast nlb\<rparr>"
  have "n' = n\<lparr>chunk_info := (chunk_info n)[i := c']\<rparr> \<and> e = NVME_SUCCESS"
    using a st i ok s unfolding oc20_advance_wp_def by (auto simp: Let_def chunk_ok_def c'_def oc20_defs simp flip: c_def
      intro!: arg_cong [where f = "\<lambda>x. n\<lparr>chunk_info := (chunk_info n)[i := x]\<rparr>"] Oc20CS.equality)
  moreover have "chunk_ok n c'" using ok w(1) u by (auto simp: c'_def chunk_ok_def word_less_nat_alt word_unat_eq_iff)
  ultimately show ?thesis using u by (auto simp: c'_def)
qed

lemma written_chips [simp]: "oc_written (n\<lparr>chip_next_avail_time := ts\<rparr>) = oc_written n"
  by (simp add: oc_written_def oc20_lba_valid_def oc20_lba_to_chunk_index_def)

lemma written_other:
  assumes "i \<noteq> unat (oc20_lba_to_chunk_index n x)"
  shows "x \<in> oc_written (n\<lparr>chunk_info := (chunk_info n)[i := c]\<rparr>) \<longleftrightarrow> x \<in> oc_written n"
  using assms same_geo_valid [of n "n\<lparr>chunk_info := (chunk_info n)[i := c]\<rparr>"] same_geo_index [of n "n\<lparr>chunk_info := (chunk_info n)[i := c]\<rparr>"]
  by (simp add: oc_written_def)

text \<open>Moving the write pointer of a chunk over the sectors of the list adds them to the sectors that hold data.\<close>

lemma written_advance:
  assumes g: "ogeo n" and v: "\<forall>x \<in> set lbas. oc20_lba_valid n x" "\<forall>x \<in> set lbas. oc20_lba_to_chunk_index n x = k" and i: "i = unat k" "i < length (chunk_info n)"
    and s: "\<forall>j < length lbas. sect n (lbas ! j) = unat (cs_wp (chunk_info n ! i)) + j" and c: "unat (cs_wp c) = unat (cs_wp (chunk_info n ! i)) + length lbas"
  shows "oc_written (n\<lparr>chunk_info := (chunk_info n)[i := c]\<rparr>) = oc_written n \<union> set lbas" "set lbas \<inter> oc_written n = {}" "distinct lbas"
proof -
  let ?n = "n\<lparr>chunk_info := (chunk_info n)[i := c]\<rparr>" and ?w = "unat (cs_wp (chunk_info n ! i))"
  have eq: "oc20_lba_valid ?n x = oc20_lba_valid n x" "oc20_lba_to_chunk_index ?n x = oc20_lba_to_chunk_index n x" for x by (simp_all add: same_geo_valid same_geo_index)
  have in': "x \<in> set lbas" if "oc20_lba_valid n x" "unat (oc20_lba_to_chunk_index n x) = i" "?w \<le> sect n x" "sect n x < ?w + length lbas" for x
  proof -
    let ?y = "lbas ! (sect n x - ?w)"
    have l: "sect n x - ?w < length lbas" using that(3,4) by simp
    then have y: "?y \<in> set lbas" by simp
    have "sect n ?y = sect n x" using s l that(3) by simp
    moreover have "oc20_lba_to_chunk_index n x = oc20_lba_to_chunk_index n ?y" using v(2) y that(2) i(1) by (simp add: word_unat_eq_iff)
    ultimately have "x = ?y" using address_inj [OF g that(1), of ?y] v(1) y by simp
    then show ?thesis using y by simp
  qed
  have on: "unat (oc20_lba_to_chunk_index n x) = i \<and> oc20_lba_valid n x \<and> ?w \<le> sect n x \<and> sect n x < ?w + length lbas" if "x \<in> set lbas" for x
    using that s v i(1) by (auto simp: in_set_conv_nth)
  show "oc_written ?n = oc_written n \<union> set lbas"
  proof (rule set_eqI)
    fix x
    show "x \<in> oc_written ?n \<longleftrightarrow> x \<in> oc_written n \<union> set lbas"
    proof (cases "unat (oc20_lba_to_chunk_index n x) = i")
      case True
      then show ?thesis using in' [OF _ True] on [of x] i(2) c by (cases "?w \<le> sect n x") (auto simp: oc_written_def eq not_less)
    next
      case False
      then show ?thesis using on [of x] written_other [of i n x c] by auto
    qed
  qed
  show "set lbas \<inter> oc_written n = {}" using on by (fastforce simp: oc_written_def)
  show "distinct lbas" using s by (metis distinct_conv_nth add_left_cancel)
qed

section \<open>Resets\<close>

lemma set_free_ok:
  assumes n: "oinv n"
  shows "\<exists>e out n'. oc20_chunk_set_free n lba mp d = Some (e, out, n') \<and> oinv n' \<and> same_geo n n' \<and> (\<forall>a. Vec_rw True a \<notin> set out) \<and>
    (n' = n \<or> oc20_lba_valid n lba \<and> (\<exists>c. n' = n\<lparr>chunk_info := (chunk_info n)[unat (oc20_lba_to_chunk_index n lba) := c]\<rparr>))"
proof (cases "oc20_chunk_get_state n lba")
  case None
  then show ?thesis using n by (simp add: oc20_chunk_set_free_def)
next
  case (Some i)
  have g: "ogeo n" using n by (simp add: oinv_def)
  note i = get_state_in [OF g Some]
  define c where "c = chunk_info n ! i"
  have ok: "chunk_ok n c" using n i(1) by (simp add: oinv_def c_def)
  obtain prob where p: "(case resetfail n of None \<Rightarrow> Some 0 | Some ps \<Rightarrow> aget ps i) = Some prob" using g i(1) by (cases "resetfail n") (simp_all add: ogeo_def)
  have k: "chunk_ok n (c\<lparr>cs_state := OC20_CHUNK_OFFLINE, cs_wp := 0xffff\<rparr>)" "chunk_ok n (c\<lparr>cs_state := OC20_CHUNK_FREE, wear_index := wear_index c + 1, cs_wp := 0\<rparr>)"
    using ok by (simp_all add: chunk_ok_def)
  note inv = oinv_chunk [OF n k(1), of i] oinv_chunk [OF n k(2), of i]
  have a: "aget (chunk_info n) i = Some c" using i(1) by (simp add: c_def)
  note free = oc20_chunk_set_free_def Some p a Let_def
  consider (fail) "prob \<noteq> 0 \<and> d mod 100 < uint prob" | (off) "\<not> (prob \<noteq> 0 \<and> d mod 100 < uint prob)" "cs_state c AND OC20_CHUNK_RESETABLE = 0"
    | (refused) "\<not> (prob \<noteq> 0 \<and> d mod 100 < uint prob)" "cs_state c AND OC20_CHUNK_RESETABLE \<noteq> 0"
      "cs_state c = OC20_CHUNK_FREE \<and> mccap (params n) AND OC20_PARAMS_MCCAP_MULTIPLE_RESETS = 0 \<or>
       cs_state c = OC20_CHUNK_OPEN \<and> mccap (params n) AND OC20_PARAMS_MCCAP_EARLY_RESET = 0"
    | (freed) "\<not> (prob \<noteq> 0 \<and> d mod 100 < uint prob)" "cs_state c AND OC20_CHUNK_RESETABLE \<noteq> 0"
      "\<not> (cs_state c = OC20_CHUNK_FREE \<and> mccap (params n) AND OC20_PARAMS_MCCAP_MULTIPLE_RESETS = 0 \<or>
       cs_state c = OC20_CHUNK_OPEN \<and> mccap (params n) AND OC20_PARAMS_MCCAP_EARLY_RESET = 0)" by blast
  then show ?thesis
  proof cases
    case fail
    then have "oc20_chunk_set_free n lba mp d = Some (OC20_INVALID_RESET OR NVME_DNR, [], n\<lparr>chunk_info := (chunk_info n)[i := c\<lparr>cs_state := OC20_CHUNK_OFFLINE, cs_wp := 0xffff\<rparr>]\<rparr>)"
      by (simp add: free)
    then show ?thesis using inv(1) i(2,3) by fastforce
  next
    case off
    then have "oc20_chunk_set_free n lba mp d = Some (NVME_DNR OR OC20_OFFLINE_CHUNK, [], n)" by (simp only: free option.case Option.bind.simps if_False if_True simp_thms)
    then show ?thesis using n by fastforce
  next
    case refused
    then have "oc20_chunk_set_free n lba mp d = Some (OC20_INVALID_RESET OR NVME_DNR, [], n)" by (simp only: free option.case Option.bind.simps if_False if_True)
    then show ?thesis using n by fastforce
  next
    case freed
    let ?c = "c\<lparr>cs_state := OC20_CHUNK_FREE, wear_index := wear_index c + 1, cs_wp := 0\<rparr>"
    from freed have "oc20_chunk_set_free n lba mp d = Some (NVME_SUCCESS, if mp \<noteq> 0 then [Chunk_meta mp ?c] else [], n\<lparr>chunk_info := (chunk_info n)[i := ?c]\<rparr>)"
      by (simp only: free option.case Option.bind.simps if_False if_True)
    then show ?thesis using inv(2) i(2,3) by fastforce
  qed
qed

lemma erase_loop_ok:
  assumes "oinv n"
  shows "\<exists>e out n'. erase_loop rnd i mp ls n = Some (e, out, n') \<and> oinv n' \<and> same_geo n n' \<and> (\<forall>a. Vec_rw True a \<notin> set out) \<and>
    (\<forall>x \<in> oc_written n. (\<forall>y \<in> set ls. oc20_lba_to_chunk_index n y \<noteq> oc20_lba_to_chunk_index n x) \<longrightarrow> x \<in> oc_written n')"
  using assms
proof (induction ls arbitrary: n i mp)
  case (Cons lba ls)
  show ?case
  proof (cases "oc20_chunk_get_state n lba")
    case None
    then show ?thesis using Cons.prems by auto
  next
    case (Some j)
    obtain e out n1 where f: "oc20_chunk_set_free n lba mp (rnd i) = Some (e, out, n1)" "oinv n1" "same_geo n n1" "\<forall>a. Vec_rw True a \<notin> set out"
      "n1 = n \<or> oc20_lba_valid n lba \<and> (\<exists>c. n1 = n\<lparr>chunk_info := (chunk_info n)[unat (oc20_lba_to_chunk_index n lba) := c]\<rparr>)" using set_free_ok [OF Cons.prems] by blast
    have w: "x \<in> oc_written n1" if "x \<in> oc_written n" "oc20_lba_to_chunk_index n lba \<noteq> oc20_lba_to_chunk_index n x" for x
      using f(5) that(1) written_other [of "unat (oc20_lba_to_chunk_index n lba)" n x] that(2) [unfolded word_unat_eq_iff] by auto
    show ?thesis
    proof (cases "e = 0")
      case True
      obtain e' out' n2 where "erase_loop rnd (Suc i) (if mp \<noteq> 0 then mp + 32 else 0) ls n1 = Some (e', out', n2)" "oinv n2" "same_geo n1 n2" "\<forall>a. Vec_rw True a \<notin> set out'"
        "\<forall>x \<in> oc_written n1. (\<forall>y \<in> set ls. oc20_lba_to_chunk_index n1 y \<noteq> oc20_lba_to_chunk_index n1 x) \<longrightarrow> x \<in> oc_written n2" using Cons.IH [OF f(2)] by metis
      then show ?thesis using Some f True w same_geo_trans [OF f(3)] same_geo_index [OF f(3)] by auto
    next
      case False
      then show ?thesis using Some f w by auto
    qed
  qed
qed simp

section \<open>A medium that is programmed once\<close>

text \<open>A sequence of commands with their results.\<close>

fun runs :: "('s \<Rightarrow> 'c \<Rightarrow> ('r \<times> 's) option) \<Rightarrow> 's \<Rightarrow> 'c list \<Rightarrow> ('r list \<times> 's) option" where
  "runs step s [] = Some ([], s)"
| "runs step s (c # cs) = do {
    (r, s1) \<leftarrow> step s c;
    (rs, s2) \<leftarrow> runs step s1 cs;
    Some (r # rs, s2)
  }"

text \<open>The contract of flash: a command that fits returns; it programs only sectors without data, which then hold data; and a sector keeps its data until
  a command names it for a reset.\<close>

locale flash_medium =
  fixes step :: "'s \<Rightarrow> 'c \<Rightarrow> ('r \<times> 's) option"
    and inv :: "'s \<Rightarrow> bool"
    and fits :: "'s \<Rightarrow> 'c \<Rightarrow> bool"
    and data :: "'s \<Rightarrow> 'a set"
    and progs :: "'c \<Rightarrow> 'r \<Rightarrow> 'a list"
    and resets :: "'s \<Rightarrow> 'c \<Rightarrow> 'a set"
  assumes returns: "inv s \<Longrightarrow> fits s c \<Longrightarrow> \<exists>r s'. step s c = Some (r, s')"
    and keeps_inv: "inv s \<Longrightarrow> fits s c \<Longrightarrow> step s c = Some (r, s') \<Longrightarrow> inv s'"
    and stable: "inv s \<Longrightarrow> fits s c \<Longrightarrow> step s c = Some (r, s') \<Longrightarrow> fits s' = fits s \<and> resets s' = resets s"
    and clean: "inv s \<Longrightarrow> fits s c \<Longrightarrow> step s c = Some (r, s') \<Longrightarrow> set (progs c r) \<inter> data s = {} \<and> distinct (progs c r)"
    and holds: "inv s \<Longrightarrow> fits s c \<Longrightarrow> step s c = Some (r, s') \<Longrightarrow> set (progs c r) \<subseteq> data s'"
    and persists: "inv s \<Longrightarrow> fits s c \<Longrightarrow> step s c = Some (r, s') \<Longrightarrow> data s - resets s c \<subseteq> data s'"
begin

lemma run_returns:
  assumes "inv s" "\<forall>c \<in> set cs. fits s c"
  shows "\<exists>rs s'. runs step s cs = Some (rs, s') \<and> inv s' \<and> fits s' = fits s \<and> length rs = length cs"
  using assms
proof (induction cs arbitrary: s)
  case (Cons c cs)
  have f: "fits s c" using Cons.prems(2) by simp
  obtain r s1 where s1: "step s c = Some (r, s1)" using returns [OF Cons.prems(1) f] by blast
  note k = keeps_inv [OF Cons.prems(1) f s1] stable [OF Cons.prems(1) f s1]
  obtain rs s2 where "runs step s1 cs = Some (rs, s2)" "inv s2" "fits s2 = fits s1" "length rs = length cs" using Cons.IH [OF k(1)] Cons.prems(2) k(2) by auto
  then show ?case using s1 k(2) by simp
qed simp

lemma run_programs_later:
  assumes "inv s" "\<forall>c \<in> set cs. fits s c" "runs step s cs = Some (rs, s')" "x \<in> data s" "j < length cs" "x \<in> set (progs (cs ! j) (rs ! j))"
  shows "\<exists>k < j. x \<in> resets s (cs ! k)"
  using assms
proof (induction cs arbitrary: s rs j)
  case (Cons c cs)
  have f: "fits s c" using Cons.prems(2) by simp
  obtain r s1 rs1 where s1: "step s c = Some (r, s1)" "runs step s1 cs = Some (rs1, s')" "rs = r # rs1" using Cons.prems(3) by (auto split: bind_splits)
  note k = keeps_inv [OF Cons.prems(1) f s1(1)] stable [OF Cons.prems(1) f s1(1)] clean [OF Cons.prems(1) f s1(1)] persists [OF Cons.prems(1) f s1(1)]
  show ?case
  proof (cases j)
    case 0
    then show ?thesis using Cons.prems(4,6) k(3) s1(3) by auto
  next
    case (Suc i)
    show ?thesis
    proof (cases "x \<in> resets s c")
      case True
      then show ?thesis using Suc by (intro exI [of _ 0]) simp
    next
      case False
      then have "x \<in> data s1" using k(4) Cons.prems(4) by blast
      then obtain m where "m < i" "x \<in> resets s1 (cs ! m)" using Cons.IH [OF k(1) _ s1(2), of i] Cons.prems(2,5,6) k(2) Suc s1(3) by auto
      then show ?thesis using Suc k(2) by (intro exI [of _ "Suc m"]) simp
    qed
  qed
qed simp

lemma programmed_once:
  assumes "inv s" "\<forall>c \<in> set cs. fits s c" "runs step s cs = Some (rs, s')" "i < j" "j < length cs"
    "x \<in> set (progs (cs ! i) (rs ! i))" "x \<in> set (progs (cs ! j) (rs ! j))"
  shows "\<exists>k. i < k \<and> k < j \<and> x \<in> resets s (cs ! k)"
  using assms
proof (induction cs arbitrary: s rs i j)
  case (Cons c cs)
  have f: "fits s c" using Cons.prems(2) by simp
  obtain r s1 rs1 where s1: "step s c = Some (r, s1)" "runs step s1 cs = Some (rs1, s')" "rs = r # rs1" using Cons.prems(3) by (auto split: bind_splits)
  note k = keeps_inv [OF Cons.prems(1) f s1(1)] stable [OF Cons.prems(1) f s1(1)] holds [OF Cons.prems(1) f s1(1)]
  have fs: "\<forall>c \<in> set cs. fits s1 c" using Cons.prems(2) k(2) by simp
  obtain j' where j: "j = Suc j'" using Cons.prems(4) by (cases j) auto
  have p: "j' < length cs" "x \<in> set (progs (cs ! j') (rs1 ! j'))" using Cons.prems(5,7) j s1(3) by simp_all
  show ?case
  proof (cases i)
    case 0
    then have "x \<in> data s1" using Cons.prems(6) k(3) s1(3) by auto
    then obtain m where "m < j'" "x \<in> resets s1 (cs ! m)" using run_programs_later [OF k(1) fs s1(2) _ p] by blast
    then show ?thesis using 0 j k(2) by (intro exI [of _ "Suc m"]) simp
  next
    case (Suc i')
    then obtain m where "i' < m" "m < j'" "x \<in> resets s1 (cs ! m)" using Cons.IH [OF k(1) fs s1(2), of i' j'] Cons.prems(4,6) p j s1(3) by auto
    then show ?thesis using Suc j k(2) by (intro exI [of _ "Suc m"]) simp
  qed
qed simp

end

section \<open>The device as a medium\<close>

text \<open>A command with its status and what it shows outside.  The addresses of reads and writes are valid, and the addresses of a write lie in one chunk.\<close>

definition oc_step :: "Oc20Namespace \<Rightarrow> Oc20Req \<Rightarrow> ((u16 \<times> oc20_out list) \<times> Oc20Namespace) option" where
  "oc_step n req = map_option (\<lambda>(st, out, n'). ((st, out), n')) (oc20_io_cmd n req)"

definition ofits :: "Oc20Namespace \<Rightarrow> Oc20Req \<Rightarrow> bool" where
  "ofits n req \<longleftrightarrow>
    (oc_opcode req = OC20_CMD_VECT_READ \<or> oc_opcode req = OC20_CMD_VECT_WRITE \<longrightarrow> (\<forall>x \<in> set (req_lbas req). oc20_lba_valid n x)) \<and>
    (oc_opcode req = OC20_CMD_VECT_WRITE \<longrightarrow> (\<forall>x \<in> set (req_lbas req). oc20_lba_to_chunk_index n x = oc20_lba_to_chunk_index n (hd (req_lbas req))))"

definition is_program :: "oc20_out \<Rightarrow> bool" where
  "is_program e = (case e of Vec_rw w a \<Rightarrow> w | Chunk_meta a c \<Rightarrow> False)"

definition oc_programmed :: "Oc20Req \<Rightarrow> u16 \<times> oc20_out list \<Rightarrow> u64 list" where
  "oc_programmed req r = (if list_ex is_program (snd r) then req_lbas req else [])"

definition oresets :: "Oc20Namespace \<Rightarrow> Oc20Req \<Rightarrow> u64 set" where
  "oresets n req = {x. oc_opcode req = OC20_CMD_VECT_ERASE \<and> (\<exists>y \<in> set (req_lbas req). oc20_lba_to_chunk_index n y = oc20_lba_to_chunk_index n x)}"

lemma no_program: "\<forall>a. Vec_rw True a \<notin> set out \<Longrightarrow> \<not> list_ex is_program out"
  by (auto simp: list_ex_iff is_program_def split: oc20_out.splits bool.splits)

text \<open>What an accepted write does.\<close>

lemma write_step:
  assumes n: "oinv n" and f: "ofits n req" and op: "oc_opcode req = OC20_CMD_VECT_WRITE"
  shows "(\<exists>st. oc_step n req = Some ((st, []), n) \<and> st \<noteq> NVME_SUCCESS) \<or>
    (\<exists>n'. oc_step n req = Some ((NVME_SUCCESS, [Vec_rw True (map (push_bit (blk_ads n)) (req_lbas req))]), n') \<and> oinv n' \<and> same_geo n n' \<and>
      oc_written n' = oc_written n \<union> set (req_lbas req) \<and> set (req_lbas req) \<inter> oc_written n = {} \<and> distinct (req_lbas req))"
proof -
  let ?ls = "req_lbas req"
  have v: "\<forall>x \<in> set ?ls. oc20_lba_valid n x" "\<forall>x \<in> set ?ls. oc20_lba_to_chunk_index n x = oc20_lba_to_chunk_index n (hd ?ls)"
    using f op by (simp_all add: ofits_def)
  have io: "oc_step n req = map_option (\<lambda>(st, out, t, pre, n'). ((st, out), n')) (oc20_rw n req)"
    using op by (simp add: oc_step_def oc20_io_cmd_def oc20_defs cmd_defs option.map_comp comp_def split_def)
  have h: "hd ?ls \<in> set ?ls" using req_lbas_nonempty by simp
  show ?thesis using oc20_rw_cases [OF n v(1) disjI2 [OF op]]
  proof (elim disjE exE conjE)
    fix e out t pre assume "oc20_rw n req = Some (e, out, t, pre, n)" "e \<noteq> NVME_SUCCESS" "out = []"
    then show ?thesis using io by simp
  next
    fix t pre ts e n'
    assume rw: "oc20_rw n req = Some (NVME_SUCCESS, [Vec_rw (oc_opcode req = OC20_CMD_VECT_WRITE) (map (push_bit (blk_ads n)) ?ls)], t, pre, n')"
      and ts: "length ts = length (chip_next_avail_time n)"
      and "if oc_opcode req = OC20_CMD_VECT_WRITE
       then oc20_rw_check_write_req n ?ls = Some 0 \<and> req_nlb req \<le> OC20_CMD_MAX_LBAS \<and>
         oc20_advance_wp (n\<lparr>chip_next_avail_time := ts\<rparr>) (hd ?ls) (ucast (req_nlb req)) = Some (e, n')
       else n' = n\<lparr>chip_next_avail_time := ts\<rparr>"
    then have c: "oc20_rw_check_write_req n ?ls = Some 0" "req_nlb req \<le> OC20_CMD_MAX_LBAS"
      and a: "oc20_advance_wp (n\<lparr>chip_next_avail_time := ts\<rparr>) (hd ?ls) (ucast (req_nlb req)) = Some (e, n')" using op by simp_all
    have l: "length ?ls \<le> 64" using c(2) by (simp add: length_req_lbas word_le_nat_alt OC20_CMD_MAX_LBAS_def)
    let ?m = "n\<lparr>chip_next_avail_time := ts\<rparr>"
    have sg: "same_geo n ?m" by simp
    note m = oinv_chips [OF n ts] same_geo_valid [OF sg] same_geo_index [OF sg]
    define i where "i = unat (oc20_lba_to_chunk_index n (hd ?ls))"
    note p = write_req_passes [OF n v c(1) l, folded i_def]
    have g: "ogeo n" using n by (simp add: oinv_def)
    have i: "i < length (chunk_info n)" using chunk_index(2) [OF g] v(1) h by (simp add: i_def)
    have nlb: "unat (ucast (req_nlb req) :: u16) = length ?ls" using l by (simp add: length_req_lbas unsigned_ucast_eq take_bit_nat_eq_self)
    have pos: "0 < length ?ls" using req_lbas_nonempty by simp
    obtain c' where c': "n' = ?m\<lparr>chunk_info := (chunk_info n)[i := c']\<rparr>" "unat (cs_wp c') = unat (cs_wp (chunk_info n ! i)) + length ?ls" "chunk_ok n c'"
      using advance_wp_one_chunk [OF m(1) _ _ _ _ a] m(2,3) v(1) h p nlb pos by (auto simp: i_def)
    have inv: "oinv n'" using oinv_chunk [OF m(1), of c' i] c' by simp
    have w: "oc_written (?m\<lparr>chunk_info := (chunk_info ?m)[i := c']\<rparr>) = oc_written ?m \<union> set ?ls" "set ?ls \<inter> oc_written ?m = {}" "distinct ?ls"
      using written_advance [OF ogeo_chips [OF g ts], of ?ls "oc20_lba_to_chunk_index n (hd ?ls)" i c'] v m(2,3) i p c'(2) by (auto simp: i_def)
    have "same_geo n n'" using c'(1) by (simp add: same_geo_def)
    then show ?thesis using io rw op inv w c'(1) by simp
  qed
qed

lemma same_geo_fits: "same_geo n n' \<Longrightarrow> ofits n' = ofits n \<and> oresets n' = oresets n"
  by (auto simp: fun_eq_iff ofits_def oresets_def same_geo_valid same_geo_index)

text \<open>Every command that fits.\<close>

lemma oc_step_ok:
  assumes n: "oinv n" and f: "ofits n req"
  shows "\<exists>r n'. oc_step n req = Some (r, n') \<and> oinv n' \<and> same_geo n n' \<and> set (oc_programmed req r) \<inter> oc_written n = {} \<and> distinct (oc_programmed req r) \<and>
    set (oc_programmed req r) \<subseteq> oc_written n' \<and> oc_written n - oresets n req \<subseteq> oc_written n'"
proof -
  consider (wr) "oc_opcode req = OC20_CMD_VECT_WRITE" | (rd) "oc_opcode req = OC20_CMD_VECT_READ" | (er) "oc_opcode req = OC20_CMD_VECT_ERASE"
    | (other) "oc_opcode req \<noteq> OC20_CMD_VECT_WRITE" "oc_opcode req \<noteq> OC20_CMD_VECT_READ" "oc_opcode req \<noteq> OC20_CMD_VECT_ERASE" by blast
  then show ?thesis
  proof cases
    case wr
    show ?thesis using write_step [OF n f wr]
    proof (elim disjE exE conjE)
      fix st assume "oc_step n req = Some ((st, []), n)"
      then show ?thesis using n by (simp add: oc_programmed_def)
    next
      fix n' assume "oc_step n req = Some ((NVME_SUCCESS, [Vec_rw True (map (push_bit (blk_ads n)) (req_lbas req))]), n')" "oinv n'" "same_geo n n'"
        "oc_written n' = oc_written n \<union> set (req_lbas req)" "set (req_lbas req) \<inter> oc_written n = {}" "distinct (req_lbas req)"
      then show ?thesis by (simp add: oc_programmed_def is_program_def) blast
    qed
  next
    case rd
    have v: "\<forall>x \<in> set (req_lbas req). oc20_lba_valid n x" using f rd by (simp add: ofits_def)
    have ne: "OC20_CMD_VECT_READ \<noteq> OC20_CMD_VECT_WRITE" by (simp add: oc20_defs)
    have io: "oc_step n req = map_option (\<lambda>(st, out, t, pre, n'). ((st, out), n')) (oc20_rw n req)"
      using rd by (simp add: oc_step_def oc20_io_cmd_def oc20_defs cmd_defs option.map_comp comp_def split_def)
    show ?thesis using oc20_rw_cases [OF n v disjI1 [OF rd]]
    proof (elim disjE exE conjE)
      fix e out t pre assume "oc20_rw n req = Some (e, out, t, pre, n)" "out = []"
      then show ?thesis using io n by (simp add: oc_programmed_def)
    next
      fix t pre ts e n'
      assume rw: "oc20_rw n req = Some (NVME_SUCCESS, [Vec_rw (oc_opcode req = OC20_CMD_VECT_WRITE) (map (push_bit (blk_ads n)) (req_lbas req))], t, pre, n')"
        and ts: "length ts = length (chip_next_avail_time n)"
        and "if oc_opcode req = OC20_CMD_VECT_WRITE
         then oc20_rw_check_write_req n (req_lbas req) = Some 0 \<and> req_nlb req \<le> OC20_CMD_MAX_LBAS \<and>
           oc20_advance_wp (n\<lparr>chip_next_avail_time := ts\<rparr>) (hd (req_lbas req)) (ucast (req_nlb req)) = Some (e, n')
         else n' = n\<lparr>chip_next_avail_time := ts\<rparr>"
      then have "n' = n\<lparr>chip_next_avail_time := ts\<rparr>" using rd ne by simp
      then show ?thesis using io rw rd ne oinv_chips [OF n ts] by (simp add: oc_programmed_def is_program_def)
    qed
  next
    case er
    have io: "oc_step n req = map_option (\<lambda>(st, out, n'). ((st, out), n')) (erase_loop (draws req) 0 (mptr req) (req_lbas req) n)"
      using er by (simp add: oc_step_def oc20_io_cmd_def oc20_erase_def oc20_defs cmd_defs)
    obtain e out n' where e: "erase_loop (draws req) 0 (mptr req) (req_lbas req) n = Some (e, out, n')" "oinv n'" "same_geo n n'" "\<forall>a. Vec_rw True a \<notin> set out"
      "\<forall>x \<in> oc_written n. (\<forall>y \<in> set (req_lbas req). oc20_lba_to_chunk_index n y \<noteq> oc20_lba_to_chunk_index n x) \<longrightarrow> x \<in> oc_written n'" using erase_loop_ok [OF n] by metis
    have "oc_written n - oresets n req \<subseteq> oc_written n'" using e(5) er by (auto simp: oresets_def)
    then show ?thesis using io e no_program [OF e(4)] by (simp add: oc_programmed_def)
  next
    case other
    then have "\<exists>st. oc_step n req = Some ((st, []), n)"
      by (cases "oc_opcode req = NVME_CMD_READ \<or> oc_opcode req = NVME_CMD_WRITE") (simp_all add: oc_step_def oc20_io_cmd_def)
    then obtain st where "oc_step n req = Some ((st, []), n)" by blast
    then show ?thesis using n by (simp add: oc_programmed_def)
  qed
qed

interpretation ocm: flash_medium oc_step oinv ofits oc_written oc_programmed oresets
proof
  fix n req assume a: "oinv n" "ofits n req"
  note ok = oc_step_ok [OF a]
  show "\<exists>r n'. oc_step n req = Some (r, n')" using ok by blast
  fix r n' assume s: "oc_step n req = Some (r, n')"
  show "oinv n'" using ok s by auto
  show "ofits n' = ofits n \<and> oresets n' = oresets n" using ok s same_geo_fits by auto
  show "set (oc_programmed req r) \<inter> oc_written n = {} \<and> distinct (oc_programmed req r)" using ok s by auto
  show "set (oc_programmed req r) \<subseteq> oc_written n'" using ok s by auto
  show "oc_written n - oresets n req \<subseteq> oc_written n'" using ok s by auto
qed

lemma fresh_ok: "fresh_chunk n c \<Longrightarrow> chunk_ok n c"
  by (simp add: fresh_chunk_def chunk_ok_def)

lemma init_oinv:
  assumes "oc20_init_namespace oc ns_blks early rf wfail ft = Some (ok, n)" "oc_config oc ns_blks ft"
  shows "oinv n"
  using init_namespace_ok [OF assms] fresh_ok by (auto simp: oinv_def list_all_iff)

section \<open>Latencies\<close>

text \<open>The chips are free at time \<open>T\<close>, and no operation takes any time.\<close>

definition idle :: "int \<Rightarrow> Oc20Namespace \<Rightarrow> bool" where
  "idle T n \<longleftrightarrow> timing n = nand_flash_timing \<and> (\<forall>u \<in> set (chip_next_avail_time n). u \<le> T)"

lemma ofold_partial:
  assumes "ofold f xs s = Some t" "I s" "\<And>x s t. I s \<Longrightarrow> f x s = Some t \<Longrightarrow> I t"
  shows "I t"
  using assms(1,2)
proof (induction xs arbitrary: s)
  case (Cons x xs)
  then show ?case using assms(3) by (auto split: bind_splits)
qed simp

lemma bucket_step_idle:
  assumes b: "bucket_step op now wr b (need, n) = Some (need', n')" and i: "idle now n"
  shows "need' = max need 0 \<and> idle now n'"
proof -
  let ?id = "bkt_ch b * uint (num_lun (geo_id n)) + bkt_lun b"
  obtain t chips where a: "advance_chip_timestamp (timing n) (flash_type n) (chip_next_avail_time n) ?id now op 0 = Some (t, chips)"
    and r: "need' = max need (t - now)" "n' = n\<lparr>chip_next_avail_time := chips\<rparr>"
    using b by (auto simp: bucket_step_def advance_channel_timestamp_def Let_def split: bind_splits if_splits)
  obtain lat where l: "chip_latency (timing n) (flash_type n) op 0 = Some lat" "nat ?id < length (chip_next_avail_time n)"
    "t = max now (chip_next_avail_time n ! nat ?id) + lat" "chips = (chip_next_avail_time n)[nat ?id := t]" using advance_chip_ok [OF a] by blast
  have "lat = 0" using l(1) i zero_latency by (simp add: idle_def)
  moreover have "chip_next_avail_time n ! nat ?id \<le> now" using i l(2) by (simp add: idle_def)
  ultimately have t: "t = now" using l(3) by simp
  have "set chips \<subseteq> insert now (set (chip_next_avail_time n))" using l(4) t set_update_subset_insert by simp
  then show ?thesis using r t i by (auto simp: idle_def)
qed

lemma lba_status_idle:
  assumes "oc20_advance_status n op now wr ls = Some (t, n')" "idle now n"
  shows "t = now \<and> idle now n'"
proof -
  obtain bs need where f: "ofold (bucket_step op now wr) bs (0, n) = Some (need, n')" "t = now + need"
    using assms(1) by (auto simp: oc20_advance_status_def split: bind_splits)
  have "fst (need, n') = 0 \<and> idle now (snd (need, n'))"
    using f(1) by (rule ofold_partial) (use assms(2) in \<open>auto dest: bucket_step_idle\<close>)
  then show ?thesis using f(2) by simp
qed

lemma idle_chunks [simp]: "idle T (n\<lparr>chunk_info := cs\<rparr>) = idle T n"
  by (simp add: idle_def)

lemma advance_wp_idle: "oc20_advance_wp n lba nlb = Some (e, n') \<Longrightarrow> idle T n \<Longrightarrow> idle T n'"
  by (auto simp: oc20_advance_wp_def Let_def crash_simps split: option.splits if_splits bind_splits)

lemma set_free_idle: "oc20_chunk_set_free n lba mp d = Some (e, out, n') \<Longrightarrow> idle T n \<Longrightarrow> idle T n'"
  by (auto simp: oc20_chunk_set_free_def Let_def split: option.splits if_splits bind_splits)

lemma erase_loop_idle: "erase_loop rnd i mp ls n = Some (e, out, n') \<Longrightarrow> idle T n \<Longrightarrow> idle T n'"
  by (induction ls arbitrary: n i mp e out) (auto split: option.splits if_splits bind_splits, (blast dest: set_free_idle)+)

lemma oc20_rw_split:
  assumes "oc20_rw n req = Some (st, out, t, pre, n')"
  defines "wr \<equiv> oc_opcode req = NVME_CMD_WRITE \<or> oc_opcode req = OC20_CMD_VECT_WRITE"
  shows "n' = n \<and> st \<noteq> NVME_SUCCESS \<or>
    (\<exists>n1. out = [Vec_rw wr (map (push_bit (blk_ads n)) (req_lbas req))] \<and> oc20_advance_status n (oc_opcode req) (stime req) wr (req_lbas req) = Some (t, n1) \<and>
      (n' = n1 \<or> (\<exists>e. oc20_advance_wp n1 (hd (req_lbas req)) (ucast (req_nlb req)) = Some (e, n'))))"
proof -
  have "NVME_INVALID_FIELD OR NVME_DNR \<noteq> NVME_SUCCESS" "NVME_SUCCESS = 0" by (simp_all add: status_defs)
  then show ?thesis using assms(1) unfolding oc20_rw_def Let_def wr_def by (auto split: if_splits bind_splits)
qed

lemma oc20_rw_idle:
  assumes r: "oc20_rw n req = Some (st, out, t, pre, n')" and i: "idle (stime req) n"
  shows "idle (stime req) n' \<and> (st = NVME_SUCCESS \<longrightarrow> t = stime req)"
  using oc20_rw_split [OF r]
proof (elim disjE exE conjE)
  assume "n' = n" "st \<noteq> NVME_SUCCESS"
  then show ?thesis using i by simp
next
  fix n1 assume a: "oc20_advance_status n (oc_opcode req) (stime req) (oc_opcode req = NVME_CMD_WRITE \<or> oc_opcode req = OC20_CMD_VECT_WRITE) (req_lbas req) = Some (t, n1)" "n' = n1"
  then show ?thesis using lba_status_idle [OF a(1) i] by simp
next
  fix n1 e assume a: "oc20_advance_status n (oc_opcode req) (stime req) (oc_opcode req = NVME_CMD_WRITE \<or> oc_opcode req = OC20_CMD_VECT_WRITE) (req_lbas req) = Some (t, n1)"
    "oc20_advance_wp n1 (hd (req_lbas req)) (ucast (req_nlb req)) = Some (e, n')"
  then show ?thesis using lba_status_idle [OF a(1) i] advance_wp_idle [OF a(2)] by simp
qed

lemma oc_step_idle:
  assumes s: "oc_step n req = Some (r, n')" and i: "idle (stime req) n"
  shows "idle (stime req) n'"
proof -
  have "n' = n \<or> (\<exists>st out t pre. oc20_rw n req = Some (st, out, t, pre, n')) \<or> (\<exists>st out. oc20_erase n req = Some (st, out, n'))"
    using s by (auto simp: oc_step_def oc20_io_cmd_def split: if_splits)
  then show ?thesis using i oc20_rw_idle erase_loop_idle unfolding oc20_erase_def by blast
qed

lemma idle_mono: "idle T n \<Longrightarrow> T \<le> T' \<Longrightarrow> idle T' n"
  by (auto simp: idle_def)

lemma runs_idle:
  assumes "runs oc_step n reqs = Some (rs, n')" "sorted (T # map stime reqs @ [T'])" "idle T n"
  shows "idle T' n'"
  using assms
proof (induction reqs arbitrary: n T rs)
  case Nil
  then show ?case using idle_mono by simp
next
  case (Cons r reqs)
  obtain x n1 rs1 where s: "oc_step n r = Some (x, n1)" "runs oc_step n1 reqs = Some (rs1, n')" using Cons.prems(1) by (auto split: bind_splits)
  have "idle (stime r) n1" using oc_step_idle [OF s(1)] idle_mono [OF Cons.prems(3)] Cons.prems(2) by simp
  then show ?case using Cons.IH [OF s(2), of "stime r"] Cons.prems(2) by simp
qed

section \<open>The frame of a vector command\<close>

lemma lba_status_frame:
  assumes "oc20_advance_status n op now wr ls = Some (t, n1)"
  shows "\<exists>ts. n1 = n\<lparr>chip_next_avail_time := ts\<rparr>"
proof -
  obtain bs need where f: "ofold (bucket_step op now wr) bs (0, n) = Some (need, n1)" using assms by (auto simp: oc20_advance_status_def split: bind_splits)
  have "\<exists>ts. snd (need, n1) = n\<lparr>chip_next_avail_time := ts\<rparr>"
    using f
  proof (rule ofold_partial)
    show "\<exists>ts. snd (0, n) = n\<lparr>chip_next_avail_time := ts\<rparr>" by (intro exI [of _ "chip_next_avail_time n"]) simp
  next
    fix b s s' assume "\<exists>ts. snd s = n\<lparr>chip_next_avail_time := ts\<rparr>" "bucket_step op now wr b s = Some s'"
    then show "\<exists>ts. snd s' = n\<lparr>chip_next_avail_time := ts\<rparr>" by (auto simp: bucket_step_def Let_def split: bind_splits if_splits)
  qed
  then show ?thesis by simp
qed

lemma advance_wp_frame:
  assumes "oc20_advance_wp n lba nlb = Some (e, n')" "i \<noteq> unat (oc20_lba_to_chunk_index n lba)"
  shows "chunk_info n' ! i = chunk_info n ! i"
  using assms by (auto simp: oc20_advance_wp_def oc20_chunk_get_state_def Let_def split: option.splits if_splits bind_splits)

section \<open>Writes that are accepted\<close>

lemma check_runs_forward:
  assumes "\<forall>x \<in> set ls. oc20_lba_to_chunk_index n x = cidx" "\<forall>j < length ls. sect n (ls ! j) = unat sectr + j + 1" "unat sectr + length ls < 2 ^ 32"
  shows "check_runs n lba cidx sectr ws ls = oc20_rw_check_chunk_write n lba (ucast (ws + of_nat (length ls)))"
  using assms
proof (induction ls arbitrary: sectr ws)
  case (Cons x ls)
  have 1: "unat (sectr + 1) = unat sectr + 1" using Cons.prems(3) by (subst unat_add_lem [THEN iffD1]) simp_all
  have "sect n x = unat (sectr + 1)" using Cons.prems(2) 1 by (metis add_0_right length_greater_0_conv list.distinct(1) nth_Cons_0)
  then have x: "ucast (sectr + 1) = OC20_LBA_GET_SECTR (lbaf n) x" by (simp add: word_unat_eq_iff)
  have "\<forall>j < length ls. sect n (ls ! j) = unat (sectr + 1) + j + 1"
  proof (intro allI impI)
    fix j assume "j < length ls"
    then show "sect n (ls ! j) = unat (sectr + 1) + j + 1" using Cons.prems(2) [rule_format, of "Suc j"] 1 by simp
  qed
  then have "check_runs n lba cidx (sectr + 1) (ws + 1) ls = oc20_rw_check_chunk_write n lba (ucast (ws + 1 + of_nat (length ls)))"
    using Cons.IH [of "sectr + 1" "ws + 1"] Cons.prems(1,3) 1 by simp
  then show ?case using Cons.prems(1) x by (simp add: add.assoc)
qed simp

lemma check_chunk_write_accepts:
  assumes n: "oinv n" and v: "oc20_lba_valid n lba" and w: "unat ws \<le> 2 ^ 16" "4 \<le> unat ws" "4 dvd unat ws"
  defines "c \<equiv> chunk_info n ! unat (oc20_lba_to_chunk_index n lba)"
  assumes s: "cs_state c = OC20_CHUNK_FREE \<or> cs_state c = OC20_CHUNK_OPEN" "unat (cs_wp c) = sect n lba" "sect n lba + unat ws \<le> unat (clba (geo_id n))"
  shows "oc20_rw_check_chunk_write n lba ws = Some NVME_SUCCESS"
proof -
  have g: "ogeo n" "ws_min (params n) = 4" using n by (simp_all add: oinv_def)
  have st: "oc20_chunk_get_state n lba = Some (unat (oc20_lba_to_chunk_index n lba))" using v by (simp add: oc20_chunk_get_state_def)
  have i: "unat (oc20_lba_to_chunk_index n lba) < length (chunk_info n)" using chunk_index(2) [OF g(1) v] .
  have ok: "chunk_ok n c" using n i by (simp add: oinv_def c_def)
  define z where "z = (ucast (lba AND sec_mask (lbaf n)) :: u32)"
  have "OC20_LBA_GET_SECTR (lbaf n) lba = lba AND sec_mask (lbaf n)" using g(1) by (simp add: OC20_LBA_GET_SECTR_def ogeo_def)
  then have z: "unat z = sect n lba" using sect_small [OF g(1) v] by (simp add: z_def unsigned_ucast_eq take_bit_nat_eq_self)
  have e: "unat (z + ws) = sect n lba + unat ws" using sect_small [OF g(1) v] w z by (subst unat_add_lem [THEN iffD1]) simp_all
  have m: "ws mod 4 = 0" "\<not> ws < 4" using w(2,3) by (simp_all add: word_unat_eq_iff unat_mod_distrib word_less_nat_alt dvd_eq_mod_eq_0)
  have "ucast z = cs_wp c" using s(2) z by (simp add: word_unat_eq_iff)
  moreover have "\<not> ucast (z + ws) > cnlb c" using e s(3) ok by (simp add: word_less_nat_alt chunk_ok_def)
  moreover have "cs_state c AND OC20_CHUNK_OFFLINE = 0" "cs_state c AND OC20_CHUNK_CLOSED = 0" using s(1) by (auto simp: oc20_defs)
  moreover have "cs_type c \<noteq> OC20_CHUNK_TYPE_RAN" using ok by (simp add: chunk_ok_def oc20_defs)
  moreover have "aget (chunk_info n) (unat (oc20_lba_to_chunk_index n lba)) = Some c" using i by (simp add: c_def)
  ultimately show ?thesis using st g(2) m by (simp add: oc20_rw_check_chunk_write_def Let_def flip: z_def)
qed

lemma write_accepted:
  assumes n: "oinv n" and f: "ofits n req" and op: "oc_opcode req = OC20_CMD_VECT_WRITE" and p: "prp_ok req"
    and l: "length (req_lbas req) \<le> 64" "4 dvd length (req_lbas req)"
  defines "c \<equiv> chunk_info n ! unat (oc20_lba_to_chunk_index n (hd (req_lbas req)))"
  assumes s: "cs_state c = OC20_CHUNK_FREE \<or> cs_state c = OC20_CHUNK_OPEN" "unat (cs_wp c) + length (req_lbas req) \<le> unat (clba (geo_id n))"
    "\<forall>j < length (req_lbas req). sect n (req_lbas req ! j) = unat (cs_wp c) + j"
  shows "\<exists>out n'. oc_step n req = Some ((NVME_SUCCESS, out), n')"
proof -
  have g: "ogeo n" using n by (simp add: oinv_def)
  obtain a ls where ls: "req_lbas req = a # ls" using req_lbas_nonempty by (cases "req_lbas req") blast+
  have v: "\<forall>x \<in> set (req_lbas req). oc20_lba_valid n x" "\<forall>x \<in> set ls. oc20_lba_to_chunk_index n x = oc20_lba_to_chunk_index n a" using f op ls by (auto simp: ofits_def)
  have a: "oc20_lba_valid n a" "sect n a = unat (cs_wp c)" using v(1) s(3) ls by auto
  have z: "unat (ucast (OC20_LBA_GET_SECTR (lbaf n) a) :: u32) = sect n a" using sect_small [OF g a(1)] by (simp add: unsigned_ucast_eq take_bit_nat_eq_self)
  have j: "\<forall>j < length ls. sect n (ls ! j) = unat (ucast (OC20_LBA_GET_SECTR (lbaf n) a) :: u32) + j + 1"
  proof (intro allI impI)
    fix j assume "j < length ls"
    then show "sect n (ls ! j) = unat (ucast (OC20_LBA_GET_SECTR (lbaf n) a) :: u32) + j + 1" using s(3) [rule_format, of "Suc j"] ls z a(2) by simp
  qed
  have b: "unat (ucast (OC20_LBA_GET_SECTR (lbaf n) a) :: u32) + length ls < 2 ^ 32" unfolding z using sect_small [OF g a(1)] l(1) ls by simp
  have "unat (1 + of_nat (length ls) :: u16) = length (req_lbas req)" using l(1) by (simp add: ls unsigned_of_nat take_bit_nat_eq_self unat_word_ariths)
  then have w: "unat (ucast (1 + of_nat (length ls) :: u16) :: u32) = length (req_lbas req)" by simp
  have "4 \<le> length (req_lbas req)" using l(2) ls by (intro dvd_imp_le) simp_all
  then have "oc20_rw_check_chunk_write n a (ucast (1 + of_nat (length ls) :: u16)) = Some NVME_SUCCESS"
    using s a l w by (intro check_chunk_write_accepts [OF n a(1)]) (simp_all add: c_def ls)
  then have c0: "oc20_rw_check_write_req n (req_lbas req) = Some 0"
    using check_runs_forward [OF v(2) j b, of a 1] by (simp add: oc20_rw_check_write_req_def ls NVME_SUCCESS_def)
  obtain t ts where st: "oc20_advance_status n (oc_opcode req) (stime req) True (req_lbas req) = Some (t, n\<lparr>chip_next_avail_time := ts\<rparr>)" "length ts = length (chip_next_avail_time n)"
    using lba_status_ok [OF g v(1) req_lbas_nonempty disjI2 [OF op]] by blast
  obtain e n' where wp: "oc20_advance_wp (n\<lparr>chip_next_avail_time := ts\<rparr>) (hd (req_lbas req)) (ucast (req_nlb req)) = Some (e, n')"
    using advance_wp_returns [OF ogeo_chips [OF g st(2)]] by blast
  have "\<not> req_nlb req > OC20_CMD_MAX_LBAS" using l(1) by (simp add: length_req_lbas word_less_nat_alt OC20_CMD_MAX_LBAS_def)
  then have "\<exists>out. oc20_rw n req = Some (NVME_SUCCESS, out, t, [], n')" using c0 p op st(1) wp by (simp add: oc20_rw_def Let_def)
  then show ?thesis using op by (auto simp: oc_step_def oc20_io_cmd_def oc20_defs cmd_defs)
qed

end
