(* ===== verification/Oc20_Props.thy ===== *)
theory Oc20_Props
  imports Oc20_Run
begin

text \<open>
  The properties of the open-channel device, from the set-up of its namespace on.
\<close>

section \<open>A small device\<close>

text \<open>Two groups of two units with two chunks of eight sectors each.\<close>

definition small_oc :: OcCtrlParams where
  "small_oc = \<lparr>secs_per_page = 1, pgs_per_blk = 8, num_ch = 2, oc_num_lun = 2, num_pln = 1\<rparr>"

definition small_dev :: Oc20Namespace where
  "small_dev = snd (the (oc20_init_namespace small_oc 64 True None False MLC))"

definition vec_cmd :: "u8 \<Rightarrow> u64 list \<Rightarrow> int \<Rightarrow> Oc20Req" where
  "vec_cmd op ls t = \<lparr>oc_opcode = op, lbal = hd ls, nlb0 = of_nat (length ls - 1), mptr = 0, guest_lbas = ls, prp_ok = True, stime = t, draws = (\<lambda>i. 0)\<rparr>"

lemma small_init: "oc20_init_namespace small_oc 64 True None False MLC = Some (True, small_dev)"
proof -
  have "map_option fst (oc20_init_namespace small_oc 64 True None False MLC) = Some True" by code_simp
  then show ?thesis by (auto simp: small_dev_def)
qed

lemma small_config: "oc_config small_oc 64 MLC"
  by code_simp

definition small_run :: "Oc20Req list" where
  "small_run = [vec_cmd OC20_CMD_VECT_WRITE [0, 1, 2, 3] 5, vec_cmd OC20_CMD_VECT_READ [0, 9] 6, vec_cmd OC20_CMD_VECT_ERASE [0] 7,
    vec_cmd OC20_CMD_VECT_WRITE [0, 1, 2, 3] 8]"

definition small_result :: "(u16 \<times> oc20_out list) list \<times> Oc20Namespace" where
  "small_result = the (runs oc_step small_dev small_run)"

lemma small_fits: "\<forall>r \<in> set small_run. ofits small_dev r"
  by code_simp

lemma small_runs: "runs oc_step small_dev small_run = Some (fst small_result, snd small_result)"
proof -
  have "runs oc_step small_dev small_run \<noteq> None" 
    using ocm.run_returns [OF init_oinv [OF small_init small_config] small_fits] by auto
  then show ?thesis by (auto simp: small_result_def)
qed

section \<open>Properties\<close>

text \<open>C13. From the set-up of the namespace on, every sequence of commands returns whose reads and writes name valid addresses, each write within a chunk; resets and
  unknown commands are free.  No table is accessed out of bounds, and in the state that is reached every chunk is free with its pointer at 0, open with the
  pointer inside, closed with the pointer at its end, or offline.\<close>

theorem oc20_commands_return:
  assumes "oc20_init_namespace oc ns_blks early rf wfail ft = Some (ok, n0)" "oc_config oc ns_blks ft" "\<forall>r \<in> set reqs. ofits n0 r"
  shows "\<exists>rs n. runs oc_step n0 reqs = Some (rs, n) \<and> length rs = length reqs \<and>
    (\<forall>c \<in> set (chunk_info n). cs_state c = OC20_CHUNK_FREE \<and> cs_wp c = 0 \<or> cs_state c = OC20_CHUNK_OPEN \<and> cs_wp c < cnlb c \<or>
      cs_state c = OC20_CHUNK_CLOSED \<and> cs_wp c = cnlb c \<or> cs_state c = OC20_CHUNK_OFFLINE)"
proof -
  obtain rs n where r: "runs oc_step n0 reqs = Some (rs, n)" "oinv n" "length rs = length reqs" using ocm.run_returns [OF init_oinv [OF assms(1,2)] assms(3)] by blast
  then show ?thesis by (auto simp: oinv_def chunk_ok_def)
qed

theorem oc20_commands_return_witness:
  "\<exists>rs n. runs oc_step small_dev small_run = Some (rs, n) \<and> length rs = 4"
  using oc20_commands_return [OF small_init small_config small_fits] by (auto simp: small_run_def)

text \<open>C14. In such a sequence no sector is programmed twice without a reset in between: if two commands send data for the same sector to the back end, a reset between
  them names its chunk.\<close>

theorem oc20_programmed_once:
  assumes "oc20_init_namespace oc ns_blks early rf wfail ft = Some (ok, n0)" "oc_config oc ns_blks ft" "\<forall>r \<in> set reqs. ofits n0 r"
    "runs oc_step n0 reqs = Some (rs, n)" "i < j" "j < length reqs" "x \<in> set (oc_programmed (reqs ! i) (rs ! i))" "x \<in> set (oc_programmed (reqs ! j) (rs ! j))"
  shows "\<exists>k. i < k \<and> k < j \<and> oc_opcode (reqs ! k) = OC20_CMD_VECT_ERASE \<and>
    (\<exists>y \<in> set (req_lbas (reqs ! k)). oc20_lba_to_chunk_index n0 y = oc20_lba_to_chunk_index n0 x)"
  using ocm.programmed_once [OF init_oinv [OF assms(1,2)] assms(3-8)] by (auto simp: oresets_def)

theorem oc20_programmed_once_witness:
  "0 \<in> set (oc_programmed (small_run ! 0) (fst small_result ! 0)) \<and> 0 \<in> set (oc_programmed (small_run ! 3) (fst small_result ! 3)) \<and>
   (\<exists>k. 0 < k \<and> k < 3 \<and> oc_opcode (small_run ! k) = OC20_CMD_VECT_ERASE)"
proof -
  have p: "0 \<in> set (oc_programmed (small_run ! 0) (fst small_result ! 0))" "0 \<in> set (oc_programmed (small_run ! 3) (fst small_result ! 3))" by code_simp+
  have l: "3 < length small_run" by code_simp
  show ?thesis using oc20_programmed_once [OF small_init small_config small_fits small_runs _ l p] p by auto
qed

text \<open>C15. A write of one chunk is refused and changes nothing, or it succeeds: then none of its sectors held data, all do afterwards and no other sector changes, and the
  back end gets the byte offsets of exactly these sectors.\<close>

theorem oc20_write_refines:
  assumes "oc20_init_namespace oc ns_blks early rf wfail ft = Some (ok, n0)" "oc_config oc ns_blks ft" "\<forall>r \<in> set reqs. ofits n0 r" "ofits n0 req"
    "runs oc_step n0 reqs = Some (rs, n)" "oc_opcode req = OC20_CMD_VECT_WRITE"
  shows "(\<exists>st. oc_step n req = Some ((st, []), n) \<and> st \<noteq> NVME_SUCCESS) \<or>
    (\<exists>n'. oc_step n req = Some ((NVME_SUCCESS, [Vec_rw True (map (push_bit (blk_ads n)) (req_lbas req))]), n') \<and>
      set (req_lbas req) \<inter> oc_written n = {} \<and> oc_written n' = oc_written n \<union> set (req_lbas req))"
proof -
  have "oinv n" "ofits n = ofits n0" using ocm.run_returns [OF init_oinv [OF assms(1,2)] assms(3)] assms(5) by auto
  then show ?thesis using write_step [of n req] assms(4,6) by auto
qed

definition small_write :: Oc20Req where
  "small_write = vec_cmd OC20_CMD_VECT_WRITE [4, 5, 6, 7] 9"

theorem oc20_write_refines_witness:
  "\<exists>r n'. oc_step (snd small_result) small_write = Some (r, n') \<and> oc_written n' = oc_written (snd small_result) \<union> {4, 5, 6, 7}"
proof -
  have f: "ofits small_dev small_write" "oc_opcode small_write = OC20_CMD_VECT_WRITE" by code_simp+
  have s: "map_option (\<lambda>x. fst (fst x)) (oc_step (snd small_result) small_write) = Some NVME_SUCCESS" by code_simp
  have l: "req_lbas small_write = [4, 5, 6, 7]" by code_simp
  show ?thesis using oc20_write_refines [OF small_init small_config small_fits f(1) small_runs f(2)] s l by auto
qed

text \<open>C17. Addresses: the address built from a group, unit, chunk and sector in range is valid and gives back its parts, every valid address is built from its parts, its chunk
  is in the table, and addresses with the same chunk and sector are equal.\<close>

theorem oc20_address_roundtrip:
  assumes "oc20_init_namespace oc ns_blks early rf wfail ft = Some (ok, n)" "oc_config oc ns_blks ft"
    and b: "unat s < unat (clba (geo_id n))" "unat c < unat (num_chk (geo_id n))" "unat l < unat (num_lun (geo_id n))" "unat g < unat (num_grp (geo_id n))"
    and v: "oc20_lba_valid n x" "oc20_lba_valid n y"
  defines "f \<equiv> lbaf n"
  shows "oc20_lba_valid n (OC20_LBA f g l c s) \<and> OC20_LBA_GET_SECTR f (OC20_LBA f g l c s) = s \<and> OC20_LBA_GET_CHUNK f (OC20_LBA f g l c s) = c \<and>
    OC20_LBA_GET_PUNIT f (OC20_LBA f g l c s) = l \<and> OC20_LBA_GET_GROUP f (OC20_LBA f g l c s) = g \<and>
    OC20_LBA f (OC20_LBA_GET_GROUP f x) (OC20_LBA_GET_PUNIT f x) (OC20_LBA_GET_CHUNK f x) (OC20_LBA_GET_SECTR f x) = x \<and>
    unat (oc20_lba_to_chunk_index n x) < length (chunk_info n) \<and>
    (oc20_lba_to_chunk_index n x = oc20_lba_to_chunk_index n y \<and> OC20_LBA_GET_SECTR f x = OC20_LBA_GET_SECTR f y \<longrightarrow> x = y)"
proof -
  have n: "ogeo n" using init_oinv [OF assms(1,2)] by (simp add: oinv_def)
  have w: "unat (clba (geo_id n)) \<le> 2 ^ sl n" "unat (num_chk (geo_id n)) \<le> 2 ^ cl n" "unat (num_lun (geo_id n)) \<le> 2 ^ ll n" using n by (simp_all add: ogeo_def)
  have p: "OC20_LBA_GET_SECTR f (OC20_LBA f g l c s) = s \<and> OC20_LBA_GET_CHUNK f (OC20_LBA f g l c s) = c \<and> OC20_LBA_GET_PUNIT f (OC20_LBA f g l c s) = l \<and>
      OC20_LBA_GET_GROUP f (OC20_LBA f g l c s) = g \<and> oc20_lba_valid n (OC20_LBA f g l c s)"
    if "unat s < unat (clba (geo_id n))" "unat c < unat (num_chk (geo_id n))" "unat l < unat (num_lun (geo_id n))" "unat g < unat (num_grp (geo_id n))" for s c l g
    using OC20_LBA_fields [OF n _ _ _ that(4), of s c l] that w by (simp add: valid_iff f_def)
  let ?x = "OC20_LBA f (OC20_LBA_GET_GROUP f x) (OC20_LBA_GET_PUNIT f x) (OC20_LBA_GET_CHUNK f x) (OC20_LBA_GET_SECTR f x)"
  have x: "oc20_lba_valid n ?x" "oc20_lba_to_chunk_index n ?x = oc20_lba_to_chunk_index n x" "sect n ?x = sect n x"
    using p [of "OC20_LBA_GET_SECTR f x" "OC20_LBA_GET_CHUNK f x" "OC20_LBA_GET_PUNIT f x" "OC20_LBA_GET_GROUP f x"] v(1)
    by (simp_all add: valid_iff f_def oc20_lba_to_chunk_index_def)
  have "?x = x" using address_inj [OF n x(1) v(1) x(2,3)] .
  then show ?thesis using p [OF b] chunk_index(2) [OF n v(1)] address_inj [OF n v] by (auto simp: f_def)
qed

theorem oc20_address_roundtrip_witness:
  "OC20_LBA (lbaf small_dev) 1 0 1 5 = 45 \<and> OC20_LBA_GET_GROUP (lbaf small_dev) (OC20_LBA (lbaf small_dev) 1 0 1 5) = 1 \<and>
   OC20_LBA_GET_SECTR (lbaf small_dev) (OC20_LBA (lbaf small_dev) 1 0 1 5) = 5"
proof -
  have b: "unat (5 :: u64) < unat (clba (geo_id small_dev))" "unat (1 :: u64) < unat (num_chk (geo_id small_dev))" "unat (0 :: u64) < unat (num_lun (geo_id small_dev))"
    "unat (1 :: u64) < unat (num_grp (geo_id small_dev))" "oc20_lba_valid small_dev 3" by code_simp+
  have "OC20_LBA (lbaf small_dev) 1 0 1 5 = 45" by code_simp
  then show ?thesis using oc20_address_roundtrip [OF small_init small_config b(1-4) b(5,5)] by simp
qed

text \<open>C39. A write over several chunks moves the write pointer of the chunk of its first address only: when it succeeds, all its sectors have been sent to the back end,
  and every other chunk keeps its state and its pointer.\<close>

theorem oc20_second_chunk_forgotten:
  assumes r: "oc20_rw n req = Some (NVME_SUCCESS, out, t, pre, n')" and op: "oc_opcode req = OC20_CMD_VECT_WRITE"
    and i: "i \<noteq> unat (oc20_lba_to_chunk_index n (hd (req_lbas req)))"
  shows "out = [Vec_rw True (map (push_bit (blk_ads n)) (req_lbas req))] \<and> chunk_info n' ! i = chunk_info n ! i"
proof -
  obtain n1 where n1: "out = [Vec_rw True (map (push_bit (blk_ads n)) (req_lbas req))]" "oc20_advance_status n (oc_opcode req) (stime req) True (req_lbas req) = Some (t, n1)"
    "n' = n1 \<or> (\<exists>e. oc20_advance_wp n1 (hd (req_lbas req)) (ucast (req_nlb req)) = Some (e, n'))"
    using oc20_rw_split [OF r] op by auto
  obtain ts where ts: "n1 = n\<lparr>chip_next_avail_time := ts\<rparr>" using lba_status_frame [OF n1(2)] by blast
  have "same_geo n n1" by (simp add: ts)
  then have "i \<noteq> unat (oc20_lba_to_chunk_index n1 (hd (req_lbas req)))" using i same_geo_index by simp
  then have "chunk_info n' ! i = chunk_info n1 ! i" using n1(3) advance_wp_frame by blast
  then show ?thesis using n1(1) ts by simp
qed

text \<open>On the small device: eight sectors, four of the first chunk and four of the second.  The first chunk is closed, with four sectors that were never written, and the
  second one is free, so that its sectors are programmed a second time.\<close>

definition two_chunks :: Oc20Req where
  "two_chunks = vec_cmd OC20_CMD_VECT_WRITE [0, 1, 2, 3, 8, 9, 10, 11] 5"

definition second_chunk :: Oc20Req where
  "second_chunk = vec_cmd OC20_CMD_VECT_WRITE [8, 9, 10, 11] 6"

theorem oc20_second_chunk_forgotten_witness:
  "\<exists>t1 pre1 n1 r n2. oc20_rw small_dev two_chunks = Some (NVME_SUCCESS, [Vec_rw True (map (push_bit (blk_ads small_dev)) [0, 1, 2, 3, 8, 9, 10, 11])], t1, pre1, n1) \<and>
    cs_state (chunk_info n1 ! 0) = OC20_CHUNK_CLOSED \<and> cs_wp (chunk_info n1 ! 0) = 8 \<and> chunk_info n1 ! 1 = chunk_info small_dev ! 1 \<and>
    oc_step n1 second_chunk = Some (r, n2) \<and> oc_programmed second_chunk r = [8, 9, 10, 11]"
proof -
  have "map_option fst (oc20_rw small_dev two_chunks) = Some NVME_SUCCESS" by code_simp
  then obtain out t1 pre1 n1 where r: "oc20_rw small_dev two_chunks = Some (NVME_SUCCESS, out, t1, pre1, n1)" by auto
  have n1: "n1 = snd (snd (snd (snd (the (oc20_rw small_dev two_chunks)))))" using r by simp
  have h: "oc_opcode two_chunks = OC20_CMD_VECT_WRITE" "1 \<noteq> unat (oc20_lba_to_chunk_index small_dev (hd (req_lbas two_chunks)))"
    "req_lbas two_chunks = [0, 1, 2, 3, 8, 9, 10, 11]" by code_simp+
  have c: "cs_state (chunk_info n1 ! 0) = OC20_CHUNK_CLOSED" "cs_wp (chunk_info n1 ! 0) = 8" unfolding n1 by code_simp+
  have "map_option (\<lambda>x. oc_programmed second_chunk (fst x)) (oc_step n1 second_chunk) = Some [8, 9, 10, 11]" unfolding n1 by code_simp
  then obtain r' n2 where "oc_step n1 second_chunk = Some (r', n2)" "oc_programmed second_chunk r' = [8, 9, 10, 11]" by auto
  then show ?thesis using oc20_second_chunk_forgotten [OF r h(1,2)] r h(3) c by (cases r') auto
qed





text \<open>A read of an address that is not valid is let pass as a read of a sector without data, and then takes its chip from outside the table of chips.\<close>

lemma oc20_invalid_read_overruns: "oc20_io_cmd small_dev (vec_cmd OC20_CMD_VECT_READ [0x1000] 5) = None"
  by code_simp

end
