(* ===== verification/Spec2Isabelle.thy ===== *)
theory Spec2Isabelle
  imports Cluster Victim_Queue Ftl_Request Pblk_Write Pblk_Dftl Zns_Run Oc20_Props
begin

text \<open>
  Verification of mStream, a system that sorts the data of an Android file system into streams
  by their expected lifetime and keeps the streams apart on an open-channel SSD.

  \<^bold>\<open>The program.\<close>  The sources have four parts.  \<open>src/mstream_f2fs\<close> is f2fs with a stream component: every write
  and deletion updates the lifetime of its file and file group, and a thread clusters the groups
  by lifetime, so that each group is written to one of the data logs.  \<open>src/mstream-pblk\<close> is the
  host-side flash translation layer that takes the streams: each stream has a ring buffer from
  which a thread writes to lines of its own.  \<open>src/femu-ocssd\<close> is QEMU with an emulated SSD below; its
  black-box mode has a flash translation layer of its own.  \<open>src/trace_replay\<close> replays traces.
  The file system hands block writes to pblk or to the device, and the device serves them; nothing else
  is shared, so each part is a group of theories over the common \<open>Prelude\<close>.

  \<^bold>\<open>Conventions.\<close>  A C function that changes state is a function from the state to an optional new state.  \<open>None\<close>
  stands for a C function that does not return normally: \<open>BUG_ON\<close>, \<open>abort\<close>, an access outside an
  array, a division by zero, a lock that is taken while it is held, a wait that nothing ends, the
  use of freed memory.  Errors the C code handles are values.  Unsigned integers are words of their
  width, so they wrap around; signed ones are \<open>int\<close> with the conversions written out.  What the
  sources take from elsewhere (allocation outcomes, uninitialised memory, the address format and
  result codes of the kernel's light-NVM layer, the device) is an argument of the definitions.

  \<^bold>\<open>Stream component of f2fs.\<close>
  \<^item> \<open>F2fs_Types\<close>: constants and structures of \<open>f2fs.h\<close>, the two spin locks, the clock (\<open>cur_seq\<close>).
  \<^item> \<open>Rbtree\<close>: the kernel's red-black trees as ordered sequences, behind the interface
    \<open>keyed_store\<close>, which is interpreted for the tree of files, the tree of groups and the tree of cached maps.
  \<^item> \<open>Fgroup_Path\<close>: \<open>stream.c\<close> from dentries to group numbers (\<open>get_full_path\<close>, \<open>get_fgroup\<close>); the path is the
    one of the dentry chain or overflows its buffer as characterised, and a group number splits
    back into type and application.
  \<^item> \<open>Lifetime\<close>: the operations of \<open>stream.c\<close> on files, groups, samples and the history of deleted groups;
    an invariant they all keep, that they return from every well-formed state, the round
    trip of a group through the history, bounds of the moving average.
  \<^item> \<open>Kmeans\<close> and \<open>Cluster\<close>: \<open>kmeans.c\<close> and the calls around it; nearest assignment, consistency and
    termination of the iteration, sorting, equality of the weighted and the plain algorithm for unit
    weights, monotone cluster numbers, and that a run of the thread returns and releases the lock.
  \<^item> this theory: the component as a transition system (\<open>fs_step\<close>), whose reachable states are all well formed.

  \<^bold>\<open>pblk.\<close>
  \<^item> \<open>Pblk_Rl\<close> (\<open>pblk-rl.c\<close>): the rate limiter; its shares add up to the buffer.
  \<^item> \<open>Pblk_Rb\<close> (\<open>pblk-rb.c\<close>): the ring with its four positions \<open>l2p_update\<close>, \<open>sync\<close>, \<open>subm\<close>, \<open>mem\<close>.  Each position is
    a counter cut to the size of the ring (\<open>ring_at\<close>, \<open>ring_ok\<close>), which turns the masked arithmetic
    into arithmetic of natural numbers.
  \<^item> \<open>Pblk_Write\<close> (\<open>pblk-write.c\<close>, \<open>pblk-map.c\<close>): the writer thread and the completion.  The ring with its users
    is a transition system (\<open>wstep\<close>: grants, writes, flushes, submissions, completions in any order);
    in every reachable state the operations return, the device has been sent the
    written data in the order of the grants, and \<open>sync\<close> stands at the oldest request.
  \<^item> \<open>Pblk_Dftl\<close> (\<open>pblk-dftl.c\<close>): the cached mapping table; it refines a list with least-recently-used replacement
    and its budget is exact in every reachable state (\<open>creach\<close>).

  \<^bold>\<open>Emulated SSD.\<close>
  \<^item> \<open>Pqueue\<close> (\<open>lib/pqueue.c\<close>): the binary heap, over the callbacks of the interfaces \<open>pq_callbacks\<close> and \<open>pq_priorities\<close>,
    interpreted on the callbacks of the victim lines in \<open>Ftl\<close>; \<open>Victim_Queue\<close> states what follows for them.
  \<^item> \<open>Ftl\<close> (\<open>bbssd/ftl.c\<close>, \<open>ftl.h\<close>): the page map, write pointer, collection, requests; \<open>Ftl_Inv\<close> and \<open>Ftl_Gc\<close> prove
    the invariant \<open>ftl_inv\<close> operation by operation; \<open>Ftl_Request\<close> counts pages and shows that the
    thread serves every sequence of requests that leaves two lines beyond the threshold unused.
  \<^item> \<open>Zns\<close> (\<open>zns/zns.c\<close>, \<open>zns.h\<close>): the zoned mode, all of its commands, with zones named by their index and the four queues as lists of
    indices.  \<open>Zns_Inv\<close> proves the invariant \<open>zinv\<close> (queues, counters, limits, layout) for state changes and the management
    handlers, which meet the interface \<open>zone_handler\<close> of the bulk loops; \<open>Zns_Io\<close> for reads, writes, reports and shutdown; \<open>Zns_Run\<close> for
    initialisation and runs (\<open>zruns\<close>): commands always return, resources are counted exactly, writes go to the write pointer,
    pointers stay in their zones as long as appends fit, and an append that does not fit overruns its zone.
  \<^item> \<open>Nvme\<close> (\<open>nvme.h\<close>): the status codes and opcodes the modes share.  \<open>Nand\<close> (\<open>nand/nand.c\<close>, \<open>nand.h\<close>, \<open>timing-model/timing.c\<close>): the page types and
    latencies of flash and the clock of a chip, which serves one command at a time.
  \<^item> \<open>Oc20\<close> (\<open>ocssd/oc20.c\<close>, \<open>oc20.h\<close>): the open-channel mode 2.0, the device below pblk: vector reads, writes and resets of chunks with a write
    pointer.  \<open>Oc20_Addr\<close> shows that the set-up gives an address format in which the sizes fit (\<open>ogeo\<close>) and that chunk and sector determine an
    address; \<open>Oc20_Run\<close> the invariant of the chunks (\<open>oinv\<close>) and that the device meets the interface \<open>flash_medium\<close>, with the sectors below the
    write pointers (\<open>oc_written\<close>) as its data; \<open>Oc20_Props\<close> the properties of runs: commands return, no sector is programmed twice without a
    reset, writes at the pointer are accepted, and what goes wrong with writes over several chunks and with the latencies.

  \<^bold>\<open>Bounds and fuel.\<close>  \<open>kmeans_loop\<close> and \<open>kmeans_org_loop\<close> run at most \<open>MAX_ITERATIONS\<close> times, as the source does.  \<open>print_loop\<close>
  of the queue has one unit of fuel per element, and each iteration removes one.  \<open>gc_loop\<close> is a
  partial function; it is proved to end because each collection raises the free room of the device.  \<open>drain\<close>
  ends because each step shortens the list.  \<open>device_serves\<close> is for the geometry of \<open>ssd_init_params\<close>:
  3964928 pages are 242 lines of 16384 pages.  The rate limiter is treated for rings of 16 to 512
  entries, the ring for up to \<open>2 ^ 31\<close>, the cached table for the budget of 65536 the source sets.

  \<^bold>\<open>Hypotheses.\<close>  \<open>out_ok\<close>: the device layer accepts a request; \<open>Alloc_ok\<close>: memory is found at initialisation; \<open>path_fits\<close>: a
  path fits into its buffer; \<open>walk_ready\<close>, \<open>init_ready\<close>: the sampled lifetimes are below
  the bound the searches take for infinity, the weights do not overflow a sum and none has most of it,
  and the array of clusters is large enough; \<open>seg_ok\<close>: a segment has a map entry; \<open>zstart\<close>: the
  name space consists of whole zones, at least one, of blocks of more than a byte; \<open>clean\<close>: the data of a request can be mapped and an append fits; \<open>oc_config\<close>: the
  addresses of an open-channel device have at most 30 bits, since the code computes them in \<open>int\<close>, and every unit has a chip; \<open>ofits\<close>: reads and writes name valid addresses
  and a write stays in a chunk.  Each is met by an example.

  \<^bold>\<open>Not modelled.\<close>  The part of f2fs that is f2fs as it is in the kernel (checkpoint, nodes, segments, directories, inline data,
  recovery, extended attributes): its state is the disk and the page cache of a kernel that is not
  in the sources.  The maps of pblk (\<open>pblk.h\<close>, \<open>pblk-core.c\<close>): they depend on the layout of \<open>struct ppa_addr\<close> and
  \<open>struct pba_addr\<close>, which is in a kernel header that is not in the sources.  Line metadata, recovery
  and the start of pblk: device I/O.  The NVMe front end, the memory behind the emulated device, and
  QEMU itself: device registers and guest memory.  The open-channel mode 1.2, the writing of the chunk table by the
  guest, which overwrites its bytes, and the lock-free rings between the threads.  The trace replay: a test driver.
  Interleavings inside one operation are not modelled: each operation runs under its lock and is one step.
\<close>

section \<open>The stream component of f2fs as a transition system\<close>

text \<open>The events of the file system, each a complete call: writes and truncations
  (\<open>update_file_lifetime\<close>, \<open>update_file_valid\<close>), the change of a file type, the deletion of an inode or of the
  groups of a directory, a run of the cluster thread under the conditions it needs, and the
  progress of the block counters.\<close>

inductive fs_step :: "f2fs_sb_info \<Rightarrow> f2fs_sb_info \<Rightarrow> bool" where
  lifetime: "path_fits inode \<Longrightarrow> update_file_lifetime s inode r p u = Some (i', s') \<Longrightarrow> fs_step s s'"
| valid: "path_fits inode \<Longrightarrow> update_file_valid s inode v = Some (i', s') \<Longrightarrow> fs_step s s'"
| evict: "path_fits inode \<Longrightarrow> evict_streams s inode = Some (i', s') \<Longrightarrow> fs_step s s'"
| file_type: "update_file_type s ino ft = Some s' \<Longrightarrow> fs_step s s'"
| delete_group: "delete_fgroup_entry s ino = Some s' \<Longrightarrow> fs_step s s'"
| cluster: "last_cluster s \<le> cur_seq s \<Longrightarrow> length (fgroup_tree s) > NR_CLUSTER - 1 \<Longrightarrow> walk_ready jk s \<Longrightarrow>
    oom \<noteq> Row_oom \<Longrightarrow> unat (kmeans_count s) < MAX_HISTORY \<Longrightarrow>
    f2fs_update_cluster jk oom s = Some (msgs, s') \<Longrightarrow> fs_step s s'"
| clock: "fs_step s (s\<lparr>type_block0 := b0, type_block1 := b1, type_gc := gc\<rparr>)"

inductive_cases fs_stepE: "fs_step s s'"

inductive reachable :: "f2fs_sb_info \<Rightarrow> bool" where
  mount: "reachable (init_stream b0 b1 gc kh)"
| step: "reachable s \<Longrightarrow> fs_step s s' \<Longrightarrow> reachable s'"


lemma init_stream_settled: "settled (init_stream b0 b1 gc kh)"
  by (simp add: settled_def wf_sbi_def init_stream_def unlocked_def wf_history_def centers_ok_def
      NR_CLUSTER_def NO_DIST_def)

lemma clock_settled: "settled (s\<lparr>type_block0 := b0, type_block1 := b1, type_gc := gc\<rparr>) = settled s"
  by (simp add: settled_def wf_sbi_def unlocked_def)

lemma fs_step_settled:
  assumes "fs_step s s'" "settled s"
  shows "settled s'"
  using assms(1)
proof (rule fs_stepE)
  fix inode r p u and i' :: inode assume "path_fits inode" "update_file_lifetime s inode r p u = Some (i', s')"
  then show ?thesis using update_file_lifetime_ok [of s inode r p u] assms(2) by auto
next
  fix inode v and i' :: inode assume "path_fits inode" "update_file_valid s inode v = Some (i', s')"
  then show ?thesis using update_file_valid_ok [of s inode v] assms(2) by auto
next
  fix inode and i' :: inode assume "path_fits inode" "evict_streams s inode = Some (i', s')"
  then show ?thesis using evict_streams_ok [of s inode] assms(2) by auto
next
  fix ino ft assume "update_file_type s ino ft = Some s'"
  then show ?thesis using update_file_type_ok [of s ino ft] assms(2) by auto
next
  fix ino assume "delete_fgroup_entry s ino = Some s'"
  then show ?thesis using delete_fgroup_entry_ok [of s ino] assms(2) by (auto simp: settled_def)
next
  fix jk oom msgs assume "last_cluster s \<le> cur_seq s" "NR_CLUSTER - Suc 0 < length (fgroup_tree s)"
    "walk_ready jk s" "oom \<noteq> Row_oom" "unat (kmeans_count s) < MAX_HISTORY"
    "f2fs_update_cluster jk oom s = Some (msgs, s')"
  then show ?thesis using update_cluster_run_ok [of s jk oom] assms(2) by auto
qed (use assms(2) in \<open>simp add: clock_settled\<close>)

lemma reachable_settled: "reachable s \<Longrightarrow> settled s"
  by (induction rule: reachable.induct) (auto intro: init_stream_settled fs_step_settled)

lemma pstream_range:
  assumes "wf_sbi s"
  shows "get_pstream s fg \<in> {CURSEG_HOT_DATA..CURSEG_COLD_DATA}"
proof (cases "lookup_fgroup_entry (fgroup_tree s) fg")
  case None
  then show ?thesis by (simp add: get_pstream_def get_cluster_def stream_const_defs Let_def)
next
  case (Some e)
  with assms have "wf_fgroup_entry e"
    by (auto simp: wf_sbi_def lookup_fgroup_entry_def dest: rb_wf_search)
  then have "unat (g_cluster e) < 4" by (simp add: wf_fgroup_entry_def NR_CLUSTER_def word_less_nat_alt)
  then have "uint (g_cluster e) < 4" using uint_nat [of "g_cluster e"] by linarith
  then have "sint (g_cluster e) = uint (g_cluster e)"
    using signed_take_bit_int_eq_self [of 31 "uint (g_cluster e)"] uint_ge_0 [of "g_cluster e"]
    by (simp add: sint_uint)
  with Some \<open>uint (g_cluster e) < 4\<close> uint_ge_0 [of "g_cluster e"] show ?thesis
    by (simp add: get_pstream_def get_cluster_def stream_const_defs Let_def)
qed



end
